(* ===== verification/Prelude.thy ===== *)
theory Prelude
  imports Main "HOL-Library.Word"
begin

text \<open>
  Shared vocabulary of the development: the machine types of the C++ sources, the byte-order
  conversions of \<^verbatim>\<open>aux_/byteswap.hpp\<close>, the collections of simplification rules, and generic
  lemmas on lists and words that several components use.
\<close>

unbundle bit_operations_syntax

section \<open>Machine types\<close>

type_synonym u8 = "8 word"
type_synonym u16 = "16 word"
type_synonym u32 = "32 word"
type_synonym u64 = "64 word"
type_synonym bytes = "u8 list"

text \<open>
  \<open>bit_rules\<close> collects the bit-level readings of the word operations, \<open>wf_rules\<close> the
  preservation lemmas of the components' invariants.
\<close>

named_theorems bit_rules "bit-level readings of word operations"
named_theorems wf_rules "preservation of component invariants"

section \<open>Byte order\<close>

text \<open>
  \<^verbatim>\<open>host_to_network\<close> and \<^verbatim>\<open>network_to_host\<close> call the POSIX functions \<^verbatim>\<open>htonl\<close> and
  \<^verbatim>\<open>ntohl\<close>, which reverse the four bytes of a word on the little-endian hosts the
  application is built for (arm64 and x86-64).
\<close>

definition host_to_network :: "u32 \<Rightarrow> u32" where
  "host_to_network x =
     push_bit 24 (x AND 0xFF) OR push_bit 8 (x AND 0xFF00) OR
     drop_bit 8 (x AND 0xFF0000) OR drop_bit 24 (x AND 0xFF000000)"

definition network_to_host :: "u32 \<Rightarrow> u32" where
  "network_to_host x =
     push_bit 24 (x AND 0xFF) OR push_bit 8 (x AND 0xFF00) OR
     drop_bit 8 (x AND 0xFF0000) OR drop_bit 24 (x AND 0xFF000000)"

definition swap_pos :: "nat \<Rightarrow> nat" where
  "swap_pos n = 8 * (3 - n div 8) + n mod 8"

lemma less_32_cases:
  "(n::nat) < 32 \<longleftrightarrow> n \<in> {0,1,2,3,4,5,6,7,8,9,10,11,12,13,14,15,
     16,17,18,19,20,21,22,23,24,25,26,27,28,29,30,31}"
proof -
  have "{..<32::nat} = {0,1,2,3,4,5,6,7,8,9,10,11,12,13,14,15,
     16,17,18,19,20,21,22,23,24,25,26,27,28,29,30,31}"
    by (simp add: lessThan_nat_numeral lessThan_Suc insert_commute)
  then show ?thesis by (metis lessThan_iff)
qed

lemma swap_pos_less [simp]: "n < 32 \<Longrightarrow> swap_pos n < 32"
  unfolding less_32_cases swap_pos_def by (elim insertE emptyE) simp_all

lemma swap_pos_swap_pos [simp]: "n < 32 \<Longrightarrow> swap_pos (swap_pos n) = n"
  unfolding less_32_cases swap_pos_def by (elim insertE emptyE) simp_all

lemma bit_host_to_network [bit_rules]:
  "bit (host_to_network x) n \<longleftrightarrow> n < 32 \<and> bit x (swap_pos n)"
proof (cases "n < 32")
  case True
  then show ?thesis
    unfolding less_32_cases host_to_network_def swap_pos_def
    by (elim insertE emptyE, simp_all add: bit_simps, simp add: numeral_2_eq_2)
next
  case False
  then show ?thesis using bit_imp_le_length [of "host_to_network x" n] by auto
qed

lemma network_to_host_eq: "network_to_host = host_to_network"
  by (simp add: fun_eq_iff network_to_host_def host_to_network_def)

lemma host_to_network_invol [simp]: "host_to_network (host_to_network x) = x"
  by (rule bit_word_eqI) (simp add: bit_rules)

lemma host_to_network_and [bit_rules]:
  "host_to_network (x AND y) = host_to_network x AND host_to_network y"
  by (rule bit_word_eqI) (simp add: bit_rules bit_simps)

lemma host_to_network_or [bit_rules]:
  "host_to_network (x OR y) = host_to_network x OR host_to_network y"
  by (rule bit_word_eqI) (simp add: bit_rules bit_simps)

lemma host_to_network_xor [bit_rules]:
  "host_to_network (x XOR y) = host_to_network x XOR host_to_network y"
  by (rule bit_word_eqI) (simp add: bit_rules bit_simps)

lemma host_to_network_not [bit_rules]: "host_to_network (NOT x) = NOT (host_to_network x)"
  by (rule bit_word_eqI) (simp add: bit_rules bit_simps)

lemma host_to_network_0 [simp]: "host_to_network 0 = 0"
  by (simp add: host_to_network_def)

lemma host_to_network_minus_1 [simp]: "host_to_network (- 1) = - 1"
  by (simp add: host_to_network_def)

lemma word_minus_one_32: "(0xFFFFFFFF :: u32) = - 1"
  by simp

lemma host_to_network_ones [simp]: "bit (host_to_network 0xFFFFFFFF) (31 - n)"
  unfolding word_minus_one_32 host_to_network_minus_1 by (simp add: bit_simps)

lemma host_to_network_eq_iff [simp]: "host_to_network x = host_to_network y \<longleftrightarrow> x = y"
  by (metis host_to_network_invol)

lemma host_to_network_eq_0 [simp]: "host_to_network x = 0 \<longleftrightarrow> x = 0"
  by (metis host_to_network_0 host_to_network_invol)

section \<open>Lists\<close>

lemma nth_concat_chunks:
  assumes "\<And>x. x \<in> set xs \<Longrightarrow> length (f x) = k" and "i < k * length xs" and "0 < k"
  shows "concat (map f xs) ! i = f (xs ! (i div k)) ! (i mod k)"
  using assms
proof (induction xs arbitrary: i)
  case Nil
  then show ?case by simp
next
  case (Cons x xs)
  show ?case
  proof (cases "i < k")
    case True
    with Cons.prems show ?thesis by (simp add: nth_append)
  next
    case False
    then obtain j where i: "i = k + j" using le_Suc_ex by (metis not_less)
    have "(k + j) div k = Suc (j div k)"
      using div_add_self1 [of k j] \<open>0 < k\<close> by linarith
    with i Cons.prems Cons.IH [of j] show ?thesis by (simp add: nth_append)
  qed
qed

lemma length_concat_chunks:
  "(\<And>x. x \<in> set xs \<Longrightarrow> length (f x) = k) \<Longrightarrow> length (concat (map f xs)) = k * length xs"
  by (induction xs) auto

lemma all_less_add: "(\<forall>i<a + b. P i) \<longleftrightarrow> (\<forall>i<a. P i) \<and> (\<forall>j<b. P (a + j))" for a b :: nat
proof (intro iffI conjI allI impI)
  fix i assume a: "(\<forall>i<a. P i) \<and> (\<forall>j<b. P (a + j))" and "i < a + b"
  show "P i"
  proof (cases "i < a")
    case False
    then obtain j where "i = a + j" using le_Suc_ex by (metis not_less)
    with a \<open>i < a + b\<close> show ?thesis by auto
  qed (use a in blast)
qed auto

end
