(* ===== verification/Bitfield.thy ===== *)
theory Bitfield
  imports Prelude
begin

text \<open>
  The bit field of \<^verbatim>\<open>bitfield.hpp\<close>/\<^verbatim>\<open>bitfield.cpp\<close>: the set of pieces a peer has, and every
  other dense set of piece indices. The bits are packed into 32-bit words kept in network
  byte order; element 0 of the buffer is the number of bits. The bit scanning functions of
  \<^verbatim>\<open>ffs.cpp\<close> are here too. The lemmas relate every operation to the list of bits
  \<open>bits_of\<close>, and the interface locale \<open>bit_vector\<close> is interpreted on the model.
\<close>

section \<open>Bit scanning (\<^verbatim>\<open>ffs.cpp\<close>)\<close>

definition MultiplyDeBruijnBitPosition :: "nat list" where
  "MultiplyDeBruijnBitPosition =
     [0, 9, 1, 10, 13, 21, 2, 29, 11, 14, 16, 18, 22, 25, 3, 30,
      8, 12, 20, 28, 15, 17, 24, 7, 19, 27, 23, 6, 26, 5, 4, 31]"

definition smear :: "u32 \<Rightarrow> u32" where
  "smear v =
     (let v = v OR drop_bit 1 v; v = v OR drop_bit 2 v; v = v OR drop_bit 4 v;
          v = v OR drop_bit 8 v in v OR drop_bit 16 v)"

definition log2p1 :: "u32 \<Rightarrow> nat" where
  "log2p1 v = MultiplyDeBruijnBitPosition ! unat (drop_bit 27 (smear v * 0x07C4ACDD))"

text \<open>The software scan, and the one over the compiler's \<^verbatim>\<open>__builtin_clz\<close>.\<close>

fun count_leading_zeros_sw :: "u32 list \<Rightarrow> nat" where
  "count_leading_zeros_sw [] = 0"
| "count_leading_zeros_sw (w # ws) =
     (if w = 0 then 32 + count_leading_zeros_sw ws else 31 - log2p1 (network_to_host w))"

fun builtin_clz_from :: "nat \<Rightarrow> u32 \<Rightarrow> nat" where
  "builtin_clz_from 0 v = 32"
| "builtin_clz_from (Suc n) v = (if bit v n then 31 - n else builtin_clz_from n v)"

definition builtin_clz :: "u32 \<Rightarrow> nat" where
  "builtin_clz v = builtin_clz_from 32 v"

fun count_leading_zeros_hw :: "u32 list \<Rightarrow> nat" where
  "count_leading_zeros_hw [] = 0"
| "count_leading_zeros_hw (w # ws) =
     (if w = 0 then 32 + count_leading_zeros_hw ws else builtin_clz (network_to_host w))"

definition count_leading_zeros :: "u32 list \<Rightarrow> nat" where
  "count_leading_zeros buf = count_leading_zeros_hw buf"

text \<open>The scan from the end: the words are visited last to first.\<close>

fun first_set_from :: "nat \<Rightarrow> nat \<Rightarrow> u32 \<Rightarrow> nat" where
  "first_set_from 0 k v = k"
| "first_set_from (Suc n) k v = (if v AND 1 = 0 then first_set_from n (Suc k) (drop_bit 1 v) else k)"

fun count_trailing_ones_rev :: "u32 list \<Rightarrow> nat" where
  "count_trailing_ones_rev [] = 0"
| "count_trailing_ones_rev (w # ws) =
     (if w = 0xFFFFFFFF then 32 + count_trailing_ones_rev ws
      else first_set_from 32 0 (NOT (network_to_host w)))"

definition count_trailing_ones :: "u32 list \<Rightarrow> nat" where
  "count_trailing_ones buf = count_trailing_ones_rev (rev buf)"

lemma MultiplyDeBruijn_table:
  "n < 32 \<Longrightarrow>
   MultiplyDeBruijnBitPosition ! unat (drop_bit 27 (mask (Suc n) * (0x07C4ACDD :: u32))) = n"
  unfolding less_32_cases MultiplyDeBruijnBitPosition_def
  by (elim insertE emptyE) (simp_all add: mask_eq_exp_minus_1 drop_bit_word_numeral)

text \<open>Smearing sets every bit below the highest set bit.\<close>

lemma bit_or_drop:
  fixes v w :: u32
  assumes "\<And>n. bit w n \<longleftrightarrow> (\<exists>d<k. bit v (n + d))"
  shows "bit (w OR drop_bit k w) n \<longleftrightarrow> (\<exists>d<2 * k. bit v (n + d))"
proof
  assume "bit (w OR drop_bit k w) n"
  then have "bit w n \<or> bit w (k + n)" by (auto simp: bit_simps)
  then show "\<exists>d<2 * k. bit v (n + d)"
  proof
    assume "bit w n"
    then obtain d where "d < k" "bit v (n + d)" using assms by blast
    then show ?thesis by (intro exI [of _ d]) auto
  next
    assume "bit w (k + n)"
    then obtain d where "d < k" "bit v (k + n + d)" using assms by blast
    then show ?thesis by (intro exI [of _ "k + d"]) (auto simp: ac_simps)
  qed
next
  assume "\<exists>d<2 * k. bit v (n + d)"
  then obtain d where d: "d < 2 * k" "bit v (n + d)" by blast
  show "bit (w OR drop_bit k w) n"
  proof (cases "d < k")
    case True
    with d assms have "bit w n" by blast
    then show ?thesis by (simp add: bit_simps)
  next
    case False
    then have "n + d = (k + n) + (d - k)" "d - k < k" using d(1) by auto
    with d(2) assms have "bit w (k + n)" by metis
    then show ?thesis by (simp add: bit_simps)
  qed
qed

lemma bit_smear: "bit (smear v) n \<longleftrightarrow> (\<exists>m\<ge>n. bit v m)"
proof -
  have 0: "bit v n \<longleftrightarrow> (\<exists>d<1. bit v (n + d))" for n by simp
  note 1 = bit_or_drop [of v 1, OF 0, simplified]
  note 2 = bit_or_drop [of _ 2, OF 1, simplified]
  note 4 = bit_or_drop [of _ 4, OF 2, simplified]
  note 8 = bit_or_drop [of _ 8, OF 4, simplified]
  have "bit (smear v) n \<longleftrightarrow> (\<exists>d<32. bit v (n + d))"
    unfolding smear_def Let_def using bit_or_drop [of _ 16, OF 8] by simp
  also have "\<dots> \<longleftrightarrow> (\<exists>m\<ge>n. bit v m)"
  proof
    assume "\<exists>m\<ge>n. bit v m"
    then obtain m where m: "n \<le> m" "bit v m" by blast
    from m(2) have "m < 32" using bit_imp_le_length [of v m] by simp
    with m show "\<exists>d<32. bit v (n + d)"
      by (intro exI [of _ "m - n"]) auto
  qed (use le_add1 in blast)
  finally show ?thesis .
qed

lemma smear_mask:
  assumes "bit v k" and "\<forall>m>k. \<not> bit v m"
  shows "smear v = mask (Suc k)"
proof (rule bit_word_eqI)
  fix n assume "n < LENGTH(32)"
  show "bit (smear v) n \<longleftrightarrow> bit (mask (Suc k) :: u32) n"
    using assms bit_imp_le_length [of v k] \<open>n < LENGTH(32)\<close>
    by (auto simp: bit_smear bit_mask_iff less_Suc_eq_le) (meson leI order_trans)
qed

lemma log2p1_highest:
  assumes "bit v k" and "\<forall>m>k. \<not> bit v m"
  shows "log2p1 v = k"
proof -
  have "k < 32" using bit_imp_le_length [OF assms(1)] by simp
  then show ?thesis
    unfolding log2p1_def smear_mask [OF assms] by (rule MultiplyDeBruijn_table)
qed

lemma builtin_clz_from_highest:
  assumes "bit v k" and "\<forall>m>k. \<not> bit v m" and "k < n"
  shows "builtin_clz_from n v = 31 - k"
  using assms(3)
proof (induction n)
  case (Suc n)
  with assms(1,2) show ?case by (cases "k = n") auto
qed simp

lemma word_highest_bit:
  fixes v :: u32
  assumes "v \<noteq> 0"
  obtains k where "bit v k" and "\<forall>m>k. \<not> bit v m" and "k < 32"
proof -
  define S where "S = {n. bit v n}"
  have bound: "n < 32" if "bit v n" for n using bit_imp_le_length [OF that] by simp
  have fin: "finite S" unfolding S_def by (rule finite_subset [of _ "{..<32}"]) (use bound in auto)
  have ne: "S \<noteq> {}"
  proof
    assume "S = {}"
    then have "v = 0" by (intro bit_word_eqI) (auto simp: S_def)
    with assms show False by simp
  qed
  have "Max S \<in> S" using fin ne by (rule Max_in)
  then have 1: "bit v (Max S)" by (simp add: S_def)
  have 2: "\<forall>m>Max S. \<not> bit v m"
    using Max_ge [OF fin] by (auto simp: S_def not_le [symmetric])
  show ?thesis by (rule that [OF 1 2 bound [OF 1]])
qed

text \<open>
  The software scan with the multiplication table of De Bruijn and the hardware scan are the
  same function, on every buffer.
\<close>

lemma count_leading_zeros_sw_hw: "count_leading_zeros_sw buf = count_leading_zeros_hw buf"
proof (induction buf)
  case (Cons w ws)
  show ?case
  proof (cases "w = 0")
    case True
    with Cons show ?thesis by simp
  next
    case False
    then have "network_to_host w \<noteq> 0" by (simp add: network_to_host_eq)
    then obtain k where "bit (network_to_host w) k" "\<forall>m>k. \<not> bit (network_to_host w) m" "k < 32"
      by (rule word_highest_bit)
    then show ?thesis using False
      by (simp add: log2p1_highest builtin_clz_def builtin_clz_from_highest)
  qed
qed simp

section \<open>The bit field (\<^verbatim>\<open>bitfield.hpp\<close>, \<^verbatim>\<open>bitfield.cpp\<close>)\<close>

text \<open>
  \<open>m_buf\<close> is the heap array: empty for the null pointer, otherwise element 0 is the number of
  bits and the words follow. Sizes are the non-negative \<^verbatim>\<open>int\<close>s the code asserts.
\<close>

record bitfield =
  m_buf :: "u32 list"

definition size_bf :: "bitfield \<Rightarrow> nat" where
  "size_bf bf = (case m_buf bf of [] \<Rightarrow> 0 | n # _ \<Rightarrow> unat n)"

definition num_words :: "bitfield \<Rightarrow> nat" where
  "num_words bf = (size_bf bf + 31) div 32"

definition buf :: "bitfield \<Rightarrow> u32 list" where
  "buf bf = tl (m_buf bf)"

definition set_buf :: "u32 list \<Rightarrow> bitfield \<Rightarrow> bitfield" where
  "set_buf ws bf = bf\<lparr>m_buf := hd (m_buf bf) # ws\<rparr>"

definition get_bit :: "bitfield \<Rightarrow> nat \<Rightarrow> bool" where
  "get_bit bf index =
     (buf bf ! (index div 32) AND host_to_network (drop_bit (index mod 32) 0x80000000) \<noteq> 0)"

definition clear_bit :: "nat \<Rightarrow> bitfield \<Rightarrow> bitfield" where
  "clear_bit index bf =
     set_buf ((buf bf)[index div 32 := buf bf ! (index div 32) AND
       host_to_network (NOT (drop_bit (index mod 32) 0x80000000))]) bf"

definition set_bit :: "nat \<Rightarrow> bitfield \<Rightarrow> bitfield" where
  "set_bit index bf =
     set_buf ((buf bf)[index div 32 := buf bf ! (index div 32) OR
       host_to_network (drop_bit (index mod 32) 0x80000000)]) bf"

definition clear_trailing_bits :: "bitfield \<Rightarrow> bitfield" where
  "clear_trailing_bits bf =
     (if size_bf bf mod 32 \<noteq> 0
      then set_buf ((buf bf)[num_words bf - 1 := buf bf ! (num_words bf - 1) AND
        host_to_network (push_bit (32 - size_bf bf mod 32) 0xFFFFFFFF)]) bf
      else bf)"

definition all_set :: "bitfield \<Rightarrow> bool" where
  "all_set bf =
     (if size_bf bf = 0 then False
      else let words = size_bf bf div 32; rest = size_bf bf mod 32;
               mask = host_to_network (push_bit (32 - rest) 0xFFFFFFFF)
           in (\<forall>w \<in> set (take words (buf bf)). w = 0xFFFFFFFF) \<and>
              (rest > 0 \<longrightarrow> buf bf ! words AND mask = mask))"

definition none_set :: "bitfield \<Rightarrow> bool" where
  "none_set bf = (size_bf bf = 0 \<or> (\<forall>w \<in> set (take (num_words bf) (buf bf)). w = 0))"

definition popcount :: "u32 \<Rightarrow> nat" where
  "popcount w = length (filter (bit w) [0..<32])"

definition count_bf :: "bitfield \<Rightarrow> nat" where
  "count_bf bf = sum_list (map popcount (take (num_words bf) (buf bf)))"

definition resize :: "nat \<Rightarrow> bitfield \<Rightarrow> bitfield" where
  "resize bits bf =
     (if bits = size_bf bf then bf
      else if bits = 0 then bf\<lparr>m_buf := []\<rparr>
      else let new_size_words = (bits + 31) div 32; cur_size_words = num_words bf in
           clear_trailing_bits
             (if cur_size_words \<noteq> new_size_words
              then bf\<lparr>m_buf := word_of_nat bits #
                     (take (min new_size_words cur_size_words) (buf bf) @
                      replicate (new_size_words - cur_size_words) 0)\<rparr>
              else bf\<lparr>m_buf := word_of_nat bits # buf bf\<rparr>))"

definition memset_from :: "nat \<Rightarrow> u32 \<Rightarrow> u32 list \<Rightarrow> u32 list" where
  "memset_from n v ws = take n ws @ replicate (length ws - n) v"

definition resize_val :: "nat \<Rightarrow> bool \<Rightarrow> bitfield \<Rightarrow> bitfield" where
  "resize_val bits val bf =
     (if bits = size_bf bf then bf
      else let s = size_bf bf; b = size_bf bf mod 32; bf = resize bits bf in
        if s \<ge> size_bf bf then bf
        else let old_size_words = (s + 31) div 32; new_size_words = num_words bf in
          if val then
            let ws = buf bf;
                ws = (if old_size_words \<noteq> 0 \<and> b \<noteq> 0
                      then ws[old_size_words - 1 := ws ! (old_size_words - 1) OR
                              host_to_network (drop_bit b 0xFFFFFFFF)] else ws);
                ws = (if old_size_words < new_size_words
                      then memset_from old_size_words 0xFFFFFFFF ws else ws)
            in clear_trailing_bits (set_buf ws bf)
          else if old_size_words < new_size_words
            then set_buf (memset_from old_size_words 0 (buf bf)) bf else bf)"

definition set_all :: "bitfield \<Rightarrow> bitfield" where
  "set_all bf = (if size_bf bf = 0 then bf
     else clear_trailing_bits (set_buf (memset_from 0 0xFFFFFFFF (buf bf)) bf))"

definition clear_all :: "bitfield \<Rightarrow> bitfield" where
  "clear_all bf = (if size_bf bf = 0 then bf else set_buf (memset_from 0 0 (buf bf)) bf)"

definition find_first_set :: "bitfield \<Rightarrow> int" where
  "find_first_set bf =
     (let num = num_words bf in
      if num = 0 then -1
      else let count = count_leading_zeros (take num (buf bf))
           in if count \<noteq> num * 32 then int count else -1)"

text \<open>
  The mask of \<^verbatim>\<open>find_last_clear\<close> is a shift by \<open>32 - size mod 32\<close>, which C++ leaves undefined
  when the size is a multiple of 32: that case is \<open>None\<close>.
\<close>

definition find_last_clear :: "bitfield \<Rightarrow> int option" where
  "find_last_clear bf =
     (let num = num_words bf; sz = size_bf bf in
      if num = 0 then Some (-1)
      else if sz mod 32 = 0 then None
      else let mask = push_bit (32 - sz mod 32) 0xFFFFFFFF;
               last = buf bf ! (num - 1) XOR host_to_network mask;
               ext = int (count_trailing_ones [NOT last]) - (31 - int (sz mod 32))
           in Some (if last \<noteq> 0 then int ((num - 1) * 32) + ext
                    else int sz - (int (count_trailing_ones (take (num - 1) (buf bf))) + ext)))"

text \<open>
  \<^verbatim>\<open>assign\<close> copies whole bytes over the words of the buffer (little-endian hosts keep byte
  \<open>i\<close> in bits \<open>8 * (i mod 4)\<close> and up of word \<open>i div 4\<close>).
\<close>

definition put_byte :: "nat \<Rightarrow> u8 \<Rightarrow> u32 list \<Rightarrow> u32 list" where
  "put_byte i b ws =
     ws[i div 4 := (ws ! (i div 4) AND NOT (push_bit (8 * (i mod 4)) 0xFF)) OR
                   push_bit (8 * (i mod 4)) (ucast b)]"

fun memcpy_at :: "nat \<Rightarrow> bytes \<Rightarrow> u32 list \<Rightarrow> u32 list" where
  "memcpy_at i [] ws = ws"
| "memcpy_at i (b # bs) ws = memcpy_at (Suc i) bs (put_byte i b ws)"

definition assign :: "bytes \<Rightarrow> nat \<Rightarrow> bitfield \<Rightarrow> bitfield" where
  "assign b bits bf =
     (let bf = resize bits bf in
      if bits > 0 then clear_trailing_bits (set_buf (memcpy_at 0 (take ((bits + 7) div 8) b) (buf bf)) bf)
      else bf)"

section \<open>Invariant and abstraction\<close>

definition raw_bit :: "u32 list \<Rightarrow> nat \<Rightarrow> bool" where
  "raw_bit ws i = bit (host_to_network (ws ! (i div 32))) (31 - i mod 32)"

definition bits_of :: "bitfield \<Rightarrow> bool list" where
  "bits_of bf = map (get_bit bf) [0..<size_bf bf]"

definition bitfield_inv :: "bitfield \<Rightarrow> bool" where
  "bitfield_inv bf \<longleftrightarrow>
     m_buf bf = [] \<or>
     (0 < size_bf bf \<and> size_bf bf < 2 ^ 31 \<and> length (buf bf) = num_words bf \<and>
      (\<forall>i. size_bf bf \<le> i \<and> i < 32 * num_words bf \<longrightarrow> \<not> raw_bit (buf bf) i))"

lemma and_single_bit: "(w AND push_bit n 1 \<noteq> 0) = bit w n" for w :: u32
  by (simp add: push_bit_of_1 and_exp_eq_0_iff_not_bit)

lemma drop_bit_msb: "j < 32 \<Longrightarrow> drop_bit j (0x80000000 :: u32) = push_bit (31 - j) 1"
  unfolding less_32_cases by (elim insertE emptyE) (simp_all add: drop_bit_word_numeral)

lemma get_bit_raw: "get_bit bf i = raw_bit (buf bf) i"
proof -
  have "w AND host_to_network m \<noteq> 0 \<longleftrightarrow> host_to_network w AND m \<noteq> 0" for w m
    by (metis host_to_network_and host_to_network_eq_0 host_to_network_invol)
  moreover have "31 - i mod 32 < 32" by simp
  ultimately show ?thesis
    unfolding get_bit_def raw_bit_def using and_single_bit drop_bit_msb [of "i mod 32"] by simp
qed

lemma length_bits_of [simp]: "length (bits_of bf) = size_bf bf"
  by (simp add: bits_of_def)

lemma nth_bits_of [simp]: "i < size_bf bf \<Longrightarrow> bits_of bf ! i = raw_bit (buf bf) i"
  by (simp add: bits_of_def get_bit_raw)

lemma raw_bit_update:
  "i div 32 < length ws \<Longrightarrow>
   raw_bit (ws[i div 32 := w]) j =
     (if j div 32 = i div 32 then bit (host_to_network w) (31 - j mod 32) else raw_bit ws j)"
  by (auto simp: raw_bit_def nth_list_update)

lemma size_set_buf [simp]: "size_bf (set_buf ws bf) = size_bf bf" if "m_buf bf \<noteq> []"
  using that by (cases "m_buf bf") (auto simp: set_buf_def size_bf_def)

lemma buf_set_buf [simp]: "buf (set_buf ws bf) = ws"
  by (simp add: set_buf_def buf_def)

lemma num_words_set_buf [simp]: "num_words (set_buf ws bf) = num_words bf" if "m_buf bf \<noteq> []"
  using that by (simp add: num_words_def)

lemma m_buf_set_buf [simp]: "m_buf (set_buf ws bf) \<noteq> []"
  by (simp add: set_buf_def)

section \<open>Reading the operations bit by bit\<close>

lemma inv_null [simp]: "m_buf bf = [] \<Longrightarrow> size_bf bf = 0 \<and> buf bf = []"
  by (simp add: size_bf_def buf_def)

lemma inv_cases:
  assumes "bitfield_inv bf" and "0 < size_bf bf"
  shows "m_buf bf \<noteq> []" and "length (buf bf) = num_words bf" and "size_bf bf < 2 ^ 31"
    and "\<And>i. size_bf bf \<le> i \<Longrightarrow> i < 32 * num_words bf \<Longrightarrow> \<not> raw_bit (buf bf) i"
  using assms by (auto simp: bitfield_inv_def)

lemma inv_size_0: "bitfield_inv bf \<Longrightarrow> size_bf bf = 0 \<Longrightarrow> m_buf bf = []"
  by (auto simp: bitfield_inv_def)

lemma inv_intro [intro]:
  assumes "m_buf bf \<noteq> []" and "0 < size_bf bf" and "size_bf bf < 2 ^ 31"
    and "length (buf bf) = num_words bf"
    and "\<And>i. size_bf bf \<le> i \<Longrightarrow> i < 32 * num_words bf \<Longrightarrow> \<not> raw_bit (buf bf) i"
  shows "bitfield_inv bf"
  using assms by (auto simp: bitfield_inv_def)

lemma num_words_bounds: "size_bf bf \<le> 32 * num_words bf" "32 * num_words bf < size_bf bf + 32"
  unfolding num_words_def by presburger+

lemma index_word: "i < size_bf bf \<Longrightarrow> i div 32 < num_words bf"
  using num_words_bounds(1) [of bf] by linarith

lemma last_word:
  assumes "0 < size_bf bf"
  shows "num_words bf - 1 < num_words bf" and "(size_bf bf - 1) div 32 = num_words bf - 1"
  using assms unfolding num_words_def by linarith+

lemma mirror_eq: "31 - j mod 32 = 31 - i mod 32 \<longleftrightarrow> j mod 32 = i mod (32 :: nat)"
  by linarith

lemma mirror_less [simp]: "31 - n < (32 :: nat)"
  by linarith

lemma raw_bit_set:
  assumes "i div 32 < length ws"
  shows "raw_bit (ws[i div 32 := ws ! (i div 32) OR
           host_to_network (drop_bit (i mod 32) 0x80000000)]) j = (j = i \<or> raw_bit ws j)"
proof -
  note mirror_eq [of j i]
  moreover have "j = i \<longleftrightarrow> j div 32 = i div 32 \<and> j mod 32 = i mod 32"
    by (metis div_mult_mod_eq)
  ultimately show ?thesis unfolding raw_bit_update [OF assms]
    by (auto simp: host_to_network_or host_to_network_not drop_bit_msb bit_simps raw_bit_def)
qed

lemma raw_bit_clear:
  assumes "i div 32 < length ws"
  shows "raw_bit (ws[i div 32 := ws ! (i div 32) AND
           host_to_network (NOT (drop_bit (i mod 32) 0x80000000))]) j = (j \<noteq> i \<and> raw_bit ws j)"
proof -
  note mirror_eq [of j i]
  moreover have "j = i \<longleftrightarrow> j div 32 = i div 32 \<and> j mod 32 = i mod 32"
    by (metis div_mult_mod_eq)
  ultimately show ?thesis unfolding raw_bit_update [OF assms]
    by (auto simp: host_to_network_and host_to_network_not drop_bit_msb bit_simps raw_bit_def)
qed

lemma push_bit_ones: "bit (push_bit k (0xFFFFFFFF :: u32)) n \<longleftrightarrow> k \<le> n \<and> n < 32"
proof -
  have "(0xFFFFFFFF :: u32) = - 1" by simp
  then show ?thesis by (simp only:) (auto simp: bit_simps)
qed

lemma drop_bit_ones: "bit (drop_bit k (0xFFFFFFFF :: u32)) n \<longleftrightarrow> k + n < 32"
proof -
  have "(0xFFFFFFFF :: u32) = - 1" by simp
  then show ?thesis by (simp only:) (auto simp: bit_simps)
qed

lemma clear_trailing_bits_size [simp]: "m_buf bf \<noteq> [] \<Longrightarrow> size_bf (clear_trailing_bits bf) = size_bf bf"
  by (simp add: clear_trailing_bits_def)

lemma clear_trailing_bits_buf [simp]:
  "m_buf bf \<noteq> [] \<Longrightarrow> m_buf (clear_trailing_bits bf) \<noteq> []"
  "length (buf (clear_trailing_bits bf)) = length (buf bf)"
  by (simp_all add: clear_trailing_bits_def)

lemma last_word_bit:
  assumes "s mod 32 \<noteq> 0" and "j div 32 = (s - 1) div (32 :: nat)"
  shows "32 - s mod 32 \<le> 31 - j mod 32 \<longleftrightarrow> j < s"
proof -
  define q r where "q = s div 32" and "r = s mod 32"
  have r: "r < 32" and r0: "r \<noteq> 0" using assms(1) by (auto simp: r_def)
  have s: "s = 32 * q + r" by (simp add: q_def r_def)
  have "s - 1 = (r - 1) + 32 * q" using s r0 by simp
  moreover have "(r - 1) div 32 = 0" using r by simp
  ultimately have "(s - 1) div 32 = q" by simp
  with assms(2) have "j = 32 * q + j mod 32" by (metis mult_div_mod_eq)
  moreover have "j mod 32 < 32" by simp
  moreover have "s mod 32 = r" by (simp add: r_def)
  ultimately show ?thesis using s r r0 by linarith
qed

lemma raw_bit_clear_trailing:
  assumes "m_buf bf \<noteq> []" and "length (buf bf) = num_words bf" and "j < 32 * num_words bf"
  shows "raw_bit (buf (clear_trailing_bits bf)) j \<longleftrightarrow> j < size_bf bf \<and> raw_bit (buf bf) j"
proof (cases "size_bf bf mod 32 = 0")
  case True
  then obtain k where "size_bf bf = 32 * k" by (auto simp: mod_eq_0_iff_dvd elim: dvdE)
  then have "32 * num_words bf = size_bf bf" unfolding num_words_def by simp
  with assms(3) have "j < size_bf bf" by simp
  with True show ?thesis by (simp add: clear_trailing_bits_def)
next
  case False
  then have pos: "0 < size_bf bf" by (metis mod_0 gr0I)
  have w: "num_words bf - 1 = (size_bf bf - 1) div 32" using last_word(2) [OF pos] by simp
  have "(size_bf bf - 1) div 32 < length (buf bf)"
    using last_word [OF pos] assms(2) by simp
  then have "raw_bit (buf (clear_trailing_bits bf)) j =
    (if j div 32 = (size_bf bf - 1) div 32
     then raw_bit (buf bf) j \<and> 32 - size_bf bf mod 32 \<le> 31 - j mod 32
     else raw_bit (buf bf) j)"
    using False unfolding clear_trailing_bits_def w
    by (simp add: raw_bit_update host_to_network_and push_bit_ones bit_and_iff) (auto simp: raw_bit_def)
  also have "\<dots> \<longleftrightarrow> j < size_bf bf \<and> raw_bit (buf bf) j"
  proof -
    have "j div 32 \<le> num_words bf - 1" using assms(3) by linarith
    then have "j div 32 = (size_bf bf - 1) div 32 \<or> j div 32 < (size_bf bf - 1) div 32" using w by linarith
    moreover have "j div 32 < (size_bf bf - 1) div 32 \<Longrightarrow> j < size_bf bf" by linarith
    moreover have "j div 32 = (size_bf bf - 1) div 32 \<Longrightarrow>
       32 - size_bf bf mod 32 \<le> 31 - j mod 32 \<longleftrightarrow> j < size_bf bf" using False by (rule last_word_bit)
    ultimately show ?thesis by (auto dest: less_imp_neq)
  qed
  finally show ?thesis .
qed

lemma inv_clear_trailing [wf_rules]:
  assumes "m_buf bf \<noteq> []" and "length (buf bf) = num_words bf" and "0 < size_bf bf"
    and "size_bf bf < 2 ^ 31"
  shows "bitfield_inv (clear_trailing_bits bf)"
  using assms raw_bit_clear_trailing [OF assms(1,2)]
  by (intro inv_intro) (auto simp: num_words_def)

section \<open>The operations refine the list of bits\<close>

lemma bits_of_eqI:
  assumes "size_bf bf = length bs" and "\<And>i. i < length bs \<Longrightarrow> raw_bit (buf bf) i = bs ! i"
  shows "bits_of bf = bs"
  using assms by (intro nth_equalityI) auto

lemma set_bit_inv [wf_rules]: "bitfield_inv bf \<Longrightarrow> i < size_bf bf \<Longrightarrow> bitfield_inv (set_bit i bf)"
  and bits_of_set_bit: "bitfield_inv bf \<Longrightarrow> i < size_bf bf \<Longrightarrow> bits_of (set_bit i bf) = (bits_of bf)[i := True]"
  and size_set_bit [simp]: "bitfield_inv bf \<Longrightarrow> i < size_bf bf \<Longrightarrow> size_bf (set_bit i bf) = size_bf bf"
proof -
  assume A: "bitfield_inv bf" "i < size_bf bf"
  then have pos: "0 < size_bf bf" by simp
  note I = inv_cases [OF A(1) pos]
  have w: "i div 32 < length (buf bf)" using index_word [OF A(2)] I(2) by simp
  note R = raw_bit_set [OF w]
  show sz: "size_bf (set_bit i bf) = size_bf bf" by (simp add: set_bit_def I(1))
  show "bitfield_inv (set_bit i bf)"
    by (rule inv_intro) (use A pos I R in \<open>auto simp: set_bit_def\<close>)
  show "bits_of (set_bit i bf) = (bits_of bf)[i := True]"
    by (rule bits_of_eqI) (use A sz R in \<open>auto simp: set_bit_def nth_list_update\<close>)
qed

lemma clear_bit_inv [wf_rules]: "bitfield_inv bf \<Longrightarrow> i < size_bf bf \<Longrightarrow> bitfield_inv (clear_bit i bf)"
  and bits_of_clear_bit: "bitfield_inv bf \<Longrightarrow> i < size_bf bf \<Longrightarrow> bits_of (clear_bit i bf) = (bits_of bf)[i := False]"
  and size_clear_bit [simp]: "bitfield_inv bf \<Longrightarrow> i < size_bf bf \<Longrightarrow> size_bf (clear_bit i bf) = size_bf bf"
proof -
  assume A: "bitfield_inv bf" "i < size_bf bf"
  then have pos: "0 < size_bf bf" by simp
  note I = inv_cases [OF A(1) pos]
  have w: "i div 32 < length (buf bf)" using index_word [OF A(2)] I(2) by simp
  note R = raw_bit_clear [OF w]
  show sz: "size_bf (clear_bit i bf) = size_bf bf" by (simp add: clear_bit_def I(1))
  show "bitfield_inv (clear_bit i bf)"
    by (rule inv_intro) (use A pos I R in \<open>auto simp: clear_bit_def\<close>)
  show "bits_of (clear_bit i bf) = (bits_of bf)[i := False]"
    by (rule bits_of_eqI) (use A sz R in \<open>auto simp: clear_bit_def nth_list_update\<close>)
qed

text \<open>Resizing: the bits kept are the old ones, the new ones are clear.\<close>

lemma unat_word_of_bits: "bits < 2 ^ 31 \<Longrightarrow> unat (word_of_nat bits :: u32) = bits"
  by (simp add: unsigned_of_nat take_bit_nat_eq_self_iff)

lemma raw_bit_append:
  "raw_bit (xs @ ys) j = (if j div 32 < length xs then raw_bit xs j else raw_bit ys (j - 32 * length xs))"
proof (cases "j div 32 < length xs")
  case False
  then have "32 * length xs \<le> j" by linarith
  then obtain k where "j = 32 * length xs + k" using le_Suc_ex by blast
  with False show ?thesis by (simp add: raw_bit_def nth_append)
qed (simp add: raw_bit_def nth_append)

lemma raw_bit_replicate: "j div 32 < n \<Longrightarrow> raw_bit (replicate n w) j = bit (host_to_network w) (31 - j mod 32)"
  by (simp add: raw_bit_def)

lemma raw_bit_take: "j div 32 < n \<Longrightarrow> raw_bit (take n ws) j = raw_bit ws j"
  by (simp add: raw_bit_def)

lemma resize_grown_words:
  assumes "bitfield_inv bf" and "0 < bits" and "bits < 2 ^ 31" and "bits \<noteq> size_bf bf"
  defines "ws \<equiv> take (min ((bits + 31) div 32) (num_words bf)) (buf bf) @
                  replicate ((bits + 31) div 32 - num_words bf) 0"
  shows "resize bits bf = clear_trailing_bits (bf\<lparr>m_buf := word_of_nat bits # ws\<rparr>)"
    and "length ws = (bits + 31) div 32"
    and "\<And>j. j div 32 < length ws \<Longrightarrow> raw_bit ws j \<longleftrightarrow> j < size_bf bf \<and> raw_bit (buf bf) j"
proof -
  have len: "length (buf bf) = num_words bf"
    using assms(1) by (cases "m_buf bf = []") (auto simp: bitfield_inv_def num_words_def)
  then show lw: "length ws = (bits + 31) div 32" by (simp add: ws_def)
  have "ws = buf bf" if "num_words bf = (bits + 31) div 32" using that len by (simp add: ws_def)
  then show "resize bits bf = clear_trailing_bits (bf\<lparr>m_buf := word_of_nat bits # ws\<rparr>)"
    using assms by (simp add: resize_def Let_def)
  fix j assume j: "j div 32 < length ws"
  show "raw_bit ws j \<longleftrightarrow> j < size_bf bf \<and> raw_bit (buf bf) j"
  proof (cases "j div 32 < num_words bf")
    case True
    then have "raw_bit ws j = raw_bit (buf bf) j"
      using j len lw by (simp add: ws_def raw_bit_append raw_bit_take)
    moreover have "raw_bit (buf bf) j \<Longrightarrow> j < size_bf bf"
    proof (rule ccontr)
      assume a: "raw_bit (buf bf) j" "\<not> j < size_bf bf"
      from True have "j < 32 * num_words bf" by linarith
      moreover from this have "0 < size_bf bf" by (auto simp: num_words_def intro: gr0I)
      ultimately show False using inv_cases(4) [OF assms(1), of j] a by simp
    qed
    ultimately show ?thesis by blast
  next
    case False
    then have n: "num_words bf \<le> j div 32" and "j \<ge> size_bf bf"
      using num_words_bounds(1) [of bf] by linarith+
    moreover have "(j - 32 * num_words bf) div 32 < (bits + 31) div 32 - num_words bf"
      using j lw n by linarith
    ultimately have "\<not> raw_bit ws j"
      using len lw j False by (simp add: ws_def raw_bit_append raw_bit_replicate)
    with \<open>j \<ge> size_bf bf\<close> show ?thesis by simp
  qed
qed

lemma resize_eq [simp]: "resize (size_bf bf) bf = bf"
  by (simp add: resize_def)

lemma resize_inv [wf_rules]:
  assumes "bitfield_inv bf" and "bits < 2 ^ 31"
  shows "bitfield_inv (resize bits bf)" and "size_bf (resize bits bf) = bits"
    and "i < bits \<Longrightarrow> raw_bit (buf (resize bits bf)) i \<longleftrightarrow> i < size_bf bf \<and> raw_bit (buf bf) i"
proof -
  have "bitfield_inv (resize bits bf) \<and> size_bf (resize bits bf) = bits \<and>
     (i < bits \<longrightarrow> (raw_bit (buf (resize bits bf)) i \<longleftrightarrow> i < size_bf bf \<and> raw_bit (buf bf) i))"
  proof (cases "bits = size_bf bf \<or> bits = 0")
    case True
    with assms show ?thesis by (auto simp: resize_def bitfield_inv_def size_bf_def)
  next
    case False
    let ?ws = "take (min ((bits + 31) div 32) (num_words bf)) (buf bf) @
                  replicate ((bits + 31) div 32 - num_words bf) 0"
    let ?bf = "bf\<lparr>m_buf := word_of_nat bits # ?ws\<rparr>"
    have nz: "0 < bits" "bits \<noteq> size_bf bf" using False by auto
    note W1 = resize_grown_words(1) [OF assms(1) nz(1) assms(2) nz(2)]
      and W2 = resize_grown_words(2) [OF assms(1) nz(1) assms(2) nz(2)]
      and W3 = resize_grown_words(3) [OF assms(1) nz(1) assms(2) nz(2)]
    have sz: "size_bf ?bf = bits" using unat_word_of_bits [OF assms(2)] by (simp add: size_bf_def)
    have bf: "buf ?bf = ?ws" "m_buf ?bf \<noteq> []" by (simp_all add: buf_def)
    have nw: "num_words ?bf = (bits + 31) div 32" unfolding num_words_def [of ?bf] sz ..
    have len: "length (buf ?bf) = num_words ?bf" using W2 bf nw by simp
    have "bitfield_inv (resize bits bf)"
      unfolding W1 using inv_clear_trailing [OF bf(2) len] sz False assms by simp
    moreover have "raw_bit (buf (resize bits bf)) i \<longleftrightarrow> i < size_bf bf \<and> raw_bit (buf bf) i" if "i < bits"
    proof -
      have "i < 32 * num_words ?bf" using that sz num_words_bounds(1) [of ?bf] by simp
      moreover from this have "i div 32 < length ?ws" using W2 nw by linarith
      ultimately show ?thesis
        unfolding W1 raw_bit_clear_trailing [OF bf(2) len \<open>i < 32 * num_words ?bf\<close>] sz bf(1)
        using W3 [of i] that by blast
    qed
    ultimately show ?thesis using W1 sz bf by simp
  qed
  then show "bitfield_inv (resize bits bf)" and "size_bf (resize bits bf) = bits"
    and "i < bits \<Longrightarrow> raw_bit (buf (resize bits bf)) i \<longleftrightarrow> i < size_bf bf \<and> raw_bit (buf bf) i"
    by auto
qed

lemma bits_of_resize:
  assumes "bitfield_inv bf" and "bits < 2 ^ 31"
  shows "bits_of (resize bits bf) = take bits (bits_of bf) @ replicate (bits - size_bf bf) False"
  by (rule bits_of_eqI) (use resize_inv [OF assms] in \<open>auto simp: nth_append\<close>)

lemma length_memset_from [simp]: "n \<le> length ws \<Longrightarrow> length (memset_from n v ws) = length ws"
  by (simp add: memset_from_def)

lemma raw_bit_memset_from:
  "n \<le> length ws \<Longrightarrow> j div 32 < length ws \<Longrightarrow>
     raw_bit (memset_from n v ws) j =
       (if j div 32 < n then raw_bit ws j else bit (host_to_network v) (31 - j mod 32))"
  by (simp add: memset_from_def raw_bit_def nth_append)

text \<open>Replacing the words of a bit field, and then clearing the trailing bits.\<close>

lemma set_buf_refines:
  assumes "bitfield_inv r" and "0 < size_bf r" and "length ws = num_words r"
    and "\<And>j. size_bf r \<le> j \<Longrightarrow> j < 32 * num_words r \<Longrightarrow> \<not> raw_bit ws j"
  shows "bitfield_inv (set_buf ws r)" and "bits_of (set_buf ws r) = map (raw_bit ws) [0..<size_bf r]"
proof -
  note I = inv_cases [OF assms(1,2)]
  show "bitfield_inv (set_buf ws r)" using assms I by (intro inv_intro) auto
  show "bits_of (set_buf ws r) = map (raw_bit ws) [0..<size_bf r]"
    using I by (intro bits_of_eqI) auto
qed

lemma set_buf_clear_refines:
  assumes "bitfield_inv r" and "0 < size_bf r" and "length ws = num_words r"
  shows "bitfield_inv (clear_trailing_bits (set_buf ws r))"
    and "bits_of (clear_trailing_bits (set_buf ws r)) = map (raw_bit ws) [0..<size_bf r]"
proof -
  note I = inv_cases [OF assms(1,2)]
  have len: "length (buf (set_buf ws r)) = num_words (set_buf ws r)" using assms(3) I(1) by simp
  show "bitfield_inv (clear_trailing_bits (set_buf ws r))"
    by (rule inv_clear_trailing) (use I len assms in auto)
  have "i < 32 * num_words r" if "i < size_bf r" for i
    using num_words_bounds(1) [of r] that by linarith
  then show "bits_of (clear_trailing_bits (set_buf ws r)) = map (raw_bit ws) [0..<size_bf r]"
    using raw_bit_clear_trailing [OF _ len] I by (intro bits_of_eqI) auto
qed

lemma set_buf_same [simp]: "m_buf bf \<noteq> [] \<Longrightarrow> set_buf (buf bf) bf = bf"
  by (simp add: set_buf_def buf_def)

text \<open>
  Resizing with a value: the bits that were there are kept and every new bit is the value.
\<close>

lemma resize_val_refines:
  assumes "bitfield_inv bf" and "bits < 2 ^ 31" and grow: "size_bf bf < bits"
  shows "bitfield_inv (resize_val bits val bf) \<and>
    bits_of (resize_val bits val bf) = map (\<lambda>j. if j < size_bf bf then raw_bit (buf bf) j else val) [0..<bits]"
proof -
  let ?r = "resize bits bf" and ?o = "(size_bf bf + 31) div 32" and ?b = "size_bf bf mod 32"
  note R = resize_inv [OF assms(1,2)]
  have pos: "0 < size_bf ?r" using R(2) grow by simp
  note I = inv_cases [OF R(1) pos]
  have ow: "?o \<le> num_words ?r" using grow R(2) by (simp add: num_words_def div_le_mono)
  have idx: "j div 32 < length (buf ?r)" if "j < bits" for j
    using that index_word [of j ?r] I(2) R(2) by simp
  let ?w1 = "if ?o \<noteq> 0 \<and> ?b \<noteq> 0
             then (buf ?r)[?o - 1 := buf ?r ! (?o - 1) OR host_to_network (drop_bit ?b 0xFFFFFFFF)] else buf ?r"
  have w1: "raw_bit ?w1 j \<longleftrightarrow> (if j < size_bf bf then raw_bit (buf bf) j else True)"
    if "j < bits" "j div 32 < ?o" for j
  proof (cases "?b = 0")
    case True
    then obtain k where "size_bf bf = 32 * k" by (auto simp: mod_eq_0_iff_dvd elim: dvdE)
    then have "j < size_bf bf" using that by simp
    with True R(3) [OF that(1)] show ?thesis by simp
  next
    case False
    then have o: "?o \<noteq> 0" "?o - 1 < length (buf ?r)" "?o - 1 = (size_bf bf - 1) div 32"
      using ow I(2) last_word [of bf] unfolding num_words_def by (auto intro: gr0I)
    let ?X = "buf ?r ! (?o - 1) OR host_to_network (drop_bit ?b 0xFFFFFFFF)"
    have "raw_bit ?w1 j = raw_bit ((buf ?r)[(size_bf bf - 1) div 32 := ?X]) j"
      using False o by simp
    also have "\<dots> = (if j div 32 = (size_bf bf - 1) div 32 then bit (host_to_network ?X) (31 - j mod 32)
        else raw_bit (buf ?r) j)"
      by (rule raw_bit_update) (use o in simp)
    also have "\<dots> \<longleftrightarrow> raw_bit (buf ?r) j \<or> (j div 32 = (size_bf bf - 1) div 32 \<and> ?b + (31 - j mod 32) < 32)"
      using o(3) by (simp only: host_to_network_or host_to_network_invol bit_or_iff drop_bit_ones raw_bit_def split: if_split) metis
    finally have "raw_bit ?w1 j \<longleftrightarrow>
      raw_bit (buf ?r) j \<or> (j div 32 = (size_bf bf - 1) div 32 \<and> ?b + (31 - j mod 32) < 32)" .
    moreover have "?b + (31 - j mod 32) < 32 \<longleftrightarrow> \<not> j < size_bf bf" if "j div 32 = (size_bf bf - 1) div 32"
    proof -
      have "j mod 32 < 32" "?b < 32" by simp_all
      then show ?thesis using last_word_bit [OF False that] by linarith
    qed
    moreover have "j < size_bf bf" if "j div 32 \<noteq> (size_bf bf - 1) div 32"
      using that \<open>j div 32 < ?o\<close> o by linarith
    ultimately show ?thesis using R(3) [OF that(1)] by auto
  qed
  let ?w2 = "if ?o < num_words ?r then memset_from ?o 0xFFFFFFFF ?w1 else ?w1"
  have l1: "length ?w1 = num_words ?r" using I(2) by simp
  show ?thesis
  proof (cases val)
    case True
    have eq: "resize_val bits val bf = clear_trailing_bits (set_buf ?w2 ?r)"
      using True grow R(2) by (simp add: resize_val_def Let_def)
    have len: "length ?w2 = num_words ?r"
    proof (cases "?o < num_words ?r")
      case True
      have "?o \<le> length ?w1" unfolding l1 by (rule ow)
      from length_memset_from [OF this] True l1 show ?thesis by (simp only: if_True)
    next
      case False
      with l1 show ?thesis by (simp only: if_False)
    qed
    have "raw_bit ?w2 j = (if j < size_bf bf then raw_bit (buf bf) j else val)" if "j < bits" for j
    proof (cases "?o < num_words ?r \<and> \<not> j div 32 < ?o")
      case a: True
      have le: "?o \<le> length ?w1" and lt: "j div 32 < length ?w1"
        using ow idx [OF that] I(2) unfolding l1 by auto
      have "raw_bit ?w2 j = bit (host_to_network 0xFFFFFFFF) (31 - j mod 32)"
        using raw_bit_memset_from [OF le lt] a by presburger
      moreover have "\<not> j < size_bf bf" using a by linarith
      ultimately show ?thesis using True by simp
    next
      case b: False
      have le: "?o \<le> length ?w1" and lt: "j div 32 < length ?w1"
        using ow idx [OF that] I(2) unfolding l1 by auto
      have jo: "j div 32 < ?o" using b lt l1 ow by linarith
      have "raw_bit ?w2 j = raw_bit ?w1 j"
        using raw_bit_memset_from [OF le lt] jo by presburger
      then show ?thesis using w1 [OF that jo] True by simp
    qed
    then have m: "map (raw_bit ?w2) [0..<size_bf ?r] =
        map (\<lambda>j. if j < size_bf bf then raw_bit (buf bf) j else val) [0..<bits]"
      unfolding R(2) by (intro map_cong refl) (simp only: set_upt atLeastLessThan_iff)
    show ?thesis
      unfolding eq using set_buf_clear_refines [OF R(1) pos len, unfolded m] by (rule conjI)
  next
    case False
    let ?w = "if ?o < num_words ?r then memset_from ?o 0 (buf ?r) else buf ?r"
    have *: "raw_bit ?w j = raw_bit (buf ?r) j" if "j < 32 * num_words ?r" for j
    proof -
      have "j div 32 < length (buf ?r)" using that I(2) by linarith
      moreover have "\<not> j div 32 < ?o \<Longrightarrow> \<not> raw_bit (buf ?r) j"
        using R(3) [of j] I(4) [of j] R(2) that by (cases "j < bits") auto
      ultimately show ?thesis using ow I(2) by (auto simp: raw_bit_memset_from)
    qed
    have "resize_val bits val bf = set_buf ?w ?r"
      using False grow R(2) I(1) by (simp add: resize_val_def Let_def)
    moreover have "raw_bit ?w j = (if j < size_bf bf then raw_bit (buf bf) j else val)" if "j < bits" for j
      using * [of j] R(3) [OF that] False that num_words_bounds(1) [of ?r] R(2) by auto
    ultimately show ?thesis
      using set_buf_refines [OF R(1) pos, of ?w] * I R(2) ow by simp
  qed
qed

lemma bits_of_resize_val:
  assumes "bitfield_inv bf" and "bits < 2 ^ 31"
  shows "bits_of (resize_val bits val bf) = take bits (bits_of bf) @ replicate (bits - size_bf bf) val"
    and "bitfield_inv (resize_val bits val bf)"
proof -
  have "bits_of (resize_val bits val bf) = take bits (bits_of bf) @ replicate (bits - size_bf bf) val
    \<and> bitfield_inv (resize_val bits val bf)"
  proof (cases "size_bf bf < bits")
    case True
    with resize_val_refines [OF assms True] show ?thesis
      by (auto intro!: nth_equalityI simp: nth_append)
  next
    case False
    then have "resize_val bits val bf = resize bits bf"
      using resize_inv(2) [OF assms] by (auto simp: resize_val_def Let_def)
    with False show ?thesis using resize_inv(1) [OF assms] bits_of_resize [OF assms] by simp
  qed
  then show "bits_of (resize_val bits val bf) = take bits (bits_of bf) @ replicate (bits - size_bf bf) val"
    and "bitfield_inv (resize_val bits val bf)" by auto
qed

section \<open>Queries\<close>


lemma all_ones_iff: "w = (0xFFFFFFFF :: u32) \<longleftrightarrow> (\<forall>j<32. bit (host_to_network w) (31 - j))"
proof
  assume "w = 0xFFFFFFFF"
  then have "host_to_network w = - 1" using host_to_network_minus_1 word_minus_one_32 by metis
  then show "\<forall>j<32. bit (host_to_network w) (31 - j)" by (auto simp: bit_simps)
next
  assume a: "\<forall>j<32. bit (host_to_network w) (31 - j)"
  have "host_to_network w = - 1"
  proof (rule bit_word_eqI)
    fix n :: nat assume "n < LENGTH(32)"
    then have "31 - (31 - n) = n" "31 - n < 32" by auto
    with a have "bit (host_to_network w) n" by metis
    then show "bit (host_to_network w) n = bit (- 1 :: u32) n" using \<open>n < LENGTH(32)\<close> by (simp add: bit_simps)
  qed
  then show "w = 0xFFFFFFFF" using word_minus_one_32 by (metis host_to_network_invol host_to_network_minus_1)
qed


lemma word_zero_iff: "w = 0 \<longleftrightarrow> (\<forall>j<32. \<not> bit (host_to_network w) (31 - j))"
proof
  assume a: "\<forall>j<32. \<not> bit (host_to_network w) (31 - j)"
  have "host_to_network w = 0"
  proof (rule bit_word_eqI)
    fix n :: nat assume "n < LENGTH(32)"
    then have "31 - (31 - n) = n" "31 - n < 32" by auto
    with a have "\<not> bit (host_to_network w) n" by metis
    then show "bit (host_to_network w) n = bit (0 :: u32) n" by simp
  qed
  then show "w = 0" by simp
qed simp

lemma div_mod_32: "q < n \<Longrightarrow> r < 32 \<Longrightarrow> (32 * q + r) div 32 = q \<and> (32 * q + r) mod 32 = r \<and> 32 * q + r < 32 * n"
  for q r n :: nat
  by simp

lemma words_bits:
  "(\<forall>q<n. \<forall>r<32. P (32 * q + r)) \<longleftrightarrow> (\<forall>i<32 * n. P i)" for n :: nat
proof
  assume a: "\<forall>q<n. \<forall>r<32. P (32 * q + r)"
  show "\<forall>i<32 * n. P i"
  proof (intro allI impI)
    fix i assume "i < 32 * n"
    then have "i div 32 < n" by linarith
    moreover have "i mod 32 < 32" by simp
    ultimately have "P (32 * (i div 32) + i mod 32)" using a by blast
    then show "P i" by simp
  qed
qed (simp add: div_mod_32)

lemma all_words_ones:
  assumes "n \<le> length ws"
  shows "(\<forall>w \<in> set (take n ws). w = 0xFFFFFFFF) \<longleftrightarrow> (\<forall>i<32 * n. raw_bit ws i)"
proof -
  have "(\<forall>w \<in> set (take n ws). w = 0xFFFFFFFF) \<longleftrightarrow> (\<forall>q<n. ws ! q = 0xFFFFFFFF)"
    using assms by (auto simp: all_set_conv_all_nth)
  also have "\<dots> \<longleftrightarrow> (\<forall>q<n. \<forall>r<32. raw_bit ws (32 * q + r))"
    unfolding all_ones_iff by (simp add: raw_bit_def)
  finally show ?thesis using words_bits by blast
qed

lemma all_words_zero:
  assumes "n \<le> length ws"
  shows "(\<forall>w \<in> set (take n ws). w = 0) \<longleftrightarrow> (\<forall>i<32 * n. \<not> raw_bit ws i)"
proof -
  have "(\<forall>w \<in> set (take n ws). w = 0) \<longleftrightarrow> (\<forall>q<n. ws ! q = 0)"
    using assms by (auto simp: all_set_conv_all_nth)
  also have "\<dots> \<longleftrightarrow> (\<forall>q<n. \<forall>r<32. \<not> raw_bit ws (32 * q + r))"
    unfolding word_zero_iff by (simp add: raw_bit_def)
  finally show ?thesis using words_bits [of n "\<lambda>i. \<not> raw_bit ws i"] by blast
qed

lemma and_mask_eq_mask:
  "(w AND m = m) \<longleftrightarrow> (\<forall>n<32. bit m n \<longrightarrow> bit w n)" for w m :: u32
proof
  assume "w AND m = m"
  then show "\<forall>n<32. bit m n \<longrightarrow> bit w n" by (metis bit_and_iff)
next
  assume a: "\<forall>n<32. bit m n \<longrightarrow> bit w n"
  show "w AND m = m" by (rule bit_word_eqI) (use a in \<open>auto simp: bit_and_iff\<close>)
qed

lemma all_set_refines:
  assumes "bitfield_inv bf"
  shows "all_set bf \<longleftrightarrow> bits_of bf \<noteq> [] \<and> (\<forall>b \<in> set (bits_of bf). b)"
proof (cases "size_bf bf = 0")
  case True
  then show ?thesis by (simp add: all_set_def bits_of_def)
next
  case False
  then have pos: "0 < size_bf bf" by simp
  note I = inv_cases [OF assms pos]
  let ?q = "size_bf bf div 32" and ?r = "size_bf bf mod 32"
  let ?m = "push_bit (32 - ?r) (0xFFFFFFFF :: u32)"
  have sz: "size_bf bf = 32 * ?q + ?r" by simp
  have q: "?q \<le> length (buf bf)" using I(2) unfolding num_words_def by linarith
  have rest: "buf bf ! ?q AND host_to_network ?m = host_to_network ?m \<longleftrightarrow> (\<forall>j<?r. raw_bit (buf bf) (32 * ?q + j))"
    if "?r > 0"
  proof -
    have "buf bf ! ?q AND host_to_network ?m = host_to_network ?m \<longleftrightarrow> host_to_network (buf bf ! ?q) AND ?m = ?m"
      by (metis host_to_network_and host_to_network_invol)
    also have "\<dots> \<longleftrightarrow> (\<forall>n<32. 32 - ?r \<le> n \<longrightarrow> bit (host_to_network (buf bf ! ?q)) n)"
      unfolding and_mask_eq_mask push_bit_ones by auto
    also have "\<dots> \<longleftrightarrow> (\<forall>j<?r. bit (host_to_network (buf bf ! ?q)) (31 - j))"
    proof (intro iffI allI impI)
      fix n :: nat
      assume a: "\<forall>j<?r. bit (host_to_network (buf bf ! ?q)) (31 - j)" and n: "n < 32" "32 - ?r \<le> n"
      then have "31 - n < ?r" "31 - (31 - n) = n" using that by linarith+
      with a show "bit (host_to_network (buf bf ! ?q)) n" by metis
    next
      fix j assume a: "\<forall>n<32. 32 - ?r \<le> n \<longrightarrow> bit (host_to_network (buf bf ! ?q)) n" and "j < ?r"
      then show "bit (host_to_network (buf bf ! ?q)) (31 - j)" using mod_less_divisor [of 32 "size_bf bf"]
        by (intro a [rule_format]) linarith+
    qed
    finally show ?thesis by (simp add: raw_bit_def)
  qed
  have "all_set bf \<longleftrightarrow> (\<forall>i<32 * ?q. raw_bit (buf bf) i) \<and> (\<forall>j<?r. raw_bit (buf bf) (32 * ?q + j))"
    using False rest unfolding all_set_def Let_def all_words_ones [OF q] by auto
  also have "\<dots> \<longleftrightarrow> (\<forall>i. i < size_bf bf \<longrightarrow> raw_bit (buf bf) i)"
    using all_less_add [of "32 * ?q" ?r "raw_bit (buf bf)"] sz by metis
  also have "\<dots> \<longleftrightarrow> bits_of bf \<noteq> [] \<and> (\<forall>b \<in> set (bits_of bf). b)"
    using False length_bits_of [of bf] by (auto simp: all_set_conv_all_nth simp del: length_bits_of)
  finally show ?thesis .
qed

lemma none_set_refines:
  assumes "bitfield_inv bf"
  shows "none_set bf \<longleftrightarrow> (\<forall>b \<in> set (bits_of bf). \<not> b)"
proof (cases "size_bf bf = 0")
  case True
  then show ?thesis by (simp add: none_set_def bits_of_def)
next
  case False
  then have pos: "0 < size_bf bf" by simp
  note I = inv_cases [OF assms pos]
  have "none_set bf \<longleftrightarrow> (\<forall>i<32 * num_words bf. \<not> raw_bit (buf bf) i)"
    using False all_words_zero [of "num_words bf" "buf bf"] I(2) by (simp add: none_set_def)
  also have "\<dots> \<longleftrightarrow> (\<forall>i. i < size_bf bf \<longrightarrow> \<not> raw_bit (buf bf) i)"
    using I(4) num_words_bounds(1) [of bf] by (meson not_less order_less_le_trans)
  also have "\<dots> \<longleftrightarrow> (\<forall>b \<in> set (bits_of bf). \<not> b)" by (simp add: all_set_conv_all_nth)
  finally show ?thesis .
qed

lemma set_all_refines:
  assumes "bitfield_inv bf"
  shows "bitfield_inv (set_all bf)" and "bits_of (set_all bf) = replicate (size_bf bf) True"
proof -
  have "bitfield_inv (set_all bf) \<and> bits_of (set_all bf) = replicate (size_bf bf) True"
  proof (cases "size_bf bf = 0")
    case True
    with assms show ?thesis by (simp add: set_all_def bits_of_def)
  next
    case False
    then have pos: "0 < size_bf bf" by simp
    note I = inv_cases [OF assms pos]
    have "raw_bit (memset_from 0 0xFFFFFFFF (buf bf)) j" if "j < size_bf bf" for j
      using index_word [OF that] I(2) by (simp add: raw_bit_memset_from)
    then show ?thesis using set_buf_clear_refines [OF assms pos, of "memset_from 0 0xFFFFFFFF (buf bf)"] False I(2)
      by (auto simp: set_all_def intro!: nth_equalityI)
  qed
  then show "bitfield_inv (set_all bf)" and "bits_of (set_all bf) = replicate (size_bf bf) True" by auto
qed

lemma clear_all_refines:
  assumes "bitfield_inv bf"
  shows "bitfield_inv (clear_all bf)" and "bits_of (clear_all bf) = replicate (size_bf bf) False"
proof -
  have "bitfield_inv (clear_all bf) \<and> bits_of (clear_all bf) = replicate (size_bf bf) False"
  proof (cases "size_bf bf = 0")
    case True
    with assms show ?thesis by (simp add: clear_all_def bits_of_def)
  next
    case False
    then have pos: "0 < size_bf bf" by simp
    note I = inv_cases [OF assms pos]
    have *: "\<not> raw_bit (memset_from 0 0 (buf bf)) j" if "j < 32 * num_words bf" for j
    proof -
      have "j div 32 < num_words bf" using that by linarith
      then show ?thesis using I(2) by (simp add: raw_bit_memset_from)
    qed
    then have "map (raw_bit (memset_from 0 0 (buf bf))) [0..<size_bf bf] = replicate (size_bf bf) False"
      using num_words_bounds(1) [of bf] by (intro nth_equalityI) auto
    then show ?thesis using set_buf_refines [OF assms pos, of "memset_from 0 0 (buf bf)"] * False I(2)
      by (simp add: clear_all_def)
  qed
  then show "bitfield_inv (clear_all bf)" and "bits_of (clear_all bf) = replicate (size_bf bf) False" by auto
qed

text \<open>The number of set bits, and the first set bit.\<close>

definition word_bits :: "u32 \<Rightarrow> bool list" where
  "word_bits w = map (\<lambda>j. bit (host_to_network w) (31 - j)) [0..<32]"

lemma swap_mirror_inj: "inj_on (\<lambda>j. swap_pos (31 - j)) {..<32}"
proof (rule inj_onI)
  fix i j :: nat
  assume a: "i \<in> {..<32}" "j \<in> {..<32}" "swap_pos (31 - i) = swap_pos (31 - j)"
  then have "31 - i = 31 - j" by (metis mirror_less swap_pos_swap_pos)
  with a show "i = j" by auto
qed

lemma popcount_word_bits: "popcount w = length (filter id (word_bits w))"
proof -
  have "(\<lambda>j. swap_pos (31 - j)) ` {..<32} = {..<32}"
    using swap_mirror_inj by (intro endo_inj_surj) auto
  then have "{j. j < 32 \<and> bit w j} = (\<lambda>j. swap_pos (31 - j)) ` {j. j < 32 \<and> bit w (swap_pos (31 - j))}"
    by (auto simp: image_iff)
  moreover have "inj_on (\<lambda>j. swap_pos (31 - j)) {j. j < 32 \<and> bit w (swap_pos (31 - j))}"
    by (rule inj_on_subset [OF swap_mirror_inj]) auto
  ultimately have "card {j. j < 32 \<and> bit w j} = card {j. j < 32 \<and> bit w (swap_pos (31 - j))}"
    by (simp add: card_image)
  then show ?thesis
    by (simp add: popcount_def word_bits_def length_filter_conv_card bit_host_to_network cong: conj_cong)
qed

lemma count_bf_refines:
  assumes "bitfield_inv bf"
  shows "count_bf bf = length (filter id (bits_of bf))"
proof (cases "size_bf bf = 0")
  case True
  then show ?thesis by (simp add: count_bf_def bits_of_def num_words_def)
next
  case False
  then have pos: "0 < size_bf bf" by simp
  note I = inv_cases [OF assms pos]
  have "count_bf bf = length (filter id (concat (map word_bits (buf bf))))"
    by (simp add: count_bf_def I(2) popcount_word_bits [abs_def] filter_concat length_concat o_def)
  also have "concat (map word_bits (buf bf)) = bits_of bf @ replicate (32 * num_words bf - size_bf bf) False"
  proof (rule nth_equalityI)
    have len: "length (concat (map word_bits (buf bf))) = 32 * num_words bf"
      using length_concat_chunks [of "buf bf" word_bits 32] I(2) by (simp add: word_bits_def)
    then show "length (concat (map word_bits (buf bf))) =
        length (bits_of bf @ replicate (32 * num_words bf - size_bf bf) False)"
      using num_words_bounds(1) [of bf] by simp
    fix i assume "i < length (concat (map word_bits (buf bf)))"
    then have i: "i < 32 * num_words bf" using len by simp
    then have "concat (map word_bits (buf bf)) ! i = word_bits (buf bf ! (i div 32)) ! (i mod 32)"
      using I(2) by (intro nth_concat_chunks) (auto simp: word_bits_def)
    then have "concat (map word_bits (buf bf)) ! i = raw_bit (buf bf) i"
      by (simp add: word_bits_def raw_bit_def)
    then show "concat (map word_bits (buf bf)) ! i =
        (bits_of bf @ replicate (32 * num_words bf - size_bf bf) False) ! i"
      using i I(4) [of i] by (auto simp: nth_append)
  qed
  finally show ?thesis by (simp add: id_def)
qed

lemma clz_bit: "v \<noteq> 0 \<Longrightarrow> builtin_clz v < 32 \<and> bit v (31 - builtin_clz v) \<and> (\<forall>j < builtin_clz v. \<not> bit v (31 - j))"
proof -
  assume "v \<noteq> 0"
  then obtain k where k: "bit v k" "\<forall>m>k. \<not> bit v m" "k < 32" by (rule word_highest_bit)
  then have "builtin_clz v = 31 - k" by (simp add: builtin_clz_def builtin_clz_from_highest)
  with k show ?thesis by auto
qed

lemma count_leading_zeros_hw_spec:
  "count_leading_zeros_hw ws \<le> 32 * length ws \<and>
   (\<forall>i < count_leading_zeros_hw ws. \<not> raw_bit ws i) \<and>
   (count_leading_zeros_hw ws < 32 * length ws \<longrightarrow> raw_bit ws (count_leading_zeros_hw ws))"
proof (induction ws)
  case (Cons w ws)
  have shift: "raw_bit (w # ws) (32 + i) = raw_bit ws i" for i
    using div_add_self1 [of 32 i] by (simp add: raw_bit_def)
  show ?case
  proof (cases "w = 0")
    case True
    have "\<not> raw_bit (w # ws) i" if "i < 32" for i using True that by (simp add: raw_bit_def)
    then have "\<forall>i < 32 + count_leading_zeros_hw ws. \<not> raw_bit (w # ws) i"
      unfolding all_less_add [of 32] using Cons shift by blast
    with Cons True shift show ?thesis by simp
  next
    case False
    then have "network_to_host w \<noteq> 0" by (simp add: network_to_host_eq)
    note c = clz_bit [OF this]
    have "raw_bit (w # ws) i = bit (host_to_network w) (31 - i)" if "i < 32" for i
      using that by (simp add: raw_bit_def)
    with c False show ?thesis by (auto simp: network_to_host_eq)
  qed
qed simp

lemma find_first_set_refines:
  assumes "bitfield_inv bf"
  shows "find_first_set bf =
    (if True \<in> set (bits_of bf) then int (LEAST i. i < size_bf bf \<and> bits_of bf ! i) else - 1)"
proof (cases "size_bf bf = 0")
  case True
  then show ?thesis by (simp add: find_first_set_def num_words_def bits_of_def)
next
  case False
  then have pos: "0 < size_bf bf" by simp
  note I = inv_cases [OF assms pos]
  let ?c = "count_leading_zeros_hw (buf bf)"
  note C = count_leading_zeros_hw_spec [of "buf bf", unfolded I(2)]
  have nw: "num_words bf \<noteq> 0" using pos by (simp add: num_words_def)
  have found: "?c \<noteq> 32 * num_words bf \<longleftrightarrow> True \<in> set (bits_of bf)"
  proof
    assume "?c \<noteq> 32 * num_words bf"
    with C have "?c < 32 * num_words bf" "raw_bit (buf bf) ?c" by auto
    moreover from this I(4) [of ?c] have "?c < size_bf bf" by (meson not_less)
    ultimately show "True \<in> set (bits_of bf)" by (auto simp: in_set_conv_nth)
  next
    assume "True \<in> set (bits_of bf)"
    then obtain i where "i < size_bf bf" "raw_bit (buf bf) i" by (auto simp: in_set_conv_nth)
    with C num_words_bounds(1) [of bf] show "?c \<noteq> 32 * num_words bf" by auto
  qed
  show ?thesis
  proof (cases "True \<in> set (bits_of bf)")
    case True
    with found have "?c \<noteq> 32 * num_words bf" by simp
    with C have c: "?c < 32 * num_words bf" "raw_bit (buf bf) ?c" by auto
    with I(4) [of ?c] have "?c < size_bf bf" by (meson not_less)
    with c C have "(LEAST i. i < size_bf bf \<and> bits_of bf ! i) = ?c"
      by (intro Least_equality) (auto simp: not_less [symmetric])
    with True nw \<open>?c \<noteq> 32 * num_words bf\<close> show ?thesis
      by (simp add: find_first_set_def Let_def count_leading_zeros_def I(2) mult.commute)
  next
    case False
    with found nw show ?thesis
      by (simp add: find_first_set_def Let_def count_leading_zeros_def I(2) mult.commute)
  qed
qed

section \<open>Assigning a byte buffer\<close>

text \<open>
  A \<^verbatim>\<open>bitfield\<close> message carries the bits most significant first: bit \<open>i\<close> of the field is bit
  \<open>7 - i mod 8\<close> of byte \<open>i div 8\<close>.
\<close>

lemma swap_mirror: "j < 32 \<Longrightarrow> swap_pos (31 - j) = 8 * (j div 8) + (7 - j mod 8)"
  unfolding less_32_cases by (elim insertE emptyE) (simp_all add: swap_pos_def)

lemma raw_bit_bytes: "raw_bit ws j = bit (ws ! (j div 32)) (8 * (j div 8 mod 4) + (7 - j mod 8))"
proof -
  have "j mod 32 div 8 = j div 8 mod 4" using mod_mult2_eq [of j 8 4] by simp
  moreover have "j mod 32 mod 8 = j mod 8" by (rule mod_mod_cancel) simp
  moreover have "j mod 32 < 32" by simp
  ultimately have "swap_pos (31 - j mod 32) = 8 * (j div 8 mod 4) + (7 - j mod 8)"
    using swap_mirror [of "j mod 32"] by metis
  then show ?thesis by (simp add: raw_bit_def bit_host_to_network)
qed

lemma raw_bit_put_byte:
  assumes "k div 4 < length ws"
  shows "raw_bit (put_byte k b ws) j = (if j div 8 = k then bit b (7 - j mod 8) else raw_bit ws j)"
proof -
  let ?w = "(ws ! (k div 4) AND NOT (push_bit (8 * (k mod 4)) 0xFF)) OR push_bit (8 * (k mod 4)) (ucast b :: u32)"
  have FF: "bit (0xFF :: u32) n \<longleftrightarrow> n < 8" for n
  proof -
    have "(0xFF :: u32) = mask 8" by (simp add: mask_eq_exp_minus_1)
    then show ?thesis by (simp only: bit_mask_iff) auto
  qed
  have w: "bit ?w (8 * a + c) = (if a = k mod 4 then bit b c else bit (ws ! (k div 4)) (8 * a + c))"
    if "a < 4" "c < 8" for a c
  proof (cases "a = k mod 4")
    case True
    have "8 * a + c - 8 * (k mod 4) = c" "8 * (k mod 4) \<le> 8 * a + c" "8 * a + c < 32"
      using True that by simp_all
    moreover have "bit (0xFF :: u32) c" using FF that by blast
    ultimately have "bit ?w (8 * a + c) \<longleftrightarrow> 8 * (k mod 4) + c < 32 \<and> bit b c" using True that
      by (simp add: bit_or_iff bit_and_iff bit_not_iff bit_push_bit_iff FF bit_ucast_iff)
    moreover have "8 * (k mod 4) + c < 32" using that by linarith
    ultimately show ?thesis using True by metis
  next
    case False
    then have far: "8 * a + c < 8 * (k mod 4) \<or> 8 \<le> 8 * a + c - 8 * (k mod 4)"
      using that by linarith
    then have "\<not> bit (push_bit (8 * (k mod 4)) (0xFF :: u32)) (8 * a + c)"
      using FF [of "8 * a + c - 8 * (k mod 4)"] by (auto simp: bit_push_bit_iff)
    moreover have "\<not> bit (push_bit (8 * (k mod 4)) (ucast b :: u32)) (8 * a + c)"
      using far bit_imp_le_length [of b "8 * a + c - 8 * (k mod 4)"]
      by (auto simp: bit_push_bit_iff bit_ucast_iff)
    moreover have "8 * a + c < 32" using that by simp
    ultimately show ?thesis using False by (simp add: bit_or_iff bit_and_iff bit_not_iff)
  qed
  have jk: "j div 8 = k \<longleftrightarrow> j div 32 = k div 4 \<and> j div 8 mod 4 = k mod 4"
  proof -
    have "j div 8 div 4 = j div 32" by (simp add: div_mult2_eq [symmetric])
    then show ?thesis by (metis div_mult_mod_eq)
  qed
  have lt: "j div 8 mod 4 < 4" "7 - j mod 8 < 8" by simp_all
  show ?thesis
  proof (cases "j div 32 = k div 4")
    case True
    then have "raw_bit (put_byte k b ws) j = bit ?w (8 * (j div 8 mod 4) + (7 - j mod 8))"
      using assms by (simp add: raw_bit_bytes put_byte_def)
    also have "\<dots> = (if j div 8 = k then bit b (7 - j mod 8) else raw_bit ws j)"
      unfolding w [OF lt] raw_bit_bytes [of ws] jk using True by simp
    finally show ?thesis .
  next
    case False
    then show ?thesis using jk by (simp add: raw_bit_bytes put_byte_def)
  qed
qed

lemma length_put_byte [simp]: "length (put_byte k b ws) = length ws"
  by (simp add: put_byte_def)

lemma length_memcpy_at [simp]: "length (memcpy_at i bs ws) = length ws"
  by (induction i bs ws rule: memcpy_at.induct) simp_all

lemma raw_bit_memcpy_at:
  "(i + length bs + 3) div 4 \<le> length ws \<Longrightarrow>
   raw_bit (memcpy_at i bs ws) j =
     (if i \<le> j div 8 \<and> j div 8 < i + length bs then bit (bs ! (j div 8 - i)) (7 - j mod 8) else raw_bit ws j)"
proof (induction i bs ws rule: memcpy_at.induct)
  case (2 i b bs ws)
  have le: "(Suc i + length bs + 3) div 4 \<le> length (put_byte i b ws)" using 2(2) by simp
  have "i div 4 < length ws" using 2(2) by simp
  note p = raw_bit_put_byte [OF this, of b j]
  show ?case
  proof (cases "j div 8 = i")
    case True
    with 2(1) [OF le] p show ?thesis by simp
  next
    case False
    then have "i \<le> j div 8 \<Longrightarrow> j div 8 - i = Suc (j div 8 - Suc i)" by simp
    with False 2(1) [OF le] p show ?thesis by auto
  qed
qed auto

lemma assign_refines:
  assumes "bitfield_inv bf" and "bits < 2 ^ 31" and "(bits + 7) div 8 \<le> length b"
  shows "bitfield_inv (assign b bits bf)"
    and "bits_of (assign b bits bf) = map (\<lambda>i. bit (b ! (i div 8)) (7 - i mod 8)) [0..<bits]"
proof -
  let ?r = "resize bits bf" and ?bs = "take ((bits + 7) div 8) b"
  note R = resize_inv [OF assms(1,2)]
  have "bitfield_inv (assign b bits bf) \<and>
    bits_of (assign b bits bf) = map (\<lambda>i. bit (b ! (i div 8)) (7 - i mod 8)) [0..<bits]"
  proof (cases "bits = 0")
    case True
    with R(1,2) show ?thesis by (simp add: assign_def Let_def bits_of_def)
  next
    case False
    then have pos: "0 < size_bf ?r" using R(2) by simp
    note I = inv_cases [OF R(1) pos]
    have len: "(0 + length ?bs + 3) div 4 \<le> length (buf ?r)"
    proof -
      have "length ?bs = (bits + 7) div 8" using assms(3) by simp
      moreover have "((bits + 7) div 8 + 3) div 4 \<le> (bits + 31) div 32" by linarith
      ultimately show ?thesis using I(2) R(2) by (simp add: num_words_def)
    qed
    have "map (raw_bit (memcpy_at 0 ?bs (buf ?r))) [0..<bits] = map (\<lambda>i. bit (b ! (i div 8)) (7 - i mod 8)) [0..<bits]"
    proof (intro map_cong refl)
      fix i assume "i \<in> set [0..<bits]"
      then have "i div 8 < (bits + 7) div 8" by simp
      with assms(3) show "raw_bit (memcpy_at 0 ?bs (buf ?r)) i = bit (b ! (i div 8)) (7 - i mod 8)"
        using raw_bit_memcpy_at [OF len] by simp
    qed
    then show ?thesis
      using set_buf_clear_refines [OF R(1) pos, of "memcpy_at 0 ?bs (buf ?r)"] I(2) False R(2)
      by (simp add: assign_def Let_def)
  qed
  then show "bitfield_inv (assign b bits bf)"
    and "bits_of (assign b bits bf) = map (\<lambda>i. bit (b ! (i div 8)) (7 - i mod 8)) [0..<bits]" by auto
qed

section \<open>The interface of a bit vector\<close>

text \<open>
  What the clients of a bit field rely on: an abstraction to a list of bits against which the
  accessors are specified.
\<close>

locale bit_vector =
  fixes size_of :: "'b \<Rightarrow> nat"
    and get :: "'b \<Rightarrow> nat \<Rightarrow> bool"
    and put :: "nat \<Rightarrow> 'b \<Rightarrow> 'b"
    and unput :: "nat \<Rightarrow> 'b \<Rightarrow> 'b"
    and total :: "'b \<Rightarrow> nat"
    and contents :: "'b \<Rightarrow> bool list"
    and invar :: "'b \<Rightarrow> bool"
  assumes size_contents: "size_of b = length (contents b)"
    and get_contents: "invar b \<Longrightarrow> i < size_of b \<Longrightarrow> get b i = contents b ! i"
    and put_contents: "invar b \<Longrightarrow> i < size_of b \<Longrightarrow> contents (put i b) = (contents b)[i := True]"
    and unput_contents: "invar b \<Longrightarrow> i < size_of b \<Longrightarrow> contents (unput i b) = (contents b)[i := False]"
    and total_contents: "invar b \<Longrightarrow> total b = length (filter id (contents b))"
    and put_invar: "invar b \<Longrightarrow> i < size_of b \<Longrightarrow> invar (put i b)"
    and unput_invar: "invar b \<Longrightarrow> i < size_of b \<Longrightarrow> invar (unput i b)"
begin

lemma put_size: "invar b \<Longrightarrow> i < size_of b \<Longrightarrow> size_of (put i b) = size_of b"
  using put_contents [of b i] by (simp add: size_contents)

lemma get_put: "invar b \<Longrightarrow> i < size_of b \<Longrightarrow> j < size_of b \<Longrightarrow> get (put i b) j = (j = i \<or> get b j)"
  using put_size put_invar
  by (simp add: get_contents put_contents nth_list_update flip: size_contents)

lemma get_unput:
  assumes "invar b" "i < size_of b" "j < size_of b"
  shows "get (unput i b) j = (j \<noteq> i \<and> get b j)"
proof -
  have "size_of (unput i b) = size_of b" using assms unput_contents [of b i] by (simp add: size_contents)
  then show ?thesis using assms unput_invar
    by (simp add: get_contents unput_contents nth_list_update flip: size_contents)
qed

text \<open>Recording a sequence of indices leaves exactly the old ones and those of the sequence.\<close>

lemma fold_put:
  assumes "invar b" and "\<forall>i \<in> set is. i < size_of b"
  shows "invar (fold put is b) \<and> size_of (fold put is b) = size_of b \<and>
    (\<forall>j < size_of b. get (fold put is b) j = (j \<in> set is \<or> get b j))"
  using assms
proof (induction "is" arbitrary: b)
  case (Cons i "is")
  then have "invar (put i b)" "size_of (put i b) = size_of b" by (simp_all add: put_invar put_size)
  with Cons show ?case by (auto simp: get_put)
qed simp

lemma total_full: "invar b \<Longrightarrow> total b = size_of b \<longleftrightarrow> (\<forall>i < size_of b. get b i)"
  unfolding size_contents by (simp add: get_contents [unfolded size_contents] total_contents)
    (metis all_set_conv_all_nth filter_id_conv id_apply length_filter_less less_irrefl)

end

interpretation bfv: bit_vector size_bf get_bit set_bit clear_bit count_bf bits_of bitfield_inv
  by unfold_locales
    (simp_all add: bits_of_set_bit bits_of_clear_bit count_bf_refines set_bit_inv clear_bit_inv get_bit_raw)

section \<open>Properties\<close>

text \<open>
  C24: Writing a bit through the masked, byte-swapped words of the buffer is writing the entry of the
  abstract bit sequence: \<^verbatim>\<open>set_bit\<close>, \<^verbatim>\<open>clear_bit\<close>, both forms of \<^verbatim>\<open>resize\<close>, \<^verbatim>\<open>set_all\<close> and \<^verbatim>\<open>clear_all\<close>
  implement the list operations and keep the representation invariant (trailing bits zero, length
  word consistent).
\<close>

theorem bitfield_updates_refine:
  assumes "bitfield_inv bf"
  shows "(i < size_bf bf \<longrightarrow> bitfield_inv (set_bit i bf) \<and> bits_of (set_bit i bf) = (bits_of bf)[i := True]) \<and>
    (i < size_bf bf \<longrightarrow> bitfield_inv (clear_bit i bf) \<and> bits_of (clear_bit i bf) = (bits_of bf)[i := False]) \<and>
    (n < 2 ^ 31 \<longrightarrow> bitfield_inv (resize n bf) \<and>
       bits_of (resize n bf) = take n (bits_of bf) @ replicate (n - size_bf bf) False) \<and>
    (n < 2 ^ 31 \<longrightarrow> bitfield_inv (resize_val n val bf) \<and>
       bits_of (resize_val n val bf) = take n (bits_of bf) @ replicate (n - size_bf bf) val) \<and>
    bitfield_inv (set_all bf) \<and> bits_of (set_all bf) = replicate (size_bf bf) True \<and>
    bitfield_inv (clear_all bf) \<and> bits_of (clear_all bf) = replicate (size_bf bf) False"
  using assms resize_inv(1)
  by (simp add: set_bit_inv bits_of_set_bit clear_bit_inv bits_of_clear_bit bits_of_resize
      bits_of_resize_val set_all_refines clear_all_refines)

theorem bitfield_updates_refine_witness:
  "bits_of (set_bit 2 (resize_val 3 False \<lparr>m_buf = []\<rparr>)) = (replicate 3 False)[2 := True] \<and>
   bitfield_inv (resize_val 40 True (resize_val 3 False \<lparr>m_buf = []\<rparr>))"
proof -
  have e: "bitfield_inv \<lparr>m_buf = []\<rparr>" "bits_of \<lparr>m_buf = []\<rparr> = []"
    by (simp_all add: bitfield_inv_def bits_of_def size_bf_def)
  have "bitfield_inv (resize_val 3 False \<lparr>m_buf = []\<rparr>) \<and> bits_of (resize_val 3 False \<lparr>m_buf = []\<rparr>) = replicate 3 False"
    using bitfield_updates_refine [OF e(1), of 0 3 False] e(2) by (simp add: size_bf_def)
  moreover from this have "size_bf (resize_val 3 False \<lparr>m_buf = []\<rparr>) = 3"
    by (metis bfv.size_contents length_replicate)
  ultimately show ?thesis
    using bitfield_updates_refine [of "resize_val 3 False \<lparr>m_buf = []\<rparr>" 2 40 True] by simp
qed

text \<open>
  C25: The word-wise queries answer for the abstract sequence: \<^verbatim>\<open>get_bit\<close> reads an entry, \<^verbatim>\<open>count\<close> is the
  number of set entries, \<^verbatim>\<open>all_set\<close> and \<^verbatim>\<open>none_set\<close> decide their quantifiers, and \<^verbatim>\<open>find_first_set\<close>,
  which runs over the software log2 or the leading-zero instruction, returns the least set index or \<open>-1\<close>.
\<close>

theorem bitfield_queries_refine:
  assumes "bitfield_inv bf"
  shows "(i < size_bf bf \<longrightarrow> get_bit bf i = bits_of bf ! i) \<and> size_bf bf = length (bits_of bf) \<and>
    count_bf bf = length (filter id (bits_of bf)) \<and>
    (all_set bf \<longleftrightarrow> bits_of bf \<noteq> [] \<and> (\<forall>b \<in> set (bits_of bf). b)) \<and>
    (none_set bf \<longleftrightarrow> (\<forall>b \<in> set (bits_of bf). \<not> b)) \<and>
    find_first_set bf =
      (if True \<in> set (bits_of bf) then int (LEAST j. j < size_bf bf \<and> bits_of bf ! j) else - 1)"
  by (intro conjI impI)
    (rule bfv.get_contents bfv.size_contents count_bf_refines all_set_refines none_set_refines
      find_first_set_refines assms | assumption)+

theorem bitfield_queries_refine_witness:
  "count_bf (resize_val 5 True \<lparr>m_buf = []\<rparr>) = 5"
proof -
  have e: "bitfield_inv \<lparr>m_buf = []\<rparr>" "bits_of \<lparr>m_buf = []\<rparr> = []" "size_bf \<lparr>m_buf = []\<rparr> = 0"
    by (simp_all add: bitfield_inv_def bits_of_def size_bf_def)
  have "bits_of (resize_val 5 True \<lparr>m_buf = []\<rparr>) = replicate 5 True"
    using bits_of_resize_val(1) [OF e(1), of 5 True] e by simp
  moreover have "count_bf (resize_val 5 True \<lparr>m_buf = []\<rparr>) =
      length (filter id (bits_of (resize_val 5 True \<lparr>m_buf = []\<rparr>)))"
    by (rule bitfield_queries_refine [THEN conjunct2, THEN conjunct2, THEN conjunct1])
      (rule bits_of_resize_val(2) [OF e(1)], simp)
  ultimately show ?thesis by simp
qed

text \<open>
  C26: The two implementations of \<^verbatim>\<open>count_leading_zeros\<close>, the de Bruijn multiplication and the
  processor's instruction, agree on every word span.
\<close>

theorem count_leading_zeros_equivalent:
  "count_leading_zeros_sw ws = count_leading_zeros_hw ws"
  by (rule count_leading_zeros_sw_hw)

text \<open>
  C27: \<^verbatim>\<open>assign\<close> turns the bytes of a \<^verbatim>\<open>bitfield\<close> message into the field: bit \<open>i\<close> is bit \<open>7 - i mod 8\<close> of
  byte \<open>i div 8\<close>, as the wire format orders them, and the spare bits of the last byte are cleared.
\<close>

theorem bitfield_assign_wire:
  assumes "bitfield_inv bf" and "n < 2 ^ 31" and "(n + 7) div 8 \<le> length b"
  shows "bitfield_inv (assign b n bf) \<and>
    bits_of (assign b n bf) = map (\<lambda>i. bit (b ! (i div 8)) (7 - i mod 8)) [0..<n]"
  using assign_refines [OF assms] by blast

theorem bitfield_assign_wire_witness:
  "bits_of (assign [0xA0, 0xFF] 9 \<lparr>m_buf = []\<rparr>) =
   [True, False, True, False, False, False, False, False, True]"
proof -
  have "bitfield_inv \<lparr>m_buf = []\<rparr>" by (simp add: bitfield_inv_def size_bf_def)
  moreover have "map (\<lambda>i. bit ([0xA0, 0xFF :: u8] ! (i div 8)) (7 - i mod 8)) [0..<9] =
    [True, False, True, False, False, False, False, False, True]" by code_simp
  ultimately show ?thesis using bitfield_assign_wire [of "\<lparr>m_buf = []\<rparr>" 9 "[0xA0, 0xFF]"] by simp
qed


end
