(* ===== verification/Bencode.thy ===== *)
theory Bencode
  imports Prelude "HOL-Library.Monad_Syntax"
begin

text \<open>
  The bencoding value type and its encoder: \<^verbatim>\<open>entry\<close> (\<^verbatim>\<open>entry.hpp\<close>, \<^verbatim>\<open>entry.cpp\<close>), the decimal
  printers \<^verbatim>\<open>integer_to_str\<close> (\<^verbatim>\<open>entry.cpp\<close>) and \<^verbatim>\<open>to_string\<close> (\<^verbatim>\<open>string_util.cpp\<close>), and
  \<^verbatim>\<open>bencode_recursive\<close> (\<^verbatim>\<open>bencode.hpp\<close>). The lemmas say what the printers write and that the
  encoder returns the number of bytes it wrote.
\<close>

section \<open>Characters\<close>

definition numeric :: "char \<Rightarrow> bool" where
  "numeric c \<longleftrightarrow> 48 \<le> (of_char c :: nat) \<and> (of_char c :: nat) \<le> 57"

definition digit_char :: "nat \<Rightarrow> char" where
  "digit_char d = char_of (48 + d)"

definition digit_val :: "char \<Rightarrow> nat" where
  "digit_val c = of_char c - 48"

lemma digit_char_numeric [simp]: "d < 10 \<Longrightarrow> numeric (digit_char d)"
  by (simp add: numeric_def digit_char_def)

lemma digit_val_char [simp]: "d < 10 \<Longrightarrow> digit_val (digit_char d) = d"
  by (simp add: digit_val_def digit_char_def)

lemma numeric_not [simp]:
  "\<not> numeric (CHR ''e'')" "\<not> numeric (CHR ''i'')" "\<not> numeric (CHR ''d'')" "\<not> numeric (CHR ''l'')"
  "\<not> numeric (CHR ''-'')" "\<not> numeric (CHR '':'')"
  by (simp_all add: numeric_def)

lemma numeric_neq:
  assumes "numeric c"
  shows "c \<noteq> CHR ''e''" "c \<noteq> CHR ''i''" "c \<noteq> CHR ''d''" "c \<noteq> CHR ''l''" "c \<noteq> CHR ''-''" "c \<noteq> CHR '':''"
  using assms numeric_not by metis+

section \<open>Printing integers\<close>

text \<open>The decimal digits of a number, as the specification of the printers.\<close>

fun dec :: "nat \<Rightarrow> string" where
  "dec n = (if n < 10 then [digit_char n] else dec (n div 10) @ [digit_char (n mod 10)])"

declare dec.simps [simp del]

text \<open>
  \<^verbatim>\<open>integer_to_str\<close> fills a buffer from its end. \<open>ptr\<close> is the index of the next free position, the
  loop runs while it is beyond the sign's position and digits are left. Negating the smallest
  64-bit integer overflows, which C++ leaves undefined: \<open>None\<close>.
\<close>

fun int_digits_loop :: "nat \<Rightarrow> nat \<Rightarrow> int \<Rightarrow> string \<Rightarrow> string" where
  "int_digits_loop 0 sign val out = out"
| "int_digits_loop (Suc ptr) sign val out =
     (if Suc ptr > sign \<and> val \<noteq> 0
      then int_digits_loop ptr sign (val div 10) (digit_char (nat (val mod 10)) # out) else out)"

definition integer_to_str :: "nat \<Rightarrow> int \<Rightarrow> string option" where
  "integer_to_str buf_size val =
     (if val = - (2 ^ 63) then None
      else let sign = (if val < 0 then 1 else 0);
               val' = (if val < 0 then - val else val);
               ptr = buf_size - 2;
               out = (if val' = 0 then [digit_char 0] else []);
               ptr = (if val' = 0 then ptr - 1 else ptr);
               out = int_digits_loop ptr sign val' out
           in Some (if sign \<noteq> 0 then CHR ''-'' # out else out))"

text \<open>
  \<^verbatim>\<open>to_string\<close> computes the absolute value in unsigned arithmetic, so it covers every 64-bit
  integer; its loop runs at least once.
\<close>

function unsigned_digits_loop :: "nat \<Rightarrow> string \<Rightarrow> string" where
  "unsigned_digits_loop un out =
     (let out = digit_char (un mod 10) # out; un = un div 10
      in if un \<noteq> 0 then unsigned_digits_loop un out else out)"
  by pat_completeness auto
termination by (relation "measure fst") auto

declare unsigned_digits_loop.simps [simp del]

definition to_string :: "int \<Rightarrow> string" where
  "to_string n =
     (let u = uint (word_of_int n :: u64);
          un = (if n < 0 then uint (0xFFFFFFFFFFFFFFFF - (word_of_int n :: u64) + 1) else u);
          out = unsigned_digits_loop (nat un) []
      in if n < 0 then CHR ''-'' # out else out)"

lemma int_digits_loop_dec:
  "0 < val \<Longrightarrow> val < 10 ^ (ptr - sign) \<Longrightarrow> int_digits_loop ptr sign val out = dec (nat val) @ out"
proof (induction ptr arbitrary: val out)
  case 0
  then show ?case by simp
next
  case (Suc ptr)
  show ?case
  proof (cases "val < 10")
    case True
    have s: "sign < Suc ptr" using Suc.prems by (cases "sign < Suc ptr") auto
    have "int_digits_loop ptr sign 0 xs = xs" for xs by (cases ptr) auto
    moreover have "val div 10 = 0" "val mod 10 = val" using True Suc.prems by auto
    ultimately show ?thesis using True s Suc.prems by (simp add: dec.simps)
  next
    case False
    have s: "sign < Suc ptr" using Suc.prems False by (cases "sign < Suc ptr") auto
    then have "Suc ptr - sign = Suc (ptr - sign)" by simp
    with Suc.prems have "val div 10 < 10 ^ (ptr - sign)" by (simp add: div_less_iff_less_mult mult.commute)
    moreover have "0 < val div 10" using False by simp
    ultimately have IH: "int_digits_loop ptr sign (val div 10) (digit_char (nat (val mod 10)) # out) =
        dec (nat (val div 10)) @ digit_char (nat (val mod 10)) # out" by (rule Suc.IH [rotated])
    have "dec (nat val) = dec (nat (val div 10)) @ [digit_char (nat (val mod 10))]"
      using False by (subst dec.simps) (simp add: nat_div_distrib nat_mod_distrib nat_less_iff)
    with IH False s show ?thesis by simp
  qed
qed

lemma integer_to_str_nonneg:
  assumes "0 \<le> val" and "val < 2 ^ 63"
  shows "integer_to_str 21 val = Some (dec (nat val))"
proof (cases "val = 0")
  case True
  then show ?thesis by (simp add: integer_to_str_def dec.simps)
    (simp add: numeral_eq_Suc)
next
  case False
  have "val < 10 ^ (19 - 0)"
    using assms by simp
  then show ?thesis using assms False int_digits_loop_dec [of val 19 0 "[]"]
    by (simp add: integer_to_str_def Let_def)
qed

lemma integer_to_str_neg:
  assumes "val < 0" and "- (10 ^ 18) < val"
  shows "integer_to_str 21 val = Some (CHR ''-'' # dec (nat (- val)))"
proof -
  have "- val < 10 ^ (19 - 1)" using assms by simp
  then show ?thesis using assms int_digits_loop_dec [of "- val" 19 1 "[]"]
    by (simp add: integer_to_str_def Let_def)
qed

lemma unsigned_digits_loop_dec: "unsigned_digits_loop un out = dec un @ out"
proof (induction un out rule: unsigned_digits_loop.induct)
  case (1 un out)
  then show ?case
    by (subst unsigned_digits_loop.simps, subst dec.simps) (auto simp: Let_def div_eq_0_iff)
qed

lemma to_string_dec:
  assumes "- (2 ^ 63) \<le> n" and "n < 2 ^ 63"
  shows "to_string n = (if n < 0 then CHR ''-'' # dec (nat (- n)) else dec (nat n))"
proof -
  have eq: "0xFFFFFFFFFFFFFFFF - (word_of_int n :: u64) + 1 = word_of_int (- n)"
    by simp
  have "uint (word_of_int (- n) :: u64) = - n" if "n < 0"
    by (subst uint_word_of_int) (use that assms in simp)
  moreover have "uint (word_of_int n :: u64) = n" if "\<not> n < 0"
    using that assms by (simp add: uint_word_of_int)
  ultimately show ?thesis
    unfolding to_string_def Let_def eq unsigned_digits_loop_dec by (cases "n < 0") (simp_all only: if_True if_False append_Nil2 simp_thms True_implies_equals)
qed

section \<open>Entries\<close>

text \<open>
  A dictionary is a \<^verbatim>\<open>std::map\<close>: its pairs are visited in the order of the keys, compared as byte
  strings. The model keeps them as the sorted list of pairs.
\<close>

datatype entry =
    Int_e int
  | String_e string
  | List_e "entry list"
  | Dict_e "(string \<times> entry) list"
  | Preformatted_e string
  | Undefined_e

fun key_less :: "string \<Rightarrow> string \<Rightarrow> bool" where
  "key_less [] ys = (ys \<noteq> [])"
| "key_less (x # xs) [] = False"
| "key_less (x # xs) (y # ys) =
     ((of_char x :: nat) < of_char y \<or> (x = y \<and> key_less xs ys))"

text \<open>\<^verbatim>\<open>d[key] = value\<close>: insertion at the key's place, or replacement.\<close>

fun dict_assign :: "string \<Rightarrow> 'v \<Rightarrow> (string \<times> 'v) list \<Rightarrow> (string \<times> 'v) list" where
  "dict_assign k v [] = [(k, v)]"
| "dict_assign k v ((k', v') # d) =
     (if k = k' then (k, v) # d
      else if key_less k k' then (k, v) # (k', v') # d
      else (k', v') # dict_assign k v d)"

definition find_key :: "string \<Rightarrow> entry \<Rightarrow> entry option" where
  "find_key key e = (case e of Dict_e d \<Rightarrow> map_of d key | _ \<Rightarrow> None)"

definition write_integer :: "int \<Rightarrow> (string \<times> nat) option" where
  "write_integer val = map_option (\<lambda>str. (str, length str)) (integer_to_str 21 val)"

text \<open>
  The encoder returns what it wrote and the byte count it reports; the count is summed the way
  the code sums it.
\<close>

fun bencode_recursive :: "entry \<Rightarrow> (string \<times> nat) option"
and bencode_list :: "entry list \<Rightarrow> (string \<times> nat) option"
and bencode_dict :: "(string \<times> entry) list \<Rightarrow> (string \<times> nat) option" where
  "bencode_recursive (Int_e i) =
     do { (s, n) \<leftarrow> write_integer i; Some (CHR ''i'' # s @ ''e'', n + 2) }"
| "bencode_recursive (String_e str) =
     do { (s, n) \<leftarrow> write_integer (int (length str)); Some (s @ '':'' @ str, n + length str + 1) }"
| "bencode_recursive (List_e es) =
     do { (s, n) \<leftarrow> bencode_list es; Some (CHR ''l'' # s @ ''e'', n + 2) }"
| "bencode_recursive (Dict_e kvs) =
     do { (s, n) \<leftarrow> bencode_dict kvs; Some (CHR ''d'' # s @ ''e'', n + 2) }"
| "bencode_recursive (Preformatted_e s) = Some (s, length s)"
| "bencode_recursive Undefined_e = Some (''0:'', 2)"
| "bencode_list [] = Some ([], 0)"
| "bencode_list (e # es) =
     do { (s, n) \<leftarrow> bencode_recursive e; (s', n') \<leftarrow> bencode_list es; Some (s @ s', n + n') }"
| "bencode_dict [] = Some ([], 0)"
| "bencode_dict ((k, e) # kvs) =
     do { (ks, kn) \<leftarrow> write_integer (int (length k));
          (s, n) \<leftarrow> bencode_recursive e;
          (s', n') \<leftarrow> bencode_dict kvs;
          Some (ks @ '':'' @ k @ s @ s', kn + length k + n + 1 + n') }"

definition bencode :: "entry \<Rightarrow> string option" where
  "bencode e = map_option fst (bencode_recursive e)"

lemma write_integer_count: "write_integer i = Some (s, n) \<Longrightarrow> n = length s"
  by (auto simp: write_integer_def)

lemma bencode_count:
  "bencode_recursive e = Some (s, n) \<Longrightarrow> n = length s"
  "bencode_list es = Some (s, n) \<Longrightarrow> n = length s"
  "bencode_dict kvs = Some (s, n) \<Longrightarrow> n = length s"
proof (induction e and es and kvs arbitrary: s n and s n and s n
      rule: bencode_recursive_bencode_list_bencode_dict.induct)
  case (8 e es)
  from "8.prems" obtain s1 n1 s2 n2 where
    "bencode_recursive e = Some (s1, n1)" "bencode_list es = Some (s2, n2)" "s = s1 @ s2" "n = n1 + n2"
    by (auto simp: bind_eq_Some_conv)
  with "8.IH" show ?case by auto
next
  case (10 k e kvs)
  from "10.prems" obtain ks kn s1 n1 s2 n2 where
    w: "write_integer (int (length k)) = Some (ks, kn)" and r: "bencode_recursive e = Some (s1, n1)"
    and d: "bencode_dict kvs = Some (s2, n2)" and "s = ks @ '':'' @ k @ s1 @ s2" "n = kn + length k + n1 + 1 + n2"
    by (auto simp: bind_eq_Some_conv)
  moreover have "n1 = length s1" using "10.IH"(1) [OF w refl r] .
  moreover have "n2 = length s2" using "10.IH"(2) [OF w refl r refl d] .
  ultimately show ?case using write_integer_count [OF w] by simp
qed (auto simp: bind_eq_Some_conv dest: write_integer_count)

text \<open>What the encoder writes on the values it can represent, without the counts.\<close>

fun enc :: "entry \<Rightarrow> string" where
  "enc (Int_e i) = CHR ''i'' # (if i < 0 then CHR ''-'' # dec (nat (- i)) else dec (nat i)) @ ''e''"
| "enc (String_e s) = dec (length s) @ '':'' @ s"
| "enc (List_e es) = CHR ''l'' # concat (map enc es) @ ''e''"
| "enc (Dict_e kvs) =
     CHR ''d'' # concat (map (\<lambda>kv. (dec (length (fst kv)) @ '':'' @ fst kv) @ enc (snd kv)) kvs) @ ''e''"
| "enc (Preformatted_e s) = s"
| "enc Undefined_e = ''0:''"

text \<open>
  The values the encoder is right on: integers whose decimal representation fits the 21-byte
  buffer, strings that fit a 64-bit length.
\<close>

fun encodable :: "entry \<Rightarrow> bool" where
  "encodable (Int_e i) = (- (10 ^ 18) < i \<and> i < 2 ^ 63)"
| "encodable (String_e s) = (int (length s) < 2 ^ 63)"
| "encodable (List_e es) = (\<forall>e \<in> set es. encodable e)"
| "encodable (Dict_e kvs) =
     (\<forall>kv \<in> set kvs. int (length (fst kv)) < 2 ^ 63 \<and> encodable (snd kv))"
| "encodable _ = True"

lemma write_integer_int:
  "- (10 ^ 18) < i \<Longrightarrow> i < 2 ^ 63 \<Longrightarrow>
   write_integer i = Some (if i < 0 then CHR ''-'' # dec (nat (- i)) else dec (nat i),
     length (if i < 0 then CHR ''-'' # dec (nat (- i)) else dec (nat i)))"
  using integer_to_str_neg [of i] integer_to_str_nonneg [of i] by (simp add: write_integer_def)

lemma bencode_enc:
  "encodable e \<Longrightarrow> bencode_recursive e = Some (enc e, length (enc e))"
  "\<forall>e \<in> set es. encodable e \<Longrightarrow> bencode_list es = Some (concat (map enc es), length (concat (map enc es)))"
  "\<forall>kv \<in> set kvs. int (length (fst kv)) < 2 ^ 63 \<and> encodable (snd kv) \<Longrightarrow>
   \<exists>n. bencode_dict kvs = Some (concat (map (\<lambda>kv. (dec (length (fst kv)) @ '':'' @ fst kv) @ enc (snd kv)) kvs), n)"
proof (induction e and es and kvs rule: bencode_recursive_bencode_list_bencode_dict.induct)
  case (4 kvs)
  then obtain n where "bencode_recursive (Dict_e kvs) = Some (enc (Dict_e kvs), n)" by auto
  then show ?case using bencode_count(1) by blast
next
  case (10 k e kvs)
  then show ?case by (fastforce simp: write_integer_int)
qed (auto simp: write_integer_int)

section \<open>Decimal strings\<close>

lemma dec_not_Nil [simp]: "dec n \<noteq> []"
  by (subst dec.simps) simp

lemma dec_numeric: "c \<in> set (dec n) \<Longrightarrow> numeric c"
proof (induction n rule: dec.induct)
  case (1 n)
  then show ?case by (cases "n < 10") (auto simp: dec.simps [of n])
qed

lemma length_dec_le: "n < 10 ^ k \<Longrightarrow> 0 < k \<Longrightarrow> length (dec n) \<le> k"
proof (induction n arbitrary: k rule: dec.induct)
  case (1 n)
  show ?case
  proof (cases "n < 10")
    case True
    with 1 show ?thesis by (simp add: dec.simps)
  next
    case False
    have "1 < k" using 1(2,3) False by (cases "k = 1") auto
    then obtain k' where k: "k = Suc k'" "0 < k'" by (cases k) auto
    with 1(2) have "n div 10 < 10 ^ k'" by (simp add: less_mult_imp_div_less mult.commute)
    from 1(1) [OF False this k(2)] False k show ?thesis by (simp add: dec.simps [of n])
  qed
qed

definition dec_val :: "int \<Rightarrow> string \<Rightarrow> int" where
  "dec_val v ds = foldl (\<lambda>v c. v * 10 + int (digit_val c)) v ds"

lemma dec_val_simps [simp]:
  "dec_val v [] = v" "dec_val v (c # ds) = dec_val (v * 10 + int (digit_val c)) ds"
  "dec_val v (xs @ ys) = dec_val (dec_val v xs) ys"
  by (simp_all add: dec_val_def)

lemma dec_val_mono: "0 \<le> v \<Longrightarrow> v \<le> dec_val v ds"
proof (induction ds arbitrary: v)
  case (Cons c ds)
  have "v \<le> v * 10 + int (digit_val c)" using Cons.prems by simp
  also have "\<dots> \<le> dec_val (v * 10 + int (digit_val c)) ds" using Cons.prems by (intro Cons.IH) simp
  finally show ?case by simp
qed simp

lemma dec_val_dec: "dec_val 0 (dec n) = int n"
proof (induction n rule: dec.induct)
  case (1 n)
  show ?case
  proof (cases "n < 10")
    case False
    with 1 show ?thesis
      by (subst dec.simps) (simp add: zdiv_int zmod_int)
  qed (simp add: dec.simps [of n])
qed

section \<open>Properties\<close>

text \<open>
  C29: \<^verbatim>\<open>integer_to_str\<close> writes the decimal representation of every value from \<open>1 - 10 ^ 18\<close> to
  \<open>2 ^ 63 - 1\<close>.
\<close>

theorem integer_to_str_decimal:
  assumes "- (10 ^ 18) < val" and "val < 2 ^ 63"
  shows "integer_to_str 21 val =
    Some (if val < 0 then CHR ''-'' # dec (nat (- val)) else dec (nat val))"
  using integer_to_str_neg [of val] integer_to_str_nonneg [of val] assms by simp

theorem integer_to_str_decimal_witness: "integer_to_str 21 (-42) = Some ''-42''"
proof -
  have "dec 42 = ''42''" by code_simp
  then show ?thesis using integer_to_str_decimal [of "-42"] by simp
qed


end
