(* ===== verification/Bdecode.thy ===== *)
theory Bdecode
  imports Bencode
begin

text \<open>
  The bencoding decoder of \<^verbatim>\<open>bdecode.cpp\<close>: the token scanners \<^verbatim>\<open>check_integer\<close> and
  \<^verbatim>\<open>parse_int\<close>, the decoding loop with its explicit stack and its error recovery, and the accessors
  of \<^verbatim>\<open>bdecode_node\<close>, which walk the flat token array with relative jumps and keep a cache of the
  last position. Positions are indices into the buffer. The buffer is the string the C++ pointers
  \<^verbatim>\<open>start\<close> and \<^verbatim>\<open>end\<close> delimit.
\<close>

section \<open>Tokens\<close>

datatype token_type = T_none | T_dict | T_list | T_string | T_integer | T_long_string | T_end

datatype bdecode_error =
    no_error | expected_digit | expected_colon | unexpected_eof | expected_value
  | depth_exceeded | limit_exceeded | overflow

record bdecode_token =
  offset :: nat
  type_of :: token_type
  next_item :: nat
  header :: nat

definition max_offset :: int where "max_offset = 2 ^ 29 - 1"
definition max_next_item :: int where "max_next_item = 2 ^ 29 - 1"
definition short_string_max_header :: nat where "short_string_max_header = 2 ^ 3 - 1 + 2"
definition long_string_max_header :: nat where "long_string_max_header = 8 + 2 ^ 3 - 1 + 2"

text \<open>The two constructors; the fields are bit fields of 29, 3, 29 and 3 bits.\<close>

definition bits29 :: "nat \<Rightarrow> nat" where "bits29 n = nat (int n mod 2 ^ 29)"
definition bits3 :: "nat \<Rightarrow> nat" where "bits3 n = nat (int n mod 2 ^ 3)"

definition token2 :: "nat \<Rightarrow> token_type \<Rightarrow> bdecode_token" where
  "token2 off t = \<lparr>offset = bits29 off, type_of = t, next_item = 0, header = 0\<rparr>"

definition token4 :: "nat \<Rightarrow> nat \<Rightarrow> token_type \<Rightarrow> nat \<Rightarrow> bdecode_token" where
  "token4 off nxt t header_size =
     (let ty = (if t = T_string \<and> header_size > short_string_max_header then T_long_string else t)
      in \<lparr>offset = bits29 off, type_of = ty, next_item = bits29 nxt,
          header = bits3 (if ty = T_string then header_size - 2
                          else if ty = T_long_string then header_size - 8 - 2 else 0)\<rparr>)"

definition start_offset :: "bdecode_token \<Rightarrow> nat" where
  "start_offset t = (if type_of t = T_string then header t + 2 else header t + 8 + 2)"

section \<open>Scanners\<close>

text \<open>
  Both scanners take the rest of the buffer; they return how far they advanced. The digit loop of
  \<^verbatim>\<open>check_integer\<close> stops at \<^verbatim>\<open>e\<close>, at the end of the buffer or at a character that is no digit.
\<close>

fun check_integer_loop :: "string \<Rightarrow> nat \<Rightarrow> nat \<times> bdecode_error" where
  "check_integer_loop [] digits = (digits, unexpected_eof)"
| "check_integer_loop (c # cs) digits =
     (if \<not> numeric c then (digits, expected_digit)
      else case cs of
             [] \<Rightarrow> (Suc digits, unexpected_eof)
           | c' # _ \<Rightarrow> if c' = CHR ''e'' then (Suc digits, no_error)
                       else check_integer_loop cs (Suc digits))"

definition check_integer :: "string \<Rightarrow> nat \<times> bdecode_error" where
  "check_integer cs =
     (case cs of
        [] \<Rightarrow> (0, unexpected_eof)
      | c # cs' \<Rightarrow>
          let sign = (if c = CHR ''-'' then 1 else 0); rest = drop sign cs in
          if rest = [] then (sign, unexpected_eof)
          else let (digits, e) = check_integer_loop rest 0
               in (sign + digits, if digits > 20 then overflow else e))"

definition int64_max :: int where "int64_max = 2 ^ 63 - 1"

fun parse_int :: "string \<Rightarrow> char \<Rightarrow> int \<Rightarrow> nat \<Rightarrow> nat \<times> int \<times> bdecode_error" where
  "parse_int [] delimiter val n = (n, val, no_error)"
| "parse_int (c # cs) delimiter val n =
     (if c = delimiter then (n, val, no_error)
      else if \<not> numeric c then (n, val, expected_digit)
      else if val > int64_max div 10 then (n, val, overflow)
      else let val' = val * 10; digit = int (digit_val c) in
           if val' > int64_max - digit then (n, val', overflow)
           else parse_int cs delimiter (val' + digit) (Suc n))"

section \<open>The decoding loop\<close>

record stack_frame =
  token :: nat
  fstate :: bool \<comment> \<open>\<open>False\<close>: reading a key, \<open>True\<close>: reading a value\<close>

text \<open>The stack is a list with its top first; \<^verbatim>\<open>sp\<close> is its length.\<close>

record bd_state =
  tokens :: "bdecode_token list"
  stack :: "stack_frame list"
  start :: nat
  token_limit :: int

datatype bd_step =
    Fail bdecode_error nat bd_state \<comment> \<open>the error, its reported position, the state at \<^verbatim>\<open>done\<close>\<close>
  | Next bd_state

definition fail :: "bdecode_error \<Rightarrow> bd_state \<Rightarrow> bd_step" where
  "fail e st = Fail e (start st) st"

definition new_frame :: "bd_state \<Rightarrow> stack_frame" where
  "new_frame st = \<lparr>token = length (tokens st), fstate = False\<rparr>"

definition frame_is_dict :: "bdecode_token list \<Rightarrow> stack_frame \<Rightarrow> bool" where
  "frame_is_dict ts f = (type_of (ts ! token f) = T_dict)"

text \<open>
  After an item, the frame that was on top when the item started changes between key and value
  if it is a dictionary's.
\<close>

definition flip_state :: "bdecode_token list \<Rightarrow> stack_frame list \<Rightarrow> stack_frame list" where
  "flip_state ts fs = (case fs of [] \<Rightarrow> []
     | f # r \<Rightarrow> (if frame_is_dict ts f then f\<lparr>fstate := \<not> fstate f\<rparr> else f) # r)"

definition step_open :: "token_type \<Rightarrow> bd_state \<Rightarrow> bd_step" where
  "step_open ty st =
     Next (st\<lparr>stack := new_frame st # flip_state (tokens st) (stack st),
              tokens := tokens st @ [token2 (start st) ty],
              start := start st + 1\<rparr>)"

definition step_integer :: "string \<Rightarrow> bd_state \<Rightarrow> bd_step" where
  "step_integer buf st =
     (let (n, e) = check_integer (drop (start st + 1) buf) in
      if e \<noteq> no_error then Fail e (start st + 1 + n) st
      else Next (st\<lparr>tokens := tokens st @ [token4 (start st) 1 T_integer 1],
                    stack := flip_state (tokens st) (stack st),
                    start := start st + 1 + n + 1\<rparr>))"

definition step_end :: "bd_state \<Rightarrow> bd_step" where
  "step_end st =
     (case stack st of
        [] \<Rightarrow> fail unexpected_eof st
      | f # fs \<Rightarrow>
          if frame_is_dict (tokens st) f \<and> fstate f then fail expected_value st
          else let ts = tokens st @ [token4 (start st) 1 T_end 0]; top = token f in
               if int (length ts) - int top > max_next_item then fail limit_exceeded (st\<lparr>tokens := ts\<rparr>)
               else Next (st\<lparr>tokens := ts[top := (ts ! top)\<lparr>next_item := bits29 (length ts - top)\<rparr>],
                             stack := fs, start := start st + 1\<rparr>))"

definition step_string :: "string \<Rightarrow> bd_state \<Rightarrow> bd_step" where
  "step_string buf st =
     (let t = buf ! start st in
      if \<not> numeric t then fail expected_value st
      else let str_start = start st; st1 = st\<lparr>start := start st + 1\<rparr> in
        if start st1 \<ge> length buf then fail unexpected_eof st1
        else let (n, len, e) = parse_int (drop (start st1) buf) (CHR '':'') (int (digit_val t)) 0;
                 st2 = st1\<lparr>start := start st1 + n\<rparr> in
          if e \<noteq> no_error then fail e st2
          else if start st2 = length buf then fail expected_colon st2
          else let buff_size = int (length buf) - int (start st2) - 1 in
            if len > buff_size then fail unexpected_eof st2
            else if len < 0 then fail overflow st2
            else let st3 = st2\<lparr>start := start st2 + 1\<rparr>; hdr = start st3 - str_start in
              if hdr > long_string_max_header then fail limit_exceeded st3
              else Next (st3\<lparr>tokens := tokens st @ [token4 str_start 1 T_string hdr],
                             stack := flip_state (tokens st) (stack st),
                             start := start st3 + nat len\<rparr>))"

definition bdecode_step :: "string \<Rightarrow> nat \<Rightarrow> bd_state \<Rightarrow> bd_step" where
  "bdecode_step buf depth_limit st =
     (if start st \<ge> length buf then fail unexpected_eof st
      else if length (stack st) \<ge> depth_limit then fail depth_exceeded st
      else let st = st\<lparr>token_limit := token_limit st - 1\<rparr> in
        if token_limit st < 0 then fail limit_exceeded st
        else let t = buf ! start st in
          if (case stack st of [] \<Rightarrow> False
              | f # _ \<Rightarrow> frame_is_dict (tokens st) f \<and> \<not> fstate f) \<and> \<not> numeric t \<and> t \<noteq> CHR ''e''
          then fail expected_digit st
          else if t = CHR ''d'' then step_open T_dict st
          else if t = CHR ''l'' then step_open T_list st
          else if t = CHR ''i'' then step_integer buf st
          else if t = CHR ''e'' then step_end st
          else step_string buf st)"

lemma bits29_id [simp]: "n < 2 ^ 29 \<Longrightarrow> bits29 n = n"
  by (simp add: bits29_def)

lemma bits3_id [simp]: "n < 8 \<Longrightarrow> bits3 n = n"
  by (simp add: bits3_def)

lemma step_progress:
  assumes "bdecode_step buf depth_limit st = Next st'"
  shows "start st < length buf" and "start st < start st'"
  using assms
  by (auto simp: bdecode_step_def fail_def step_open_def step_integer_def step_end_def step_string_def
      Let_def split: if_splits list.splits prod.splits)

text \<open>The loop ends when the top-level item is complete; it returns the error and its position.\<close>

function bdecode_loop :: "string \<Rightarrow> nat \<Rightarrow> bd_state \<Rightarrow> bdecode_error \<times> nat \<times> bd_state" where
  "bdecode_loop buf depth_limit st =
     (case bdecode_step buf depth_limit st of
        Fail e p st' \<Rightarrow> (e, p, st')
      | Next st' \<Rightarrow> if stack st' = [] then (no_error, 0, st') else bdecode_loop buf depth_limit st')"
  by pat_completeness auto
termination
  by (relation "measure (\<lambda>(buf, _, st). length buf - start st)")
    (auto dest: step_progress intro: diff_less_mono2)

declare bdecode_loop.simps [simp del]

text \<open>
  The code at \<^verbatim>\<open>done\<close>: every open container is closed, with an empty dictionary for a missing
  value.
\<close>

fun unwind :: "nat \<Rightarrow> stack_frame list \<Rightarrow> bdecode_token list \<Rightarrow> bdecode_token list" where
  "unwind pos [] ts = ts"
| "unwind pos (f # fs) ts =
     (let ts1 = (if frame_is_dict ts f \<and> fstate f
                 then ts @ [token4 pos 2 T_dict 0, token2 pos T_end] else ts);
          ts2 = ts1[token f := (ts1 ! token f)\<lparr>next_item := bits29 (length ts1 - token f)\<rparr>]
      in unwind pos fs (ts2 @ [token4 pos 1 T_end 0]))"

section \<open>Nodes\<close>

text \<open>
  A node is a position in the token array of its root; \<open>-1\<close> is the empty node and an unset cache.
\<close>

record bdecode_node =
  root_tokens :: "bdecode_token list"
  m_buffer :: string
  m_token_idx :: int
  m_last_index :: int
  m_last_token :: int
  m_size :: int

definition node_at :: "bdecode_token list \<Rightarrow> string \<Rightarrow> nat \<Rightarrow> bdecode_node" where
  "node_at ts buf idx =
     \<lparr>root_tokens = ts, m_buffer = buf, m_token_idx = int idx,
      m_last_index = -1, m_last_token = -1, m_size = -1\<rparr>"

definition empty_node :: bdecode_node where
  "empty_node =
     \<lparr>root_tokens = [], m_buffer = [], m_token_idx = -1, m_last_index = -1, m_last_token = -1, m_size = -1\<rparr>"

definition bdecode :: "string \<Rightarrow> nat \<Rightarrow> int \<Rightarrow> bdecode_error \<times> nat \<times> bdecode_node" where
  "bdecode buffer depth_limit limit =
     (if int (length buffer) > max_offset then (limit_exceeded, 0, empty_node)
      else let init = \<lparr>tokens = [], stack = [], start = 0, token_limit = limit\<rparr>;
               (e, p, st) = (if buffer = [] then (unexpected_eof, 0, init)
                             else bdecode_loop buffer depth_limit init);
               ts = unwind (start st) (stack st) (tokens st) @ [token4 (start st) 0 T_end 0]
           in (e, p, node_at ts (take (start st) buffer) 0))"

section \<open>Accessors\<close>

text \<open>
  The accessors read the token array through \<^verbatim>\<open>m_root_tokens\<close>. A read outside the array, or a walk
  that makes no progress, has no result: \<open>None\<close>.
\<close>

definition tok :: "bdecode_token list \<Rightarrow> nat \<Rightarrow> bdecode_token option" where
  "tok ts i = (if i < length ts then Some (ts ! i) else None)"

definition node_type :: "bdecode_node \<Rightarrow> token_type option" where
  "node_type n =
     (if m_token_idx n = -1 then Some T_none
      else do { t \<leftarrow> tok (root_tokens n) (nat (m_token_idx n));
                Some (if type_of t = T_long_string then T_string else type_of t) })"

definition token_source_span :: "bdecode_token list \<Rightarrow> nat \<Rightarrow> int option" where
  "token_source_span ts i =
     do { t \<leftarrow> tok ts i; t' \<leftarrow> tok ts (i + 1); Some (int (offset t') - int (offset t)) }"

text \<open>A \<^verbatim>\<open>string_view\<close> into the buffer; a range outside the buffer has no value.\<close>

definition substr :: "string \<Rightarrow> nat \<Rightarrow> int \<Rightarrow> string option" where
  "substr buf from len =
     (if 0 \<le> len \<and> from + nat len \<le> length buf then Some (take (nat len) (drop from buf)) else None)"

definition string_at :: "bdecode_token list \<Rightarrow> string \<Rightarrow> nat \<Rightarrow> string option" where
  "string_at ts buf i =
     do { t \<leftarrow> tok ts i; span \<leftarrow> token_source_span ts i;
          substr buf (offset t + start_offset t) (span - int (start_offset t)) }"

definition string_value :: "bdecode_node \<Rightarrow> string option" where
  "string_value n = string_at (root_tokens n) (m_buffer n) (nat (m_token_idx n))"

definition int_value :: "bdecode_node \<Rightarrow> int option" where
  "int_value n =
     do { t \<leftarrow> tok (root_tokens n) (nat (m_token_idx n));
          size \<leftarrow> token_source_span (root_tokens n) (nat (m_token_idx n));
          let ptr = offset t + 1 in
          if ptr \<ge> length (m_buffer n) then None
          else let negative = (m_buffer n ! ptr = CHR ''-'');
                   from = ptr + (if negative then 1 else 0);
                   (consumed, val, ec) =
                     parse_int (take (nat (int ptr + size) - from) (drop from (m_buffer n))) (CHR ''e'') 0 0
               in Some (if ec \<noteq> no_error then 0 else if negative then - val else val) }"

fun walk :: "bdecode_token list \<Rightarrow> nat \<Rightarrow> nat \<Rightarrow> nat option" where
  "walk ts i 0 = Some i"
| "walk ts i (Suc n) = do { t \<leftarrow> tok ts i; walk ts (i + next_item t) n }"

text \<open>Counting the items from a position to the closing token.\<close>

function count_items :: "bdecode_token list \<Rightarrow> nat \<Rightarrow> nat \<Rightarrow> nat option" where
  "count_items ts i ret =
     (if i < length ts
      then if type_of (ts ! i) = T_end then Some ret
           else if next_item (ts ! i) = 0 then None
           else count_items ts (i + next_item (ts ! i)) (Suc ret)
      else None)"
  by pat_completeness auto
termination by (relation "measure (\<lambda>(ts, i, _). length ts - i)") auto

declare count_items.simps [simp del]

definition cached :: "bdecode_node \<Rightarrow> int \<Rightarrow> bool" where
  "cached n i \<longleftrightarrow> m_last_index n \<le> i \<and> m_last_index n \<noteq> -1"

text \<open>Each accessor returns its result and the node with the updated cache (the fields are
  \<^verbatim>\<open>mutable\<close>).\<close>

definition list_at :: "nat \<Rightarrow> bdecode_node \<Rightarrow> (bdecode_node \<times> bdecode_node) option" where
  "list_at i n =
     (let (tk, item) = (if cached n (int i) then (nat (m_last_token n), nat (m_last_index n))
                        else (nat (m_token_idx n) + 1, 0)) in
      do { tk' \<leftarrow> walk (root_tokens n) tk (i - item);
           Some (node_at (root_tokens n) (m_buffer n) tk',
                 n\<lparr>m_last_token := int tk', m_last_index := int i\<rparr>) })"

definition list_size :: "bdecode_node \<Rightarrow> (nat \<times> bdecode_node) option" where
  "list_size n =
     (if m_size n \<noteq> -1 then Some (nat (m_size n), n)
      else let (tk, ret) = (if m_last_index n \<noteq> -1 then (nat (m_last_token n), nat (m_last_index n))
                            else (nat (m_token_idx n) + 1, 0)) in
        do { r \<leftarrow> count_items (root_tokens n) tk ret; Some (r, n\<lparr>m_size := int r\<rparr>) })"

definition dict_at :: "nat \<Rightarrow> bdecode_node \<Rightarrow> ((string \<times> bdecode_node) \<times> bdecode_node) option" where
  "dict_at i n =
     (let (tk, item) = (if cached n (int i) then (nat (m_last_token n), nat (m_last_index n))
                        else (nat (m_token_idx n) + 1, 0)) in
      do { tk' \<leftarrow> walk (root_tokens n) tk (2 * (i - item));
           t \<leftarrow> tok (root_tokens n) tk';
           key \<leftarrow> string_at (root_tokens n) (m_buffer n) tk';
           Some ((key, node_at (root_tokens n) (m_buffer n) (tk' + next_item t)),
                 if i > 0 then n\<lparr>m_last_token := int tk', m_last_index := int i\<rparr> else n) })"

definition dict_size :: "bdecode_node \<Rightarrow> (nat \<times> bdecode_node) option" where
  "dict_size n =
     (if m_size n \<noteq> -1 then Some (nat (m_size n), n)
      else let (tk, ret) = (if m_last_index n \<noteq> -1 then (nat (m_last_token n), nat (m_last_index n) * 2)
                            else (nat (m_token_idx n) + 1, 0)) in
        do { r \<leftarrow> count_items (root_tokens n) tk ret;
             Some (r div 2, n\<lparr>m_size := int (r div 2)\<rparr>) })"

function dict_find_from :: "bdecode_token list \<Rightarrow> string \<Rightarrow> string \<Rightarrow> nat \<Rightarrow> bdecode_node option" where
  "dict_find_from ts buf key i =
     (if i < length ts
      then if type_of (ts ! i) = T_end then Some empty_node
           else case string_at ts buf i of
                  None \<Rightarrow> None
                | Some k \<Rightarrow>
                    let v = i + next_item (ts ! i) in
                    if k = key then Some (node_at ts buf v)
                    else case tok ts v of None \<Rightarrow> None
                         | Some t \<Rightarrow> if v + next_item t \<le> i then None
                                     else dict_find_from ts buf key (v + next_item t)
      else None)"
  by pat_completeness auto
termination by (relation "measure (\<lambda>(ts, _, _, i). length ts - i)") auto

declare dict_find_from.simps [simp del]

definition dict_find :: "string \<Rightarrow> bdecode_node \<Rightarrow> bdecode_node option" where
  "dict_find key n = dict_find_from (root_tokens n) (m_buffer n) key (nat (m_token_idx n) + 1)"

definition dict_find_type :: "token_type \<Rightarrow> string \<Rightarrow> bdecode_node \<Rightarrow> bdecode_node option" where
  "dict_find_type ty key n =
     do { r \<leftarrow> dict_find key n; t \<leftarrow> node_type r; Some (if t = ty then r else empty_node) }"

abbreviation dict_find_list :: "string \<Rightarrow> bdecode_node \<Rightarrow> bdecode_node option" where
  "dict_find_list \<equiv> dict_find_type T_list"

abbreviation dict_find_dict :: "string \<Rightarrow> bdecode_node \<Rightarrow> bdecode_node option" where
  "dict_find_dict \<equiv> dict_find_type T_dict"

abbreviation dict_find_string :: "string \<Rightarrow> bdecode_node \<Rightarrow> bdecode_node option" where
  "dict_find_string \<equiv> dict_find_type T_string"

abbreviation dict_find_int :: "string \<Rightarrow> bdecode_node \<Rightarrow> bdecode_node option" where
  "dict_find_int \<equiv> dict_find_type T_integer"

definition dict_find_string_value :: "string \<Rightarrow> string \<Rightarrow> bdecode_node \<Rightarrow> string option" where
  "dict_find_string_value key dflt n =
     do { r \<leftarrow> dict_find key n; t \<leftarrow> node_type r; if t \<noteq> T_string then Some dflt else string_value r }"

definition dict_find_int_value :: "string \<Rightarrow> int \<Rightarrow> bdecode_node \<Rightarrow> int option" where
  "dict_find_int_value key dflt n =
     do { r \<leftarrow> dict_find key n; t \<leftarrow> node_type r; if t \<noteq> T_integer then Some dflt else int_value r }"

definition list_string_value_at :: "nat \<Rightarrow> string \<Rightarrow> bdecode_node \<Rightarrow> (string \<times> bdecode_node) option" where
  "list_string_value_at i dflt n =
     do { (c, n') \<leftarrow> list_at i n; t \<leftarrow> node_type c;
          v \<leftarrow> (if t \<noteq> T_string then Some dflt else string_value c); Some (v, n') }"

definition list_int_value_at :: "nat \<Rightarrow> int \<Rightarrow> bdecode_node \<Rightarrow> (int \<times> bdecode_node) option" where
  "list_int_value_at i dflt n =
     do { (c, n') \<leftarrow> list_at i n; t \<leftarrow> node_type c;
          v \<leftarrow> (if t \<noteq> T_integer then Some dflt else int_value c); Some (v, n') }"

text \<open>
  \<^verbatim>\<open>entry::operator=(bdecode_node const&)\<close>: the conversion of a decoded tree, item by item through
  the accessors. The recursion follows the nesting of the buffer; \<open>fuel\<close> bounds it.
\<close>

fun entry_of_node :: "nat \<Rightarrow> bdecode_node \<Rightarrow> entry option"
and entry_list_from :: "nat \<Rightarrow> nat list \<Rightarrow> bdecode_node \<Rightarrow> entry list option"
and entry_dict_from :: "nat \<Rightarrow> nat list \<Rightarrow> bdecode_node \<Rightarrow> (string \<times> entry) list \<Rightarrow> (string \<times> entry) list option" where
  "entry_of_node 0 n = None"
| "entry_of_node (Suc fuel) n =
     do { ty \<leftarrow> node_type n;
          if ty = T_string then map_option String_e (string_value n)
          else if ty = T_integer then map_option Int_e (int_value n)
          else if ty = T_dict then
            do { (sz, n) \<leftarrow> dict_size n; map_option Dict_e (entry_dict_from fuel [0..<sz] n []) }
          else if ty = T_list then
            do { (sz, n) \<leftarrow> list_size n; map_option List_e (entry_list_from fuel [0..<sz] n) }
          else Some Undefined_e }"
| "entry_list_from fuel [] n = Some []"
| "entry_list_from fuel (i # is) n =
     do { (c, n') \<leftarrow> list_at i n; e \<leftarrow> entry_of_node fuel c;
          es \<leftarrow> entry_list_from fuel is n'; Some (e # es) }"
| "entry_dict_from fuel [] n d = Some d"
| "entry_dict_from fuel (i # is) n d =
     do { ((k, c), n') \<leftarrow> dict_at i n; e \<leftarrow> entry_of_node fuel c;
          entry_dict_from fuel is n' (dict_assign k e d) }"

section \<open>A recovered tree with a wrong string\<close>


end
