(* ===== verification/Bdecode_Correct.thy ===== *)
theory Bdecode_Correct
  imports Bdecode
begin

text \<open>
  Correctness of the decoder: what the scanners accept, the tokens the loop produces on an
  encoded value, what the accessors read from them, and the shape of the token array on every
  input, valid or not.
\<close>

section \<open>Scanners on decimal strings\<close>

lemma check_integer_loop_digits:
  "ds \<noteq> [] \<Longrightarrow> \<forall>c \<in> set ds. numeric c \<Longrightarrow>
   check_integer_loop (ds @ CHR ''e'' # rest) k = (k + length ds, no_error)"
proof (induction ds arbitrary: k)
  case (Cons c ds)
  then show ?case by (cases ds) (auto dest: numeric_neq)
qed simp

lemma check_integer_dec:
  assumes "n < 10 ^ 20"
  shows "check_integer (dec n @ CHR ''e'' # rest) = (length (dec n), no_error)"
    and "check_integer (CHR ''-'' # dec n @ CHR ''e'' # rest) = (Suc (length (dec n)), no_error)"
proof -
  have l: "check_integer_loop (dec n @ CHR ''e'' # rest) 0 = (length (dec n), no_error)"
    using check_integer_loop_digits [of "dec n" rest 0] dec_numeric by auto
  have len: "length (dec n) \<le> 20" using assms by (intro length_dec_le) auto
  obtain c ds where ds: "dec n = c # ds" by (cases "dec n") auto
  then have "c \<noteq> CHR ''-''" using dec_numeric [of c n] numeric_neq by auto
  then show "check_integer (dec n @ CHR ''e'' # rest) = (length (dec n), no_error)"
    using l len ds by (simp add: check_integer_def)
  show "check_integer (CHR ''-'' # dec n @ CHR ''e'' # rest) = (Suc (length (dec n)), no_error)"
    using l len by (simp add: check_integer_def)
qed

lemma parse_int_digits:
  assumes "\<forall>c \<in> set ds. numeric c" and "\<not> numeric d" and "0 \<le> v" and "dec_val v ds \<le> int64_max"
  shows "parse_int (ds @ d # rest) d v k = (k + length ds, dec_val v ds, no_error)"
  using assms
proof (induction ds arbitrary: v k)
  case (Cons c ds)
  let ?v = "v * 10 + int (digit_val c)"
  have c: "numeric c" "c \<noteq> d" using Cons.prems by auto
  have "?v \<le> int64_max"
    using dec_val_mono [of ?v ds] Cons.prems by simp
  then have "\<not> v > int64_max div 10" "\<not> v * 10 > int64_max - int (digit_val c)"
    by (simp_all add: int64_max_def)
  with c Cons.prems Cons.IH [of ?v "Suc k"] show ?case by simp
qed simp

lemma parse_int_dec:
  assumes "int n \<le> int64_max" and "\<not> numeric d"
  shows "parse_int (dec n @ d # rest) d 0 0 = (length (dec n), int n, no_error)"
  using parse_int_digits [of "dec n" d 0 rest 0] assms dec_numeric by (auto simp: dec_val_dec)

lemma parse_int_dec_tl:
  assumes "int n \<le> int64_max" and "\<not> numeric d" and "dec n = c # ds"
  shows "parse_int (ds @ d # rest) d (int (digit_val c)) 0 = (length ds, int n, no_error)"
proof -
  have "dec_val (int (digit_val c)) ds = int n" using dec_val_dec [of n] assms(3) by simp
  moreover have "\<forall>c \<in> set ds. numeric c" using dec_numeric [of _ n] assms(3) by auto
  ultimately show ?thesis using parse_int_digits [of ds d "int (digit_val c)" rest 0] assms by simp
qed

section \<open>The tokens of a value\<close>

definition key_token :: "nat \<Rightarrow> string \<Rightarrow> bdecode_token" where
  "key_token off s = token4 off 1 T_string (length (dec (length s)) + 1)"

definition key_enc :: "string \<Rightarrow> string" where
  "key_enc s = dec (length s) @ '':'' @ s"

fun etoks :: "nat \<Rightarrow> entry \<Rightarrow> bdecode_token list"
and etoks_list :: "nat \<Rightarrow> entry list \<Rightarrow> bdecode_token list"
and etoks_dict :: "nat \<Rightarrow> (string \<times> entry) list \<Rightarrow> bdecode_token list" where
  "etoks off (Int_e i) = [token4 off 1 T_integer 1]"
| "etoks off (String_e s) = [key_token off s]"
| "etoks off (List_e es) =
     (let ts = etoks_list (off + 1) es in
      (token2 off T_list)\<lparr>next_item := bits29 (length ts + 2)\<rparr> # ts @
        [token4 (off + 1 + length (concat (map enc es))) 1 T_end 0])"
| "etoks off (Dict_e kvs) =
     (let ts = etoks_dict (off + 1) kvs in
      (token2 off T_dict)\<lparr>next_item := bits29 (length ts + 2)\<rparr> # ts @
        [token4 (off + 1 + length (concat (map (\<lambda>kv. key_enc (fst kv) @ enc (snd kv)) kvs))) 1 T_end 0])"
| "etoks off (Preformatted_e s) = []"
| "etoks off Undefined_e = [key_token off []]"
| "etoks_list off [] = []"
| "etoks_list off (e # es) = etoks off e @ etoks_list (off + length (enc e)) es"
| "etoks_dict off [] = []"
| "etoks_dict off ((k, e) # kvs) =
     key_token off k # etoks (off + length (key_enc k)) e @
       etoks_dict (off + length (key_enc k) + length (enc e)) kvs"

fun edepth :: "entry \<Rightarrow> nat" where
  "edepth (List_e es) = Suc (Max (insert 1 (set (map edepth es))))"
| "edepth (Dict_e kvs) = Suc (Max (insert 1 (set (map (\<lambda>kv. edepth (snd kv)) kvs))))"
| "edepth _ = 1"

fun decodable :: "entry \<Rightarrow> bool" where
  "decodable (Int_e i) = (- (10 ^ 18) < i \<and> i < 2 ^ 63)"
| "decodable (String_e s) = True"
| "decodable (List_e es) = (\<forall>e \<in> set es. decodable e)"
| "decodable (Dict_e kvs) = (\<forall>kv \<in> set kvs. decodable (snd kv))"
| "decodable _ = False"

text \<open>The loop after a step: stop when the stack is empty, else go on.\<close>

definition bdecode_next :: "string \<Rightarrow> nat \<Rightarrow> bd_state \<Rightarrow> bdecode_error \<times> nat \<times> bd_state" where
  "bdecode_next buf dl st = (if stack st = [] then (no_error, 0, st) else bdecode_loop buf dl st)"

lemma bdecode_loop_Next:
  "bdecode_step buf dl st = Next st' \<Longrightarrow> bdecode_loop buf dl st = bdecode_next buf dl st'"
  by (subst bdecode_loop.simps) (simp add: bdecode_next_def)

definition at_key :: "bd_state \<Rightarrow> bool" where
  "at_key st = (case stack st of [] \<Rightarrow> False | f # _ \<Rightarrow> frame_is_dict (tokens st) f \<and> \<not> fstate f)"

definition stack_ok :: "bd_state \<Rightarrow> bool" where
  "stack_ok st \<longleftrightarrow> (\<forall>f \<in> set (stack st). token f < length (tokens st))"

section \<open>The loop on an encoded value\<close>

lemma flip_state_append [simp]:
  "\<forall>f \<in> set fs. token f < length ts \<Longrightarrow> flip_state (ts @ xs) fs = flip_state ts fs"
  by (cases fs) (auto simp: flip_state_def frame_is_dict_def nth_append)

lemma flip_state_Nil_iff [simp]: "flip_state ts fs = [] \<longleftrightarrow> fs = []"
  by (cases fs) (auto simp: flip_state_def)

lemma length_flip_state [simp]: "length (flip_state ts fs) = length fs"
  by (cases fs) (auto simp: flip_state_def)

lemma flip_state_tokens: "f \<in> set (flip_state ts fs) \<Longrightarrow> \<exists>f' \<in> set fs. token f' = token f"
  by (cases fs) (auto simp: flip_state_def split: if_splits)

lemma stack_ok_flip: "stack_ok st \<Longrightarrow> f \<in> set (flip_state ts (stack st)) \<Longrightarrow> token f < length (tokens st)"
  using flip_state_tokens by (fastforce simp: stack_ok_def)

text \<open>The guards of an iteration passed: the dispatch on the character.\<close>

lemma bdecode_step_dispatch:
  assumes "drop (start st) buf = t # rest" and "length (stack st) < dl" and "1 \<le> token_limit st"
    and "at_key st \<longrightarrow> numeric t \<or> t = CHR ''e''"
  defines "st1 \<equiv> st\<lparr>token_limit := token_limit st - 1\<rparr>"
  shows "bdecode_step buf dl st =
     (if t = CHR ''d'' then step_open T_dict st1
      else if t = CHR ''l'' then step_open T_list st1
      else if t = CHR ''i'' then step_integer buf st1
      else if t = CHR ''e'' then step_end st1
      else step_string buf st1)"
proof -
  have "start st < length buf" using assms(1) by (metis drop_all list.discI not_less)
  moreover have "buf ! start st = t" using assms(1) calculation by (simp add: Cons_nth_drop_Suc [symmetric])
  ultimately show ?thesis
    using assms(2-4) by (auto simp: bdecode_step_def st1_def at_key_def Let_def split: list.splits)
qed

lemma drop_Suc_of: "drop n xs = y # ys \<Longrightarrow> drop (Suc n) xs = ys"
  by (metis Suc_eq_plus1 drop_0 drop_Suc_Cons drop_drop plus_1_eq_Suc)

lemma drop_add_of: "drop n xs = ys @ zs \<Longrightarrow> drop (n + length ys) xs = zs"
  by (metis add.commute append_eq_conv_conj drop_drop)

lemma length_of_drop: "drop n xs = ys \<Longrightarrow> ys \<noteq> [] \<Longrightarrow> length xs = n + length ys"
  by (metis drop_all le_add_diff_inverse length_drop nat_le_linear)

lemma step_integer_enc:
  assumes d: "drop (start st) buf = enc (Int_e i) @ rest" and "- (10 ^ 18) < i" "i < 2 ^ 63"
  shows "step_integer buf st =
    Next (st\<lparr>tokens := tokens st @ etoks (start st) (Int_e i), stack := flip_state (tokens st) (stack st),
            start := start st + length (enc (Int_e i))\<rparr>)"
proof -
  let ?n = "nat \<bar>i\<bar>"
  have n: "?n < 10 ^ 20" using assms(2,3) by simp
  let ?ds = "if i < 0 then CHR ''-'' # dec (nat (- i)) else dec (nat i)"
  have "drop (start st + 1) buf = ?ds @ CHR ''e'' # rest"
    using drop_Suc_of [of "start st" buf] d by simp
  moreover have "check_integer (?ds @ CHR ''e'' # rest) = (length ?ds, no_error)"
    using check_integer_dec [OF n, of rest] by (cases "i < 0") (simp_all add: abs_if)
  ultimately show ?thesis by (simp add: step_integer_def)
qed

lemma step_string_enc:
  assumes d: "drop (start st) buf = key_enc s @ rest" and len: "int (length buf) \<le> max_offset"
  shows "step_string buf st =
    Next (st\<lparr>tokens := tokens st @ [key_token (start st) s], stack := flip_state (tokens st) (stack st),
            start := start st + length (key_enc s)\<rparr>)"
proof -
  obtain c ds where ds: "dec (length s) = c # ds" by (cases "dec (length s)") auto
  have buf: "drop (start st) buf = c # ds @ CHR '':'' # s @ rest"
    using d ds by (simp add: key_enc_def)
  have lb: "length buf = start st + 1 + length ds + 1 + length s + length rest"
    using length_of_drop [OF buf] by simp
  have c: "buf ! start st = c" using buf lb by (simp add: Cons_nth_drop_Suc [symmetric])
  have num: "numeric c" using dec_numeric [of c "length s"] ds by simp
  have d1: "drop (start st + 1) buf = ds @ CHR '':'' # s @ rest" using drop_Suc_of [OF buf] by simp
  have sl: "length s < 10 ^ 9" using lb len by (simp add: max_offset_def)
  then have "length (dec (length s)) \<le> 9" by (intro length_dec_le) auto
  then have dl: "length ds \<le> 8" using ds by simp
  have "int (length s) \<le> int64_max" using sl by (simp add: int64_max_def)
  from parse_int_dec_tl [OF this _ ds, of "CHR '':''" "s @ rest"]
  have pi: "parse_int (ds @ CHR '':'' # s @ rest) (CHR '':'') (int (digit_val c)) 0 =
     (length ds, int (length s), no_error)" by simp
  show ?thesis
    using lb c num d1 pi dl ds
    by (simp add: step_string_def Let_def key_token_def key_enc_def long_string_max_header_def)
qed

lemma step_end_closed:
  assumes "stack st = f # fs" and "\<not> (frame_is_dict (tokens st) f \<and> fstate f)"
    and "tokens st = pre @ t # ts" and "token f = length pre" and "int (length ts) + 2 \<le> max_next_item"
  shows "step_end st =
    Next (st\<lparr>tokens := pre @ t\<lparr>next_item := bits29 (length ts + 2)\<rparr> # ts @ [token4 (start st) 1 T_end 0],
            stack := fs, start := start st + 1\<rparr>)"
  using assms by (auto simp: step_end_def Let_def nth_append list_update_append)

lemma length_etoks:
  "decodable e \<Longrightarrow> length (etoks off e) \<le> length (enc e)"
  "\<forall>e \<in> set es. decodable e \<Longrightarrow> length (etoks_list off es) \<le> length (concat (map enc es))"
  "\<forall>kv \<in> set kvs. decodable (snd kv) \<Longrightarrow>
     length (etoks_dict off kvs) \<le> length (concat (map (\<lambda>kv. key_enc (fst kv) @ enc (snd kv)) kvs))"
proof (induction off e and off es and off kvs rule: etoks_etoks_list_etoks_dict.induct)
  case (2 off s)
  then show ?case by (cases "dec (length s)") auto
next
  case (10 off k e kvs)
  then have "length (etoks (off + length (key_enc k)) e) \<le> length (enc e)"
    "length (etoks_dict (off + length (key_enc k) + length (enc e)) kvs) \<le>
       length (concat (map (\<lambda>kv. key_enc (fst kv) @ enc (snd kv)) kvs))" by auto
  moreover have "1 \<le> length (key_enc k)" by (simp add: key_enc_def)
  ultimately show ?case by simp
qed (auto simp: Let_def key_enc_def add_le_mono)

lemma enc_dict_key: "enc (Dict_e kvs) = CHR ''d'' # concat (map (\<lambda>kv. key_enc (fst kv) @ enc (snd kv)) kvs) @ ''e''"
  by (simp add: key_enc_def)

lemma enc_string_key: "enc (String_e s) = key_enc s"
  by (simp add: key_enc_def)

text \<open>The state after an item of \<open>n\<close> bytes with tokens \<open>ts\<close>.\<close>

definition advance :: "bdecode_token list \<Rightarrow> nat \<Rightarrow> bd_state \<Rightarrow> bd_state" where
  "advance ts n st = st\<lparr>tokens := tokens st @ ts, start := start st + n, token_limit := token_limit st - int (length ts)\<rparr>"

definition flipped :: "bd_state \<Rightarrow> bd_state" where
  "flipped st = st\<lparr>stack := flip_state (tokens st) (stack st)\<rparr>"

lemma advance_simps [simp]:
  "tokens (advance ts n st) = tokens st @ ts" "start (advance ts n st) = start st + n"
  "stack (advance ts n st) = stack st" "token_limit (advance ts n st) = token_limit st - int (length ts)"
  "advance ts n (advance ts' n' st) = advance (ts' @ ts) (n' + n) st"
  "advance [] 0 st = st"
  by (simp_all add: advance_def)

lemma flipped_simps [simp]:
  "tokens (flipped st) = tokens st" "start (flipped st) = start st"
  "token_limit (flipped st) = token_limit st" "stack (flipped st) = flip_state (tokens st) (stack st)"
  by (simp_all add: flipped_def)

lemma stack_ok_advance [simp]: "stack_ok st \<Longrightarrow> stack_ok (advance ts n st)"
  by (auto simp: stack_ok_def)

lemma stack_ok_flipped [simp]: "stack_ok st \<Longrightarrow> stack_ok (flipped st)"
  by (metis flipped_simps(1,4) stack_ok_def stack_ok_flip)

lemma decode_key:
  assumes "drop (start st) buf = key_enc s @ rest" and "length (stack st) < dl" and "1 \<le> token_limit st"
    and "int (length buf) \<le> max_offset"
  shows "bdecode_loop buf dl st = bdecode_next buf dl (advance [key_token (start st) s] (length (key_enc s)) (flipped st))"
proof -
  obtain c ds where ds: "dec (length s) = c # ds" by (cases "dec (length s)") auto
  then have num: "numeric c" using dec_numeric [of c "length s"] by simp
  have "drop (start st) buf = c # ds @ '':'' @ s @ rest" using assms(1) ds by (simp add: key_enc_def)
  from bdecode_step_dispatch [OF this assms(2,3)] num
  have "bdecode_step buf dl st = step_string buf (st\<lparr>token_limit := token_limit st - 1\<rparr>)"
    using numeric_neq [OF num] by simp
  also have "\<dots> = Next (advance [key_token (start st) s] (length (key_enc s)) (flipped st))"
    using step_string_enc [of "st\<lparr>token_limit := token_limit st - 1\<rparr>" buf s rest] assms(1,4)
    by (simp add: advance_def flipped_def)
  finally show ?thesis by (rule bdecode_loop_Next)
qed

text \<open>Opening and closing a container around the tokens of its items.\<close>

lemma decode_open:
  assumes "drop (start st) buf = c # rest" and "length (stack st) < dl" and "1 \<le> token_limit st"
    and "\<not> at_key st" and "c = CHR ''l'' \<and> ty = T_list \<or> c = CHR ''d'' \<and> ty = T_dict"
  defines "st1 \<equiv> (advance [token2 (start st) ty] 1 (flipped st))\<lparr>stack := new_frame st # flip_state (tokens st) (stack st)\<rparr>"
  shows "bdecode_loop buf dl st = bdecode_loop buf dl st1"
proof -
  have "bdecode_step buf dl st = Next st1"
    using bdecode_step_dispatch [OF assms(1-3)] assms(4,5)
    by (auto simp: step_open_def st1_def advance_def flipped_def new_frame_def)
  then show ?thesis using bdecode_loop_Next by (simp add: bdecode_next_def st1_def)
qed

lemma decode_close:
  assumes d: "drop (start st) buf = CHR ''e'' # rest" and "length (stack st) < dl" and "1 \<le> token_limit st"
    and s: "stack st = f # fs" "\<not> (frame_is_dict (tokens st) f \<and> fstate f)"
    and t: "tokens st = pre @ t # ts" "token f = length pre" "int (length ts) + 2 \<le> max_next_item"
  shows "bdecode_loop buf dl st = bdecode_next buf dl
    (st\<lparr>tokens := pre @ t\<lparr>next_item := bits29 (length ts + 2)\<rparr> # ts @ [token4 (start st) 1 T_end 0],
        stack := fs, start := start st + 1, token_limit := token_limit st - 1\<rparr>)"
proof -
  let ?st1 = "st\<lparr>token_limit := token_limit st - 1\<rparr>"
  have "bdecode_step buf dl st = step_end ?st1"
    using bdecode_step_dispatch [OF d assms(2,3)] by simp
  also have "\<dots> = Next (st\<lparr>tokens := pre @ t\<lparr>next_item := bits29 (length ts + 2)\<rparr> # ts @ [token4 (start st) 1 T_end 0],
        stack := fs, start := start st + 1, token_limit := token_limit st - 1\<rparr>)"
    using step_end_closed [of ?st1 f fs pre t ts] s t by (simp add: frame_is_dict_def)
  finally show ?thesis by (rule bdecode_loop_Next)
qed

lemma decode_container:
  assumes d: "drop (start st) buf = c # body @ CHR ''e'' # rest"
    and room: "length (stack st) + 1 < dl" and tl: "int (length ts) + 2 \<le> token_limit st"
    and nk: "\<not> at_key st" and ok: "stack_ok st"
    and c: "c = CHR ''l'' \<and> ty = T_list \<or> c = CHR ''d'' \<and> ty = T_dict"
    and small: "int (length ts) + 2 \<le> max_next_item"
    and items: "\<And>st1 :: bd_state. \<lbrakk>drop (start st1) buf = body @ CHR ''e'' # rest; start st1 = start st + 1;
        stack st1 = new_frame st # flip_state (tokens st) (stack st);
        tokens st1 = tokens st @ [token2 (start st) ty]; token_limit st1 = token_limit st - 1\<rbrakk> \<Longrightarrow>
        bdecode_loop buf dl st1 = bdecode_loop buf dl (advance ts (length body) st1)"
  shows "bdecode_loop buf dl st = bdecode_next buf dl
    (advance ((token2 (start st) ty)\<lparr>next_item := bits29 (length ts + 2)\<rparr> # ts @
       [token4 (start st + 1 + length body) 1 T_end 0]) (length body + 2) (flipped st))"
proof -
  let ?st1 = "(advance [token2 (start st) ty] 1 (flipped st))\<lparr>stack := new_frame st # flip_state (tokens st) (stack st)\<rparr>"
  let ?st2 = "advance ts (length body) ?st1"
  have "bdecode_loop buf dl st = bdecode_loop buf dl ?st1"
    by (rule decode_open [OF d]) (use room tl nk c in auto)
  also have "\<dots> = bdecode_loop buf dl ?st2"
    by (rule items) (use drop_Suc_of [OF d] in simp_all)
  also have "\<dots> = bdecode_next buf dl
    (?st2\<lparr>tokens := tokens st @ (token2 (start st) ty)\<lparr>next_item := bits29 (length ts + 2)\<rparr> # ts @ [token4 (start ?st2) 1 T_end 0],
        stack := flip_state (tokens st) (stack st), start := start ?st2 + 1, token_limit := token_limit ?st2 - 1\<rparr>)"
    by (rule decode_close [where f = "new_frame st" and rest = rest])
      (use drop_add_of [of "start st + 1" buf body "CHR ''e'' # rest"] drop_Suc_of [OF d] room tl small
       in \<open>simp_all add: new_frame_def frame_is_dict_def nth_append\<close>)
  also have "?st2\<lparr>tokens := tokens st @ (token2 (start st) ty)\<lparr>next_item := bits29 (length ts + 2)\<rparr> # ts @ [token4 (start ?st2) 1 T_end 0],
        stack := flip_state (tokens st) (stack st), start := start ?st2 + 1, token_limit := token_limit ?st2 - 1\<rparr> =
    advance ((token2 (start st) ty)\<lparr>next_item := bits29 (length ts + 2)\<rparr> # ts @
       [token4 (start st + 1 + length body) 1 T_end 0]) (length body + 2) (flipped st)"
    by (rule bd_state.equality) (simp_all add: advance_def flipped_def)
  finally show ?thesis .
qed

lemma edepth_pos: "1 \<le> edepth e"
  by (cases e) auto

lemma edepth_List: "e \<in> set es \<Longrightarrow> Suc (edepth e) \<le> edepth (List_e es)" "2 \<le> edepth (List_e es)"
  by (auto simp: Max_ge_iff)

lemma edepth_Dict: "kv \<in> set kvs \<Longrightarrow> Suc (edepth (snd kv)) \<le> edepth (Dict_e kvs)" "2 \<le> edepth (Dict_e kvs)"
  by (auto simp: Max_ge_iff)

lemma list_frame:
  assumes "stack st = f # fs" and "type_of (tokens st ! token f) \<noteq> T_dict"
  shows "\<not> at_key st" and "flipped st = st"
  using assms by (simp_all add: at_key_def frame_is_dict_def flipped_def flip_state_def)

lemma decode_items:
  assumes len: "int (length buf) \<le> max_offset"
  shows "\<lbrakk>drop (start st) buf = enc e @ rest; off = start st; decodable e; length (stack st) + edepth e \<le> dl;
     int (length (etoks off e)) \<le> token_limit st; \<not> at_key st; stack_ok st\<rbrakk> \<Longrightarrow>
     bdecode_loop buf dl st = bdecode_next buf dl (advance (etoks off e) (length (enc e)) (flipped st))"
    and "\<lbrakk>drop (start st) buf = concat (map enc es) @ rest; off = start st; \<forall>e \<in> set es. decodable e;
     \<forall>e \<in> set es. length (stack st) + edepth e \<le> dl; int (length (etoks_list off es)) \<le> token_limit st;
     stack st = f # fs; type_of (tokens st ! token f) \<noteq> T_dict; stack_ok st\<rbrakk> \<Longrightarrow>
     bdecode_loop buf dl st = bdecode_loop buf dl (advance (etoks_list off es) (length (concat (map enc es))) st)"
    and "\<lbrakk>drop (start st) buf = concat (map (\<lambda>kv. key_enc (fst kv) @ enc (snd kv)) kvs) @ rest; off = start st;
     \<forall>kv \<in> set kvs. decodable (snd kv); \<forall>kv \<in> set kvs. length (stack st) + edepth (snd kv) \<le> dl;
     int (length (etoks_dict off kvs)) \<le> token_limit st;
     stack st = f # fs; type_of (tokens st ! token f) = T_dict; \<not> fstate f; stack_ok st\<rbrakk> \<Longrightarrow>
     bdecode_loop buf dl st = bdecode_loop buf dl
       (advance (etoks_dict off kvs) (length (concat (map (\<lambda>kv. key_enc (fst kv) @ enc (snd kv)) kvs))) st)"
proof (induction off e and off es and off kvs arbitrary: st rest and st rest f fs and st rest f fs
    rule: etoks_etoks_list_etoks_dict.induct)
  case (1 off i)
  from "1.prems" have d: "drop (start st) buf = CHR ''i'' # (tl (enc (Int_e i)) @ rest)" by simp
  have "bdecode_step buf dl st = step_integer buf (st\<lparr>token_limit := token_limit st - 1\<rparr>)"
    using bdecode_step_dispatch [OF d] "1.prems" by simp
  also have "\<dots> = Next (advance (etoks off (Int_e i)) (length (enc (Int_e i))) (flipped st))"
    using step_integer_enc [of "st\<lparr>token_limit := token_limit st - 1\<rparr>" buf i rest] "1.prems"
    by (simp add: advance_def flipped_def)
  finally show ?case by (rule bdecode_loop_Next)
next
  case (2 off s)
  then show ?case using decode_key [of st buf s rest dl] len by (simp add: enc_string_key del: enc.simps)
next
  case (3 off es)
  let ?body = "concat (map enc es)"
  have le: "length (etoks_list (off + 1) es) \<le> length ?body"
    using length_etoks(2) "3.prems"(3) by simp
  have d: "drop (start st) buf = CHR ''l'' # ?body @ CHR ''e'' # rest" using "3.prems"(1) by simp
  have "bdecode_loop buf dl st = bdecode_next buf dl
    (advance ((token2 (start st) T_list)\<lparr>next_item := bits29 (length (etoks_list (off + 1) es) + 2)\<rparr> # etoks_list (off + 1) es @
       [token4 (start st + 1 + length ?body) 1 T_end 0]) (length ?body + 2) (flipped st))"
  proof (rule decode_container [OF d])
    show "length (stack st) + 1 < dl" using "3.prems"(4) edepth_List(2) [of es] by linarith
    show "int (length (etoks_list (off + 1) es)) + 2 \<le> token_limit st" using "3.prems"(5) by (simp add: Let_def)
    show "int (length (etoks_list (off + 1) es)) + 2 \<le> max_next_item"
      using le len length_of_drop [OF d] by (simp add: max_offset_def max_next_item_def)
    fix st1 :: bd_state
    assume a: "drop (start st1) buf = ?body @ CHR ''e'' # rest" "start st1 = start st + 1"
      "stack st1 = new_frame st # flip_state (tokens st) (stack st)"
      "tokens st1 = tokens st @ [token2 (start st) T_list]" "token_limit st1 = token_limit st - 1"
    show "bdecode_loop buf dl st1 = bdecode_loop buf dl (advance (etoks_list (off + 1) es) (length ?body) st1)"
    proof (rule "3.IH" [OF a(1) _ _ _ _ a(3)])
      show "\<forall>e\<in>set es. length (stack st1) + edepth e \<le> dl"
      proof
        fix e assume "e \<in> set es"
        from edepth_List(1) [OF this] "3.prems"(4) a(3) show "length (stack st1) + edepth e \<le> dl"
          by (simp del: edepth.simps)
      qed
      show "stack_ok st1" using a "3.prems"(7) stack_ok_flip [of st]
        by (fastforce simp: stack_ok_def new_frame_def)
    qed (use "3.prems" a in \<open>auto simp: new_frame_def token2_def nth_append Let_def\<close>)
  qed (use "3.prems" in auto)
  then show ?case using "3.prems"(2) by (simp add: Let_def)
next
  case (4 off kvs)
  let ?body = "concat (map (\<lambda>kv. key_enc (fst kv) @ enc (snd kv)) kvs)"
  have le: "length (etoks_dict (off + 1) kvs) \<le> length ?body"
    using length_etoks(3) "4.prems"(3) by simp
  have d: "drop (start st) buf = CHR ''d'' # ?body @ CHR ''e'' # rest"
    using "4.prems"(1) by (simp add: enc_dict_key del: enc.simps)
  have "bdecode_loop buf dl st = bdecode_next buf dl
    (advance ((token2 (start st) T_dict)\<lparr>next_item := bits29 (length (etoks_dict (off + 1) kvs) + 2)\<rparr> # etoks_dict (off + 1) kvs @
       [token4 (start st + 1 + length ?body) 1 T_end 0]) (length ?body + 2) (flipped st))"
  proof (rule decode_container [OF d])
    show "length (stack st) + 1 < dl" using "4.prems"(4) edepth_Dict(2) [of kvs] by linarith
    show "int (length (etoks_dict (off + 1) kvs)) + 2 \<le> token_limit st" using "4.prems"(5) by (simp add: Let_def)
    show "int (length (etoks_dict (off + 1) kvs)) + 2 \<le> max_next_item"
      using le len length_of_drop [OF d] by (simp add: max_offset_def max_next_item_def)
    fix st1 :: bd_state
    assume a: "drop (start st1) buf = ?body @ CHR ''e'' # rest" "start st1 = start st + 1"
      "stack st1 = new_frame st # flip_state (tokens st) (stack st)"
      "tokens st1 = tokens st @ [token2 (start st) T_dict]" "token_limit st1 = token_limit st - 1"
    show "bdecode_loop buf dl st1 = bdecode_loop buf dl (advance (etoks_dict (off + 1) kvs) (length ?body) st1)"
    proof (rule "4.IH" [OF a(1) _ _ _ _ a(3)])
      show "\<forall>kv\<in>set kvs. length (stack st1) + edepth (snd kv) \<le> dl"
      proof
        fix kv assume "kv \<in> set kvs"
        from edepth_Dict(1) [OF this] "4.prems"(4) a(3) show "length (stack st1) + edepth (snd kv) \<le> dl"
          by (simp del: edepth.simps)
      qed
      show "stack_ok st1" using a "4.prems"(7) stack_ok_flip [of st]
        by (fastforce simp: stack_ok_def new_frame_def)
    qed (use "4.prems" a in \<open>auto simp: new_frame_def token2_def nth_append Let_def\<close>)
  qed (use "4.prems" in auto)
  then show ?case using "4.prems"(2) by (simp add: Let_def enc_dict_key del: enc.simps)
next
  case (8 off e es)
  note P = "8.prems"
  note L = list_frame [OF P(6,7)]
  have "bdecode_loop buf dl st = bdecode_next buf dl (advance (etoks off e) (length (enc e)) (flipped st))"
    by (rule "8.IH"(1) [where rest = "concat (map enc es) @ rest"]) (use P L in auto)
  also have "\<dots> = bdecode_loop buf dl (advance (etoks off e) (length (enc e)) st)"
    using P(6) by (simp add: bdecode_next_def L(2))
  also have "\<dots> = bdecode_loop buf dl (advance (etoks_list (off + length (enc e)) es) (length (concat (map enc es)))
      (advance (etoks off e) (length (enc e)) st))"
    by (rule "8.IH"(2) [where rest = rest and f = f and fs = fs])
      (use P drop_add_of [of "start st" buf "enc e" "concat (map enc es) @ rest"]
       in \<open>auto simp: nth_append stack_ok_def\<close>)
  finally show ?case by simp
next
  case (10 off k e kvs)
  note P = "10.prems"
  let ?tl = "concat (map (\<lambda>kv. key_enc (fst kv) @ enc (snd kv)) kvs)"
  have fr: "token f < length (tokens st)" using P(6,9) by (simp add: stack_ok_def)
  have dict: "frame_is_dict (tokens st) f" using P(7) by (simp add: frame_is_dict_def)
  let ?st1 = "advance [key_token (start st) k] (length (key_enc k)) (flipped st)"
  have s1: "stack ?st1 = f\<lparr>fstate := True\<rparr> # fs" using P(6,8) dict by (simp add: flip_state_def)
  have d1: "drop (start ?st1) buf = enc e @ ?tl @ rest"
    using P(1) drop_add_of [of "start st" buf "key_enc k"] by simp
  have "bdecode_loop buf dl st = bdecode_next buf dl ?st1"
    by (rule decode_key [where rest = "enc e @ ?tl @ rest"]) (use P len edepth_pos [of e] in auto)
  also have "\<dots> = bdecode_loop buf dl ?st1" using s1 by (simp add: bdecode_next_def)
  also have "\<dots> = bdecode_next buf dl (advance (etoks (off + length (key_enc k)) e) (length (enc e)) (flipped ?st1))"
    by (rule "10.IH"(1) [OF d1]) (use P s1 fr in \<open>auto simp: at_key_def\<close>)
  also have "flipped ?st1 = advance [key_token off k] (length (key_enc k)) st"
  proof -
    have "flip_state (tokens ?st1) (stack ?st1) = stack st"
      unfolding s1 using dict fr P(6,8) by (simp add: flip_state_def frame_is_dict_def nth_append)
    then show ?thesis using P(2) by (simp add: flipped_def advance_def)
  qed
  also have "bdecode_next buf dl (advance (etoks (off + length (key_enc k)) e) (length (enc e))
      (advance [key_token off k] (length (key_enc k)) st)) =
      bdecode_loop buf dl (advance (key_token off k # etoks (off + length (key_enc k)) e) (length (key_enc k) + length (enc e)) st)"
    using P(6) by (simp add: bdecode_next_def)
  also have "\<dots> = bdecode_loop buf dl (advance (etoks_dict (off + length (key_enc k) + length (enc e)) kvs) (length ?tl)
      (advance (key_token off k # etoks (off + length (key_enc k)) e) (length (key_enc k) + length (enc e)) st))"
    by (rule "10.IH"(2) [where rest = rest and f = f and fs = fs])
      (use P fr drop_add_of [OF d1] in \<open>auto simp: nth_append stack_ok_def add.assoc\<close>)
  finally show ?case by (simp add: add.assoc)
qed (auto simp: bdecode_next_def)

section \<open>The accessors and their caches\<close>

lemma walk_add: "walk ts i (m + n) = walk ts i m \<bind> (\<lambda>j. walk ts j n)"
proof (induction m arbitrary: i)
  case (Suc m)
  then show ?case by (cases "tok ts i") simp_all
qed simp

text \<open>
  The cache of a node is right when it holds the position an uncached walk reaches; \<open>k\<close> is the
  number of tokens per item: 1 in a list, 2 in a dictionary.
\<close>

definition cache_ok :: "nat \<Rightarrow> bdecode_node \<Rightarrow> bool" where
  "cache_ok k n \<longleftrightarrow> m_last_index n = -1 \<or>
     (0 \<le> m_last_index n \<and> 0 \<le> m_last_token n \<and>
      walk (root_tokens n) (nat (m_token_idx n) + 1) (k * nat (m_last_index n)) = Some (nat (m_last_token n)))"

lemma node_at_cache [simp]: "cache_ok k (node_at ts buf i)"
  by (simp add: cache_ok_def node_at_def)

lemma walk_cached:
  assumes "cache_ok k n" and "cached n (int i)"
  shows "walk (root_tokens n) (nat (m_last_token n)) (k * (i - nat (m_last_index n))) =
    walk (root_tokens n) (nat (m_token_idx n) + 1) (k * i)"
proof -
  have "m_last_index n \<le> int i" "m_last_index n \<noteq> -1" using assms(2) by (auto simp: cached_def)
  with assms(1) have w: "walk (root_tokens n) (nat (m_token_idx n) + 1) (k * nat (m_last_index n)) = Some (nat (m_last_token n))"
    and le: "nat (m_last_index n) \<le> i" by (auto simp: cache_ok_def)
  have "k * i = k * nat (m_last_index n) + k * (i - nat (m_last_index n))"
    using le by (simp add: diff_mult_distrib2)
  then show ?thesis using w by (simp add: walk_add)
qed

text \<open>The cached lookups are the uncached ones, and leave a right cache.\<close>

lemma list_at_uncached:
  assumes "cache_ok 1 n"
  shows "list_at i n = map_option (\<lambda>tk. (node_at (root_tokens n) (m_buffer n) tk,
      n\<lparr>m_last_token := int tk, m_last_index := int i\<rparr>)) (walk (root_tokens n) (nat (m_token_idx n) + 1) i)"
  using walk_cached [OF assms, of i]
  by (auto simp: list_at_def Let_def split: option.split Option.bind_split)

lemma list_at_cache: "cache_ok 1 n \<Longrightarrow> list_at i n = Some (c, n') \<Longrightarrow> cache_ok 1 n'"
  by (auto simp: list_at_uncached cache_ok_def)

lemma dict_at_uncached:
  assumes "cache_ok 2 n"
  shows "dict_at i n =
    do { tk \<leftarrow> walk (root_tokens n) (nat (m_token_idx n) + 1) (2 * i);
         t \<leftarrow> tok (root_tokens n) tk;
         key \<leftarrow> string_at (root_tokens n) (m_buffer n) tk;
         Some ((key, node_at (root_tokens n) (m_buffer n) (tk + next_item t)),
               if i > 0 then n\<lparr>m_last_token := int tk, m_last_index := int i\<rparr> else n) }"
  using walk_cached [OF assms, of i] by (auto simp: dict_at_def Let_def)

lemma dict_at_cache: "cache_ok 2 n \<Longrightarrow> dict_at i n = Some (c, n') \<Longrightarrow> cache_ok 2 n'"
  by (auto simp: dict_at_uncached cache_ok_def bind_eq_Some_conv split: if_splits)

section \<open>Reading back the tokens of a value\<close>

lemma etoks_head:
  assumes "decodable e" and "off < 2 ^ 29" and "length (etoks off e) < 2 ^ 29"
  shows "\<exists>t ts. etoks off e = t # ts \<and> offset t = off \<and> next_item t = Suc (length ts) \<and> type_of t \<noteq> T_end"
  using assms by (cases e) (auto simp: token2_def token4_def key_token_def Let_def)

lemma token4_end_offset: "off < 2 ^ 29 \<Longrightarrow> offset (token4 off k ty h) = off"
  by (simp add: token4_def Let_def)

lemma key_token_fields:
  assumes "off < 2 ^ 29" and "length s < 2 ^ 29"
  shows "offset (key_token off s) = off" "next_item (key_token off s) = 1"
    "start_offset (key_token off s) = Suc (length (dec (length s)))"
    "type_of (key_token off s) \<in> {T_string, T_long_string}"
proof -
  have "length s < 10 ^ 9" using assms(2) by simp
  then have "length (dec (length s)) \<le> 9" by (rule length_dec_le) simp
  moreover have "1 \<le> length (dec (length s))" by (cases "dec (length s)") auto
  ultimately show "offset (key_token off s) = off" "next_item (key_token off s) = 1"
    "start_offset (key_token off s) = Suc (length (dec (length s)))"
    "type_of (key_token off s) \<in> {T_string, T_long_string}"
    using assms by (auto simp: key_token_def token4_def Let_def start_offset_def short_string_max_header_def)
qed

lemma tok_append [simp]: "tok (pre @ t # post) (length pre) = Some t"
  by (simp add: tok_def)

lemma tok_append_Suc [simp]: "tok (pre @ t # u # post) (Suc (length pre)) = Some u"
  by (simp add: tok_def nth_append)

text \<open>The string of a key token, when the token after it starts where the string ends.\<close>

lemma string_at_key:
  assumes "ts = pre @ key_token off s # u # post" and "offset u = off + length (key_enc s)"
    and "drop off buf = key_enc s @ rest" and "offset u < 2 ^ 29"
  shows "string_at ts buf (length pre) = Some s"
proof -
  have small: "off < 2 ^ 29" "length s < 2 ^ 29" using assms(2,4) by (auto simp: key_enc_def)
  note K = key_token_fields [OF small]
  have "length buf = off + length (key_enc s) + length rest"
    using length_of_drop [OF assms(3)] by (simp add: key_enc_def)
  moreover have "drop (off + Suc (length (dec (length s)))) buf = s @ rest"
    using drop_add_of [of off buf "dec (length s) @ '':''" "s @ rest"] assms(3) by (simp add: key_enc_def)
  ultimately show ?thesis
    using assms(1,2) K by (simp add: string_at_def token_source_span_def substr_def key_enc_def)
qed

lemma int_value_enc:
  assumes "ts = pre @ token4 off 1 T_integer 1 # u # post" and "offset u = off + length (enc (Int_e i))"
    and "drop off buf = enc (Int_e i) @ rest" and "offset u < 2 ^ 29" and "- (10 ^ 18) < i" "i < 2 ^ 63"
  shows "int_value (node_at ts buf (length pre)) = Some i"
proof -
  let ?n = "nat \<bar>i\<bar>" and ?sg = "if i < 0 then 1 else (0 :: nat)"
  have off: "offset (token4 off 1 T_integer 1) = off" using assms(2,4) by (intro token4_end_offset) simp
  have le: "int ?n \<le> int64_max" using assms(5,6) by (simp add: int64_max_def)
  have d1: "drop (off + 1) buf = (if i < 0 then ''-'' else []) @ dec ?n @ CHR ''e'' # rest"
    using drop_Suc_of [of off buf] assms(3) by (auto simp: abs_if)
  have lb: "length buf = off + length (enc (Int_e i)) + length rest"
    using length_of_drop [OF assms(3)] by simp
  obtain c ds where ds: "dec ?n = c # ds" by (cases "dec ?n") auto
  then have "c \<noteq> CHR ''-''" using dec_numeric [of c ?n] numeric_neq by auto
  then have neg: "(buf ! (off + 1) = CHR ''-'') = (i < 0)"
    using d1 ds lb by (cases "i < 0") (auto simp: Cons_nth_drop_Suc [symmetric])
  have d2: "drop (off + 1 + ?sg) buf = dec ?n @ CHR ''e'' # rest"
    using d1 drop_add_of [of "off + 1" buf "if i < 0 then ''-'' else []"] by (cases "i < 0") auto
  have len: "length (enc (Int_e i)) = ?sg + length (dec ?n) + 2" by (simp add: abs_if)
  have "take (nat (int (off + 1) + int (length (enc (Int_e i)))) - (off + 1 + ?sg)) (drop (off + 1 + ?sg) buf) =
      dec ?n @ CHR ''e'' # take 1 rest"
    unfolding d2 len by (simp add: nat_add_distrib)
  then show ?thesis
    using assms(1,2) off neg parse_int_dec [OF le, of "CHR ''e''" "take 1 rest"] lb
    by (simp add: int_value_def node_at_def token_source_span_def Let_def)
qed

text \<open>The keys of a dictionary, in order and without duplicates, at every level.\<close>

fun sorted_keys :: "entry \<Rightarrow> bool" where
  "sorted_keys (List_e es) = (\<forall>e \<in> set es. sorted_keys e)"
| "sorted_keys (Dict_e kvs) = (sorted_wrt key_less (map fst kvs) \<and> (\<forall>kv \<in> set kvs. sorted_keys (snd kv)))"
| "sorted_keys _ = True"

lemma key_less_Nil [simp]: "\<not> key_less ys []"
  by (cases ys) auto

lemma key_less_asym: "key_less a b \<Longrightarrow> \<not> key_less b a \<and> a \<noteq> b"
  by (induction a b rule: key_less.induct) auto

lemma dict_assign_last:
  "\<forall>k' \<in> set (map fst d). key_less k' k \<Longrightarrow> dict_assign k v d = d @ [(k, v)]"
  by (induction k v d rule: dict_assign.induct) (auto dest: key_less_asym)

lemma count_items_list:
  assumes "ts = pre @ etoks_list off es @ u # post" and "type_of u = T_end"
    and "\<forall>e \<in> set es. decodable e" and "off + length (concat (map enc es)) < 2 ^ 29"
  shows "count_items ts (length pre) r = Some (r + length es)"
  using assms
proof (induction es arbitrary: pre off r)
  case Nil
  then show ?case by (subst count_items.simps) simp
next
  case (Cons e es)
  have "length (etoks off e) < 2 ^ 29" using Cons.prems length_etoks(1) [of e off] by simp
  then obtain t tl where h: "etoks off e = t # tl" "next_item t = Suc (length tl)" "type_of t \<noteq> T_end"
    using etoks_head [of e off] Cons.prems by auto
  have "count_items ts (length (pre @ etoks off e)) (Suc r) = Some (Suc r + length es)"
    by (rule Cons.IH [of _ "off + length (enc e)"]) (use Cons.prems in auto)
  with h Cons.prems(1) show ?case by (subst count_items.simps) simp
qed

lemma count_items_dict:
  assumes "ts = pre @ etoks_dict off kvs @ u # post" and "type_of u = T_end"
    and "\<forall>kv \<in> set kvs. decodable (snd kv)"
    and "off + length (concat (map (\<lambda>kv. key_enc (fst kv) @ enc (snd kv)) kvs)) < 2 ^ 29"
  shows "count_items ts (length pre) r = Some (r + 2 * length kvs)"
  using assms
proof (induction kvs arbitrary: pre off r)
  case Nil
  then show ?case by (subst count_items.simps) simp
next
  case (Cons kv kvs)
  obtain k e where kv: "kv = (k, e)" by force
  let ?o = "off + length (key_enc k)"
  have "length (etoks ?o e) < 2 ^ 29" using Cons.prems kv length_etoks(1) [of e ?o] by simp
  then obtain t tl where h: "etoks ?o e = t # tl" "next_item t = Suc (length tl)" "type_of t \<noteq> T_end"
    using etoks_head [of e ?o] Cons.prems kv by auto
  have "off < 2 ^ 29" "length k < 2 ^ 29" using Cons.prems(4) kv by (auto simp: key_enc_def)
  note K = key_token_fields [OF this]
  have "count_items ts (length (pre @ key_token off k # etoks ?o e)) (Suc (Suc r)) = Some (Suc (Suc r) + 2 * length kvs)"
    by (rule Cons.IH [of _ "?o + length (enc e)"]) (use Cons.prems kv in auto)
  with h K Cons.prems(1) kv show ?case
    by (subst count_items.simps, subst count_items.simps) (auto simp: nth_append)
qed

lemma etoks_list_head:
  assumes "offset u = off + length (concat (map enc es))" and "offset u < 2 ^ 29" and "\<forall>e \<in> set es. decodable e"
  shows "\<exists>u' post'. etoks_list off es @ u # post = u' # post' \<and> offset u' = off"
proof (cases es)
  case (Cons e es')
  have "length (etoks off e) < 2 ^ 29" using assms Cons length_etoks(1) [of e off] by simp
  then show ?thesis using etoks_head [of e off] assms Cons by auto
qed (use assms in simp)

lemma etoks_dict_head:
  assumes "offset u = off + length (concat (map (\<lambda>kv. key_enc (fst kv) @ enc (snd kv)) kvs))" and "offset u < 2 ^ 29"
  shows "\<exists>u' post'. etoks_dict off kvs @ u # post = u' # post' \<and> offset u' = off"
proof (cases kvs)
  case (Cons kv kvs')
  then show ?thesis using assms key_token_fields(1) [of off "fst kv"] by (cases kv) (auto simp: key_enc_def)
qed (use assms in simp)

lemma walk_etoks:
  assumes "ts = pre @ etoks off e @ post" and "decodable e" and "off + length (enc e) < 2 ^ 29"
  shows "walk ts (length pre) (Suc n) = walk ts (length (pre @ etoks off e)) n"
proof -
  have "length (etoks off e) < 2 ^ 29" using assms length_etoks(1) [of e off] by simp
  then obtain t tl where "etoks off e = t # tl" "next_item t = Suc (length tl)"
    using etoks_head [of e off] assms by auto
  with assms(1) show ?thesis by simp
qed

text \<open>Converting the decoded tree gives the value back.\<close>

lemma entry_of_node_simps:
  "type_of t \<in> {T_string, T_long_string} \<Longrightarrow>
     entry_of_node (Suc fuel) (node_at (pre @ t # post) buf (length pre)) =
     map_option String_e (string_at (pre @ t # post) buf (length pre))"
  "type_of t = T_integer \<Longrightarrow>
     entry_of_node (Suc fuel) (node_at (pre @ t # post) buf (length pre)) =
     map_option Int_e (int_value (node_at (pre @ t # post) buf (length pre)))"
  by (auto simp: node_type_def node_at_def string_value_def)

lemma read_back:
  "\<lbrakk>ts = pre @ etoks off e @ u # post; offset u = off + length (enc e); offset u < 2 ^ 29;
    drop off buf = enc e @ rest; decodable e; sorted_keys e; edepth e \<le> fuel\<rbrakk> \<Longrightarrow>
    entry_of_node fuel (node_at ts buf (length pre)) = Some e"
  "\<lbrakk>ts = pre @ etoks_list off es @ u # post; offset u = off + length (concat (map enc es)); offset u < 2 ^ 29;
    drop off buf = concat (map enc es) @ rest; \<forall>e \<in> set es. decodable e; \<forall>e \<in> set es. sorted_keys e;
    \<forall>e \<in> set es. edepth e \<le> fuel; cache_ok 1 n; root_tokens n = ts; m_buffer n = buf;
    walk ts (nat (m_token_idx n) + 1) j = Some (length pre)\<rbrakk> \<Longrightarrow>
    entry_list_from fuel [j..<j + length es] n = Some es"
  "\<lbrakk>ts = pre @ etoks_dict off kvs @ u # post;
    offset u = off + length (concat (map (\<lambda>kv. key_enc (fst kv) @ enc (snd kv)) kvs)); offset u < 2 ^ 29;
    drop off buf = concat (map (\<lambda>kv. key_enc (fst kv) @ enc (snd kv)) kvs) @ rest;
    \<forall>kv \<in> set kvs. decodable (snd kv); \<forall>kv \<in> set kvs. sorted_keys (snd kv);
    \<forall>kv \<in> set kvs. edepth (snd kv) \<le> fuel; sorted_wrt key_less (map fst (d @ kvs));
    cache_ok 2 n; root_tokens n = ts; m_buffer n = buf;
    walk ts (nat (m_token_idx n) + 1) (2 * j) = Some (length pre)\<rbrakk> \<Longrightarrow>
    entry_dict_from fuel [j..<j + length kvs] n d = Some (d @ kvs)"
proof (induction off e and off es and off kvs
    arbitrary: fuel pre u post rest and fuel pre u post rest n j and fuel pre u post rest n j d
    rule: etoks_etoks_list_etoks_dict.induct)
  case (1 off i)
  then obtain f where f: "fuel = Suc f" by (cases fuel) auto
  have "int_value (node_at ts buf (length pre)) = Some i"
    by (rule int_value_enc [of ts pre off u post i buf rest]) (use "1.prems" in auto)
  moreover have "type_of (token4 off 1 T_integer 1) = T_integer" by (simp add: token4_def)
  ultimately show ?case using "1.prems"(1) f entry_of_node_simps(2) [of "token4 off 1 T_integer 1" f pre "u # post" buf]
    by (simp del: entry_of_node.simps)
next
  case (2 off s)
  then obtain f where f: "fuel = Suc f" by (cases fuel) auto
  have "string_at ts buf (length pre) = Some s"
    by (rule string_at_key [of ts pre off s u post buf rest]) (use "2.prems" in \<open>auto simp: key_enc_def\<close>)
  moreover have "type_of (key_token off s) \<in> {T_string, T_long_string}"
    by (rule key_token_fields(4)) (use "2.prems" in auto)
  ultimately show ?case using "2.prems"(1) f entry_of_node_simps(1) [of "key_token off s" f pre "u # post" buf]
    by (simp del: entry_of_node.simps)
next
  case (3 off es)
  let ?body = "concat (map enc es)" and ?L = "etoks_list (off + 1) es"
  let ?h = "(token2 off T_list)\<lparr>next_item := bits29 (length ?L + 2)\<rparr>"
  let ?u = "token4 (off + 1 + length ?body) 1 T_end 0"
  obtain f where f: "fuel = Suc f" using "3.prems"(7) by (cases fuel) auto
  have ts: "ts = (pre @ [?h]) @ ?L @ ?u # (u # post)" using "3.prems"(1) by (simp add: Let_def)
  have d1: "drop (off + 1) buf = ?body @ CHR ''e'' # rest" using drop_Suc_of [of off buf] "3.prems"(4) by simp
  have ou: "offset ?u = off + 1 + length ?body" by (rule token4_end_offset) (use "3.prems" in simp)
  have cnt: "count_items ts (length (pre @ [?h])) 0 = Some (0 + length es)"
    by (rule count_items_list [OF ts]) (use "3.prems" in \<open>auto simp: token4_def Let_def\<close>)
  let ?n = "(node_at ts buf (length pre))\<lparr>m_size := int (length es)\<rparr>"
  have sz: "list_size (node_at ts buf (length pre)) = Some (length es, ?n)"
    using cnt by (simp add: list_size_def node_at_def)
  have "entry_list_from f [0..<0 + length es] ?n = Some es"
  proof (rule "3.IH" [OF ts ou _ d1])
    show "\<forall>e\<in>set es. edepth e \<le> f" using "3.prems"(7) edepth_List(1) [of _ es] f by fastforce
  qed (use "3.prems" ou in \<open>auto simp: node_at_def cache_ok_def\<close>)
  moreover have "node_type (node_at ts buf (length pre)) = Some T_list"
    unfolding ts by (simp add: node_type_def node_at_def token2_def)
  ultimately show ?case using sz f by simp
next
  case (4 off kvs)
  let ?body = "concat (map (\<lambda>kv. key_enc (fst kv) @ enc (snd kv)) kvs)" and ?L = "etoks_dict (off + 1) kvs"
  let ?h = "(token2 off T_dict)\<lparr>next_item := bits29 (length ?L + 2)\<rparr>"
  let ?u = "token4 (off + 1 + length ?body) 1 T_end 0"
  obtain f where f: "fuel = Suc f" using "4.prems"(7) by (cases fuel) auto
  note enc = "4.prems"(2,4) [unfolded enc_dict_key]
  have ts: "ts = (pre @ [?h]) @ ?L @ ?u # (u # post)" using "4.prems"(1) by (simp add: Let_def)
  have d1: "drop (off + 1) buf = ?body @ CHR ''e'' # rest" using drop_Suc_of [of off buf] enc(2) by simp
  have ou: "offset ?u = off + 1 + length ?body" by (rule token4_end_offset) (use "4.prems"(3) enc in simp)
  have cnt: "count_items ts (length (pre @ [?h])) 0 = Some (0 + 2 * length kvs)"
    by (rule count_items_dict [OF ts]) (use "4.prems" enc in \<open>auto simp: token4_def Let_def\<close>)
  let ?n = "(node_at ts buf (length pre))\<lparr>m_size := int (length kvs)\<rparr>"
  have sz: "dict_size (node_at ts buf (length pre)) = Some (length kvs, ?n)"
    using cnt by (simp add: dict_size_def node_at_def)
  have "entry_dict_from f [0..<0 + length kvs] ?n [] = Some ([] @ kvs)"
  proof (rule "4.IH" [OF ts ou _ d1])
    show "\<forall>kv\<in>set kvs. edepth (snd kv) \<le> f" using "4.prems"(7) edepth_Dict(1) [of _ kvs] f by fastforce
  qed (use "4.prems" enc ou in \<open>auto simp: node_at_def cache_ok_def\<close>)
  moreover have "node_type (node_at ts buf (length pre)) = Some T_dict"
    unfolding ts by (simp add: node_type_def node_at_def token2_def)
  ultimately show ?case using sz f by simp
next
  case (8 off e es)
  note P = "8.prems"
  obtain u' post' where u': "etoks_list (off + length (enc e)) es @ u # post = u' # post'"
    "offset u' = off + length (enc e)"
    using etoks_list_head [of u "off + length (enc e)" es post] P by auto
  have ts: "ts = pre @ etoks off e @ u' # post'" using P(1) u'(1) by simp
  have e: "entry_of_node fuel (node_at ts buf (length pre)) = Some e"
    by (rule "8.IH"(1) [OF ts u'(2)]) (use P u' in auto)
  let ?n = "n\<lparr>m_last_token := int (length pre), m_last_index := int j\<rparr>"
  have la: "list_at j n = Some (node_at ts buf (length pre), ?n)"
    using list_at_uncached [OF P(8), of j] P(9-11) by simp
  have w: "walk ts (nat (m_token_idx n) + 1) (Suc j) = Some (length (pre @ etoks off e))"
    using walk_add [of ts "nat (m_token_idx n) + 1" j 1] P(11) walk_etoks [OF ts, of 0] P(2,3,5)
    by (simp del: walk.simps add: walk.simps(1))
  have "entry_list_from fuel [Suc j..<Suc j + length es] ?n = Some es"
    by (rule "8.IH"(2) [where pre = "pre @ etoks off e" and rest = rest and u = u and post = post])
      (use P w list_at_cache [OF P(8) la] drop_add_of [of off buf "enc e"] in auto)
  moreover have "[j..<j + length (e # es)] = j # [Suc j..<Suc j + length es]" by (simp add: upt_conv_Cons del: upt.simps)
  ultimately show ?case using la e by (simp del: upt.simps list.size)
next
  case (10 off k e kvs)
  note P = "10.prems"
  let ?o = "off + length (key_enc k)"
  obtain u' post' where u': "etoks_dict (?o + length (enc e)) kvs @ u # post = u' # post'"
    "offset u' = ?o + length (enc e)"
    using etoks_dict_head [of u "?o + length (enc e)" kvs post] P by auto
  have ts: "ts = (pre @ [key_token off k]) @ etoks ?o e @ u' # post'" using P(1) u'(1) by simp
  have d1: "drop ?o buf = enc e @ concat (map (\<lambda>kv. key_enc (fst kv) @ enc (snd kv)) kvs) @ rest"
    using drop_add_of [of off buf "key_enc k"] P(4) by simp
  have e: "entry_of_node fuel (node_at ts buf (length (pre @ [key_token off k]))) = Some e"
    by (rule "10.IH"(1) [OF ts u'(2) _ d1]) (use P u' in auto)
  have small: "off < 2 ^ 29" "length k < 2 ^ 29" using P(2,3) by (auto simp: key_enc_def)
  note K = key_token_fields [OF small]
  have "length (etoks ?o e) < 2 ^ 29" using P(2,3,5) length_etoks(1) [of e ?o] by simp
  then obtain t tl where h: "etoks ?o e = t # tl" "offset t = ?o"
    using etoks_head [of e ?o] P(2,3,5) by auto
  have key: "string_at ts buf (length pre) = Some k"
    by (rule string_at_key [of ts pre off k t "tl @ u' # post'" buf]) (use ts h P(2,3,4) in auto)
  let ?n = "if j > 0 then n\<lparr>m_last_token := int (length pre), m_last_index := int j\<rparr> else n"
  have da: "dict_at j n = Some ((k, node_at ts buf (length (pre @ [key_token off k]))), ?n)"
    using dict_at_uncached [OF P(9), of j] P(10-12) key K(2) ts by simp
  have "walk ts (length pre) 2 = Some (length (pre @ key_token off k # etoks ?o e))"
    using walk_etoks [OF ts, of 0] P(2,3,5) K(2) ts by (simp add: numeral_2_eq_2)
  then have w: "walk ts (nat (m_token_idx n) + 1) (2 * Suc j) = Some (length (pre @ key_token off k # etoks ?o e))"
    using walk_add [of ts "nat (m_token_idx n) + 1" "2 * j" 2] P(12) by (simp del: walk.simps)
  have keys: "\<forall>k' \<in> set (map fst d). key_less k' k" using P(8) by (auto simp: sorted_wrt_append)
  have "entry_dict_from fuel [Suc j..<Suc j + length kvs] ?n (d @ [(k, e)]) = Some ((d @ [(k, e)]) @ kvs)"
    by (rule "10.IH"(2) [where pre = "pre @ key_token off k # etoks ?o e" and rest = rest and u = u and post = post])
      (use P w dict_at_cache [OF P(9) da] drop_add_of [OF d1] in \<open>auto split: if_splits\<close>)
  moreover have "[j..<j + length ((k, e) # kvs)] = j # [Suc j..<Suc j + length kvs]" by (simp add: upt_conv_Cons del: upt.simps)
  ultimately show ?case using da e dict_assign_last [OF keys] by (simp del: upt.simps list.size)
qed auto

lemma decodable_encodable: "decodable e \<Longrightarrow> length (enc e) < 2 ^ 29 \<Longrightarrow> encodable e"
proof (induction e)
  case (List_e es)
  have "length (enc e) \<le> length (concat (map enc es))" if "e \<in> set es" for e
    using that by (induction es) auto
  with List_e show ?case by fastforce
next
  case (Dict_e kvs)
  let ?f = "\<lambda>kv. (dec (length (fst kv)) @ '':'' @ fst kv) @ enc (snd kv)"
  have le: "length (?f kv) \<le> length (concat (map ?f kvs))" if "kv \<in> set kvs" for kv
    using that by (induction kvs) auto
  show ?case unfolding encodable.simps
  proof
    fix kv assume kv: "kv \<in> set kvs"
    have "length (fst kv) < 2 ^ 29" "length (enc (snd kv)) < 2 ^ 29" using le [OF kv] Dict_e.prems(2) by auto
    with Dict_e kv show "int (length (fst kv)) < 2 ^ 63 \<and> encodable (snd kv)"
      by (cases kv) fastforce
  qed
qed auto

lemma bdecode_enc:
  assumes "decodable e" and "int (length (enc e)) \<le> max_offset" and "edepth e \<le> depth_limit"
    and "int (length (enc e)) \<le> limit"
  shows "bdecode (enc e) depth_limit limit =
    (no_error, 0, node_at (etoks 0 e @ [token4 (length (enc e)) 0 T_end 0]) (enc e) 0)"
proof -
  let ?init = "\<lparr>tokens = [], stack = [], start = 0, token_limit = limit\<rparr>"
  have ne: "enc e \<noteq> []" using assms(1) by (cases e) auto
  have "bdecode_loop (enc e) depth_limit ?init =
      bdecode_next (enc e) depth_limit (advance (etoks 0 e) (length (enc e)) (flipped ?init))"
    by (rule decode_items(1) [where rest = "[]"])
      (use assms length_etoks(1) [OF assms(1), of 0] in \<open>auto simp: at_key_def stack_ok_def\<close>)
  then show ?thesis using ne assms(2)
    by (simp add: bdecode_def Let_def bdecode_next_def flip_state_def)
qed

text \<open>C22: Decoding what the encoder wrote gives the value back. For every value the decoder can
  represent (integers above \<open>-10^18\<close>, no undefined or preformatted part, dictionaries in the order of
  their keys) that fits the decoder's size, depth and token limits, \<^verbatim>\<open>bencode\<close> succeeds,
  \<^verbatim>\<open>bdecode\<close> reports no error, and converting the decoded node yields the same value.\<close>

theorem bencode_bdecode_roundtrip:
  assumes "decodable e" and "sorted_keys e" and "int (length (enc e)) \<le> max_offset"
    and "edepth e \<le> depth_limit" and "int (length (enc e)) \<le> limit"
  shows "\<exists>s n. bencode e = Some s \<and> bdecode s depth_limit limit = (no_error, 0, n) \<and>
    entry_of_node (edepth e) n = Some e"
proof -
  let ?u = "token4 (length (enc e)) 0 T_end 0"
  have small: "length (enc e) < 2 ^ 29" using assms(3) by (simp add: max_offset_def)
  then have "offset ?u = length (enc e)" by (rule token4_end_offset)
  then have "entry_of_node (edepth e) (node_at (etoks 0 e @ [?u]) (enc e) 0) = Some e"
    using read_back(1) [of "etoks 0 e @ [?u]" "[]" 0 e ?u "[]" "enc e" "[]" "edepth e"] assms small by simp
  moreover have "bencode e = Some (enc e)"
    using bencode_enc(1) [OF decodable_encodable [OF assms(1) small]] by (simp add: bencode_def)
  ultimately show ?thesis using bdecode_enc [OF assms(1,3,4,5)] by blast
qed

lemma bencode_bdecode_roundtrip_witness:
  "\<exists>s n. bencode (Dict_e [(''a'', Int_e (- 7)), (''b'', List_e [String_e ''xy''])]) = Some s \<and>
    bdecode s 100 1000 = (no_error, 0, n) \<and>
    entry_of_node 3 n = Some (Dict_e [(''a'', Int_e (- 7)), (''b'', List_e [String_e ''xy''])])"
  using bencode_bdecode_roundtrip [of "Dict_e [(''a'', Int_e (- 7)), (''b'', List_e [String_e ''xy''])]" 100 1000]
  by (simp add: dec.simps max_offset_def numeral_3_eq_3 del: entry_of_node.simps bencode_recursive.simps)

end
