(* ===== verification/Bdecode_Safety.thy ===== *)
theory Bdecode_Safety
  imports Bdecode
begin

text \<open>
  What the decoder leaves behind on every input, valid or not: the token array is a tree in which
  every jump stays inside the array and every token fits the buffer, so that the accessors never
  read outside either of them. The tree is a specification type; the loop invariant relates the
  stack of the decoder to the part of it built so far.
\<close>

section \<open>Token trees\<close>

datatype ttree = Leaf bdecode_token | Node bdecode_token "ttree list" bdecode_token

fun flat :: "ttree \<Rightarrow> bdecode_token list" where
  "flat (Leaf t) = [t]"
| "flat (Node t cs e) = t # concat (map flat cs) @ [e]"

abbreviation flats :: "ttree list \<Rightarrow> bdecode_token list" where
  "flats cs \<equiv> concat (map flat cs)"

definition is_string :: "bdecode_token \<Rightarrow> bool" where
  "is_string t \<longleftrightarrow> type_of t = T_string \<or> type_of t = T_long_string"

fun pairs_ok :: "ttree list \<Rightarrow> bool" where
  "pairs_ok [] = True"
| "pairs_ok (Leaf t # v # cs) = (is_string t \<and> pairs_ok cs)"
| "pairs_ok _ = False"

definition odd_ok :: "ttree list \<Rightarrow> bool" where
  "odd_ok cs \<longleftrightarrow> (\<exists>init t. cs = init @ [Leaf t] \<and> is_string t \<and> pairs_ok init)"

text \<open>A container closed by the loop jumps past its end token.\<close>

fun tree_ok :: "ttree \<Rightarrow> bool" where
  "tree_ok (Leaf t) = ((type_of t = T_integer \<or> is_string t) \<and> next_item t = 1)"
| "tree_ok (Node t cs e) =
     (type_of e = T_end \<and> next_item t = length (flats cs) + 2 \<and> (\<forall>c \<in> set cs. tree_ok c) \<and>
      (type_of t = T_list \<or> type_of t = T_dict \<and> pairs_ok cs))"

text \<open>
  A container closed by the error recovery jumps to its end token; only its last item can be such
  a container again.
\<close>

fun tree_uw :: "ttree \<Rightarrow> bool" where
  "tree_uw (Leaf t) = False"
| "tree_uw (Node t cs e) =
     (type_of e = T_end \<and> next_item t = length (flats cs) + 1 \<and>
      (type_of t = T_list \<or> type_of t = T_dict \<and> pairs_ok cs) \<and>
      (\<forall>c \<in> set (butlast cs). tree_ok c) \<and> (\<forall>c \<in> set cs. tree_ok c \<or> tree_uw c))"

lemma pairs_ok_append: "pairs_ok xs \<Longrightarrow> pairs_ok (xs @ ys) = pairs_ok ys"
  by (induction xs rule: pairs_ok.induct) auto

lemma odd_ok_value: "odd_ok cs \<Longrightarrow> pairs_ok (cs @ [v])"
  by (auto simp: odd_ok_def pairs_ok_append)

lemma pairs_ok_key: "pairs_ok cs \<Longrightarrow> is_string t \<Longrightarrow> odd_ok (cs @ [Leaf t])"
  by (auto simp: odd_ok_def)

section \<open>Offsets\<close>

definition tok_fits :: "bdecode_token \<Rightarrow> nat \<Rightarrow> bool" where
  "tok_fits t p \<longleftrightarrow> offset t \<le> p \<and> (is_string t \<longrightarrow> offset t + start_offset t \<le> p) \<and>
     (type_of t = T_integer \<longrightarrow> offset t + 2 \<le> p)"

fun fits :: "bdecode_token list \<Rightarrow> nat \<Rightarrow> bool" where
  "fits [] p = True"
| "fits [t] p = tok_fits t p"
| "fits (t # u # ts) p = (tok_fits t (offset u) \<and> fits (u # ts) p)"

lemma tok_fits_mono: "tok_fits t p \<Longrightarrow> p \<le> q \<Longrightarrow> tok_fits t q"
  by (auto simp: tok_fits_def)

lemma fits_mono: "fits ts p \<Longrightarrow> p \<le> q \<Longrightarrow> fits ts q"
  by (induction ts p rule: fits.induct) (auto intro: tok_fits_mono)

lemma fits_snoc: "fits (ts @ [t]) p \<longleftrightarrow> fits ts (offset t) \<and> tok_fits t p"
proof (induction ts)
  case (Cons a ts)
  then show ?case by (cases ts) auto
qed simp

lemma tok_fits_next [simp]: "tok_fits (t\<lparr>next_item := n\<rparr>) p = tok_fits t p"
  by (simp add: tok_fits_def is_string_def start_offset_def)

lemma fits_patch: "fits (pre @ t\<lparr>next_item := n\<rparr> # ts) p = fits (pre @ t # ts) p"
proof (induction pre)
  case Nil
  show ?case by (cases ts) auto
next
  case (Cons a pre)
  then show ?case by (cases pre) auto
qed

lemma fits_hd: "fits (u # us) p \<Longrightarrow> offset u \<le> p"
proof (induction us arbitrary: u)
  case (Cons v vs)
  then have "offset v \<le> p" "tok_fits u (offset v)" by auto
  then show ?case by (simp add: tok_fits_def)
qed (simp add: tok_fits_def)

lemma fits_nth:
  assumes "fits ts p" and "Suc i < length ts"
  shows "tok_fits (ts ! i) (offset (ts ! Suc i)) \<and> offset (ts ! Suc i) \<le> p"
  using assms
proof (induction ts arbitrary: i)
  case (Cons a ts)
  then obtain u us where ts: "ts = u # us" by (cases ts) auto
  show ?case
  proof (cases i)
    case 0
    then show ?thesis using Cons.prems ts fits_hd by auto
  next
    case (Suc j)
    then show ?thesis using Cons ts by auto
  qed
qed simp

section \<open>The invariant of the loop\<close>

text \<open>
  The tokens of an open stack: below each frame, the items complete so far. A frame that is not on
  top has one more item under construction, which its state already counts.
\<close>

fun open_ok :: "bool \<Rightarrow> stack_frame list \<Rightarrow> bdecode_token list \<Rightarrow> bool" where
  "open_ok tp [] ts = (ts = [])"
| "open_ok tp (f # fs) ts =
     (\<exists>pre t cs. ts = pre @ t # flats cs \<and> token f = length pre \<and> open_ok False fs pre \<and>
        (\<forall>c \<in> set cs. tree_ok c) \<and>
        (type_of t = T_list \<or> type_of t = T_dict \<and>
          (if tp \<and> \<not> fstate f then pairs_ok cs else odd_ok cs \<and> (tp \<longleftrightarrow> fstate f))))"

definition loop_inv :: "string \<Rightarrow> bd_state \<Rightarrow> bool" where
  "loop_inv buf st \<longleftrightarrow> open_ok True (stack st) (tokens st) \<and> fits (tokens st) (start st) \<and>
     length (tokens st) \<le> start st \<and> start st \<le> length buf"

definition done_ok :: "string \<Rightarrow> bd_state \<Rightarrow> bool" where
  "done_ok buf st \<longleftrightarrow> (\<exists>T. tokens st = flat T \<and> tree_ok T) \<and> fits (tokens st) (start st) \<and> start st \<le> length buf"

definition next_ok :: "string \<Rightarrow> bd_state \<Rightarrow> bool" where
  "next_ok buf st \<longleftrightarrow> (if stack st = [] then done_ok buf st else loop_inv buf st)"

text \<open>Where a value is read inside a dictionary, its frame waits for a value.\<close>

definition value_pos :: "bd_state \<Rightarrow> bool" where
  "value_pos st = (case stack st of [] \<Rightarrow> True | f # _ \<Rightarrow> frame_is_dict (tokens st) f \<longrightarrow> fstate f)"

lemma open_ok_leaf:
  assumes "open_ok True (f # fs) ts" and "tree_ok (Leaf t)" and "frame_is_dict ts f \<longrightarrow> fstate f \<or> is_string t"
  shows "open_ok True (flip_state ts (f # fs)) (ts @ [t])"
proof -
  from assms(1) obtain pre h cs where o: "ts = pre @ h # flats cs" "token f = length pre" "open_ok False fs pre"
    "\<forall>c \<in> set cs. tree_ok c"
    and d: "type_of h = T_list \<or> type_of h = T_dict \<and> (if \<not> fstate f then pairs_ok cs else odd_ok cs)"
    by (auto split: if_splits)
  have dict: "frame_is_dict ts f \<longleftrightarrow> type_of h = T_dict" using o by (simp add: frame_is_dict_def)
  let ?f = "if frame_is_dict ts f then f\<lparr>fstate := \<not> fstate f\<rparr> else f"
  have "open_ok True (?f # fs) (ts @ [t])"
    unfolding open_ok.simps
  proof (intro exI [of _ pre] exI [of _ h] exI [of _ "cs @ [Leaf t]"] conjI)
    show "type_of h = T_list \<or> type_of h = T_dict \<and> (if True \<and> \<not> fstate ?f then pairs_ok (cs @ [Leaf t])
        else odd_ok (cs @ [Leaf t]) \<and> (True \<longleftrightarrow> fstate ?f))"
      using d dict assms(3) odd_ok_value pairs_ok_key by (auto split: if_splits)
  qed (use o assms(2) in auto)
  then show ?thesis by (simp add: flip_state_def)
qed

lemma open_ok_open:
  assumes "open_ok True fs ts" and "case fs of [] \<Rightarrow> True | f # _ \<Rightarrow> frame_is_dict ts f \<longrightarrow> fstate f"
  shows "open_ok False (flip_state ts fs) ts"
proof (cases fs)
  case (Cons f fs')
  with assms obtain pre h cs where o: "ts = pre @ h # flats cs" "token f = length pre" "open_ok False fs' pre"
    "\<forall>c \<in> set cs. tree_ok c"
    and d: "type_of h = T_list \<or> type_of h = T_dict \<and> (if \<not> fstate f then pairs_ok cs else odd_ok cs)"
    by (auto split: if_splits)
  have dict: "frame_is_dict ts f \<longleftrightarrow> type_of h = T_dict" using o by (simp add: frame_is_dict_def)
  let ?f = "if frame_is_dict ts f then f\<lparr>fstate := \<not> fstate f\<rparr> else f"
  have "open_ok False (?f # fs') ts"
    unfolding open_ok.simps
  proof (intro exI [of _ pre] exI [of _ h] exI [of _ cs] conjI)
    show "type_of h = T_list \<or> type_of h = T_dict \<and> (if False \<and> \<not> fstate ?f then pairs_ok cs
        else odd_ok cs \<and> (False \<longleftrightarrow> fstate ?f))"
      using d dict assms(2) Cons by (auto split: if_splits)
  qed (use o in auto)
  then show ?thesis using Cons by (simp add: flip_state_def)
qed (use assms in \<open>simp add: flip_state_def\<close>)

text \<open>Closing a container gives its parent one more item.\<close>

lemma open_ok_close:
  assumes "open_ok False (f # fs) pre" and "tree_ok T"
  shows "open_ok True (f # fs) (pre @ flat T)"
proof -
  from assms(1) obtain pre' h cs where o: "pre = pre' @ h # flats cs" "token f = length pre'" "open_ok False fs pre'"
    "\<forall>c \<in> set cs. tree_ok c" "type_of h = T_list \<or> type_of h = T_dict \<and> odd_ok cs \<and> \<not> fstate f"
    by auto
  show ?thesis unfolding open_ok.simps
  proof (intro exI [of _ pre'] exI [of _ h] exI [of _ "cs @ [T]"] conjI)
    show "type_of h = T_list \<or> type_of h = T_dict \<and> (if True \<and> \<not> fstate f then pairs_ok (cs @ [T])
        else odd_ok (cs @ [T]) \<and> (True \<longleftrightarrow> fstate f))"
      using o odd_ok_value by auto
  qed (use o assms(2) in auto)
qed

section \<open>Every step keeps the invariant\<close>

lemma loop_inv_small:
  assumes "loop_inv buf st" and "int (length buf) \<le> max_offset"
  shows "start st < 2 ^ 29"
  using assms by (auto simp: loop_inv_def max_offset_def)

lemma step_leaf_ok:
  assumes inv: "loop_inv buf st" and t: "tree_ok (Leaf t)" "tok_fits t p" "offset t = start st"
    and val: "is_string t \<or> value_pos st" and p: "start st < p" "p \<le> length buf"
  shows "next_ok buf (st\<lparr>tokens := tokens st @ [t], stack := flip_state (tokens st) (stack st), start := p\<rparr>)"
proof (cases "stack st")
  case Nil
  with inv t p show ?thesis
    by (auto simp: next_ok_def done_ok_def loop_inv_def flip_state_def intro: exI [of _ "Leaf t"])
next
  case (Cons f fs)
  have "open_ok True (flip_state (tokens st) (f # fs)) (tokens st @ [t])"
    by (rule open_ok_leaf) (use inv t val Cons in \<open>auto simp: loop_inv_def value_pos_def\<close>)
  moreover have "flip_state (tokens st) (f # fs) \<noteq> []" by (simp add: flip_state_def)
  ultimately show ?thesis using inv t p Cons by (auto simp: next_ok_def loop_inv_def fits_snoc)
qed

lemma step_open_ok:
  assumes inv: "loop_inv buf st" and "value_pos st" and "start st < length buf" "start st < 2 ^ 29"
    and "ty = T_list \<or> ty = T_dict" and "step_open ty st = Next st'"
  shows "next_ok buf st'"
proof -
  have "open_ok False (flip_state (tokens st) (stack st)) (tokens st)"
    by (rule open_ok_open) (use assms(1,2) in \<open>auto simp: loop_inv_def value_pos_def\<close>)
  moreover have "tokens st @ [token2 (start st) ty] = tokens st @ token2 (start st) ty # flats []" by simp
  ultimately have "open_ok True (new_frame st # flip_state (tokens st) (stack st)) (tokens st @ [token2 (start st) ty])"
    unfolding open_ok.simps using assms(5)
    by (intro exI [of _ "tokens st"] exI [of _ "token2 (start st) ty"] exI [of _ "[]"])
      (auto simp: new_frame_def token2_def)
  moreover have "tok_fits (token2 (start st) ty) (start st + 1)" "offset (token2 (start st) ty) = start st"
    using assms(4,5) by (auto simp: token2_def tok_fits_def is_string_def)
  ultimately show ?thesis using assms(3,6) inv
    by (auto simp: step_open_def next_ok_def loop_inv_def fits_snoc simp del: open_ok.simps)
qed

lemma step_end_ok:
  assumes inv: "loop_inv buf st" and "start st < length buf" and "int (length buf) \<le> max_offset"
  shows "step_end st = Next st' \<Longrightarrow> next_ok buf st'"
    and "step_end st = Fail e p st' \<Longrightarrow> st' = st"
proof -
  show "st' = st" if "step_end st = Fail e p st'"
    using that assms by (auto simp: step_end_def fail_def Let_def loop_inv_def max_offset_def max_next_item_def
        split: list.splits if_splits)
  assume N: "step_end st = Next st'"
  then obtain f fs where s: "stack st = f # fs" by (auto simp: step_end_def fail_def split: list.splits)
  with N have nk: "\<not> (frame_is_dict (tokens st) f \<and> fstate f)"
    by (auto simp: step_end_def fail_def split: if_splits)
  from inv s obtain pre h cs where o: "tokens st = pre @ h # flats cs" "token f = length pre" "open_ok False fs pre"
    "\<forall>c \<in> set cs. tree_ok c"
    and d: "type_of h = T_list \<or> type_of h = T_dict \<and> (if \<not> fstate f then pairs_ok cs else odd_ok cs)"
    by (auto simp: loop_inv_def split: if_splits)
  have dict: "frame_is_dict (tokens st) f \<longleftrightarrow> type_of h = T_dict" using o by (simp add: frame_is_dict_def)
  have len: "length (tokens st) \<le> start st" using inv by (simp add: loop_inv_def)
  then have small: "length (flats cs) + 2 < 2 ^ 29" "start st < 2 ^ 29"
    using o assms(2,3) by (auto simp: max_offset_def)
  let ?u = "token4 (start st) 1 T_end 0"
  let ?h = "h\<lparr>next_item := length (flats cs) + 2\<rparr>"
  let ?T = "Node ?h cs ?u"
  have st': "tokens st' = pre @ flat ?T" "stack st' = fs" "start st' = start st + 1"
    using N s nk o small by (auto simp: step_end_def fail_def Let_def nth_append list_update_append split: if_splits)
  have T: "tree_ok ?T" using o d nk dict by (auto simp: token4_def Let_def split: if_splits)
  have "fits (tokens st @ [?u]) (start st + 1)"
    using inv small by (auto simp: fits_snoc loop_inv_def token4_def Let_def tok_fits_def is_string_def)
  then have fit: "fits (tokens st') (start st')"
    unfolding st' o(1) using fits_patch [where pre = pre and t = h and n = "length (flats cs) + 2" and ts = "flats cs @ [?u]"] by simp
  show "next_ok buf st'"
  proof (cases fs)
    case Nil
    with o have "pre = []" by simp
    with st' T have "\<exists>T. tokens st' = flat T \<and> tree_ok T" by (metis append_Nil)
    then show ?thesis using st'(2,3) fit Nil assms(2) by (simp add: next_ok_def done_ok_def)
  next
    case (Cons g gs)
    have "open_ok True (g # gs) (pre @ flat ?T)" by (rule open_ok_close [OF _ T]) (use o Cons in simp)
    then have "open_ok True (stack st') (tokens st')" using st' Cons by metis
    moreover have "length (tokens st') \<le> start st'" using st' len o(1) by simp
    ultimately show ?thesis using st'(2,3) fit Cons assms(2) by (simp add: next_ok_def loop_inv_def del: open_ok.simps)
  qed
qed

lemma parse_int_consumed:
  "parse_int cs d v n = (m, r, e) \<Longrightarrow> n \<le> m \<and> m \<le> n + length cs"
proof (induction cs arbitrary: v n)
  case (Cons c cs)
  then show ?case by (fastforce simp: Let_def split: if_splits)
qed simp

lemma check_integer_loop_consumed:
  "check_integer_loop cs n = (m, e) \<Longrightarrow> n \<le> m \<and> m \<le> n + length cs \<and> (e = no_error \<longrightarrow> n < m \<and> m < n + length cs)"
proof (induction cs arbitrary: n)
  case (Cons c cs)
  then show ?case by (cases cs) (fastforce split: if_splits)+
qed simp

lemma check_integer_consumed:
  assumes "check_integer cs = (n, no_error)"
  shows "0 < n \<and> n < length cs"
proof (cases cs)
  case Nil
  with assms show ?thesis by (simp add: check_integer_def)
next
  case (Cons c cs')
  let ?s = "if c = CHR ''-'' then 1 else 0 :: nat"
  obtain d e where l: "check_integer_loop (drop ?s cs) 0 = (d, e)" by fastforce
  with assms Cons have "n = ?s + d" "e = no_error" by (auto simp: check_integer_def Let_def split: if_splits)
  with check_integer_loop_consumed [OF l] show ?thesis by (auto split: if_splits)
qed

lemma step_integer_ok:
  assumes inv: "loop_inv buf st" and "value_pos st" and "start st < 2 ^ 29" and "step_integer buf st = Next st'"
  shows "next_ok buf st'"
proof -
  obtain n where c: "check_integer (drop (start st + 1) buf) = (n, no_error)"
    and st': "st' = st\<lparr>tokens := tokens st @ [token4 (start st) 1 T_integer 1],
      stack := flip_state (tokens st) (stack st), start := start st + 1 + n + 1\<rparr>"
    using assms(4) by (auto simp: step_integer_def split: prod.splits if_splits)
  show ?thesis unfolding st'
    by (rule step_leaf_ok [OF inv])
      (use assms(2,3) check_integer_consumed [OF c] in \<open>auto simp: token4_def tok_fits_def is_string_def Let_def\<close>)
qed

lemma step_string_fail:
  assumes "step_string buf st = Fail e p st'" and "start st < length buf"
  shows "st' = st\<lparr>start := start st'\<rparr> \<and> start st \<le> start st' \<and> start st' \<le> length buf"
  using assms
  by (auto simp: step_string_def fail_def Let_def split: if_splits prod.splits dest!: parse_int_consumed)

lemma step_string_ok:
  assumes inv: "loop_inv buf st" and "start st < length buf" "start st < 2 ^ 29" and "step_string buf st = Next st'"
  shows "next_ok buf st'"
proof -
  obtain n len where pi: "parse_int (drop (start st + 1) buf) (CHR '':'') (int (digit_val (buf ! start st))) 0 = (n, len, no_error)"
    and len: "0 \<le> len" "len \<le> int (length buf) - int (start st + 1 + n) - 1" and hdr: "n + 2 \<le> long_string_max_header"
    and st': "st' = st\<lparr>tokens := tokens st @ [token4 (start st) 1 T_string (n + 2)],
      stack := flip_state (tokens st) (stack st), start := start st + 1 + n + 1 + nat len\<rparr>"
    using assms(2,4) by (auto simp: step_string_def fail_def Let_def split: prod.splits if_splits)
  show ?thesis unfolding st'
    by (rule step_leaf_ok [OF inv])
      (use assms(3) len hdr in \<open>auto simp: token4_def tok_fits_def is_string_def start_offset_def Let_def
          short_string_max_header_def long_string_max_header_def\<close>)
qed

lemma loop_inv_start:
  "loop_inv buf st \<Longrightarrow> start st \<le> s \<Longrightarrow> s \<le> length buf \<Longrightarrow> loop_inv buf (st\<lparr>start := s\<rparr>)"
  by (auto simp: loop_inv_def intro: fits_mono)

lemma loop_inv_limit [simp]: "loop_inv buf (st\<lparr>token_limit := l\<rparr>) = loop_inv buf st"
  by (simp add: loop_inv_def)

lemma step_ok:
  assumes inv: "loop_inv buf st" and "int (length buf) \<le> max_offset"
  shows "bdecode_step buf dl st = Next st' \<Longrightarrow> next_ok buf st'"
    and "bdecode_step buf dl st = Fail e p st' \<Longrightarrow> loop_inv buf st'"
proof -
  let ?st = "st\<lparr>token_limit := token_limit st - 1\<rparr>"
  have inv': "loop_inv buf ?st" using inv by simp
  have small: "start ?st < 2 ^ 29" using loop_inv_small [OF inv'] assms(2) by simp
  note kinds = value_pos_def numeric_def
  show "next_ok buf st'" if n: "bdecode_step buf dl st = Next st'"
  proof -
    have lt: "start ?st < length buf" using step_progress [OF n] by simp
    consider (o) ty where "step_open ty ?st = Next st'" "ty = T_list \<or> ty = T_dict" "value_pos ?st"
      | (i) "step_integer buf ?st = Next st'" "value_pos ?st"
      | (e) "step_end ?st = Next st'" | (s) "step_string buf ?st = Next st'"
      using n by (auto simp: bdecode_step_def fail_def Let_def kinds split: if_splits list.splits)
    then show ?thesis
    proof cases
      case o then show ?thesis using step_open_ok [OF inv' _ lt small] by blast
    next
      case i then show ?thesis using step_integer_ok [OF inv' _ small] by blast
    next
      case e then show ?thesis using step_end_ok(1) [OF inv' lt assms(2)] by blast
    next
      case s then show ?thesis using step_string_ok [OF inv' lt small] by blast
    qed
  qed
  show "loop_inv buf st'" if f: "bdecode_step buf dl st = Fail e p st'"
  proof (cases "start st < length buf")
    case True
    then have lt: "start ?st < length buf" by simp
    consider "st' = st \<or> st' = ?st" | "step_integer buf ?st = Fail e p st'" | "step_end ?st = Fail e p st'"
      | "step_string buf ?st = Fail e p st'"
      using f by (auto simp: bdecode_step_def fail_def step_open_def Let_def split: if_splits)
    then show ?thesis
    proof cases
      case 2 then show ?thesis using inv by (auto simp: step_integer_def split: if_splits prod.splits)
    next
      case 3 then show ?thesis using step_end_ok(2) [OF inv' lt assms(2)] inv' by blast
    next
      case 4 then show ?thesis using step_string_fail [OF 4 lt] loop_inv_start [OF inv'] by metis
    qed (use inv in auto)
  qed (use f inv in \<open>auto simp: bdecode_step_def fail_def\<close>)
qed

lemma loop_ok:
  assumes "loop_inv buf st" and "int (length buf) \<le> max_offset" and "bdecode_loop buf dl st = (e, p, st')"
  shows "done_ok buf st' \<and> stack st' = [] \<or> loop_inv buf st'"
  using assms
proof (induction buf dl st rule: bdecode_loop.induct)
  case (1 buf dl st)
  show ?case
  proof (cases "bdecode_step buf dl st")
    case (Fail e' p' st1)
    then show ?thesis using 1 step_ok(2) [OF 1(2,3)] by (simp add: bdecode_loop.simps)
  next
    case (Next st1)
    then have "next_ok buf st1" using step_ok(1) [OF 1(2,3)] by blast
    then show ?thesis using 1 Next by (cases "stack st1 = []") (auto simp: bdecode_loop.simps [of buf dl st] next_ok_def)
  qed
qed

section \<open>The error recovery\<close>

text \<open>A container under a complete or recovered item is closed by the recovery.\<close>

lemma unwind_frame:
  assumes o: "ts = pre @ t # flats cs" "token f = length pre" and small: "length ts < 2 ^ 29"
    and nk: "\<not> (frame_is_dict ts f \<and> fstate f)"
  shows "unwind pos (f # fs) ts =
    unwind pos fs (pre @ flat (Node (t\<lparr>next_item := length (flats cs) + 1\<rparr>) cs (token4 pos 1 T_end 0)))"
  using assms by (auto simp: Let_def list_update_append)

lemma fits_node:
  assumes "fits (pre @ t # flats cs) pos" and "pos < 2 ^ 29"
  shows "fits (pre @ flat (Node (t\<lparr>next_item := n\<rparr>) cs (token4 pos 1 T_end 0))) pos"
proof -
  have "fits ((pre @ t # flats cs) @ [token4 pos 1 T_end 0]) pos"
    unfolding fits_snoc using assms by (simp add: token4_def Let_def tok_fits_def is_string_def)
  then show ?thesis using fits_patch [where pre = pre and t = t and ts = "flats cs @ [token4 pos 1 T_end 0]"] by simp
qed

lemma unwind_parents:
  assumes "open_ok False fs pre" and "tree_uw T" and "length (pre @ flat T) + length fs < 2 ^ 29"
    and "fits (pre @ flat T) pos" and "pos < 2 ^ 29"
  shows "\<exists>T'. unwind pos fs (pre @ flat T) = flat T' \<and> tree_uw T' \<and> fits (flat T') pos"
  using assms
proof (induction fs arbitrary: pre T)
  case (Cons f fs)
  from Cons.prems(1) obtain pre' h cs where o: "pre = pre' @ h # flats cs" "token f = length pre'"
    "open_ok False fs pre'" "\<forall>c \<in> set cs. tree_ok c" "type_of h = T_list \<or> type_of h = T_dict \<and> odd_ok cs \<and> \<not> fstate f"
    by auto
  let ?cs = "cs @ [T]"
  let ?T = "Node (h\<lparr>next_item := length (flats ?cs) + 1\<rparr>) ?cs (token4 pos 1 T_end 0)"
  have ts: "pre @ flat T = pre' @ h # flats ?cs" using o by simp
  have nk: "\<not> (frame_is_dict (pre @ flat T) f \<and> fstate f)" using o by (auto simp: frame_is_dict_def nth_append)
  have u: "unwind pos (f # fs) (pre @ flat T) = unwind pos fs (pre' @ flat ?T)"
    by (rule unwind_frame [OF ts o(2) _ nk]) (use Cons.prems(3) in simp)
  have T: "tree_uw ?T"
    using o(4,5) Cons.prems(2) odd_ok_value by (auto simp: token4_def Let_def)
  have fit: "fits (pre' @ flat ?T) pos" by (rule fits_node) (use Cons.prems(4,5) ts in auto)
  have "length (pre' @ flat ?T) + length fs < 2 ^ 29" using Cons.prems(3) o(1) by simp
  from Cons.IH [OF o(3) T this fit Cons.prems(5)] u show ?case by simp
qed (use assms in \<open>auto intro: exI [of _ T]\<close>)

lemma open_ok_stack: "open_ok tp fs ts \<Longrightarrow> length fs \<le> length ts"
proof (induction fs arbitrary: ts tp)
  case (Cons f fs)
  then show ?case by fastforce
qed simp

text \<open>The top frame may be a dictionary that waits for a value: it gets an empty dictionary.\<close>

lemma unwind_ok:
  assumes inv: "loop_inv buf st" and "stack st \<noteq> []" and "int (length buf) + 2 \<le> 2 ^ 28"
  shows "\<exists>T. unwind (start st) (stack st) (tokens st) = flat T \<and> tree_uw T \<and> fits (flat T) (start st)"
proof -
  obtain f fs where s: "stack st = f # fs" using assms(2) by (cases "stack st") auto
  let ?pos = "start st" and ?ts = "tokens st"
  have b: "length (f # fs) \<le> length ?ts" "length ?ts \<le> ?pos" "?pos < 2 ^ 28 - 1"
    using open_ok_stack [of True] inv assms(3) s unfolding loop_inv_def by (metis, auto)
  then have small: "?pos < 2 ^ 29" by simp
  from inv s obtain pre h cs where o: "?ts = pre @ h # flats cs" "token f = length pre" "open_ok False fs pre"
    "\<forall>c \<in> set cs. tree_ok c"
    and d: "type_of h = T_list \<or> type_of h = T_dict \<and> (if \<not> fstate f then pairs_ok cs else odd_ok cs)"
    by (auto simp: loop_inv_def split: if_splits)
  have dict: "frame_is_dict ?ts f \<longleftrightarrow> type_of h = T_dict" using o by (simp add: frame_is_dict_def)
  let ?E = "Node (token4 ?pos 2 T_dict 0) [] (token2 ?pos T_end)"
  let ?cs = "if frame_is_dict ?ts f \<and> fstate f then cs @ [?E] else cs"
  let ?T = "Node (h\<lparr>next_item := length (flats ?cs) + 1\<rparr>) ?cs (token4 ?pos 1 T_end 0)"
  have E: "tree_ok ?E" by (simp add: token4_def token2_def Let_def)
  have len: "length (flats ?cs) \<le> length (flats cs) + 2" by simp
  have u: "unwind ?pos (f # fs) ?ts = unwind ?pos fs (pre @ flat ?T)"
    using b o by (auto simp: Let_def list_update_append nth_append numeral_3_eq_3)
  have T: "tree_uw ?T"
    using d dict o(4) E odd_ok_value [of cs ?E] by (auto simp: token4_def Let_def dest: in_set_butlastD split: if_splits)
  have "fits ?ts ?pos" using inv by (simp add: loop_inv_def)
  then have "fits (((pre @ h # flats cs) @ [token4 ?pos 2 T_dict 0]) @ [token2 ?pos T_end]) ?pos"
    "fits (pre @ h # flats cs) ?pos" unfolding o(1) fits_snoc using small
    by (simp_all add: token2_def token4_def Let_def tok_fits_def is_string_def)
  then have "fits (pre @ h # flats ?cs) ?pos" by auto
  then have fit: "fits (pre @ flat ?T) ?pos" by (rule fits_node) (rule small)
  have "length (pre @ flat ?T) + length fs < 2 ^ 29" using b o(1) len by simp
  from unwind_parents [OF o(3) T this fit small] show ?thesis unfolding s u .
qed

section \<open>Reading the tree\<close>

text \<open>Every position of a tree that is no end token starts a subtree.\<close>

definition tree_any :: "ttree \<Rightarrow> bool" where
  "tree_any T \<longleftrightarrow> tree_ok T \<or> tree_uw T"

lemma flats_split:
  "i < length (flats cs) \<Longrightarrow>
   \<exists>c pre post j. c \<in> set cs \<and> j < length (flat c) \<and> flats cs = pre @ flat c @ post \<and> i = length pre + j"
proof (induction cs arbitrary: i)
  case (Cons a cs)
  show ?case
  proof (cases "i < length (flat a)")
    case True
    then show ?thesis by (intro exI [of _ a] exI [of _ "[]"] exI [of _ "flats cs"] exI [of _ i]) simp
  next
    case False
    with Cons.prems have "i - length (flat a) < length (flats cs)" by auto
    from Cons.IH [OF this] obtain c pre post j where "c \<in> set cs" "j < length (flat c)" "flats cs = pre @ flat c @ post"
      "i - length (flat a) = length pre + j" by blast
    with False show ?thesis
      by (intro exI [of _ c] exI [of _ "flat a @ pre"] exI [of _ post] exI [of _ j]) auto
  qed
qed simp

lemma subtree_at:
  assumes "tree_any T" and "i < length (flat T)" and "type_of (flat T ! i) \<noteq> T_end"
  shows "\<exists>S pre post. flat T = pre @ flat S @ post \<and> length pre = i \<and> tree_any S"
  using assms
proof (induction T arbitrary: i)
  case (Leaf t)
  then show ?case by (intro exI [of _ "Leaf t"] exI [of _ "[]"]) auto
next
  case (Node t cs e)
  consider "i = 0" | "0 < i" "i - 1 < length (flats cs)" | "i = length (flats cs) + 1"
    using Node.prems(2) by fastforce
  then show ?case
  proof cases
    case 1
    then show ?thesis using Node.prems by (intro exI [of _ "Node t cs e"] exI [of _ "[]"]) auto
  next
    case 2
    from flats_split [OF 2(2)] obtain c pre post j where c: "c \<in> set cs" "j < length (flat c)"
      "flats cs = pre @ flat c @ post" "i - 1 = length pre + j" by blast
    with 2 have i: "i = Suc (length pre + j)" by simp
    have "type_of (flat c ! j) \<noteq> T_end" using Node.prems(3) c i by (simp add: nth_append)
    moreover have "tree_any c" using Node.prems(1) c(1) by (auto simp: tree_any_def)
    ultimately obtain S p q where "flat c = p @ flat S @ q" "length p = j" "tree_any S"
      using Node.IH [OF c(1)] c(2) by blast
    then show ?thesis using c(3) i
      by (intro exI [of _ S] exI [of _ "t # pre @ p"] exI [of _ "q @ post @ [e]"]) auto
  next
    case 3
    then show ?thesis using Node.prems by (auto simp: tree_any_def nth_append)
  qed
qed

lemma flat_Cons: "\<exists>t ts. flat T = t # ts"
  by (cases T) auto

text \<open>What every reader relies on: a jump from a token stays inside the array.\<close>

definition jumps_ok :: "bdecode_token list \<Rightarrow> bool" where
  "jumps_ok ts \<longleftrightarrow> (\<forall>i < length ts. type_of (ts ! i) \<noteq> T_end \<longrightarrow>
     0 < next_item (ts ! i) \<and> i + next_item (ts ! i) < length ts)"

lemma tree_any_jump:
  assumes "tree_any T"
  shows "0 < next_item (hd (flat T)) \<and> next_item (hd (flat T)) \<le> length (flat T)"
  using assms by (cases T) (auto simp: tree_any_def)

lemma jumps_ok_tree:
  assumes "tree_any T" and "type_of e = T_end"
  shows "jumps_ok (flat T @ [e])"
  unfolding jumps_ok_def
proof (intro allI impI)
  fix i assume i: "i < length (flat T @ [e])" "type_of ((flat T @ [e]) ! i) \<noteq> T_end"
  then have lt: "i < length (flat T)" using assms(2) by (cases "i = length (flat T)") auto
  with i obtain S pre post where S: "flat T = pre @ flat S @ post" "length pre = i" "tree_any S"
    using subtree_at [OF assms(1) lt] by (auto simp: nth_append)
  obtain t ts where t: "flat S = t # ts" using flat_Cons by blast
  have "(flat T @ [e]) ! i = hd (flat S)" using S t by (simp add: nth_append)
  then show "0 < next_item ((flat T @ [e]) ! i) \<and> i + next_item ((flat T @ [e]) ! i) < length (flat T @ [e])"
    using tree_any_jump [OF S(3)] S(1,2) by auto
qed

lemma count_items_total:
  assumes "jumps_ok ts" and "i < length ts"
  shows "count_items ts i r \<noteq> None"
  using assms
proof (induction ts i r rule: count_items.induct)
  case (1 ts i r)
  then show ?case unfolding jumps_ok_def by (subst count_items.simps) auto
qed

lemma substr_total: "from \<le> to \<Longrightarrow> to \<le> length buf \<Longrightarrow> substr buf from (int to - int from) \<noteq> None"
  by (simp add: substr_def nat_diff_distrib')

lemma string_at_total:
  assumes "fits ts (length buf)" and "Suc i < length ts" and "is_string (ts ! i)"
  shows "string_at ts buf i \<noteq> None"
proof -
  have f: "offset (ts ! i) + start_offset (ts ! i) \<le> offset (ts ! Suc i)" "offset (ts ! Suc i) \<le> length buf"
    using fits_nth [OF assms(1,2)] assms(3) by (auto simp: tok_fits_def)
  have "int (offset (ts ! Suc i)) - int (offset (ts ! i)) - int (start_offset (ts ! i)) =
    int (offset (ts ! Suc i)) - int (offset (ts ! i) + start_offset (ts ! i))" by simp
  then show ?thesis using substr_total [OF f] assms(2) by (simp add: string_at_def token_source_span_def tok_def diff_diff_eq)
qed

lemma int_value_total:
  assumes "fits ts (length buf)" and "Suc i < length ts" and "type_of (ts ! i) = T_integer"
  shows "int_value (node_at ts buf i) \<noteq> None"
  using fits_nth [OF assms(1,2)] assms(2,3)
  by (auto simp: int_value_def node_at_def tok_def token_source_span_def tok_fits_def Let_def split: prod.splits)

text \<open>A lookup in a dictionary reads keys that are strings and stops at the end token.\<close>

lemma dict_find_from_total:
  assumes "ts = pre @ flats cs @ e # post" and "type_of e = T_end" and "pairs_ok cs"
    and "\<forall>c \<in> set (butlast cs). tree_ok c" "\<forall>c \<in> set cs. tree_any c" and "fits ts (length buf)"
  shows "dict_find_from ts buf key (length pre) \<noteq> None"
  using assms
proof (induction cs arbitrary: pre rule: pairs_ok.induct)
  case 1
  then show ?case by (subst dict_find_from.simps) simp
next
  case (2 t v cs)
  have t: "is_string t" "next_item t = 1" "ts ! length pre = t" "type_of t \<noteq> T_end"
    using 2 by (auto simp: tree_any_def is_string_def)
  obtain w ws where w: "flat v = w # ws" using flat_Cons by blast
  have v: "tree_any v" using 2 by auto
  have tw: "ts ! Suc (length pre) = w" "Suc (length pre) < length ts" using 2(2) w by (auto simp: nth_append)
  have str: "string_at ts buf (length pre) \<noteq> None"
    by (rule string_at_total) (use 2 t tw in auto)
  have "dict_find_from ts buf key (Suc (length pre + next_item w)) \<noteq> None"
  proof (cases "tree_ok v")
    case True
    then have n: "next_item w = length (flat v)" using w by (cases v) auto
    let ?pre = "pre @ t # flat v"
    have "dict_find_from ts buf key (length ?pre) \<noteq> None"
      by (rule 2(1)) (use 2 in \<open>auto split: if_splits\<close>)
    then show ?thesis using n by simp
  next
    case False
    then have uw: "tree_uw v" using v by (simp add: tree_any_def)
    have "cs = []" using 2(5) False by (cases cs) auto
    obtain h us x where v': "v = Node h us x" using uw by (cases v) auto
    then have "next_item w = length (flats us) + 1" "type_of x = T_end" using w uw by auto
    moreover have "ts ! Suc (length pre + (length (flats us) + 1)) = x" "Suc (length pre + (length (flats us) + 1)) < length ts"
      using 2(2) v' by (auto simp: nth_append)
    ultimately show ?thesis by (subst dict_find_from.simps) simp
  qed
  then show ?case using str t tw by (subst dict_find_from.simps) (auto simp: Let_def tok_def)
qed auto

lemma walk_total:
  assumes "jumps_ok ts" and "count_items ts i r = Some s" and "k \<le> s - r"
  shows "walk ts i k \<noteq> None"
  using assms
proof (induction k arbitrary: i r)
  case (Suc k)
  then have "i < length ts" by (subst (asm) count_items.simps) (auto split: if_splits)
  moreover have "type_of (ts ! i) \<noteq> T_end" using Suc.prems by (subst (asm) count_items.simps) (auto split: if_splits)
  ultimately have "count_items ts (i + next_item (ts ! i)) (Suc r) = Some s"
    using Suc.prems(2) by (subst (asm) count_items.simps) (auto split: if_splits)
  then have "walk ts (i + next_item (ts ! i)) k \<noteq> None"
    by (rule Suc.IH [OF Suc.prems(1)]) (use Suc.prems(3) in simp)
  then show ?case using \<open>i < length ts\<close> by (simp add: tok_def)
qed simp

text \<open>The tokens a call of \<^verbatim>\<open>bdecode\<close> leaves: nothing but the end token, or a tree and the end token.\<close>

lemma bdecode_tokens:
  assumes "bdecode buf dl lim = (e, p, n)" and len: "int (length buf) + 2 \<le> 2 ^ 28"
  shows "\<exists>u T. type_of u = T_end \<and> (root_tokens n = [u] \<or> root_tokens n = flat T @ [u] \<and> tree_any T) \<and>
    fits (root_tokens n) (length (m_buffer n))"
proof -
  let ?i = "\<lparr>tokens = [], stack = [], start = 0, token_limit = lim\<rparr>"
  have small: "int (length buf) \<le> max_offset" using len by (simp add: max_offset_def)
  have init: "loop_inv buf ?i" by (simp add: loop_inv_def)
  obtain st where st: "done_ok buf st \<and> stack st = [] \<or> loop_inv buf st"
    and n: "n = node_at (unwind (start st) (stack st) (tokens st) @ [token4 (start st) 0 T_end 0]) (take (start st) buf) 0"
  proof (cases "buf = []")
    case True
    show thesis by (rule that [of ?i]) (use assms(1) init small True in \<open>auto simp: bdecode_def Let_def max_offset_def\<close>)
  next
    case False
    obtain e' p' st' where l: "bdecode_loop buf dl ?i = (e', p', st')" by (metis prod_cases3)
    show thesis
      by (rule that [of st']) (use assms(1) l False small loop_ok [OF init small l] in \<open>auto simp: bdecode_def Let_def\<close>)
  qed
  let ?u = "token4 (start st) 0 T_end 0"
  have s: "start st \<le> length buf" using st by (auto simp: done_ok_def loop_inv_def)
  then have s29: "start st < 2 ^ 29" using len by simp
  have "unwind (start st) (stack st) (tokens st) = [] \<or>
      (\<exists>T. unwind (start st) (stack st) (tokens st) = flat T \<and> tree_any T)"
    and fit: "fits (unwind (start st) (stack st) (tokens st)) (start st)"
  proof (atomize (full), cases "stack st = []")
    case True
    then show "(unwind (start st) (stack st) (tokens st) = [] \<or>
        (\<exists>T. unwind (start st) (stack st) (tokens st) = flat T \<and> tree_any T)) \<and>
      fits (unwind (start st) (stack st) (tokens st)) (start st)"
      using st by (auto simp: done_ok_def loop_inv_def tree_any_def)
  next
    case False
    then show "(unwind (start st) (stack st) (tokens st) = [] \<or>
        (\<exists>T. unwind (start st) (stack st) (tokens st) = flat T \<and> tree_any T)) \<and>
      fits (unwind (start st) (stack st) (tokens st)) (start st)"
      using st unwind_ok [OF _ False len] by (auto simp: tree_any_def)
  qed
  moreover have "tok_fits ?u (start st)" "offset ?u = start st" "type_of ?u = T_end"
    using s29 by (auto simp: token4_def Let_def tok_fits_def is_string_def)
  ultimately show ?thesis using n s by (intro exI [of _ ?u]) (auto simp: node_at_def fits_snoc)
qed

lemma dict_tree_find:
  assumes "root = pre @ flat S @ post" and "tree_any S" and "type_of (hd (flat S)) = T_dict" and "fits root (length buf)"
  shows "dict_find key (node_at root buf (length pre)) \<noteq> None"
proof -
  obtain t cs x where S: "S = Node t cs x" using assms(2,3) by (cases S) (auto simp: tree_any_def is_string_def)
  have "dict_find_from root buf key (length (pre @ [t])) \<noteq> None"
    by (rule dict_find_from_total [where cs = cs and e = x and post = post])
      (use assms S in \<open>auto simp: tree_any_def dest: in_set_butlastD\<close>)
  then show ?thesis by (simp add: dict_find_def node_at_def)
qed



end
