(* ===== verification/Picker.thy ===== *)
theory Picker
  imports Bitfield
begin

text \<open>
  The piece picker of \<^verbatim>\<open>piece_picker.cpp\<close>: its state and every operation that changes it. The state is
  the record \<open>piece_picker\<close> with the fields of the class; each operation is a function on it.
  Preconditions the code states as \<^verbatim>\<open>TORRENT_ASSERT\<close> (an index in range) are hypotheses of the
  theorems, not guards. An iterator into one of the download queues is the pair of the queue and a
  position. A peer pointer is a number, \<open>None\<close> for \<^verbatim>\<open>nullptr\<close>. The outcomes of the random generator
  are a list in the state, consumed one by one.
\<close>

section \<open>Data\<close>

type_synonym peer = "nat option"

text \<open>The states of a piece; the first four name the download queues (\<^verbatim>\<open>download_queue_t\<close>).\<close>

datatype dl_state = piece_downloading | piece_full | piece_finished | piece_zero_prio
  | piece_open | piece_downloading_reverse | piece_full_reverse

datatype block_state = state_none | state_requested | state_writing | state_finished

record block_info =
  bi_peer :: peer
  bi_num_peers :: nat
  bi_state :: block_state

record downloading_piece =
  dp_index :: nat
  info_idx :: nat
  finished :: nat
  passed_hash_check :: bool
  writing :: nat
  locked :: bool
  requested :: nat

record piece_pos =
  peer_count :: nat
  download_state :: dl_state
  piece_priority :: nat
  pp_index :: int \<comment> \<open>the position in \<open>m_pieces\<close>, \<open>-1\<close> when we have the piece\<close>

record piece_picker =
  m_piece_map :: "piece_pos list"
  m_pad_blocks :: bitfield
  m_pads_in_piece :: "nat \<Rightarrow> nat option"
  m_recent_extents :: "nat list"
  m_num_pad_blocks :: int
  m_have_pad_blocks :: int
  m_filtered_pad_blocks :: int
  m_have_filtered_pad_blocks :: int
  m_seeds :: nat
  m_num_passed :: int
  m_pieces :: "nat list"
  m_priority_boundaries :: "nat list"
  m_downloads :: "dl_state \<Rightarrow> downloading_piece list"
  m_block_info :: "block_info list"
  m_free_block_infos :: "nat list"
  m_blocks_per_piece :: nat
  m_blocks_in_last_piece :: nat
  m_num_filtered :: int
  m_num_have_filtered :: int
  m_cursor :: nat
  m_reverse_cursor :: nat
  m_num_have :: int
  m_dirty :: bool
  rng :: "nat list"

definition we_have_index :: int where "we_have_index = -1"
definition filter_priority :: nat where "filter_priority = 0"
definition dont_download :: nat where "dont_download = 0"
definition default_priority :: nat where "default_priority = 4"
definition top_priority :: nat where "top_priority = 7"
definition priority_levels :: nat where "priority_levels = 8"
definition prio_factor :: nat where "prio_factor = 3"
definition max_peer_count :: nat where "max_peer_count = 0xffff"
definition max_blocks_per_piece :: int where "max_blocks_per_piece = 2 ^ 15 - 1"
definition max_piece_affinity_extent :: nat where "max_piece_affinity_extent = 4 * 1024 * 1024 div 0x4000"

section \<open>Pieces\<close>

definition download_queue :: "piece_pos \<Rightarrow> dl_state" where
  "download_queue p =
     (if download_state p = piece_downloading_reverse then piece_downloading
      else if download_state p = piece_full_reverse then piece_full
      else download_state p)"

definition reverse_pos :: "piece_pos \<Rightarrow> bool" where
  "reverse_pos p \<longleftrightarrow> download_state p = piece_downloading_reverse \<or> download_state p = piece_full_reverse"

definition unreverse :: "piece_pos \<Rightarrow> piece_pos" where
  "unreverse p =
     (if download_state p = piece_downloading_reverse then p\<lparr>download_state := piece_downloading\<rparr>
      else if download_state p = piece_full_reverse then p\<lparr>download_state := piece_full\<rparr> else p)"

definition make_reverse :: "piece_pos \<Rightarrow> piece_pos" where
  "make_reverse p =
     (if download_state p = piece_downloading then p\<lparr>download_state := piece_downloading_reverse\<rparr>
      else if download_state p = piece_full then p\<lparr>download_state := piece_full_reverse\<rparr> else p)"

definition have_pos :: "piece_pos \<Rightarrow> bool" where
  "have_pos p \<longleftrightarrow> pp_index p = we_have_index"

definition downloading :: "piece_pos \<Rightarrow> bool" where
  "downloading p \<longleftrightarrow> download_state p \<noteq> piece_open"

definition filtered :: "piece_pos \<Rightarrow> bool" where
  "filtered p \<longleftrightarrow> piece_priority p = filter_priority"

text \<open>The key a piece is ordered by: rarity times inverted priority, partial pieces first.\<close>

definition priority :: "nat \<Rightarrow> piece_pos \<Rightarrow> int" where
  "priority seeds p =
     (if filtered p \<or> have_pos p \<or> peer_count p + seeds = 0 \<or> download_state p = piece_full
         \<or> download_state p = piece_finished then -1
      else let adjustment = (if reverse_pos p then -1 else if download_state p \<noteq> piece_open then -3 else -2 :: int);
               availability = int (peer_count p) + 1
           in availability * (int priority_levels - int (piece_priority p)) * int prio_factor + adjustment)"

definition new_piece_pos :: piece_pos where
  "new_piece_pos = \<lparr>peer_count = 0, download_state = piece_open, piece_priority = default_priority, pp_index = 0\<rparr>"

section \<open>State accessors\<close>

definition num_pieces :: "piece_picker \<Rightarrow> nat" where
  "num_pieces s = length (m_piece_map s)"

abbreviation pos_of :: "piece_picker \<Rightarrow> nat \<Rightarrow> piece_pos" where
  "pos_of s i \<equiv> m_piece_map s ! i"

abbreviation prio_of :: "piece_picker \<Rightarrow> nat \<Rightarrow> int" where
  "prio_of s i \<equiv> priority (m_seeds s) (pos_of s i)"

definition set_pos :: "nat \<Rightarrow> (piece_pos \<Rightarrow> piece_pos) \<Rightarrow> piece_picker \<Rightarrow> piece_picker" where
  "set_pos i f s = s\<lparr>m_piece_map := (m_piece_map s)[i := f (pos_of s i)]\<rparr>"

definition set_queue :: "dl_state \<Rightarrow> downloading_piece list \<Rightarrow> piece_picker \<Rightarrow> piece_picker" where
  "set_queue q dps s = s\<lparr>m_downloads := (m_downloads s)(q := dps)\<rparr>"

definition blocks_in_piece :: "piece_picker \<Rightarrow> nat \<Rightarrow> nat" where
  "blocks_in_piece s index =
     (if index + 1 = num_pieces s then m_blocks_in_last_piece s else m_blocks_per_piece s)"

definition pad_blocks_in_piece :: "piece_picker \<Rightarrow> nat \<Rightarrow> int" where
  "pad_blocks_in_piece s index = (case m_pads_in_piece s index of None \<Rightarrow> 0 | Some n \<Rightarrow> int n)"

definition have_piece :: "piece_picker \<Rightarrow> nat \<Rightarrow> bool" where
  "have_piece s index \<longleftrightarrow> pp_index (pos_of s index) = we_have_index"

text \<open>\<^verbatim>\<open>random(max)\<close> is uniform over \<open>0..max\<close>, both included.\<close>

definition random :: "nat \<Rightarrow> piece_picker \<Rightarrow> nat \<times> piece_picker" where
  "random mx s = (case rng s of [] \<Rightarrow> (0, s) | r # rs \<Rightarrow> (r mod (mx + 1), s\<lparr>rng := rs\<rparr>))"

section \<open>The priority-ordered piece list\<close>

definition priority_begin :: "nat list \<Rightarrow> nat \<Rightarrow> nat" where
  "priority_begin bs prio = (if prio = 0 then 0 else bs ! (prio - 1))"

definition priority_end :: "nat list \<Rightarrow> nat \<Rightarrow> nat" where
  "priority_end bs prio = bs ! prio"

definition resize_list :: "nat \<Rightarrow> 'a \<Rightarrow> 'a list \<Rightarrow> 'a list" where
  "resize_list n v xs = take n xs @ replicate (n - length xs) v"

definition set_index :: "nat \<Rightarrow> nat \<Rightarrow> piece_pos list \<Rightarrow> piece_pos list" where
  "set_index piece n pm = pm[piece := (pm ! piece)\<lparr>pp_index := int n\<rparr>]"

text \<open>
  \<^verbatim>\<open>add\<close> appends the entry \<open>-1\<close> and lets every displaced piece move to the end of its bucket. The
  appended entry is the position one past the list, which reads as \<open>None\<close>; writing it extends
  the list.
\<close>

definition piece_at :: "nat list \<Rightarrow> nat \<Rightarrow> nat option" where
  "piece_at ps j = (if j < length ps then Some (ps ! j) else None)"

definition put_piece :: "nat list \<Rightarrow> nat \<Rightarrow> nat \<Rightarrow> nat list" where
  "put_piece ps j x = (if j < length ps then ps[j := x] else ps @ [x])"

function bump_boundaries :: "nat list \<Rightarrow> nat \<Rightarrow> nat \<Rightarrow> nat \<times> nat list \<times> nat" where
  "bump_boundaries bs prio new_index =
     (let temp = bs ! prio; bs' = bs[prio := temp + 1]; prio' = prio + 1 in
      if temp = new_index \<and> prio' < length bs then bump_boundaries bs' prio' new_index
      else (temp, bs', prio'))"
  by pat_completeness auto
termination by (relation "measure (\<lambda>(bs, prio, _). length bs - prio)") auto

declare bump_boundaries.simps [simp del]

lemma bump_boundaries_progress:
  "bump_boundaries bs prio n = (temp, bs', prio') \<Longrightarrow> length bs' = length bs \<and> prio < prio'"
proof (induction bs prio n rule: bump_boundaries.induct)
  case (1 bs prio n)
  then show ?case by (subst (asm) (2) bump_boundaries.simps) (fastforce simp: Let_def split: if_splits)
qed

text \<open>The loop ends with the piece that is still to be placed, if any, and its position.\<close>

function add_loop :: "nat list \<Rightarrow> piece_pos list \<Rightarrow> nat list \<Rightarrow> nat \<Rightarrow> nat \<Rightarrow> nat
    \<Rightarrow> nat list \<times> piece_pos list \<times> nat list \<times> nat option \<times> nat" where
  "add_loop ps pm bs prio index new_index =
     (let displaced = piece_at ps new_index;
          ps' = put_piece ps new_index index;
          pm' = set_index index new_index pm;
          (temp, bs', prio') = bump_boundaries bs prio new_index
      in if prio' \<ge> length bs then (ps', pm', bs', displaced, temp)
         else case displaced of None \<Rightarrow> (ps', pm', bs', None, temp)
              | Some y \<Rightarrow> add_loop ps' pm' bs' prio' y temp)"
  by pat_completeness auto
termination
  by (relation "measure (\<lambda>(_, _, bs, prio, _, _). length bs - prio)")
    (auto dest!: bump_boundaries_progress [OF sym])

declare add_loop.simps [simp del]

definition add_full :: "nat list \<Rightarrow> piece_pos list \<Rightarrow> nat list \<Rightarrow> nat \<Rightarrow> nat \<Rightarrow> nat
    \<Rightarrow> nat list \<times> piece_pos list \<times> nat list" where
  "add_full ps pm bs prio index new_index =
     (let (ps', pm', bs', rest, pos) = add_loop ps pm bs prio index new_index
      in case rest of None \<Rightarrow> (ps', pm', bs') | Some y \<Rightarrow> (put_piece ps' pos y, set_index y pos pm', bs'))"

text \<open>The boundaries, extended when the priority is higher than any before.\<close>

definition grown_boundaries :: "nat \<Rightarrow> piece_picker \<Rightarrow> nat list" where
  "grown_boundaries prio s =
     (if length (m_priority_boundaries s) \<le> prio
      then resize_list (prio + 1) (length (m_pieces s)) (m_priority_boundaries s)
      else m_priority_boundaries s)"

definition random_slot :: "nat \<Rightarrow> nat \<Rightarrow> piece_picker \<Rightarrow> nat \<times> piece_picker" where
  "random_slot first lst s =
     (if lst = first then (first, s) else let (r, s1) = random (lst - first) s in (r + first, s1))"

definition add :: "nat \<Rightarrow> piece_picker \<Rightarrow> piece_picker" where
  "add index s =
     (if prio_of s index < 0 then s
      else let prio = nat (prio_of s index); bs = grown_boundaries prio s;
               (new_index, s1) = random_slot (priority_begin bs prio) (priority_end bs prio) s;
               (ps, pm, bs') = add_full (m_pieces s) (m_piece_map s) bs prio index new_index
           in s1\<lparr>m_pieces := ps, m_piece_map := pm, m_priority_boundaries := bs'\<rparr>)"

text \<open>\<^verbatim>\<open>remove\<close> fills the hole a removed piece leaves with the last piece of each following bucket.\<close>

function drop_boundaries :: "nat list \<Rightarrow> nat \<Rightarrow> nat \<Rightarrow> nat \<times> nat list \<times> nat" where
  "drop_boundaries bs prio next_index =
     (let temp = bs ! prio - 1; bs' = bs[prio := temp]; prio' = prio + 1 in
      if next_index = temp \<and> prio' < length bs then drop_boundaries bs' prio' next_index
      else (temp, bs', prio'))"
  by pat_completeness auto
termination by (relation "measure (\<lambda>(bs, prio, _). length bs - prio)") auto

declare drop_boundaries.simps [simp del]

lemma drop_boundaries_progress:
  "drop_boundaries bs prio n = (temp, bs', prio') \<Longrightarrow> length bs' = length bs \<and> prio < prio'"
proof (induction bs prio n rule: drop_boundaries.induct)
  case (1 bs prio n)
  then show ?case by (subst (asm) (2) drop_boundaries.simps) (fastforce simp: Let_def split: if_splits)
qed

function remove_loop :: "nat list \<Rightarrow> piece_pos list \<Rightarrow> nat list \<Rightarrow> nat \<Rightarrow> nat
    \<Rightarrow> nat list \<times> piece_pos list \<times> nat list" where
  "remove_loop ps pm bs prio elem_index =
     (let (temp, bs', prio') = drop_boundaries bs prio elem_index in
      if elem_index = temp then (ps, pm, bs')
      else let piece = ps ! temp;
               ps' = ps[elem_index := piece];
               pm' = set_index piece elem_index pm
           in if prio' \<ge> length bs then (ps', pm', bs')
              else remove_loop ps' pm' bs' prio' temp)"
  by pat_completeness auto
termination
  by (relation "measure (\<lambda>(_, _, bs, prio, _). length bs - prio)")
    (auto dest!: drop_boundaries_progress [OF sym])

declare remove_loop.simps [simp del]

definition remove :: "nat \<Rightarrow> nat \<Rightarrow> piece_picker \<Rightarrow> piece_picker" where
  "remove prio elem_index s =
     (let (ps, pm, bs) = remove_loop (m_pieces s) (m_piece_map s) (m_priority_boundaries s) prio elem_index
      in s\<lparr>m_pieces := butlast ps, m_piece_map := pm, m_priority_boundaries := bs\<rparr>)"

definition shuffle :: "nat \<Rightarrow> nat \<Rightarrow> piece_picker \<Rightarrow> piece_picker" where
  "shuffle prio elem_index s =
     (let bs = m_priority_boundaries s; first = priority_begin bs prio; last = priority_end bs prio;
          (r, s1) = random (last - first - 1) s; other_index = r + first in
      if other_index = elem_index then s1
      else let a = m_pieces s ! other_index; b = m_pieces s ! elem_index;
               pm = m_piece_map s; i = pp_index (pm ! a); j = pp_index (pm ! b);
               pm1 = pm[a := (pm ! a)\<lparr>pp_index := j\<rparr>];
               pm2 = pm1[b := (pm1 ! b)\<lparr>pp_index := i\<rparr>]
           in s1\<lparr>m_pieces := (m_pieces s)[other_index := b, elem_index := a], m_piece_map := pm2\<rparr>)"

text \<open>
  The two loops of \<^verbatim>\<open>update\<close> move a hole towards the front or the back; they return the position
  where the piece is to be placed. \<open>temp\<close> is the piece the hole's position still names.
\<close>

fun update_down :: "nat \<Rightarrow> nat list \<Rightarrow> piece_pos list \<Rightarrow> nat list \<Rightarrow> nat \<Rightarrow> nat \<Rightarrow> nat
    \<Rightarrow> nat list \<times> piece_pos list \<times> nat list \<times> nat" where
  "update_down 0 ps pm bs prio elem_index temp = (ps, pm, bs, elem_index)"
| "update_down (Suc steps) ps pm bs prio elem_index temp =
     (let prio' = prio - 1; new_index = bs ! prio'; bs' = bs[prio' := new_index + 1];
          (ps', pm', temp') =
            (if temp \<noteq> ps ! new_index
             then (ps[elem_index := ps ! new_index], set_index (ps ! new_index) elem_index pm, ps ! new_index)
             else (ps, pm, temp))
      in update_down steps ps' pm' bs' prio' new_index temp')"

fun update_up :: "nat \<Rightarrow> nat list \<Rightarrow> piece_pos list \<Rightarrow> nat list \<Rightarrow> nat \<Rightarrow> nat \<Rightarrow> nat
    \<Rightarrow> nat list \<times> piece_pos list \<times> nat list \<times> nat" where
  "update_up 0 ps pm bs prio elem_index temp = (ps, pm, bs, elem_index)"
| "update_up (Suc steps) ps pm bs prio elem_index temp =
     (let new_index = bs ! prio - 1; bs' = bs[prio := new_index];
          (ps', pm', temp') =
            (if temp \<noteq> ps ! new_index
             then (ps[elem_index := ps ! new_index], set_index (ps ! new_index) elem_index pm, ps ! new_index)
             else (ps, pm, temp))
      in update_up steps ps' pm' bs' (prio + 1) new_index temp')"

definition update_core :: "nat list \<Rightarrow> piece_pos list \<Rightarrow> nat list \<Rightarrow> nat \<Rightarrow> nat \<Rightarrow> nat \<Rightarrow> nat
    \<Rightarrow> nat list \<times> piece_pos list \<times> nat list \<times> nat" where
  "update_core ps pm bs prio new_priority elem_index index =
     (let (ps', pm', bs', e) =
            (if prio > new_priority then update_down (prio - new_priority) ps pm bs prio elem_index index
             else update_up (new_priority - prio) ps pm bs prio elem_index index)
      in (ps'[e := index], set_index index e pm', bs', e))"

definition update :: "nat \<Rightarrow> nat \<Rightarrow> piece_picker \<Rightarrow> piece_picker" where
  "update prio elem_index s =
     (let index = m_pieces s ! elem_index; new_priority = prio_of s index in
      if new_priority = int prio then s
      else if new_priority = -1 then remove prio elem_index s
      else let np = nat new_priority;
               (ps, pm, bs, e) = update_core (m_pieces s) (m_piece_map s) (grown_boundaries np s) prio np elem_index index
           in shuffle np e (s\<lparr>m_pieces := ps, m_piece_map := pm, m_priority_boundaries := bs\<rparr>))"

text \<open>
  \<^verbatim>\<open>update_pieces\<close> rebuilds the list from the piece map: counts per priority, running sums, one
  entry per piece, a shuffle of every bucket, and the back references.
\<close>

fun count_priorities :: "nat \<Rightarrow> piece_pos list \<Rightarrow> nat list \<Rightarrow> piece_pos list \<times> nat list" where
  "count_priorities seeds [] bs = ([], bs)"
| "count_priorities seeds (p # pm) bs =
     (let prio = priority seeds p in
      if prio = -1 then let (pm', bs') = count_priorities seeds pm bs in (p # pm', bs')
      else let prio = nat prio;
               bs1 = (if prio \<ge> length bs then resize_list (prio + 1) 0 bs else bs);
               (pm', bs') = count_priorities seeds pm (bs1[prio := bs1 ! prio + 1])
           in (p\<lparr>pp_index := int (bs1 ! prio)\<rparr> # pm', bs'))"

fun running_sums :: "nat \<Rightarrow> nat list \<Rightarrow> nat list" where
  "running_sums n [] = []"
| "running_sums n (b # bs) = (n + b) # running_sums (n + b) bs"

fun place_pieces :: "nat \<Rightarrow> nat \<Rightarrow> piece_pos list \<Rightarrow> nat list \<Rightarrow> nat list \<Rightarrow> nat list" where
  "place_pieces seeds piece [] bs ps = ps"
| "place_pieces seeds piece (p # pm) bs ps =
     (let prio = priority seeds p in
      place_pieces seeds (piece + 1) pm bs
        (if prio = -1 then ps else ps[priority_begin bs (nat prio) + nat (pp_index p) := piece]))"

text \<open>\<^verbatim>\<open>std::shuffle\<close>: entry \<open>k\<close> of a range is exchanged with a random entry of \<open>0..k\<close>.\<close>

fun random_shuffle :: "nat \<Rightarrow> nat \<Rightarrow> nat \<Rightarrow> nat list \<Rightarrow> piece_picker \<Rightarrow> nat list \<times> piece_picker" where
  "random_shuffle start k 0 ps s = (ps, s)"
| "random_shuffle start k (Suc n) ps s =
     (let (r, s1) = random k s; i = start + k; j = start + r
      in random_shuffle start (k + 1) n (ps[i := ps ! j, j := ps ! i]) s1)"

fun shuffle_buckets :: "nat \<Rightarrow> nat list \<Rightarrow> nat list \<Rightarrow> piece_picker \<Rightarrow> nat list \<times> piece_picker" where
  "shuffle_buckets start [] ps s = (ps, s)"
| "shuffle_buckets start (b # bs) ps s =
     (if start = b then shuffle_buckets start bs ps s
      else let (ps', s') = random_shuffle start 0 (b - start) ps s in shuffle_buckets b bs ps' s')"

fun index_pieces :: "nat \<Rightarrow> nat list \<Rightarrow> piece_pos list \<Rightarrow> piece_pos list" where
  "index_pieces n [] pm = pm"
| "index_pieces n (p # ps) pm = index_pieces (n + 1) ps (set_index p n pm)"

definition update_pieces :: "piece_picker \<Rightarrow> piece_picker" where
  "update_pieces s =
     (let bs0 = (if m_priority_boundaries s = [] then [0] else m_priority_boundaries s);
          (pm, counts) = count_priorities (m_seeds s) (m_piece_map s) (map (\<lambda>_. 0) bs0);
          bs = running_sums 0 counts;
          new_size = (if bs = [] then 0 else last bs);
          ps = place_pieces (m_seeds s) 0 pm bs (resize_list new_size 0 (m_pieces s));
          (ps', s1) = shuffle_buckets 0 bs ps s
      in s1\<lparr>m_priority_boundaries := bs, m_pieces := ps', m_piece_map := index_pieces 0 ps' pm, m_dirty := False\<rparr>)"

section \<open>Download queues\<close>

type_synonym dl_it = "dl_state \<times> nat"

definition deref :: "dl_it \<Rightarrow> piece_picker \<Rightarrow> downloading_piece" where
  "deref it s = m_downloads s (fst it) ! snd it"

definition set_dp :: "dl_it \<Rightarrow> (downloading_piece \<Rightarrow> downloading_piece) \<Rightarrow> piece_picker \<Rightarrow> piece_picker" where
  "set_dp it f s = set_queue (fst it) ((m_downloads s (fst it))[snd it := f (deref it s)]) s"

definition lower_bound :: "downloading_piece list \<Rightarrow> nat \<Rightarrow> nat" where
  "lower_bound dps index = length (takeWhile (\<lambda>dp. dp_index dp < index) dps)"

definition find_dl_piece :: "dl_state \<Rightarrow> nat \<Rightarrow> piece_picker \<Rightarrow> dl_it option" where
  "find_dl_piece q index s =
     (let dps = m_downloads s q; i = lower_bound dps index in
      if i = length dps then None
      else if dp_index (dps ! i) = index then Some (q, i) else None)"

definition insert_at :: "nat \<Rightarrow> 'a \<Rightarrow> 'a list \<Rightarrow> 'a list" where
  "insert_at i x xs = take i xs @ x # drop i xs"

definition erase_at :: "nat \<Rightarrow> 'a list \<Rightarrow> 'a list" where
  "erase_at i xs = take i xs @ drop (i + 1) xs"

text \<open>The blocks of a downloading piece are a range of \<open>m_block_info\<close>.\<close>

definition block_slot :: "piece_picker \<Rightarrow> downloading_piece \<Rightarrow> nat \<Rightarrow> nat" where
  "block_slot s dp j = info_idx dp * m_blocks_per_piece s + j"

definition blocks_for_piece :: "piece_picker \<Rightarrow> downloading_piece \<Rightarrow> block_info list" where
  "blocks_for_piece s dp = map (\<lambda>j. m_block_info s ! block_slot s dp j) [0..<blocks_in_piece s (dp_index dp)]"

definition set_block :: "nat \<Rightarrow> (block_info \<Rightarrow> block_info) \<Rightarrow> piece_picker \<Rightarrow> piece_picker" where
  "set_block slot f s = s\<lparr>m_block_info := (m_block_info s)[slot := f (m_block_info s ! slot)]\<rparr>"

definition new_dl_state :: "piece_picker \<Rightarrow> downloading_piece \<Rightarrow> dl_state" where
  "new_dl_state s dp =
     (let p = pos_of s (dp_index dp); num_blocks = blocks_in_piece s (dp_index dp);
          n = requested dp + finished dp + writing dp in
      if filtered p then piece_zero_prio
      else if n = 0 then piece_open
      else if n < num_blocks then (if reverse_pos p then piece_downloading_reverse else piece_downloading)
      else if requested dp > 0 then (if reverse_pos p then piece_full_reverse else piece_full)
      else piece_finished)"

text \<open>The list follows a piece whose state changed.\<close>

definition follow :: "int \<Rightarrow> nat \<Rightarrow> piece_picker \<Rightarrow> piece_picker" where
  "follow prio index s =
     (if m_dirty s then s
      else if prio = -1 \<and> prio_of s index \<noteq> -1 then add index s
      else if prio \<noteq> -1 then update (nat prio) (nat (pp_index (pos_of s index))) s
      else s)"

definition update_piece_state :: "dl_it \<Rightarrow> piece_picker \<Rightarrow> dl_it \<times> piece_picker" where
  "update_piece_state it s =
     (let dp = deref it s; index = dp_index dp; p = pos_of s index;
          current_state = download_state p; new_state = new_dl_state s dp in
      if current_state = piece_open then (it, s)
      else if new_state = current_state \<or> new_state = piece_open then (it, s)
      else let q = download_queue p;
               s1 = set_queue q (erase_at (snd it) (m_downloads s q)) s;
               prio = prio_of s1 index;
               s2 = set_pos index (\<lambda>p. p\<lparr>download_state := new_state\<rparr>) s1;
               q' = download_queue (pos_of s2 index);
               i = lower_bound (m_downloads s2 q') index;
               s3 = set_queue q' (insert_at i dp (m_downloads s2 q')) s2
           in ((q', i), follow prio index s3))"

text \<open>The initial blocks of a piece: a pad block counts as finished.\<close>

definition is_pad :: "piece_picker \<Rightarrow> nat \<Rightarrow> nat \<Rightarrow> bool" where
  "is_pad s piece j \<longleftrightarrow> size_bf (m_pad_blocks s) \<noteq> 0 \<and> get_bit (m_pad_blocks s) (piece * m_blocks_per_piece s + j)"

definition init_block :: "bool \<Rightarrow> block_info" where
  "init_block pad = \<lparr>bi_peer = None, bi_num_peers = 0, bi_state = (if pad then state_finished else state_none)\<rparr>"

definition default_block :: block_info where
  "default_block = \<lparr>bi_peer = None, bi_num_peers = 0, bi_state = state_none\<rparr>"

fun init_blocks :: "nat \<Rightarrow> bool list \<Rightarrow> block_info list \<Rightarrow> block_info list" where
  "init_blocks slot [] bis = bis"
| "init_blocks slot (pad # pads) bis = init_blocks (slot + 1) pads (bis[slot := init_block pad])"

definition alloc_blocks :: "piece_picker \<Rightarrow> nat \<times> piece_picker" where
  "alloc_blocks s =
     (if m_free_block_infos s = []
      then (length (m_block_info s) div m_blocks_per_piece s,
            s\<lparr>m_block_info := m_block_info s @ replicate (m_blocks_per_piece s) default_block\<rparr>)
      else (last (m_free_block_infos s), s\<lparr>m_free_block_infos := butlast (m_free_block_infos s)\<rparr>))"

definition add_download_piece :: "nat \<Rightarrow> piece_picker \<Rightarrow> dl_it \<times> piece_picker" where
  "add_download_piece piece s =
     (let (block_index, s1) = alloc_blocks s;
          i = lower_bound (m_downloads s1 piece_downloading) piece;
          pads = map (is_pad s1 piece) [0..<blocks_in_piece s1 piece];
          dp = \<lparr>dp_index = piece, info_idx = block_index, finished = length (filter id pads),
                passed_hash_check = False, writing = 0, locked = False, requested = 0\<rparr>;
          s2 = s1\<lparr>m_block_info := init_blocks (block_index * m_blocks_per_piece s1) pads (m_block_info s1)\<rparr>;
          s3 = set_queue piece_downloading (insert_at i dp (m_downloads s2 piece_downloading)) s2
      in update_piece_state (piece_downloading, i) s3)"

definition erase_download_piece :: "dl_it \<Rightarrow> piece_picker \<Rightarrow> piece_picker" where
  "erase_download_piece it s =
     (let dp = deref it s; q = download_queue (pos_of s (dp_index dp));
          s1 = s\<lparr>m_free_block_infos := m_free_block_infos s @ [info_idx dp]\<rparr>;
          s2 = set_pos (dp_index dp) (\<lambda>p. p\<lparr>download_state := piece_open\<rparr>) s1
      in set_queue q (erase_at (snd it) (m_downloads s2 q)) s2)"

text \<open>
  The end of several operations: after a change of the piece from priority \<open>prev\<close>, its entry in the
  piece list follows.
\<close>

definition reposition :: "int \<Rightarrow> nat \<Rightarrow> piece_picker \<Rightarrow> piece_picker" where
  "reposition prev index s =
     (if prio_of s index = prev \<or> m_dirty s then s
      else if prev = -1 then add index s
      else update (nat prev) (nat (pp_index (pos_of s index))) s)"

text \<open>The other common form: a piece of the list that changed its state.\<close>

definition refresh :: "int \<Rightarrow> nat \<Rightarrow> piece_picker \<Rightarrow> piece_picker" where
  "refresh prio index s =
     (if prio \<ge> 0 \<and> \<not> m_dirty s then update (nat prio) (nat (pp_index (pos_of s index))) s else s)"

definition restore_piece :: "nat \<Rightarrow> piece_picker \<Rightarrow> piece_picker" where
  "restore_piece index s =
     (let q = download_queue (pos_of s index) in
      if q = piece_open then s
      else case find_dl_piece q index s of None \<Rightarrow> s
           | Some i \<Rightarrow>
               let s1 = set_dp i (\<lambda>dp. dp\<lparr>locked := False\<rparr>) s; prev = prio_of s1 index
               in reposition prev index (erase_download_piece i s1))"

section \<open>Availability\<close>

definition inc_refcount_all :: "piece_picker \<Rightarrow> piece_picker" where
  "inc_refcount_all s =
     (let s1 = s\<lparr>m_seeds := m_seeds s + 1\<rparr> in if m_seeds s1 = 1 then s1\<lparr>m_dirty := True\<rparr> else s1)"

definition dec_refcount_all :: "piece_picker \<Rightarrow> piece_picker" where
  "dec_refcount_all s =
     (if m_seeds s > 0
      then let s1 = s\<lparr>m_seeds := m_seeds s - 1\<rparr> in if m_seeds s1 = 0 then s1\<lparr>m_dirty := True\<rparr> else s1
      else s\<lparr>m_piece_map := map (\<lambda>p. p\<lparr>peer_count := peer_count p - 1\<rparr>) (m_piece_map s), m_dirty := True\<rparr>)"

definition inc_refcount :: "nat \<Rightarrow> piece_picker \<Rightarrow> piece_picker" where
  "inc_refcount index s =
     (let prev = prio_of s index;
          s1 = set_pos index (\<lambda>p. p\<lparr>peer_count := peer_count p + 1\<rparr>) s
      in reposition prev index s1)"

definition break_one_seed :: "piece_picker \<Rightarrow> piece_picker" where
  "break_one_seed s =
     s\<lparr>m_seeds := m_seeds s - 1,
       m_piece_map := map (\<lambda>p. p\<lparr>peer_count := peer_count p + 1\<rparr>) (m_piece_map s), m_dirty := True\<rparr>"

definition dec_refcount :: "nat \<Rightarrow> piece_picker \<Rightarrow> piece_picker" where
  "dec_refcount index s =
     (let s0 = (if peer_count (pos_of s index) = 0 then break_one_seed s else s);
          prev = prio_of s0 index;
          s1 = set_pos index (\<lambda>p. p\<lparr>peer_count := peer_count p - 1\<rparr>) s0
      in refresh prev index s1)"

text \<open>
  The bit mask forms: at most \<open>min 50 (size div 2)\<close> changed pieces are updated one by one, more make
  the list dirty.
\<close>

definition mask_indices :: "bitfield \<Rightarrow> nat list" where
  "mask_indices bitmask = filter (get_bit bitmask) [0..<size_bf bitmask]"

definition inc_refcount_one :: "nat \<Rightarrow> piece_picker \<Rightarrow> piece_picker" where
  "inc_refcount_one piece s =
     (let prev = prio_of s piece;
          s1 = set_pos piece (\<lambda>p. p\<lparr>peer_count := peer_count p + 1\<rparr>) s in
      if prio_of s1 piece = prev then s1
      else if prev \<ge> 0 then update (nat prev) (nat (pp_index (pos_of s1 piece))) s1
      else add piece s1)"

definition inc_refcount_mask :: "bitfield \<Rightarrow> piece_picker \<Rightarrow> piece_picker" where
  "inc_refcount_mask bitmask s =
     (if none_set bitmask then s
      else if all_set bitmask \<and> size_bf bitmask = num_pieces s then inc_refcount_all s
      else let size = min 50 (size_bf bitmask div 2); is = mask_indices bitmask in
        if \<not> m_dirty s \<and> length is < size then fold inc_refcount_one is s
        else (fold (\<lambda>i. set_pos i (\<lambda>p. p\<lparr>peer_count := peer_count p + 1\<rparr>)) is s)\<lparr>m_dirty := True\<rparr>)"

definition dec_peer_count :: "nat \<Rightarrow> piece_picker \<Rightarrow> piece_picker" where
  "dec_peer_count i s =
     (let s0 = (if peer_count (pos_of s i) = 0 then break_one_seed s else s)
      in set_pos i (\<lambda>p. p\<lparr>peer_count := peer_count p - 1\<rparr>) s0)"

definition dec_refcount_one :: "nat \<Rightarrow> piece_picker \<Rightarrow> piece_picker" where
  "dec_refcount_one piece s = refresh (prio_of s piece) piece (dec_peer_count piece s)"

definition dec_refcount_mask :: "bitfield \<Rightarrow> piece_picker \<Rightarrow> piece_picker" where
  "dec_refcount_mask bitmask s =
     (if none_set bitmask then s
      else if all_set bitmask \<and> size_bf bitmask = num_pieces s then dec_refcount_all s
      else let size = min 50 (size_bf bitmask div 2); is = mask_indices bitmask in
        if \<not> m_dirty s \<and> length is < size then fold dec_refcount_one is s
        else (fold dec_peer_count is s)\<lparr>m_dirty := True\<rparr>)"

section \<open>Having pieces\<close>

definition skip_pos :: "piece_pos \<Rightarrow> bool" where
  "skip_pos p \<longleftrightarrow> have_pos p \<or> filtered p"

text \<open>The cursors skip the pieces that are had or filtered, from the front and from the back.\<close>

function skip_forward :: "piece_pos list \<Rightarrow> nat \<Rightarrow> nat" where
  "skip_forward pm c = (if c < length pm \<and> skip_pos (pm ! c) then skip_forward pm (c + 1) else c)"
  by pat_completeness auto
termination by (relation "measure (\<lambda>(pm, c). length pm - c)") auto

declare skip_forward.simps [simp del]

fun skip_backward :: "piece_pos list \<Rightarrow> nat \<Rightarrow> nat" where
  "skip_backward pm 0 = 0"
| "skip_backward pm (Suc c) = (if skip_pos (pm ! c) then skip_backward pm c else Suc c)"

text \<open>A piece at one of the cursors stops being wanted. (\<^verbatim>\<open>we_have\<close>, \<^verbatim>\<open>set_piece_priority\<close>)\<close>

definition shrink_cursors :: "nat \<Rightarrow> piece_picker \<Rightarrow> piece_picker" where
  "shrink_cursors index s =
     (if m_cursor s + 1 = m_reverse_cursor s \<and> m_cursor s = index
      then s\<lparr>m_cursor := num_pieces s, m_reverse_cursor := 0\<rparr>
      else if m_cursor s = index then s\<lparr>m_cursor := skip_forward (m_piece_map s) (m_cursor s + 1)\<rparr>
      else if m_reverse_cursor s = index + 1
      then s\<lparr>m_reverse_cursor := skip_backward (m_piece_map s) (m_reverse_cursor s - 1)\<rparr>
      else s)"

text \<open>A piece becomes wanted again. (\<^verbatim>\<open>we_dont_have\<close>, \<^verbatim>\<open>set_piece_priority\<close>)\<close>

definition grow_cursors :: "nat \<Rightarrow> piece_picker \<Rightarrow> piece_picker" where
  "grow_cursors index s =
     (let s1 = (if index < m_cursor s then s\<lparr>m_cursor := index\<rparr> else s);
          s2 = (if index \<ge> m_reverse_cursor s1 then s1\<lparr>m_reverse_cursor := index + 1\<rparr> else s1)
      in if m_reverse_cursor s2 = m_cursor s2
         then s2\<lparr>m_reverse_cursor := 0, m_cursor := num_pieces s2\<rparr> else s2)"

definition we_have :: "nat \<Rightarrow> piece_picker \<Rightarrow> piece_picker" where
  "we_have index s =
     (let p = pos_of s index; info_index = pp_index p; prio = prio_of s index in
      if have_pos p then s
      else let q = download_queue p;
               s1 = (if q = piece_open then s
                     else case find_dl_piece q index s of None \<Rightarrow> s
                     | Some i \<Rightarrow>
                         erase_download_piece i
                           (if passed_hash_check (deref i s) then s\<lparr>m_num_passed := m_num_passed s - 1\<rparr> else s));
               pads = pad_blocks_in_piece s index;
               s2 = (if filtered (pos_of s1 index)
                     then s1\<lparr>m_filtered_pad_blocks := m_filtered_pad_blocks s1 - pads,
                             m_num_filtered := m_num_filtered s1 - 1,
                             m_have_filtered_pad_blocks := m_have_filtered_pad_blocks s1 + pads,
                             m_num_have_filtered := m_num_have_filtered s1 + 1\<rparr>
                     else s1);
               s3 = s2\<lparr>m_num_have := m_num_have s2 + 1, m_num_passed := m_num_passed s2 + 1,
                       m_have_pad_blocks := m_have_pad_blocks s2 + pads\<rparr>;
               s4 = set_pos index (\<lambda>p. p\<lparr>pp_index := we_have_index\<rparr>) s3;
               s5 = shrink_cursors index s4
           in if prio = -1 \<or> m_dirty s5 then s5 else remove (nat prio) (nat info_index) s5)"

definition piece_passed :: "nat \<Rightarrow> piece_picker \<Rightarrow> piece_picker" where
  "piece_passed index s =
     (let q = download_queue (pos_of s index) in
      if q = piece_open then s
      else case find_dl_piece q index s of None \<Rightarrow> s
           | Some i \<Rightarrow>
               if locked (deref i s) then s
               else let s1 = (set_dp i (\<lambda>dp. dp\<lparr>passed_hash_check := True\<rparr>) s)\<lparr>m_num_passed := m_num_passed s + 1\<rparr> in
                 if finished (deref i s1) < blocks_in_piece s1 index then s1 else we_have index s1)"

definition we_dont_have :: "nat \<Rightarrow> piece_picker \<Rightarrow> piece_picker" where
  "we_dont_have index s =
     (let p = pos_of s index in
      if \<not> have_pos p
      then let q = download_queue p in
        if q = piece_open then s
        else case find_dl_piece q index s of None \<Rightarrow> s
             | Some i \<Rightarrow>
                 erase_download_piece i
                   (if passed_hash_check (deref i s)
                    then (set_dp i (\<lambda>dp. dp\<lparr>passed_hash_check := False\<rparr>) s)\<lparr>m_num_passed := m_num_passed s - 1\<rparr>
                    else s)
      else let pads = pad_blocks_in_piece s index;
               s1 = s\<lparr>m_num_passed := m_num_passed s - 1\<rparr>;
               s2 = (if filtered p
                     then s1\<lparr>m_filtered_pad_blocks := m_filtered_pad_blocks s1 + pads,
                             m_num_filtered := m_num_filtered s1 + 1,
                             m_have_filtered_pad_blocks := m_have_filtered_pad_blocks s1 - pads,
                             m_num_have_filtered := m_num_have_filtered s1 - 1\<rparr>
                     else grow_cursors index s1);
               s3 = s2\<lparr>m_num_have := m_num_have s2 - 1, m_have_pad_blocks := m_have_pad_blocks s2 - pads\<rparr>;
               s4 = set_pos index (\<lambda>p. p\<lparr>pp_index := 0\<rparr>) s3
           in if m_dirty s4 then s4 else if prio_of s4 index \<ge> 0 then add index s4 else s4)"

definition we_have_all :: "piece_picker \<Rightarrow> piece_picker" where
  "we_have_all s =
     s\<lparr>m_priority_boundaries := [0], m_block_info := [], m_free_block_infos := [], m_pieces := [],
       m_dirty := False,
       m_num_have_filtered := m_num_have_filtered s + m_num_filtered s, m_num_filtered := 0,
       m_have_filtered_pad_blocks := m_have_filtered_pad_blocks s + m_filtered_pad_blocks s,
       m_filtered_pad_blocks := 0,
       m_cursor := num_pieces s, m_reverse_cursor := 0,
       m_num_passed := int (num_pieces s), m_num_have := int (num_pieces s),
       m_downloads := (\<lambda>_. []),
       m_piece_map := map (\<lambda>p. p\<lparr>pp_index := we_have_index, download_state := piece_open\<rparr>) (m_piece_map s)\<rparr>"

text \<open>The counters and cursors when a piece becomes filtered or unfiltered.\<close>

definition filter_change :: "nat \<Rightarrow> nat \<Rightarrow> piece_picker \<Rightarrow> bool \<times> piece_picker" where
  "filter_change index new_piece_priority s =
     (let p = pos_of s index; pads = pad_blocks_in_piece s index in
      if new_piece_priority = dont_download \<and> piece_priority p \<noteq> filter_priority
      then (True,
        if have_pos p
        then s\<lparr>m_have_filtered_pad_blocks := m_have_filtered_pad_blocks s + pads,
               m_num_have_filtered := m_num_have_filtered s + 1\<rparr>
        else shrink_cursors index
               (s\<lparr>m_filtered_pad_blocks := m_filtered_pad_blocks s + pads,
                  m_num_filtered := m_num_filtered s + 1\<rparr>))
      else if new_piece_priority \<noteq> dont_download \<and> piece_priority p = filter_priority
      then (True,
        if have_pos p
        then s\<lparr>m_have_filtered_pad_blocks := m_have_filtered_pad_blocks s - pads,
               m_num_have_filtered := m_num_have_filtered s - 1\<rparr>
        else grow_cursors index
               (s\<lparr>m_filtered_pad_blocks := m_filtered_pad_blocks s - pads,
                  m_num_filtered := m_num_filtered s - 1\<rparr>))
      else (False, s))"

definition set_piece_priority :: "nat \<Rightarrow> nat \<Rightarrow> piece_picker \<Rightarrow> bool \<times> piece_picker" where
  "set_piece_priority index new_piece_priority s =
     (if new_piece_priority = piece_priority (pos_of s index) then (False, s)
      else let prev = prio_of s index;
               (ret, s1) = filter_change index new_piece_priority s;
               s2 = set_pos index (\<lambda>p. p\<lparr>piece_priority := new_piece_priority\<rparr>) s1;
               s3 = reposition prev index s2;
               s4 = (if downloading (pos_of s3 index)
                     then case find_dl_piece (download_queue (pos_of s3 index)) index s3 of
                            None \<Rightarrow> s3 | Some i \<Rightarrow> snd (update_piece_state i s3)
                     else s3)
           in (ret, s4))"

section \<open>Blocks\<close>

text \<open>Only the two option flags the state changing operations read are arguments here.\<close>

definition extent_of :: "piece_picker \<Rightarrow> nat \<Rightarrow> nat" where
  "extent_of s p = p div (max_piece_affinity_extent div m_blocks_per_piece s)"

definition extent_range :: "piece_picker \<Rightarrow> nat \<Rightarrow> nat list" where
  "extent_range s e =
     (let extent_size = max_piece_affinity_extent div m_blocks_per_piece s; b = e * extent_size
      in [b..<min (b + extent_size) (num_pieces s)])"

definition record_downloading_piece :: "nat \<Rightarrow> piece_picker \<Rightarrow> piece_picker" where
  "record_downloading_piece p s =
     (if m_blocks_per_piece s \<ge> max_piece_affinity_extent then s
      else let this_extent = extent_of s p in
        if this_extent \<in> set (m_recent_extents s) then s
        else let others = filter (\<lambda>i. i \<noteq> p) (extent_range s this_extent);
                 this_prio = piece_priority (pos_of s p) in
          if \<exists>i \<in> set others. piece_priority (pos_of s i) \<noteq> this_prio then s
          else if \<forall>i \<in> set others. have_pos (pos_of s i) then s
          else if length (m_recent_extents s) < 5
          then s\<lparr>m_recent_extents := m_recent_extents s @ [this_extent]\<rparr> else s)"

definition mark_as_downloading :: "nat \<Rightarrow> nat \<Rightarrow> peer \<Rightarrow> bool \<Rightarrow> bool \<Rightarrow> piece_picker \<Rightarrow> bool \<times> piece_picker" where
  "mark_as_downloading piece block peer rv affinity s =
     (let p = pos_of s piece in
      if download_queue p = piece_open
      then let prio = prio_of s piece;
               s1 = set_pos piece (\<lambda>p. p\<lparr>download_state := (if rv then piece_downloading_reverse else piece_downloading)\<rparr>) s;
               s2 = refresh prio piece s1;
               s3 = (if affinity then record_downloading_piece piece s2 else s2);
               (it, s4) = add_download_piece piece s3;
               slot = block_slot s4 (deref it s4) block in
        if bi_state (m_block_info s4 ! slot) = state_finished then (False, s4)
        else let s5 = set_block slot (\<lambda>b. b\<lparr>bi_state := state_requested, bi_peer := peer, bi_num_peers := 1\<rparr>) s4;
                 s6 = set_dp it (\<lambda>dp. dp\<lparr>requested := requested dp + 1\<rparr>) s5
             in (True, snd (update_piece_state it s6))
      else case find_dl_piece (download_queue p) piece s of None \<Rightarrow> (False, s)
           | Some i \<Rightarrow>
               let slot = block_slot s (deref i s) block; info = m_block_info s ! slot in
               if bi_state info = state_writing \<or> bi_state info = state_finished then (False, s)
               else let s1 = (if rv \<and> \<not> reverse_pos p \<and> requested (deref i s) = 0
                              then refresh (prio_of s piece) piece (set_pos piece make_reverse s) else s);
                        s2 = set_block slot (\<lambda>b. b\<lparr>bi_peer := peer\<rparr>) s1;
                        s3 = (if bi_state info \<noteq> state_requested
                              then snd (update_piece_state i
                                     (set_dp i (\<lambda>dp. dp\<lparr>requested := requested dp + 1\<rparr>)
                                       (set_block slot (\<lambda>b. b\<lparr>bi_state := state_requested\<rparr>) s2)))
                              else s2);
                        s4 = set_block slot (\<lambda>b. b\<lparr>bi_num_peers := bi_num_peers b + 1\<rparr>) s3;
                        s5 = (if \<not> rv \<and> reverse_pos (pos_of s4 piece)
                              then refresh (prio_of s4 piece) piece (set_pos piece unreverse s4) else s4)
                    in (True, s5))"

definition mark_as_writing :: "nat \<Rightarrow> nat \<Rightarrow> peer \<Rightarrow> piece_picker \<Rightarrow> bool \<times> piece_picker" where
  "mark_as_writing piece block peer s =
     (let p = pos_of s piece in
      if \<not> downloading p
      then if have_piece s piece then (False, s)
        else let prio = prio_of s piece;
                 s1 = set_pos piece (\<lambda>p. p\<lparr>download_state := piece_downloading\<rparr>) s;
                 s2 = refresh prio piece s1;
                 (it, s3) = add_download_piece piece s2;
                 slot = block_slot s3 (deref it s3) block in
          if bi_state (m_block_info s3 ! slot) = state_finished then (False, s3)
          else let s4 = set_block slot (\<lambda>b. b\<lparr>bi_state := state_writing, bi_peer := peer, bi_num_peers := 0\<rparr>) s3;
                   s5 = set_dp it (\<lambda>dp. dp\<lparr>writing := 1\<rparr>) s4
               in (True, snd (update_piece_state it s5))
      else case find_dl_piece (download_queue p) piece s of None \<Rightarrow> (False, s)
           | Some i \<Rightarrow>
               let slot = block_slot s (deref i s) block; st = bi_state (m_block_info s ! slot);
                   s1 = set_block slot (\<lambda>b. b\<lparr>bi_peer := peer\<rparr>) s;
                   s2 = (if st = state_requested then set_dp i (\<lambda>dp. dp\<lparr>requested := requested dp - 1\<rparr>) s1 else s1) in
               if st = state_writing \<or> st = state_finished then (False, s2)
               else let s3 = set_dp i (\<lambda>dp. dp\<lparr>writing := writing dp + 1\<rparr>) s2;
                        s4 = set_block slot (\<lambda>b. b\<lparr>bi_state := state_writing, bi_num_peers := 0\<rparr>) s3
                    in (True, snd (update_piece_state i s4)))"

definition lock_piece :: "nat \<Rightarrow> piece_picker \<Rightarrow> piece_picker" where
  "lock_piece piece s =
     (let q = download_queue (pos_of s piece) in
      if q = piece_open then s
      else case find_dl_piece q piece s of None \<Rightarrow> s
           | Some i \<Rightarrow>
               let s1 = (if passed_hash_check (deref i s)
                         then (set_dp i (\<lambda>dp. dp\<lparr>passed_hash_check := False\<rparr>) s)\<lparr>m_num_passed := m_num_passed s - 1\<rparr>
                         else s)
               in set_dp i (\<lambda>dp. dp\<lparr>locked := True\<rparr>) s1)"

text \<open>An entry with no block left in progress is dropped. (\<^verbatim>\<open>write_failed\<close>, \<^verbatim>\<open>mark_as_canceled\<close>)\<close>

definition drop_if_idle :: "nat \<Rightarrow> dl_it \<times> piece_picker \<Rightarrow> piece_picker" where
  "drop_if_idle piece r =
     (let (i, s) = r; dp = deref i s in
      if finished dp + writing dp + requested dp = 0
      then reposition (prio_of s piece) piece (erase_download_piece i s) else s)"

definition write_failed :: "nat \<Rightarrow> nat \<Rightarrow> piece_picker \<Rightarrow> piece_picker" where
  "write_failed piece block s =
     (let q = download_queue (pos_of s piece) in
      if q = piece_open then s
      else case find_dl_piece q piece s of None \<Rightarrow> s
           | Some i \<Rightarrow>
               let slot = block_slot s (deref i s) block; st = bi_state (m_block_info s ! slot) in
               if st = state_finished then s
               else let s1 = (if st = state_writing then set_dp i (\<lambda>dp. dp\<lparr>writing := writing dp - 1\<rparr>) s else s);
                        s2 = set_block slot (\<lambda>b. b\<lparr>bi_peer := None, bi_state := state_none\<rparr>) s1;
                        s3 = (if passed_hash_check (deref i s2)
                              then (set_dp i (\<lambda>dp. dp\<lparr>passed_hash_check := False\<rparr>) s2)\<lparr>m_num_passed := m_num_passed s2 - 1\<rparr>
                              else s2);
                        s4 = set_dp i (\<lambda>dp. dp\<lparr>locked := True\<rparr>) s3
                    in drop_if_idle piece (update_piece_state i s4))"

definition mark_as_canceled :: "nat \<Rightarrow> nat \<Rightarrow> peer \<Rightarrow> piece_picker \<Rightarrow> piece_picker" where
  "mark_as_canceled piece block peer s =
     (let q = download_queue (pos_of s piece) in
      if q = piece_open then s
      else case find_dl_piece q piece s of None \<Rightarrow> s
           | Some i \<Rightarrow>
               let slot = block_slot s (deref i s) block; st = bi_state (m_block_info s ! slot) in
               if st = state_finished then s
               else let s1 = set_block slot (\<lambda>b. b\<lparr>bi_peer := peer\<rparr>) s in
                 if st = state_writing
                 then drop_if_idle piece
                        (update_piece_state i
                          (set_block slot (\<lambda>b. b\<lparr>bi_state := state_none\<rparr>)
                            (set_dp i (\<lambda>dp. dp\<lparr>writing := writing dp - 1\<rparr>) s1)))
                 else s1)"

definition mark_as_finished :: "nat \<Rightarrow> nat \<Rightarrow> peer \<Rightarrow> piece_picker \<Rightarrow> piece_picker" where
  "mark_as_finished piece block peer s =
     (let p = pos_of s piece in
      if download_queue p = piece_open
      then if have_piece s piece then s
        else let prio = prio_of s piece;
                 s1 = set_pos piece (\<lambda>p. p\<lparr>download_state := piece_downloading\<rparr>) s;
                 s2 = refresh prio piece s1;
                 (it, s3) = add_download_piece piece s2;
                 slot = block_slot s3 (deref it s3) block in
          if bi_state (m_block_info s3 ! slot) = state_finished then s3
          else let s4 = set_block slot (\<lambda>b. b\<lparr>bi_peer := peer\<rparr>) s3;
                   s5 = set_dp it (\<lambda>dp. dp\<lparr>finished := finished dp + 1\<rparr>) s4;
                   s6 = set_block slot (\<lambda>b. b\<lparr>bi_state := state_finished\<rparr>) s5
               in snd (update_piece_state it s6)
      else case find_dl_piece (download_queue p) piece s of None \<Rightarrow> s
           | Some i \<Rightarrow>
               let slot = block_slot s (deref i s) block; st = bi_state (m_block_info s ! slot) in
               if st = state_finished then s
               else let s1 = (if st \<noteq> state_writing \<or> peer \<noteq> None
                              then set_block slot (\<lambda>b. b\<lparr>bi_peer := peer\<rparr>) s else s);
                        s2 = set_dp i (\<lambda>dp. dp\<lparr>finished := finished dp + 1\<rparr>) s1;
                        s3 = (if st = state_writing then set_dp i (\<lambda>dp. dp\<lparr>writing := writing dp - 1\<rparr>) s2 else s2);
                        s4 = set_block slot (\<lambda>b. b\<lparr>bi_state := state_finished\<rparr>) s3;
                        (i', s5) = update_piece_state i s4; dp = deref i' s5 in
                 if finished dp < blocks_in_piece s5 (dp_index dp) then s5
                 else if passed_hash_check dp then we_have (dp_index dp) s5 else s5)"

definition mark_as_pad :: "nat \<Rightarrow> nat \<Rightarrow> piece_picker \<Rightarrow> piece_picker" where
  "mark_as_pad piece block s =
     (let s1 = (if size_bf (m_pad_blocks s) = 0
                then s\<lparr>m_pad_blocks := resize (length (m_piece_map s) * m_blocks_per_piece s) (m_pad_blocks s)\<rparr> else s);
          block_index = piece * m_blocks_per_piece s1 + block;
          s2 = s1\<lparr>m_pad_blocks := set_bit block_index (m_pad_blocks s1),
                  m_num_pad_blocks := m_num_pad_blocks s1 + 1,
                  m_pads_in_piece := (m_pads_in_piece s1)(piece \<mapsto>
                    (case m_pads_in_piece s1 piece of None \<Rightarrow> 1 | Some n \<Rightarrow> n + 1))\<rparr>;
          s3 = (if filtered (pos_of s2 piece) then s2\<lparr>m_filtered_pad_blocks := m_filtered_pad_blocks s2 + 1\<rparr> else s2)
      in if pad_blocks_in_piece s3 piece = int (blocks_in_piece s3 piece) then we_have piece s3 else s3)"

definition abort_download :: "nat \<Rightarrow> nat \<Rightarrow> peer \<Rightarrow> piece_picker \<Rightarrow> piece_picker" where
  "abort_download piece block peer s =
     (let q = download_queue (pos_of s piece) in
      if q = piece_open then s
      else case find_dl_piece q piece s of None \<Rightarrow> s
           | Some i \<Rightarrow>
               let slot = block_slot s (deref i s) block; info = m_block_info s ! slot in
               if bi_state info \<noteq> state_requested then s
               else let prev = prio_of s piece;
                        n = (if bi_num_peers info > 0 then bi_num_peers info - 1 else 0);
                        s1 = set_block slot (\<lambda>b. b\<lparr>bi_num_peers := n,
                               bi_peer := (if bi_peer b = peer then None else bi_peer b)\<rparr>) s in
                 if n > 0 then s1
                 else let s2 = set_block slot (\<lambda>b. b\<lparr>bi_peer := None, bi_state := state_none\<rparr>) s1;
                          s3 = set_dp i (\<lambda>dp. dp\<lparr>requested := requested dp - 1\<rparr>) s2;
                          dp = deref i s3 in
                   if requested dp + finished dp + writing dp = 0
                   then let s4 = erase_download_piece i s3 in
                     if m_dirty s4 then s4
                     else if prev = -1 \<and> prio_of s4 piece \<ge> 0 then add piece s4
                     else if prev \<ge> 0 then update (nat prev) (nat (pp_index (pos_of s4 piece))) s4
                     else s4
                   else snd (update_piece_state i s3))"

definition clear_peer :: "peer \<Rightarrow> piece_picker \<Rightarrow> piece_picker" where
  "clear_peer peer s =
     s\<lparr>m_block_info := map (\<lambda>b. if bi_peer b = peer then b\<lparr>bi_peer := None\<rparr> else b) (m_block_info s)\<rparr>"

section \<open>Construction\<close>

text \<open>A piece size of more than \<open>2 ^ 15 - 1\<close> blocks throws: \<open>None\<close>.\<close>

definition resize_picker :: "nat \<Rightarrow> nat \<Rightarrow> nat \<Rightarrow> piece_picker \<Rightarrow> piece_picker option" where
  "resize_picker blocks_per_piece blocks_in_last_piece total_num_pieces s =
     (if int blocks_per_piece > max_blocks_per_piece then None
      else let pm = map (\<lambda>p. p\<lparr>peer_count := 0, download_state := piece_open, pp_index := 0\<rparr>)
                        (resize_list total_num_pieces new_piece_pos (m_piece_map s))
           in Some (s\<lparr>m_piece_map := pm,
                      m_cursor := skip_forward pm 0,
                      m_reverse_cursor := skip_backward pm (length pm),
                      m_downloads := (\<lambda>_. []), m_block_info := [], m_free_block_infos := [],
                      m_num_filtered := m_num_filtered s + m_num_have_filtered s,
                      m_num_have_filtered := 0, m_num_have := 0, m_have_pad_blocks := 0,
                      m_filtered_pad_blocks := m_filtered_pad_blocks s + m_have_filtered_pad_blocks s,
                      m_have_filtered_pad_blocks := 0, m_num_passed := 0, m_dirty := True,
                      m_blocks_per_piece := blocks_per_piece,
                      m_blocks_in_last_piece :=
                        (if blocks_in_last_piece = 0 then blocks_per_piece else blocks_in_last_piece)\<rparr>))"

definition empty_picker :: "nat list \<Rightarrow> piece_picker" where
  "empty_picker rs =
     \<lparr>m_piece_map = [], m_pad_blocks = \<lparr>m_buf = []\<rparr>, m_pads_in_piece = (\<lambda>_. None), m_recent_extents = [],
      m_num_pad_blocks = 0, m_have_pad_blocks = 0, m_filtered_pad_blocks = 0, m_have_filtered_pad_blocks = 0,
      m_seeds = 0, m_num_passed = 0, m_pieces = [], m_priority_boundaries = [0], m_downloads = (\<lambda>_. []),
      m_block_info = [], m_free_block_infos = [], m_blocks_per_piece = 0, m_blocks_in_last_piece = 0,
      m_num_filtered = 0, m_num_have_filtered = 0, m_cursor = 0, m_reverse_cursor = 0, m_num_have = 0,
      m_dirty = False, rng = rs\<rparr>"

definition new_picker :: "nat \<Rightarrow> nat \<Rightarrow> nat \<Rightarrow> nat list \<Rightarrow> piece_picker option" where
  "new_picker blocks_per_piece blocks_in_last_piece total_num_pieces rs =
     resize_picker blocks_per_piece blocks_in_last_piece total_num_pieces (empty_picker rs)"

end
