(* ===== verification/Picker_Order.thy ===== *)
theory Picker_Order
  imports Picker "HOL-Library.Multiset"
begin

text \<open>
  The priority-ordered piece list of the picker. The list is the concatenation of one bucket per
  priority and \<open>m_priority_boundaries\<close> holds the ends of the buckets. The in-place moves of \<^verbatim>\<open>add\<close>,
  \<^verbatim>\<open>remove\<close> and \<^verbatim>\<open>update\<close> are shown to be operations on the buckets, so that the list always holds
  exactly the pickable pieces, each in the bucket of its priority and with a correct back reference.
\<close>

section \<open>Buckets\<close>

fun ends :: "nat \<Rightarrow> 'a list list \<Rightarrow> nat list" where
  "ends n [] = []"
| "ends n (B # Bs) = (n + length B) # ends (n + length B) Bs"

lemma length_ends [simp]: "length (ends n Bs) = length Bs"
  by (induction Bs arbitrary: n) auto

lemma ends_append: "ends n (As @ Bs) = ends n As @ ends (n + length (concat As)) Bs"
  by (induction As arbitrary: n) (auto simp: add.assoc)

lemma ends_nth: "k < length Bs \<Longrightarrow> ends n Bs ! k = n + length (concat (take (Suc k) Bs))"
proof (induction Bs arbitrary: n k)
  case (Cons B Bs)
  then show ?case by (cases k) auto
qed simp

lemma ends_replicate [simp]: "ends n (replicate k []) = replicate k n"
  by (induction k) auto

lemma ends_empty: "concat Cs = [] \<Longrightarrow> ends n Cs = replicate (length Cs) n"
  by (induction Cs) auto

lemma priority_range_ends:
  assumes "k < length Bs"
  shows "priority_begin (ends 0 Bs) k = length (concat (take k Bs))"
    and "priority_end (ends 0 Bs) k = length (concat (take k Bs)) + length (Bs ! k)"
proof -
  show "priority_begin (ends 0 Bs) k = length (concat (take k Bs))"
    using assms by (cases k) (auto simp: priority_begin_def ends_nth)
  show "priority_end (ends 0 Bs) k = length (concat (take k Bs)) + length (Bs ! k)"
    using assms by (simp add: priority_end_def ends_nth take_Suc_conv_app_nth)
qed

lemma first_nonempty:
  "concat Cs \<noteq> [] \<Longrightarrow> \<exists>k c cs Ds. Cs = replicate k [] @ (c # cs) # Ds"
proof (induction Cs)
  case (Cons C Cs)
  show ?case
  proof (cases C)
    case Nil
    with Cons obtain k c cs Ds where "Cs = replicate k [] @ (c # cs) # Ds" by auto
    then show ?thesis using Nil by (intro exI [of _ "Suc k"] exI) simp
  next
    case (Cons c cs)
    then show ?thesis by (intro exI [of _ 0] exI) simp
  qed
qed simp

section \<open>Back references\<close>

definition indexed :: "piece_pos list \<Rightarrow> nat \<Rightarrow> nat list \<Rightarrow> bool" where
  "indexed pm n ps \<longleftrightarrow> (\<forall>j < length ps. pp_index (pm ! (ps ! j)) = int (n + j))"

text \<open>A piece map with other positions, for some pieces only.\<close>

definition reindexed :: "piece_pos list \<Rightarrow> nat set \<Rightarrow> piece_pos list \<Rightarrow> bool" where
  "reindexed pm S pm' \<longleftrightarrow> length pm' = length pm \<and>
     (\<forall>i < length pm. pm' ! i = (pm ! i)\<lparr>pp_index := pp_index (pm' ! i)\<rparr> \<and> (i \<notin> S \<longrightarrow> pm' ! i = pm ! i))"

lemma reindexed_refl [simp]: "reindexed pm S pm"
  by (simp add: reindexed_def)

lemma reindexed_trans:
  assumes "reindexed pm S pm'" and "reindexed pm' T pm''" and "S \<subseteq> U" "T \<subseteq> U"
  shows "reindexed pm U pm''"
  unfolding reindexed_def
proof (intro conjI allI impI)
  show "length pm'' = length pm" using assms(1,2) by (simp add: reindexed_def)
  fix i assume i: "i < length pm"
  then have 1: "pm' ! i = (pm ! i)\<lparr>pp_index := pp_index (pm' ! i)\<rparr>" "i \<notin> S \<Longrightarrow> pm' ! i = pm ! i"
    using assms(1) unfolding reindexed_def by blast+
  have 2: "pm'' ! i = (pm' ! i)\<lparr>pp_index := pp_index (pm'' ! i)\<rparr>" "i \<notin> T \<Longrightarrow> pm'' ! i = pm' ! i"
    using assms(1,2) i unfolding reindexed_def by (metis, metis)
  have "(pm' ! i)\<lparr>pp_index := k\<rparr> = (pm ! i)\<lparr>pp_index := k\<rparr>" for k
    by (subst 1(1)) simp
  with 2(1) show "pm'' ! i = (pm ! i)\<lparr>pp_index := pp_index (pm'' ! i)\<rparr>" by simp
  show "pm'' ! i = pm ! i" if "i \<notin> U" using 1(2) 2(2) that assms(3,4) by (metis subsetD)
qed

lemma set_index_reindexed: "i \<in> S \<Longrightarrow> i < length pm \<Longrightarrow> reindexed pm S (set_index i n pm)"
  by (auto simp: reindexed_def set_index_def nth_list_update)

lemma length_set_index [simp]: "length (set_index i n pm) = length pm"
  by (simp add: set_index_def)

lemma pp_index_set_index [simp]:
  "i < length pm \<Longrightarrow> j < length pm \<Longrightarrow> pp_index (set_index i n pm ! j) = (if j = i then int n else pp_index (pm ! j))"
  by (auto simp: set_index_def nth_list_update)

lemma indexed_Nil [simp]: "indexed pm n []"
  by (simp add: indexed_def)

lemma indexed_Cons [simp]: "indexed pm n (x # ps) \<longleftrightarrow> pp_index (pm ! x) = int n \<and> indexed pm (Suc n) ps"
  by (simp add: indexed_def All_less_Suc2 algebra_simps)

lemma indexed_append [simp]: "indexed pm n (xs @ ys) \<longleftrightarrow> indexed pm n xs \<and> indexed pm (n + length xs) ys"
  by (induction xs arbitrary: n) auto

lemma indexed_set_index:
  assumes "x \<notin> set ps" "x < length pm" "set ps \<subseteq> {..<length pm}"
  shows "indexed (set_index x n pm) k ps = indexed pm k ps"
  using assms
proof (induction ps arbitrary: k)
  case (Cons a ps)
  then show ?case by auto
qed simp

section \<open>Inserting\<close>

lemma bump_empty:
  "bump_boundaries (bd @ replicate (Suc k) n) (length bd) n =
    (n, bd @ replicate (Suc k) (Suc n), length bd + Suc k)"
proof (induction k arbitrary: bd)
  case 0
  show ?case by (subst bump_boundaries.simps) (simp add: Let_def)
next
  case (Suc k)
  have "bump_boundaries (bd @ replicate (Suc (Suc k)) n) (length bd) n =
      bump_boundaries ((bd @ [Suc n]) @ replicate (Suc k) n) (length (bd @ [Suc n])) n"
    by (subst bump_boundaries.simps) (simp add: Let_def)
  also have "\<dots> = (n, (bd @ [Suc n]) @ replicate (Suc k) (Suc n), length (bd @ [Suc n]) + Suc k)" by (rule Suc)
  finally show ?case by simp
qed

lemma bump_step:
  assumes "n < e"
  shows "bump_boundaries (bd @ replicate k n @ e # bs) (length bd) n =
    (e, bd @ replicate k (Suc n) @ Suc e # bs, length bd + k + 1)"
proof (induction k arbitrary: bd)
  case 0
  show ?case using assms by (subst bump_boundaries.simps) (simp add: Let_def)
next
  case (Suc k)
  have "bump_boundaries (bd @ replicate (Suc k) n @ e # bs) (length bd) n =
      bump_boundaries ((bd @ [Suc n]) @ replicate k n @ e # bs) (length (bd @ [Suc n])) n"
    by (subst bump_boundaries.simps) (simp add: Let_def)
  also have "\<dots> = (e, (bd @ [Suc n]) @ replicate k (Suc n) @ Suc e # bs, length (bd @ [Suc n]) + k + 1)" by (rule Suc)
  finally show ?case by simp
qed

lemma put_piece_middle: "put_piece (pre @ c # cs) (length pre) x = pre @ x # cs"
  by (simp add: put_piece_def)

lemma put_piece_end: "put_piece pre (length pre) x = pre @ [x]"
  by (simp add: put_piece_def)

lemma add_full_spec:
  assumes "Cs \<noteq> []" and "distinct (pre @ x # concat Cs)" and "set (pre @ x # concat Cs) \<subseteq> {..<length pm}"
    and "indexed pm 0 (pre @ concat Cs)"
    and "add_full (pre @ concat Cs) pm (bd @ ends (length pre) Cs) (length bd) x (length pre) = (ps', pm', bs')"
  shows "ps' = pre @ x # concat (map rotate1 Cs) \<and> bs' = bd @ map Suc (ends (length pre) Cs) \<and>
    indexed pm' 0 ps' \<and> reindexed pm (set ps') pm'"
  using assms
proof (induction "length Cs" arbitrary: Cs pre x bd pm rule: less_induct)
  case less
  let ?n = "length pre"
  let ?pm = "set_index x ?n pm"
  have x: "x \<notin> set (pre @ concat Cs)" "x < length pm" using less.prems(2,3) by auto
  have re: "reindexed pm (insert x S) ?pm" for S using x(2) by (simp add: set_index_reindexed)
  have idx: "indexed ?pm 0 (pre @ concat Cs)"
    using less.prems(3,4) x by (subst indexed_set_index) auto
  have ix: "pp_index (?pm ! x) = int ?n" using x(2) by simp
  show ?case
  proof (cases "concat Cs = []")
    case True
    obtain k where k: "length Cs = Suc k" using less.prems(1) by (cases Cs) auto
    have map: "concat (map rotate1 Cs) = []" using True by auto
    have e: "ends ?n Cs = replicate (Suc k) ?n" using ends_empty [OF True] k by simp
    have "add_full (pre @ concat Cs) pm (bd @ ends ?n Cs) (length bd) x ?n =
        (pre @ [x], ?pm, bd @ replicate (Suc k) (Suc ?n))"
      unfolding add_full_def e True append_Nil2 add_loop.simps [of pre] bump_empty
      by (simp add: put_piece_end piece_at_def)
    then have "ps' = pre @ [x]" "pm' = ?pm" "bs' = bd @ replicate (Suc k) (Suc ?n)"
      using less.prems(5) by auto
    then show ?thesis using map e idx ix re True by (simp add: map_replicate)
  next
    case False
    then obtain k c cs Ds where Cs: "Cs = replicate k [] @ (c # cs) # Ds" using first_nonempty by blast
    let ?e = "?n + length (c # cs)"
    let ?pre = "pre @ x # cs"
    let ?bd = "bd @ replicate k (Suc ?n) @ [Suc ?e]"
    have e: "bd @ ends ?n Cs = bd @ replicate k ?n @ ?e # ends ?e Ds" by (simp add: Cs ends_append)
    have cc: "concat Cs = c # cs @ concat Ds" by (simp add: Cs)
    have bump: "bump_boundaries (bd @ ends ?n Cs) (length bd) ?n = (?e, ?bd @ ends ?e Ds, length ?bd)"
      unfolding e by (subst bump_step) auto
    have at: "piece_at (pre @ concat Cs) ?n = Some c" by (simp add: piece_at_def cc)
    have put: "put_piece (pre @ concat Cs) ?n x = ?pre @ concat Ds" by (simp add: cc put_piece_middle)
    have pos: "?e = length ?pre" by simp
    have dist: "distinct (?pre @ c # concat Ds)" using less.prems(2) cc by auto
    have sub: "set (?pre @ c # concat Ds) \<subseteq> {..<length ?pm}" using less.prems(3) cc by auto
    have idx': "indexed ?pm 0 (?pre @ concat Ds)" using idx ix by (simp add: cc)
    have len: "length (bd @ ends ?n Cs) = length ?bd + length Ds" by (simp add: Cs)
    have concat_map: "concat (map rotate1 Cs) = cs @ c # concat (map rotate1 Ds)" by (simp add: Cs)
    have ends_map: "bd @ map Suc (ends ?n Cs) = ?bd @ map Suc (ends ?e Ds)" by (simp add: Cs ends_append map_replicate)
    show ?thesis
    proof (cases "Ds = []")
      case True
      have "add_full (pre @ concat Cs) pm (bd @ ends ?n Cs) (length bd) x ?n =
          (?pre @ [c], set_index c (length ?pre) ?pm, ?bd)"
        unfolding add_full_def add_loop.simps [of "pre @ concat Cs"] bump at put len
        using True pos by (simp add: put_piece_end [of ?pre, simplified])
      then have r: "ps' = ?pre @ [c]" "pm' = set_index c (length ?pre) ?pm" "bs' = ?bd"
        using less.prems(5) by auto
      have c: "c \<notin> set ?pre" "c < length ?pm" using dist sub by auto
      have "indexed pm' 0 ps'"
        unfolding r using idx' True c sub by (auto simp: indexed_set_index)
      moreover have "reindexed pm (set ps') pm'"
        by (rule reindexed_trans [OF re [of "{}"] set_index_reindexed [of c "{c}", OF _ c(2), of "length ?pre"], folded r(2)])
          (auto simp: r(1))
      ultimately show ?thesis using r True concat_map ends_map by simp
    next
      case Ds: False
      have "add_full (pre @ concat Cs) pm (bd @ ends ?n Cs) (length bd) x ?n =
          add_full (?pre @ concat Ds) ?pm (?bd @ ends (length ?pre) Ds) (length ?bd) c (length ?pre)"
        unfolding add_full_def add_loop.simps [of "pre @ concat Cs"] bump at put len
        using Ds by (simp add: Let_def)
      with less.prems(5) have "add_full (?pre @ concat Ds) ?pm (?bd @ ends (length ?pre) Ds) (length ?bd) c (length ?pre) = (ps', pm', bs')"
        by simp
      then have IH: "ps' = ?pre @ c # concat (map rotate1 Ds) \<and> bs' = ?bd @ map Suc (ends (length ?pre) Ds) \<and>
          indexed pm' 0 ps' \<and> reindexed ?pm (set ps') pm'"
        by (intro less.hyps [OF _ Ds dist sub idx']) (simp_all add: Cs)
      have "reindexed pm (set ps') pm'"
        by (rule reindexed_trans [OF re [of "{}"]]) (use IH in auto)
      moreover have "ps' = pre @ x # concat (map rotate1 Cs)" "bs' = bd @ map Suc (ends ?n Cs)"
        using IH concat_map ends_map by simp_all
      ultimately show ?thesis using IH by blast
    qed
  qed
qed

section \<open>Removing\<close>

definition rotate_back :: "'a list \<Rightarrow> 'a list" where
  "rotate_back xs = (if xs = [] then [] else last xs # butlast xs)"

lemma rotate_back_simps [simp]: "rotate_back [] = []" "rotate_back (xs @ [x]) = x # xs"
  by (simp_all add: rotate_back_def)

lemma set_rotate_back [simp]: "set (rotate_back xs) = set xs"
  by (cases xs rule: rev_cases) auto

lemma length_rotate_back [simp]: "length (rotate_back xs) = length xs"
  by (cases xs rule: rev_cases) auto

lemma first_nonempty_snoc:
  "concat Cs \<noteq> [] \<Longrightarrow> \<exists>k c cs Ds. Cs = replicate k [] @ (cs @ [c]) # Ds"
  using first_nonempty [of Cs] by (metis append_butlast_last_id list.distinct(1))

lemma drop_empty:
  "drop_boundaries (bd @ replicate (Suc k) (Suc n)) (length bd) n =
    (n, bd @ replicate (Suc k) n, length bd + Suc k)"
proof (induction k arbitrary: bd)
  case 0
  show ?case by (subst drop_boundaries.simps) (simp add: Let_def)
next
  case (Suc k)
  have "drop_boundaries (bd @ replicate (Suc (Suc k)) (Suc n)) (length bd) n =
      drop_boundaries ((bd @ [n]) @ replicate (Suc k) (Suc n)) (length (bd @ [n])) n"
    by (subst drop_boundaries.simps) (simp add: Let_def)
  also have "\<dots> = (n, (bd @ [n]) @ replicate (Suc k) n, length (bd @ [n]) + Suc k)" by (rule Suc)
  finally show ?case by simp
qed

lemma drop_step:
  assumes "n < e"
  shows "drop_boundaries (bd @ replicate k (Suc n) @ Suc e # bs) (length bd) n =
    (e, bd @ replicate k n @ e # bs, length bd + k + 1)"
proof (induction k arbitrary: bd)
  case 0
  show ?case using assms by (subst drop_boundaries.simps) (simp add: Let_def)
next
  case (Suc k)
  have "drop_boundaries (bd @ replicate (Suc k) (Suc n) @ Suc e # bs) (length bd) n =
      drop_boundaries ((bd @ [n]) @ replicate k (Suc n) @ Suc e # bs) (length (bd @ [n])) n"
    by (subst drop_boundaries.simps) (simp add: Let_def)
  also have "\<dots> = (e, (bd @ [n]) @ replicate k n @ e # bs, length (bd @ [n]) + k + 1)" by (rule Suc)
  finally show ?case by simp
qed

text \<open>The hole is the entry after \<open>pre\<close>; it moves past one bucket after the other.\<close>

lemma remove_loop_spec:
  assumes "Cs \<noteq> []" and "distinct (pre @ concat Cs)" and "set (pre @ concat Cs) \<subseteq> {..<length pm}"
    and "indexed pm 0 pre" and "indexed pm (Suc (length pre)) (concat Cs)"
    and "remove_loop (pre @ h # concat Cs) pm (bd @ ends (Suc (length pre)) Cs) (length bd) (length pre) = (ps', pm', bs')"
  shows "butlast ps' = pre @ concat (map rotate_back Cs) \<and> bs' = bd @ ends (length pre) Cs \<and>
    indexed pm' 0 (butlast ps') \<and> reindexed pm (set (butlast ps')) pm'"
  using assms
proof (induction "length Cs" arbitrary: Cs pre h bd pm rule: less_induct)
  case less
  let ?n = "length pre"
  show ?case
  proof (cases "concat Cs = []")
    case True
    obtain k where k: "length Cs = Suc k" using less.prems(1) by (cases Cs) auto
    have map: "concat (map rotate_back Cs) = []" using True by auto
    have e: "ends (Suc ?n) Cs = replicate (Suc k) (Suc ?n)" "ends ?n Cs = replicate (Suc k) ?n"
      using ends_empty [OF True] k by simp_all
    have "remove_loop (pre @ h # concat Cs) pm (bd @ ends (Suc ?n) Cs) (length bd) ?n =
        (pre @ [h], pm, bd @ replicate (Suc k) ?n)"
      unfolding e True remove_loop.simps [of "pre @ [h]"] drop_empty by simp
    then have "ps' = pre @ [h]" "pm' = pm" "bs' = bd @ replicate (Suc k) ?n" using less.prems(6) by auto
    then show ?thesis using map e(2) less.prems(4) by simp
  next
    case False
    then obtain k c cs Ds where Cs: "Cs = replicate k [] @ (cs @ [c]) # Ds" using first_nonempty_snoc by blast
    let ?e = "?n + length (cs @ [c])"
    let ?pre = "pre @ c # cs"
    let ?pm = "set_index c ?n pm"
    let ?bd = "bd @ replicate k ?n @ [?e]"
    have e: "bd @ ends (Suc ?n) Cs = bd @ replicate k (Suc ?n) @ Suc ?e # ends (Suc ?e) Ds"
      by (simp add: Cs ends_append)
    have cc: "concat Cs = cs @ c # concat Ds" by (simp add: Cs)
    have drop: "drop_boundaries (bd @ ends (Suc ?n) Cs) (length bd) ?n = (?e, ?bd @ ends (Suc ?e) Ds, length ?bd)"
      unfolding e by (subst drop_step) auto
    have piece: "(pre @ h # concat Cs) ! ?e = c" by (simp add: cc nth_append)
    have upd: "(pre @ h # concat Cs)[?n := c] = ?pre @ c # concat Ds" by (simp add: cc)
    have pos: "?e = length ?pre" "?e \<noteq> ?n" by auto
    have c: "c \<notin> set pre" "c \<notin> set cs" "c \<notin> set (concat Ds)" "c < length pm" using less.prems(2,3) cc by auto
    have dist: "distinct (?pre @ concat Ds)" using less.prems(2) cc by auto
    have sub: "set (?pre @ concat Ds) \<subseteq> {..<length ?pm}" using less.prems(3) cc by auto
    have idx: "indexed ?pm 0 ?pre" "indexed ?pm (Suc (length ?pre)) (concat Ds)"
      using less.prems(3,4,5) c cc by (simp_all add: indexed_set_index)
    have re: "reindexed pm {c} ?pm" using c(4) by (simp add: set_index_reindexed)
    have concat_map: "pre @ concat (map rotate_back Cs) = ?pre @ concat (map rotate_back Ds)" by (simp add: Cs)
    have ends_map: "bd @ ends ?n Cs = ?bd @ ends ?e Ds" by (simp add: Cs ends_append)
    have len: "length (bd @ ends (Suc ?n) Cs) = length ?bd + length Ds" by (simp add: Cs)
    show ?thesis
    proof (cases "Ds = []")
      case True
      have "remove_loop (pre @ h # concat Cs) pm (bd @ ends (Suc ?n) Cs) (length bd) ?n = (?pre @ [c], ?pm, ?bd)"
        unfolding remove_loop.simps [of "pre @ h # concat Cs"] drop len
        using True pos(2) piece upd by (simp add: Let_def)
      then have r: "ps' = ?pre @ [c]" "pm' = ?pm" "bs' = ?bd" using less.prems(6) by auto
      have "reindexed pm (set ?pre) ?pm" by (rule reindexed_trans [OF re reindexed_refl [of _ "{}"]]) auto
      moreover have "butlast ps' = ?pre" unfolding r by (simp only: butlast_snoc)
      ultimately show ?thesis using r True concat_map ends_map idx(1) by simp
    next
      case Ds: False
      have "remove_loop (pre @ h # concat Cs) pm (bd @ ends (Suc ?n) Cs) (length bd) ?n =
          remove_loop (?pre @ c # concat Ds) ?pm (?bd @ ends (Suc (length ?pre)) Ds) (length ?bd) (length ?pre)"
        unfolding remove_loop.simps [of "pre @ h # concat Cs"] drop len
        using Ds pos(2) piece upd by (simp add: Let_def)
      with less.prems(6) have "remove_loop (?pre @ c # concat Ds) ?pm (?bd @ ends (Suc (length ?pre)) Ds) (length ?bd) (length ?pre) = (ps', pm', bs')"
        by simp
      then have IH: "butlast ps' = ?pre @ concat (map rotate_back Ds) \<and> bs' = ?bd @ ends (length ?pre) Ds \<and>
          indexed pm' 0 (butlast ps') \<and> reindexed ?pm (set (butlast ps')) pm'"
        by (intro less.hyps [OF _ Ds dist sub idx]) (simp_all add: Cs)
      have "reindexed pm (set (butlast ps')) pm'" by (rule reindexed_trans [OF re]) (use IH in auto)
      moreover have "butlast ps' = pre @ concat (map rotate_back Cs)" "bs' = bd @ ends ?n Cs"
        using IH concat_map ends_map by simp_all
      ultimately show ?thesis using IH by blast
    qed
  qed
qed

section \<open>Moving\<close>

lemma concat_rotations [simp]:
  "length (concat (map rotate1 Cs)) = length (concat Cs)" "set (concat (map rotate1 Cs)) = set (concat Cs)"
  "length (concat (map rotate_back Cs)) = length (concat Cs)" "set (concat (map rotate_back Cs)) = set (concat Cs)"
  by (induction Cs) auto

fun starts :: "nat \<Rightarrow> 'a list list \<Rightarrow> nat list" where
  "starts n [] = []"
| "starts n (B # Bs) = n # starts (n + length B) Bs"

lemma length_starts [simp]: "length (starts n Bs) = length Bs"
  by (induction Bs arbitrary: n) auto

lemma starts_append: "starts n (As @ Bs) = starts n As @ starts (n + length (concat As)) Bs"
  by (induction As arbitrary: n) (auto simp: add.assoc)

lemma starts_ends: "starts n (Bs @ [X]) = n # ends n Bs"
  by (induction Bs arbitrary: n) auto

lemma indexed_reindexed:
  assumes "reindexed pm S pm'" and "set ps \<inter> S = {}" and "set ps \<subseteq> {..<length pm}"
  shows "indexed pm' k ps = indexed pm k ps"
proof -
  have "pm' ! i = pm ! i" if "i \<in> set ps" for i using assms that unfolding reindexed_def by blast
  then show ?thesis by (simp add: indexed_def)
qed

text \<open>
  Towards the front: the hole is the entry after the bucket parts \<open>Cs\<close>, and \<open>temp\<close> is the piece its
  position still names. The first piece of each part moves to the position after it.
\<close>

lemma update_down_spec:
  assumes "distinct (concat Cs)" and "set (concat Cs) \<subseteq> {..<length pm}" and "indexed pm (length pre) (concat Cs)"
    and "temp \<notin> set (concat Cs)"
  shows "\<exists>h pm'. update_down (length Cs) (pre @ concat Cs @ temp # post) pm (bd @ starts (length pre) Cs @ bt)
        (length bd + length Cs) (length pre + length (concat Cs)) temp =
      (pre @ h # concat (map rotate1 Cs) @ post, pm', bd @ map Suc (starts (length pre) Cs) @ bt, length pre) \<and>
    indexed pm' (Suc (length pre)) (concat (map rotate1 Cs)) \<and> reindexed pm (set (concat Cs)) pm'"
  using assms
proof (induction Cs arbitrary: post pm temp bt rule: rev_induct)
  case (snoc C Cs)
  let ?n = "length pre" and ?m = "length pre + length (concat Cs)"
  let ?ps = "pre @ concat (Cs @ [C]) @ temp # post"
  have bs: "(bd @ starts ?n (Cs @ [C]) @ bt) ! (length bd + length Cs) = ?m"
    "(bd @ starts ?n (Cs @ [C]) @ bt)[length bd + length Cs := Suc ?m] = bd @ starts ?n Cs @ (Suc ?m # bt)"
    by (simp_all add: starts_append nth_append list_update_append)
  show ?case
  proof (cases C)
    case Nil
    have at: "?ps ! ?m = temp" using Nil by (simp add: nth_append)
    obtain h pm' where IH: "update_down (length Cs) (pre @ concat Cs @ temp # post) pm (bd @ starts ?n Cs @ Suc ?m # bt)
        (length bd + length Cs) ?m temp =
      (pre @ h # concat (map rotate1 Cs) @ post, pm', bd @ map Suc (starts ?n Cs) @ Suc ?m # bt, ?n)"
      "indexed pm' (Suc ?n) (concat (map rotate1 Cs))" "reindexed pm (set (concat Cs)) pm'"
      using snoc.IH [of pm temp post "Suc ?m # bt"] snoc.prems Nil by auto
    show ?thesis using IH bs at Nil by (auto simp: Let_def starts_append)
  next
    case (Cons c cs)
    let ?pm = "set_index c (?m + length C) pm"
    have c: "c \<notin> set (concat Cs)" "c \<notin> set cs" "c < length pm" using snoc.prems Cons by auto
    have at: "?ps ! ?m = c" "temp \<noteq> c" using Cons snoc.prems by (auto simp: nth_append)
    have hole: "?ps[?m + length C := c] = pre @ concat Cs @ c # (cs @ c # post)"
      using Cons by (simp add: list_update_append)
    have len: "length pre + length (concat (Cs @ [C])) = ?m + length C" by simp
    obtain h pm' where IH: "update_down (length Cs) (pre @ concat Cs @ c # (cs @ c # post)) ?pm (bd @ starts ?n Cs @ Suc ?m # bt)
        (length bd + length Cs) ?m c =
      (pre @ h # concat (map rotate1 Cs) @ (cs @ c # post), pm', bd @ map Suc (starts ?n Cs) @ Suc ?m # bt, ?n)"
      "indexed pm' (Suc ?n) (concat (map rotate1 Cs))" "reindexed ?pm (set (concat Cs)) pm'"
      using snoc.IH [of ?pm c "cs @ c # post" "Suc ?m # bt"] snoc.prems c by (auto simp: indexed_set_index)
    have "indexed ?pm (Suc ?m) (cs @ [c])" using snoc.prems Cons c by (simp add: indexed_set_index)
    moreover have "set (cs @ [c]) \<inter> set (concat Cs) = {}" "set (cs @ [c]) \<subseteq> {..<length ?pm}"
      using snoc.prems Cons by auto
    ultimately have ix: "indexed pm' (Suc ?m) (cs @ [c])" using indexed_reindexed [OF IH(3)] by blast
    have "reindexed pm {c} ?pm" using c by (simp add: set_index_reindexed)
    then have re: "reindexed pm (set (concat (Cs @ [C]))) pm'"
      by (rule reindexed_trans [OF _ IH(3)]) (auto simp: Cons)
    have "update_down (length (Cs @ [C])) ?ps pm (bd @ starts ?n (Cs @ [C]) @ bt)
        (length bd + length (Cs @ [C])) (length pre + length (concat (Cs @ [C]))) temp =
      update_down (length Cs) (pre @ concat Cs @ c # (cs @ c # post)) ?pm (bd @ starts ?n Cs @ Suc ?m # bt)
        (length bd + length Cs) ?m c"
      unfolding len using bs at hole by (simp add: Let_def del: concat_append)
    then show ?thesis using IH(1,2) ix re Cons by (auto simp: starts_append)
  qed
qed simp

text \<open>Towards the back: the last piece of each part moves to the position before it.\<close>

lemma update_up_spec:
  assumes "distinct (concat Cs)" and "set (concat Cs) \<subseteq> {..<length pm}" and "indexed pm (Suc (length pre)) (concat Cs)"
    and "temp \<notin> set (concat Cs)"
  shows "\<exists>h pm'. update_up (length Cs) (pre @ temp # concat Cs @ post) pm (bd @ ends (Suc (length pre)) Cs @ bt)
        (length bd) (length pre) temp =
      (pre @ concat (map rotate_back Cs) @ h # post, pm', bd @ ends (length pre) Cs @ bt, length pre + length (concat Cs)) \<and>
    indexed pm' (length pre) (concat (map rotate_back Cs)) \<and> reindexed pm (set (concat Cs)) pm'"
  using assms
proof (induction Cs arbitrary: pre pm temp bd)
  case (Cons C Cs)
  let ?n = "length pre" and ?e = "length pre + length C"
  let ?ps = "pre @ temp # concat (C # Cs) @ post"
  have bs: "(bd @ ends (Suc ?n) (C # Cs) @ bt) ! length bd - 1 = ?e"
    "(bd @ ends (Suc ?n) (C # Cs) @ bt)[length bd := ?e] = (bd @ [?e]) @ ends (Suc ?e) Cs @ bt"
    by simp_all
  show ?case
  proof (cases C rule: rev_cases)
    case Nil
    obtain h pm' where IH: "update_up (length Cs) (pre @ temp # concat Cs @ post) pm ((bd @ [?e]) @ ends (Suc ?n) Cs @ bt)
        (length (bd @ [?e])) ?n temp =
      (pre @ concat (map rotate_back Cs) @ h # post, pm', (bd @ [?e]) @ ends ?n Cs @ bt, ?n + length (concat Cs))"
      "indexed pm' ?n (concat (map rotate_back Cs))" "reindexed pm (set (concat Cs)) pm'"
      using Cons.IH [of pm pre temp "bd @ [?e]"] Cons.prems Nil by auto
    then show ?thesis using Nil by (auto simp: Let_def)
  next
    case (snoc cs c)
    let ?pm = "set_index c ?n pm"
    let ?pre = "pre @ c # cs"
    have c: "c \<notin> set (concat Cs)" "c \<notin> set cs" "c < length pm" using Cons.prems snoc by auto
    have at: "?ps ! ?e = c" "temp \<noteq> c" using snoc Cons.prems by (auto simp: nth_append)
    have hole: "?ps[?n := c] = ?pre @ c # concat Cs @ post" using snoc by simp
    have len: "?e = length ?pre" using snoc by simp
    obtain h pm' where IH: "update_up (length Cs) (?pre @ c # concat Cs @ post) ?pm ((bd @ [?e]) @ ends (Suc (length ?pre)) Cs @ bt)
        (length (bd @ [?e])) (length ?pre) c =
      (?pre @ concat (map rotate_back Cs) @ h # post, pm', (bd @ [?e]) @ ends (length ?pre) Cs @ bt, length ?pre + length (concat Cs))"
      "indexed pm' (length ?pre) (concat (map rotate_back Cs))" "reindexed ?pm (set (concat Cs)) pm'"
      using Cons.IH [of ?pm ?pre c "bd @ [?e]"] Cons.prems c snoc by (auto simp: indexed_set_index)
    have "indexed ?pm ?n (c # cs)" using Cons.prems snoc c by (simp add: indexed_set_index)
    moreover have "set (c # cs) \<inter> set (concat Cs) = {}" "set (c # cs) \<subseteq> {..<length ?pm}"
      using Cons.prems snoc by auto
    ultimately have ix: "indexed pm' ?n (c # cs)" using indexed_reindexed [OF IH(3)] by blast
    have "reindexed pm {c} ?pm" using c by (simp add: set_index_reindexed)
    then have re: "reindexed pm (set (concat (C # Cs))) pm'"
      by (rule reindexed_trans [OF _ IH(3)]) (auto simp: snoc)
    have "update_up (length (C # Cs)) ?ps pm (bd @ ends (Suc ?n) (C # Cs) @ bt) (length bd) ?n temp =
      update_up (length Cs) (?pre @ c # concat Cs @ post) ?pm ((bd @ [?e]) @ ends (Suc (length ?pre)) Cs @ bt)
        (length (bd @ [?e])) (length ?pre) c"
      unfolding list.size update_up.simps add_0_right add_Suc_right bs using at hole len by (simp add: Let_def)
    then show ?thesis using IH(1,2) ix re snoc by (auto simp: add.assoc)
  qed
qed simp

section \<open>The ordered list\<close>

text \<open>The bucket of priority \<open>k\<close> holds the pieces of priority \<open>k\<close>, in any order.\<close>

definition bsets :: "(nat \<Rightarrow> int) \<Rightarrow> nat \<Rightarrow> nat \<Rightarrow> nat set list" where
  "bsets pr n l = map (\<lambda>k. {i. i < n \<and> pr i = int k}) [0..<l]"

definition bucketed :: "(nat \<Rightarrow> int) \<Rightarrow> nat \<Rightarrow> nat list list \<Rightarrow> bool" where
  "bucketed pr n Bs \<longleftrightarrow> Bs \<noteq> [] \<and> distinct (concat Bs) \<and> map set Bs = bsets pr n (length Bs) \<and>
     (\<forall>i < n. pr i < int (length Bs))"

definition ordered :: "(nat \<Rightarrow> int) \<Rightarrow> nat \<Rightarrow> nat list \<Rightarrow> nat list \<Rightarrow> bool" where
  "ordered pr n ps bs \<longleftrightarrow> (\<exists>Bs. ps = concat Bs \<and> bs = ends 0 Bs \<and> bucketed pr n Bs)"

lemma length_bsets [simp]: "length (bsets pr n l) = l"
  by (simp add: bsets_def)

lemma bsets_nth: "k < l \<Longrightarrow> bsets pr n l ! k = {i. i < n \<and> pr i = int k}"
  by (simp add: bsets_def)

lemma bucketed_mem:
  assumes "bucketed pr n Bs" and "k < length Bs"
  shows "x \<in> set (Bs ! k) \<longleftrightarrow> x < n \<and> pr x = int k"
proof -
  have "map set Bs ! k = bsets pr n (length Bs) ! k" using assms by (simp add: bucketed_def)
  then show ?thesis using assms(2) by (simp add: bsets_nth)
qed

lemma bucketed_set:
  assumes "bucketed pr n Bs"
  shows "set (concat Bs) = {i. i < n \<and> 0 \<le> pr i}"
proof -
  have "x \<in> set (concat Bs) \<longleftrightarrow> x < n \<and> 0 \<le> pr x" for x
  proof
    assume "x \<in> set (concat Bs)"
    then obtain B where "B \<in> set Bs" "x \<in> set B" by auto
    then obtain k where "k < length Bs" "x \<in> set (Bs ! k)" by (metis in_set_conv_nth)
    then show "x < n \<and> 0 \<le> pr x" using bucketed_mem [OF assms] by auto
  next
    assume x: "x < n \<and> 0 \<le> pr x"
    then have k: "nat (pr x) < length Bs" using assms by (auto simp: bucketed_def)
    then have "x \<in> set (Bs ! nat (pr x))" using bucketed_mem [OF assms k] x by simp
    then show "x \<in> set (concat Bs)" using nth_mem [OF k] by auto
  qed
  then show ?thesis by blast
qed

lemma bucketedI:
  assumes "Bs' \<noteq> []" "distinct (concat Bs')"
    and "\<And>k y. k < length Bs' \<Longrightarrow> y \<in> set (Bs' ! k) \<longleftrightarrow> y < n \<and> pr y = int k"
    and "\<And>i. i < n \<Longrightarrow> pr i < int (length Bs')"
  shows "bucketed pr n Bs'"
  unfolding bucketed_def
proof (intro conjI allI impI)
  show "map set Bs' = bsets pr n (length Bs')"
    by (rule nth_equalityI) (use assms(3) in \<open>auto simp: bsets_nth\<close>)
qed (use assms in auto)

text \<open>More boundaries than buckets: the new buckets are empty.\<close>

lemma ends_resize:
  assumes "Bs \<noteq> []" "length Bs \<le> m"
  shows "resize_list m (length (concat Bs)) (ends 0 Bs) = ends 0 (Bs @ replicate (m - length Bs) [])"
  using assms by (simp add: resize_list_def ends_append)

lemma bucketed_extend:
  assumes "bucketed pr n Bs"
  shows "bucketed pr n (Bs @ replicate j [])"
proof (rule bucketedI)
  fix k y assume "k < length (Bs @ replicate j [])"
  show "y \<in> set ((Bs @ replicate j []) ! k) \<longleftrightarrow> y < n \<and> pr y = int k"
  proof (cases "k < length Bs")
    case True
    then show ?thesis using bucketed_mem [OF assms True] by (simp add: nth_append)
  next
    case False
    with \<open>k < _\<close> assms show ?thesis by (auto simp: nth_append bucketed_def)
  qed
qed (use assms in \<open>auto simp: bucketed_def\<close>)

lemma ends_cong: "map length As = map length Bs \<Longrightarrow> ends n As = ends n Bs"
proof (induction As arbitrary: Bs n)
  case (Cons A As)
  then show ?case by (cases Bs) auto
qed simp

lemma map_Suc_ends: "map Suc (ends n Bs) = ends (Suc n) Bs"
  by (induction Bs arbitrary: n) auto

lemma split_bucket:
  assumes "p < length Bs"
  obtains As B Zs where "Bs = As @ B # Zs" "length As = p"
  using assms id_take_nth_drop [OF assms] that [of "take p Bs" "Bs ! p" "drop (Suc p) Bs"] by simp

section \<open>The operations keep the order\<close>

text \<open>A piece of no priority, not in the list, gets priority \<open>p\<close>.\<close>

lemma add_bucketed:
  assumes b: "bucketed (pr(x := -1)) n Bs" and Bs: "Bs = As @ B # Zs" "length As = p" and x: "x < n" "pr x = int p"
    and i: "i \<le> length B"
  shows "bucketed pr n (As @ (take i B @ x # rotate1 (drop i B)) # map rotate1 Zs)" (is "bucketed pr n ?Bs")
proof (rule bucketedI)
  have nx: "x \<notin> set (concat Bs)" using bucketed_set [OF b] by simp
  have B: "set B = set (take i B) \<union> set (drop i B)" by (metis append_take_drop_id set_append)
  have "distinct (concat Bs)" using b by (simp add: bucketed_def)
  moreover have "distinct (concat ?Bs) = distinct (x # concat Bs)"
  proof -
    have "mset (concat ?Bs) = mset (x # concat Bs)"
    proof -
      have "mset (rotate1 ys) = mset ys" for ys :: "nat list" by (cases ys) auto
      moreover have "mset (concat (map rotate1 Zs)) = mset (concat Zs)"
        using calculation by (induction Zs) auto
      moreover have "mset (take i B) + mset (drop i B) = mset B" by (metis append_take_drop_id mset_append)
      ultimately show ?thesis by (simp add: Bs)
    qed
    then show ?thesis by (metis mset_eq_imp_distinct_iff)
  qed
  ultimately show "distinct (concat ?Bs)" using nx by simp
  fix k y assume k: "k < length ?Bs"
  then have kl: "k < length Bs" by (simp add: Bs)
  have "set (?Bs ! k) = (if k = p then insert x (set (Bs ! k)) else set (Bs ! k))"
    using Bs B k by (auto simp: nth_append nth_Cons split: nat.splits)
  then show "y \<in> set (?Bs ! k) \<longleftrightarrow> y < n \<and> pr y = int k"
    using bucketed_mem [OF b kl, of y] x by auto
next
  fix j assume "j < n"
  then show "pr j < int (length ?Bs)" using b x Bs by (cases "j = x") (auto simp: bucketed_def)
qed simp

lemma add_full_ordered:
  assumes b: "bucketed (pr(x := -1)) (length pm) Bs" and ix: "indexed pm 0 (concat Bs)"
    and p: "p < length Bs" and x: "x < length pm" "pr x = int p"
    and ni: "length (concat (take p Bs)) \<le> ni" "ni \<le> length (concat (take p Bs)) + length (Bs ! p)"
    and r: "add_full (concat Bs) pm (ends 0 Bs) p x ni = (ps', pm', bs')"
  shows "ordered pr (length pm) ps' bs' \<and> indexed pm' 0 ps' \<and> reindexed pm (set ps') pm'"
proof -
  obtain As B Zs where Bs: "Bs = As @ B # Zs" "length As = p" using split_bucket [OF p] .
  define i where "i = ni - length (concat As)"
  have i: "i \<le> length B" "ni = length (concat As @ take i B)" using ni Bs by (auto simp: i_def)
  let ?pre = "concat As @ take i B" and ?Cs = "drop i B # Zs"
  let ?Bs = "As @ (take i B @ x # rotate1 (drop i B)) # map rotate1 Zs"
  have nx: "x \<notin> set (concat Bs)" using bucketed_set [OF b] by simp
  have sub: "set (concat Bs) \<subseteq> {..<length pm}" using bucketed_set [OF b] by auto
  have cc: "concat Bs = ?pre @ concat ?Cs" by (simp add: Bs(1))
  have ee: "ends 0 Bs = ends 0 As @ ends (length ?pre) ?Cs" using i(1) by (simp add: Bs(1) ends_append)
  have "distinct (concat Bs)" using b by (simp add: bucketed_def)
  with nx have d: "distinct (?pre @ x # concat ?Cs)" unfolding cc by auto
  have sb: "set (?pre @ x # concat ?Cs) \<subseteq> {..<length pm}" using sub x(1) unfolding cc by auto
  have rr: "add_full (?pre @ concat ?Cs) pm (ends 0 As @ ends (length ?pre) ?Cs) (length (ends 0 As)) x (length ?pre) = (ps', pm', bs')"
    using r i(2) cc ee Bs(2) by simp
  have "indexed pm 0 (?pre @ concat ?Cs)" using ix unfolding cc .
  then have S: "ps' = ?pre @ x # concat (map rotate1 ?Cs) \<and> bs' = ends 0 As @ map Suc (ends (length ?pre) ?Cs) \<and>
      indexed pm' 0 ps' \<and> reindexed pm (set ps') pm'"
    using add_full_spec [OF _ d sb _ rr] by blast
  have "bucketed pr (length pm) ?Bs" by (rule add_bucketed [OF b Bs(1,2) x i(1)])
  moreover have "ps' = concat ?Bs" using S by simp
  moreover have "bs' = ends 0 ?Bs"
  proof -
    have "ends (Suc (length (concat As) + length B)) Zs = ends (Suc (length (concat As) + length B)) (map rotate1 Zs)"
      by (rule ends_cong) (simp add: o_def)
    then show ?thesis using S i(1) by (simp add: ends_append map_Suc_ends)
  qed
  ultimately show ?thesis using S unfolding ordered_def by blast
qed

text \<open>A piece of priority \<open>p\<close> in the list loses its priority.\<close>

lemma mset_rotation [simp]: "mset (rotate1 ys) = mset ys" "mset (rotate_back ys) = mset ys"
  by (cases ys; simp) (cases ys rule: rev_cases; simp)

lemma mset_rotations [simp]:
  "mset (concat (map rotate1 Zs)) = mset (concat Zs)" "mset (concat (map rotate_back Zs)) = mset (concat Zs)"
  by (induction Zs) auto

text \<open>Where a piece of the list is, in terms of its bucket.\<close>

lemma locate:
  assumes b: "bucketed pr n Bs" and e: "e < length (concat Bs)" "concat Bs ! e = x" and p: "pr x = int p"
  obtains As b1 b2 Zs where "Bs = As @ (b1 @ x # b2) # Zs" "length As = p" "e = length (concat As @ b1)"
proof -
  have "x \<in> set (concat Bs)" using e by (metis nth_mem)
  then have "x < n" using bucketed_set [OF b] by blast
  moreover from this have "pr x < int (length Bs)" using b by (simp add: bucketed_def)
  ultimately have x: "x < n" "p < length Bs" using p by auto
  then obtain As B Zs where Bs: "Bs = As @ B # Zs" "length As = p" using split_bucket by blast
  then have "Bs ! p = B" by (auto simp: nth_append)
  then have "x \<in> set B" using bucketed_mem [OF b x(2), of x] x p by simp
  then obtain b1 b2 where B: "B = b1 @ x # b2" by (metis split_list)
  have d: "distinct (concat Bs)" using b by (simp add: bucketed_def)
  have "concat Bs ! length (concat As @ b1) = x" "length (concat As @ b1) < length (concat Bs)"
    unfolding Bs B by (simp_all add: nth_append)
  with d e have "e = length (concat As @ b1)" by (metis nth_eq_iff_index_eq)
  then show thesis using that Bs B by blast
qed

definition indexed_but :: "nat \<Rightarrow> piece_pos list \<Rightarrow> nat list \<Rightarrow> bool" where
  "indexed_but x pm ps \<longleftrightarrow> (\<forall>j < length ps. ps ! j \<noteq> x \<longrightarrow> pp_index (pm ! (ps ! j)) = int j)"

lemma indexed_indexed_but: "indexed pm 0 ps \<Longrightarrow> indexed_but x pm ps"
  by (simp add: indexed_def indexed_but_def)

lemma indexed_but_split:
  assumes "indexed_but x pm (xs @ x # ys)" and "distinct (xs @ x # ys)"
  shows "indexed pm 0 xs" "indexed pm (Suc (length xs)) ys"
proof -
  have I: "pp_index (pm ! ((xs @ x # ys) ! j)) = int j" if "j < length (xs @ x # ys)" "(xs @ x # ys) ! j \<noteq> x" for j
    using assms(1) that unfolding indexed_but_def by blast
  show "indexed pm 0 xs" unfolding indexed_def
  proof (intro allI impI)
    fix j assume j: "j < length xs"
    then have "xs ! j \<noteq> x" using assms(2) by (auto dest: nth_mem)
    then show "pp_index (pm ! (xs ! j)) = int (0 + j)" using I [of j] j by (simp add: nth_append)
  qed
  show "indexed pm (Suc (length xs)) ys" unfolding indexed_def
  proof (intro allI impI)
    fix j assume j: "j < length ys"
    then have "ys ! j \<noteq> x" using assms(2) by (auto dest: nth_mem)
    then show "pp_index (pm ! (ys ! j)) = int (Suc (length xs) + j)"
      using I [of "Suc (length xs) + j"] j by (simp add: nth_append)
  qed
qed

lemma remove_ordered:
  assumes b: "bucketed (pr(x := int p)) (length pm) Bs" and ix: "indexed_but x pm (concat Bs)"
    and x: "pr x = -1" and e: "e < length (concat Bs)" "concat Bs ! e = x"
    and r: "remove_loop (concat Bs) pm (ends 0 Bs) p e = (ps', pm', bs')"
  shows "ordered pr (length pm) (butlast ps') bs' \<and> indexed pm' 0 (butlast ps') \<and> reindexed pm (set (butlast ps')) pm'"
proof -
  obtain As b1 b2 Zs where Bs: "Bs = As @ (b1 @ x # b2) # Zs" "length As = p" "e = length (concat As @ b1)"
    by (rule locate [OF b e, of p]) auto
  let ?pre = "concat As @ b1" and ?Cs = "b2 # Zs"
  let ?Bs = "As @ (b1 @ rotate_back b2) # map rotate_back Zs"
  have cc: "concat Bs = ?pre @ x # concat ?Cs" by (simp add: Bs(1))
  have ee: "ends 0 Bs = ends 0 As @ ends (Suc (length ?pre)) ?Cs" by (simp add: Bs(1) ends_append add.assoc)
  have dist: "distinct (concat Bs)" using b by (simp add: bucketed_def)
  then have d: "distinct (?pre @ concat ?Cs)" unfolding cc by auto
  have sb: "set (?pre @ concat ?Cs) \<subseteq> {..<length pm}" using bucketed_set [OF b] unfolding cc by auto
  have ix': "indexed pm 0 ?pre" "indexed pm (Suc (length ?pre)) (concat ?Cs)"
    using indexed_but_split [OF ix [unfolded cc]] dist unfolding cc by blast+
  have rr: "remove_loop (?pre @ x # concat ?Cs) pm (ends 0 As @ ends (Suc (length ?pre)) ?Cs) (length (ends 0 As)) (length ?pre) = (ps', pm', bs')"
    using r cc ee Bs(2,3) by simp
  have S: "butlast ps' = ?pre @ concat (map rotate_back ?Cs) \<and> bs' = ends 0 As @ ends (length ?pre) ?Cs \<and>
      indexed pm' 0 (butlast ps') \<and> reindexed pm (set (butlast ps')) pm'"
    using remove_loop_spec [OF _ d sb ix' rr] by blast
  have "mset (x # concat ?Bs) = mset (concat Bs)" by (simp add: Bs(1))
  then have "distinct (x # concat ?Bs)" using dist by (metis mset_eq_imp_distinct_iff)
  then have nx: "distinct (concat ?Bs)" "x \<notin> set (concat ?Bs)" by auto
  have "bucketed pr (length pm) ?Bs"
  proof (rule bucketedI [OF _ nx(1)])
    fix k y assume k: "k < length ?Bs"
    then have kl: "k < length Bs" by (simp add: Bs(1))
    have "set (?Bs ! k) \<subseteq> set (concat ?Bs)" using nth_mem [OF k] by auto
    moreover have "insert x (set (?Bs ! k)) = insert x (set (Bs ! k))"
      using k by (auto simp: Bs nth_append nth_Cons split: nat.splits)
    moreover have "A = B - {x}" if "insert x A = insert x B" "x \<notin> A" for A B :: "nat set" using that unfolding set_eq_iff by auto
    ultimately have "set (?Bs ! k) = set (Bs ! k) - {x}" using nx(2) by (meson subsetD)
    then show "y \<in> set (?Bs ! k) \<longleftrightarrow> y < length pm \<and> pr y = int k"
      using bucketed_mem [OF b kl, of y] x by auto
  next
    fix j assume "j < length pm"
    then show "pr j < int (length ?Bs)" using b x Bs(1) by (cases "j = x") (auto simp: bucketed_def)
  qed simp
  moreover have "butlast ps' = concat ?Bs" using S by simp
  moreover have "bs' = ends 0 ?Bs"
    using S ends_cong [of Zs "map rotate_back Zs"] by (simp add: ends_append o_def add.assoc)
  ultimately show ?thesis using S unfolding ordered_def by metis
qed

text \<open>A piece changes from priority \<open>p\<close> to priority \<open>q\<close>.\<close>

lemma update_core_down:
  "update_down (p - q) ps pm bs p e x = (L @ h # post, pm1, bs1, length L) \<Longrightarrow> q < p \<Longrightarrow>
   update_core ps pm bs p q e x = (L @ x # post, set_index x (length L) pm1, bs1, length L)"
  by (simp add: update_core_def)

lemma update_core_up:
  "update_up (q - p) ps pm bs p e x = (L @ h # post, pm1, bs1, length L) \<Longrightarrow> \<not> q < p \<Longrightarrow>
   update_core ps pm bs p q e x = (L @ x # post, set_index x (length L) pm1, bs1, length L)"
  by (simp add: update_core_def)

lemma indexed_around:
  assumes "reindexed pm S pm'" and "distinct (pre @ mid1 @ x # mid2 @ post)"
    and "set (pre @ mid1 @ x # mid2 @ post) \<subseteq> {..<length pm}"
    and "S \<subseteq> set mid1 \<union> set mid2"
    and "indexed pm 0 pre" "indexed pm (length (pre @ mid1 @ x # mid2)) post"
    and "indexed pm' (length pre) mid1" "indexed pm' (length (pre @ mid1 @ [x])) mid2"
  shows "indexed (set_index x (length (pre @ mid1)) pm') 0 (pre @ mid1 @ x # mid2 @ post)"
proof -
  have len: "length pm' = length pm" using assms(1) by (simp add: reindexed_def)
  have "indexed pm' 0 pre" by (subst indexed_reindexed [OF assms(1)]) (use assms in auto)
  moreover have "indexed pm' (length (pre @ mid1 @ x # mid2)) post"
    by (subst indexed_reindexed [OF assms(1)]) (use assms in auto)
  ultimately show ?thesis using assms(2,3,7,8) len
    by (simp add: indexed_set_index add.assoc)
qed

lemma reindexed_core:
  assumes "reindexed pm S pm'" and "S \<subseteq> T" "x \<in> T" "x < length pm"
  shows "reindexed pm T (set_index x e pm')"
proof -
  have "length pm' = length pm" using assms(1) by (simp add: reindexed_def)
  then have "reindexed pm' {x} (set_index x e pm')" using assms(4) by (simp add: set_index_reindexed)
  then show ?thesis by (rule reindexed_trans [OF assms(1)]) (use assms in auto)
qed

text \<open>The buckets after a move; the piece may be anywhere in its new bucket.\<close>

lemma move_bucketed:
  assumes b: "bucketed (pr(x := int p)) n Bs" and x: "x < n" "pr x = int q" and q: "q < length Bs" "p \<noteq> q"
    and len: "length Bs' = length Bs" and m: "mset (concat Bs') = mset (concat Bs)"
    and sets: "\<And>k. k < length Bs \<Longrightarrow> k \<noteq> q \<Longrightarrow> insert x (set (Bs' ! k)) = insert x (set (Bs ! k))"
    and setq: "set (Bs' ! q) = insert x (set (Bs ! q))" and notp: "\<And>k. k < length Bs \<Longrightarrow> k \<noteq> q \<Longrightarrow> x \<notin> set (Bs' ! k)"
  shows "bucketed pr n Bs'"
proof (rule bucketedI)
  show "distinct (concat Bs')" using b m by (metis bucketed_def mset_eq_imp_distinct_iff)
  show "Bs' \<noteq> []" using len q by auto
  fix k y assume "k < length Bs'"
  then have k: "k < length Bs" using len by simp
  show "y \<in> set (Bs' ! k) \<longleftrightarrow> y < n \<and> pr y = int k"
  proof (cases "y = x")
    case True
    then show ?thesis using notp [OF k] setq x by (cases "k = q") auto
  next
    case False
    then have "y \<in> set (Bs' ! k) \<longleftrightarrow> y \<in> set (Bs ! k)" using sets [OF k] setq by (cases "k = q") blast+
    then show ?thesis using bucketed_mem [OF b k, of y] False by simp
  qed
next
  fix j assume "j < n"
  then show "pr j < int (length Bs')" using b x q len by (cases "j = x") (auto simp: bucketed_def)
qed

lemma update_down_ordered:
  assumes b: "bucketed (pr(x := int p)) (length pm) Bs" and ix: "indexed pm 0 (concat Bs)"
    and x: "x < length pm" "pr x = int q" and qp: "q < p" and e: "e < length (concat Bs)" "concat Bs ! e = x"
    and r: "update_core (concat Bs) pm (ends 0 Bs) p q e x = (ps', pm', bs', e')"
  shows "ordered pr (length pm) ps' bs' \<and> indexed pm' 0 ps' \<and> reindexed pm (set ps') pm' \<and> e' < length ps' \<and> ps' ! e' = x"
proof -
  obtain Xs b1 b2 Zs where Bs0: "Bs = Xs @ (b1 @ x # b2) # Zs" "length Xs = p" "e = length (concat Xs @ b1)"
    by (rule locate [OF b e, of p]) auto
  obtain As Q Ms where Xs: "Xs = As @ Q # Ms" "length As = q" using split_bucket [of q Xs] Bs0(2) qp by auto
  let ?pre = "concat As @ Q" and ?Cs = "Ms @ [b1]" and ?post = "b2 @ concat Zs"
  let ?Bs = "As @ (Q @ [x]) # map rotate1 Ms @ (rotate1 b1 @ b2) # Zs"
  have Bs: "Bs = As @ Q # Ms @ (b1 @ x # b2) # Zs" using Bs0 Xs by simp
  have cc: "concat Bs = ?pre @ concat ?Cs @ x # ?post" by (simp add: Bs)
  have steps: "p - q = length ?Cs" "p = length (ends 0 As) + length ?Cs" using Bs0(2) Xs by auto
  let ?bt = "ends (length ?pre + length (concat Ms)) ((b1 @ x # b2) # Zs)"
  have ee: "ends 0 Bs = ends 0 As @ starts (length ?pre) ?Cs @ ?bt"
    by (simp add: Bs ends_append starts_ends add.assoc)
  have ei: "e = length ?pre + length (concat ?Cs)" using Bs0(3) Xs by simp
  have dist: "distinct (concat Bs)" using b by (simp add: bucketed_def)
  have sub: "set (concat Bs) \<subseteq> {..<length pm}" using bucketed_set [OF b] by auto
  have ix': "indexed pm 0 ?pre" "indexed pm (length ?pre) (concat ?Cs)"
    "indexed pm (length (?pre @ concat ?Cs @ [x])) ?post" using ix unfolding cc by (auto simp: add.assoc)
  have "distinct (concat ?Cs)" "set (concat ?Cs) \<subseteq> {..<length pm}" "x \<notin> set (concat ?Cs)"
    using dist sub unfolding cc by auto
  then obtain h pm1 where U: "update_down (length ?Cs) (?pre @ concat ?Cs @ x # ?post) pm (ends 0 As @ starts (length ?pre) ?Cs @ ?bt)
        (length (ends 0 As) + length ?Cs) (length ?pre + length (concat ?Cs)) x =
      (?pre @ h # concat (map rotate1 ?Cs) @ ?post, pm1, ends 0 As @ map Suc (starts (length ?pre) ?Cs) @ ?bt, length ?pre)"
      and pm1: "indexed pm1 (Suc (length ?pre)) (concat (map rotate1 ?Cs))" "reindexed pm (set (concat ?Cs)) pm1"
    using update_down_spec [OF _ _ ix'(2), of x ?post "ends 0 As" ?bt] by blast
  have R: "ps' = ?pre @ x # concat (map rotate1 ?Cs) @ ?post" "pm' = set_index x (length ?pre) pm1"
    "bs' = ends 0 As @ map Suc (starts (length ?pre) ?Cs) @ ?bt" "e' = length ?pre"
  proof -
    have "update_down (p - q) (concat Bs) pm (ends 0 Bs) p e x =
        (?pre @ h # concat (map rotate1 ?Cs) @ ?post, pm1, ends 0 As @ map Suc (starts (length ?pre) ?Cs) @ ?bt, length ?pre)"
      unfolding cc ee ei steps(1) unfolding steps(2) by (rule U)
    from update_core_down [OF this qp] r
    show "ps' = ?pre @ x # concat (map rotate1 ?Cs) @ ?post" "pm' = set_index x (length ?pre) pm1"
      "bs' = ends 0 As @ map Suc (starts (length ?pre) ?Cs) @ ?bt" "e' = length ?pre"
      by (metis prod.inject)+
  qed
  have m: "mset (concat ?Bs) = mset (concat Bs)" by (simp add: Bs)
  have ps: "ps' = concat ?Bs" using R(1) by simp
  then have d': "distinct ps'" using dist m by (metis mset_eq_imp_distinct_iff)
  have sp: "set ps' = set (concat Bs)" using m ps by (metis mset_eq_setD)
  have "indexed (set_index x (length (?pre @ [])) pm1) 0 (?pre @ [] @ x # concat (map rotate1 ?Cs) @ ?post)"
    by (rule indexed_around [OF pm1(2)]) (use R(1) d' sp sub ix' pm1(1) in \<open>auto simp: add.assoc\<close>)
  then have I: "indexed pm' 0 ps'" using R by simp
  have re: "reindexed pm (set ps') pm'" unfolding R(2)
    by (rule reindexed_core [OF pm1(2)]) (use R(1) x in auto)
  have "bucketed pr (length pm) ?Bs"
  proof (rule move_bucketed [OF b x])
    show "q < length Bs" "p \<noteq> q" "length ?Bs = length Bs" using Bs Xs(2) qp by auto
    show "set (?Bs ! q) = insert x (set (Bs ! q))" using Xs(2) by (simp add: Bs nth_append)
    fix k assume k: "k < length Bs" "k \<noteq> q"
    show "insert x (set (?Bs ! k)) = insert x (set (Bs ! k))"
      using k Xs(2) by (auto simp: Bs nth_append nth_Cons split: nat.splits)
    have "x \<notin> set (concat As)" "x \<notin> set (concat (map rotate1 Ms @ (rotate1 b1 @ b2) # Zs))"
      using d' unfolding ps by auto
    moreover have "?Bs ! k \<in> set As \<union> set (map rotate1 Ms @ (rotate1 b1 @ b2) # Zs)"
    proof (cases "k < q")
      case True
      then show ?thesis using Xs(2) by (auto simp: nth_append)
    next
      case False
      then obtain j where "k = q + Suc j" using k by (metis add_Suc_right less_imp_Suc_add linorder_neqE_nat)
      then have "?Bs ! k = (map rotate1 Ms @ (rotate1 b1 @ b2) # Zs) ! j"
        "j < length (map rotate1 Ms @ (rotate1 b1 @ b2) # Zs)"
        using Xs(2) k Bs by (auto simp: nth_append)
      then show ?thesis by (metis UnI2 nth_mem)
    qed
    ultimately show "x \<notin> set (?Bs ! k)" by (metis UN_I UnE set_concat)
  qed (rule m)
  moreover have "bs' = ends 0 ?Bs"
    using R(3) ends_cong [of Ms "map rotate1 Ms"]
    by (simp add: starts_ends ends_append map_Suc_ends o_def add.assoc)
  ultimately have "ordered pr (length pm) ps' bs'" using ps unfolding ordered_def by blast
  moreover have "e' < length ps' \<and> ps' ! e' = x" using R(1,4) by (simp add: nth_append)
  ultimately show ?thesis using I re by blast
qed

lemma update_up_ordered:
  assumes b: "bucketed (pr(x := int p)) (length pm) Bs" and ix: "indexed pm 0 (concat Bs)"
    and x: "x < length pm" "pr x = int q" and qp: "p < q" "q < length Bs"
    and e: "e < length (concat Bs)" "concat Bs ! e = x"
    and r: "update_core (concat Bs) pm (ends 0 Bs) p q e x = (ps', pm', bs', e')"
  shows "ordered pr (length pm) ps' bs' \<and> indexed pm' 0 ps' \<and> reindexed pm (set ps') pm' \<and> e' < length ps' \<and> ps' ! e' = x"
proof -
  obtain As b1 b2 Ys where Bs0: "Bs = As @ (b1 @ x # b2) # Ys" "length As = p" "e = length (concat As @ b1)"
    by (rule locate [OF b e, of p]) auto
  have "q - p - 1 < length Ys" using Bs0(1,2) qp by auto
  then obtain Ms Q Zs where Ys: "Ys = Ms @ Q # Zs" "length Ms = q - p - 1" using split_bucket by blast
  let ?pre = "concat As @ b1" and ?Cs = "b2 # Ms" and ?post = "Q @ concat Zs"
  let ?Bs = "As @ (b1 @ rotate_back b2) # map rotate_back Ms @ (x # Q) # Zs"
  have Bs: "Bs = As @ (b1 @ x # b2) # Ms @ Q # Zs" using Bs0 Ys by simp
  have q: "q = length As + Suc (length Ms)" using Ys(2) qp Bs0(2) by simp
  have cc: "concat Bs = ?pre @ x # concat ?Cs @ ?post" by (simp add: Bs)
  have steps: "q - p = length ?Cs" "p = length (ends 0 As)" using Bs0(2) q by auto
  let ?bt = "ends (Suc (length ?pre) + length (concat ?Cs)) (Q # Zs)"
  have ee: "ends 0 Bs = ends 0 As @ ends (Suc (length ?pre)) ?Cs @ ?bt"
    by (simp add: Bs ends_append add.assoc)
  have ei: "e = length ?pre" using Bs0(3) .
  have dist: "distinct (concat Bs)" using b by (simp add: bucketed_def)
  have sub: "set (concat Bs) \<subseteq> {..<length pm}" using bucketed_set [OF b] by auto
  have ix': "indexed pm 0 ?pre" "indexed pm (Suc (length ?pre)) (concat ?Cs)"
    "indexed pm (length (?pre @ concat ?Cs @ [x])) ?post" using ix unfolding cc by (auto simp: add.assoc)
  have "distinct (concat ?Cs)" "set (concat ?Cs) \<subseteq> {..<length pm}" "x \<notin> set (concat ?Cs)"
    using dist sub unfolding cc by auto
  then obtain h pm1 where U: "update_up (length ?Cs) (?pre @ x # concat ?Cs @ ?post) pm (ends 0 As @ ends (Suc (length ?pre)) ?Cs @ ?bt)
        (length (ends 0 As)) (length ?pre) x =
      (?pre @ concat (map rotate_back ?Cs) @ h # ?post, pm1, ends 0 As @ ends (length ?pre) ?Cs @ ?bt, length ?pre + length (concat ?Cs))"
      and pm1: "indexed pm1 (length ?pre) (concat (map rotate_back ?Cs))" "reindexed pm (set (concat ?Cs)) pm1"
    using update_up_spec [OF _ _ ix'(2), of x ?post "ends 0 As" ?bt] by blast
  let ?L = "?pre @ concat (map rotate_back ?Cs)"
  have len: "length ?pre + length (concat ?Cs) = length ?L" by simp
  have R: "ps' = ?L @ x # ?post" "pm' = set_index x (length ?L) pm1"
    "bs' = ends 0 As @ ends (length ?pre) ?Cs @ ?bt" "e' = length ?L"
  proof -
    have "update_up (q - p) (concat Bs) pm (ends 0 Bs) p e x =
        (?L @ h # ?post, pm1, ends 0 As @ ends (length ?pre) ?Cs @ ?bt, length ?L)"
      unfolding cc ee ei steps(1) unfolding steps(2) U len [symmetric] by simp
    from update_core_up [OF this] r qp
    show "ps' = ?L @ x # ?post" "pm' = set_index x (length ?L) pm1"
      "bs' = ends 0 As @ ends (length ?pre) ?Cs @ ?bt" "e' = length ?L"
      by (metis prod.inject not_less_iff_gr_or_eq)+
  qed
  have m: "mset (concat ?Bs) = mset (concat Bs)" by (simp add: Bs)
  have ps: "ps' = concat ?Bs" using R(1) by simp
  then have d': "distinct ps'" using dist m by (metis mset_eq_imp_distinct_iff)
  have sp: "set ps' = set (concat Bs)" using m ps by (metis mset_eq_setD)
  have "indexed (set_index x (length (?pre @ concat (map rotate_back ?Cs))) pm1) 0 (?pre @ concat (map rotate_back ?Cs) @ x # [] @ ?post)"
    by (rule indexed_around [OF pm1(2)]) (use R(1) d' sp sub ix' pm1(1) in \<open>auto simp: add.assoc\<close>)
  then have I: "indexed pm' 0 ps'" using R(1,2) by simp
  have re: "reindexed pm (set ps') pm'" unfolding R(2)
    by (rule reindexed_core [OF pm1(2)]) (use R(1) x in auto)
  have "bucketed pr (length pm) ?Bs"
  proof (rule move_bucketed [OF b x])
    show "q < length Bs" "p \<noteq> q" "length ?Bs = length Bs" using Bs qp by auto
    show "set (?Bs ! q) = insert x (set (Bs ! q))" unfolding q by (simp add: Bs nth_append)
    fix k assume k: "k < length Bs" "k \<noteq> q"
    show "insert x (set (?Bs ! k)) = insert x (set (Bs ! k))"
      using k q by (auto simp: Bs nth_append nth_Cons split: nat.splits)
    let ?F = "As @ (b1 @ rotate_back b2) # map rotate_back Ms"
    have "x \<notin> set (concat ?F)" "x \<notin> set (concat Zs)" using d' unfolding ps by auto
    moreover have "?Bs ! k \<in> set ?F \<union> set Zs"
    proof (cases "k < q")
      case True
      then have "?Bs ! k = ?F ! k" "k < length ?F" using q by (auto simp: nth_append nth_Cons split: nat.splits)
      then show ?thesis by (metis UnI1 nth_mem)
    next
      case False
      then obtain j where "k = q + Suc j" using k by (metis add_Suc_right less_imp_Suc_add linorder_neqE_nat)
      then have "?Bs ! k = Zs ! j" "j < length Zs" using q k Bs by (auto simp: nth_append)
      then show ?thesis by (metis UnI2 nth_mem)
    qed
    ultimately show "x \<notin> set (?Bs ! k)" by (metis UN_I UnE set_concat)
  qed (rule m)
  moreover have "bs' = ends 0 ?Bs"
    using R(3) ends_cong [of Ms "map rotate_back Ms"] by (simp add: ends_append o_def add.assoc)
  ultimately have "ordered pr (length pm) ps' bs'" using ps unfolding ordered_def by blast
  moreover have "e' < length ps' \<and> ps' ! e' = x" using R(1,4) by (simp add: nth_append)
  ultimately show ?thesis using I re by blast
qed

text \<open>Exchanging two pieces of one bucket keeps the order.\<close>

lemma concat_update:
  "k < length Bs \<Longrightarrow> i < length (Bs ! k) \<Longrightarrow>
   (concat Bs)[length (concat (take k Bs)) + i := x] = concat (Bs[k := (Bs ! k)[i := x]])"
proof (induction Bs arbitrary: k)
  case (Cons B Bs)
  then show ?case by (cases k) (auto simp: list_update_append)
qed simp

lemma concat_nth:
  "k < length Bs \<Longrightarrow> i < length (Bs ! k) \<Longrightarrow> concat Bs ! (length (concat (take k Bs)) + i) = Bs ! k ! i"
proof (induction Bs arbitrary: k)
  case (Cons B Bs)
  then show ?case by (cases k) (auto simp: nth_append)
qed simp

lemma length_concat_take:
  assumes "k < length Bs" "i < length (Bs ! k)"
  shows "length (concat (take k Bs)) + i < length (concat Bs)"
proof -
  have "concat Bs = concat (take k Bs) @ Bs ! k @ concat (drop (Suc k) Bs)"
    by (metis assms(1) concat.simps(2) concat_append id_take_nth_drop)
  then show ?thesis using assms(2) by (metis length_append nat_add_left_cancel_less trans_less_add1)
qed

lemma swap_ordered:
  assumes b: "bucketed pr n Bs" and k: "k < length Bs" and ij: "i < length (Bs ! k)" "j < length (Bs ! k)"
    and off: "off = length (concat (take k Bs))"
  shows "ordered pr n ((concat Bs)[off + i := concat Bs ! (off + j), off + j := concat Bs ! (off + i)]) (ends 0 Bs)"
proof -
  let ?B = "(Bs ! k)[i := Bs ! k ! j, j := Bs ! k ! i]"
  let ?Bs = "Bs[k := ?B]"
  have m: "mset ?B = mset (Bs ! k)" using mset_swap [OF ij(2,1)] by simp
  have c: "(concat Bs)[off + i := concat Bs ! (off + j), off + j := concat Bs ! (off + i)] = concat ?Bs"
    using k ij concat_update [of k Bs i] concat_update [of k "Bs[k := (Bs ! k)[i := Bs ! k ! j]]" j]
    by (simp add: off concat_nth)
  have "map length ?Bs = map length Bs" using k by (intro nth_equalityI) (auto simp: nth_list_update)
  then have e: "ends 0 ?Bs = ends 0 Bs" by (rule ends_cong)
  have "bucketed pr n ?Bs"
  proof (rule bucketedI)
    have "concat Bs = concat (take k Bs) @ Bs ! k @ concat (drop (Suc k) Bs)"
      by (metis concat.simps(2) concat_append id_take_nth_drop k)
    moreover have "concat ?Bs = concat (take k Bs) @ ?B @ concat (drop (Suc k) Bs)"
      using k by (simp add: upd_conv_take_nth_drop)
    ultimately have "mset (concat ?Bs) = mset (concat Bs)" using m by (metis mset_append)
    then show "distinct (concat ?Bs)" using b by (metis bucketed_def mset_eq_imp_distinct_iff)
    fix l y assume "l < length ?Bs"
    moreover have "set ?B = set (Bs ! k)" using m by (metis mset_eq_setD)
    ultimately show "y \<in> set (?Bs ! l) \<longleftrightarrow> y < n \<and> pr y = int l"
      using bucketed_mem [OF b, of l y] by (cases "l = k") auto
  qed (use b in \<open>auto simp: bucketed_def\<close>)
  then show ?thesis unfolding c ordered_def using e by metis
qed

section \<open>The list in the picker\<close>

text \<open>
  What \<^verbatim>\<open>add\<close>, \<^verbatim>\<open>remove\<close> and \<^verbatim>\<open>update\<close> may change: the list, the boundaries, the random source, and the
  position of pieces that we do not have.
\<close>

definition frame :: "piece_picker \<Rightarrow> piece_picker" where
  "frame s = s\<lparr>m_pieces := [], m_piece_map := [], m_priority_boundaries := [], rng := []\<rparr>"

lemma frame_fields:
  assumes "frame s' = frame s"
  shows "m_pad_blocks s' = m_pad_blocks s"
    and "m_pads_in_piece s' = m_pads_in_piece s"
    and "m_recent_extents s' = m_recent_extents s"
    and "m_num_pad_blocks s' = m_num_pad_blocks s"
    and "m_have_pad_blocks s' = m_have_pad_blocks s"
    and "m_filtered_pad_blocks s' = m_filtered_pad_blocks s"
    and "m_have_filtered_pad_blocks s' = m_have_filtered_pad_blocks s"
    and "m_seeds s' = m_seeds s"
    and "m_num_passed s' = m_num_passed s"
    and "m_downloads s' = m_downloads s"
    and "m_block_info s' = m_block_info s"
    and "m_free_block_infos s' = m_free_block_infos s"
    and "m_blocks_per_piece s' = m_blocks_per_piece s"
    and "m_blocks_in_last_piece s' = m_blocks_in_last_piece s"
    and "m_num_filtered s' = m_num_filtered s"
    and "m_num_have_filtered s' = m_num_have_filtered s"
    and "m_cursor s' = m_cursor s"
    and "m_reverse_cursor s' = m_reverse_cursor s"
    and "m_num_have s' = m_num_have s"
    and "m_dirty s' = m_dirty s"
proof -
  show "m_pad_blocks s' = m_pad_blocks s" using arg_cong [OF assms, of m_pad_blocks] by (simp add: frame_def)
  show "m_pads_in_piece s' = m_pads_in_piece s" using arg_cong [OF assms, of m_pads_in_piece] by (simp add: frame_def)
  show "m_recent_extents s' = m_recent_extents s" using arg_cong [OF assms, of m_recent_extents] by (simp add: frame_def)
  show "m_num_pad_blocks s' = m_num_pad_blocks s" using arg_cong [OF assms, of m_num_pad_blocks] by (simp add: frame_def)
  show "m_have_pad_blocks s' = m_have_pad_blocks s" using arg_cong [OF assms, of m_have_pad_blocks] by (simp add: frame_def)
  show "m_filtered_pad_blocks s' = m_filtered_pad_blocks s" using arg_cong [OF assms, of m_filtered_pad_blocks] by (simp add: frame_def)
  show "m_have_filtered_pad_blocks s' = m_have_filtered_pad_blocks s" using arg_cong [OF assms, of m_have_filtered_pad_blocks] by (simp add: frame_def)
  show "m_seeds s' = m_seeds s" using arg_cong [OF assms, of m_seeds] by (simp add: frame_def)
  show "m_num_passed s' = m_num_passed s" using arg_cong [OF assms, of m_num_passed] by (simp add: frame_def)
  show "m_downloads s' = m_downloads s" using arg_cong [OF assms, of m_downloads] by (simp add: frame_def)
  show "m_block_info s' = m_block_info s" using arg_cong [OF assms, of m_block_info] by (simp add: frame_def)
  show "m_free_block_infos s' = m_free_block_infos s" using arg_cong [OF assms, of m_free_block_infos] by (simp add: frame_def)
  show "m_blocks_per_piece s' = m_blocks_per_piece s" using arg_cong [OF assms, of m_blocks_per_piece] by (simp add: frame_def)
  show "m_blocks_in_last_piece s' = m_blocks_in_last_piece s" using arg_cong [OF assms, of m_blocks_in_last_piece] by (simp add: frame_def)
  show "m_num_filtered s' = m_num_filtered s" using arg_cong [OF assms, of m_num_filtered] by (simp add: frame_def)
  show "m_num_have_filtered s' = m_num_have_filtered s" using arg_cong [OF assms, of m_num_have_filtered] by (simp add: frame_def)
  show "m_cursor s' = m_cursor s" using arg_cong [OF assms, of m_cursor] by (simp add: frame_def)
  show "m_reverse_cursor s' = m_reverse_cursor s" using arg_cong [OF assms, of m_reverse_cursor] by (simp add: frame_def)
  show "m_num_have s' = m_num_have s" using arg_cong [OF assms, of m_num_have] by (simp add: frame_def)
  show "m_dirty s' = m_dirty s" using arg_cong [OF assms, of m_dirty] by (simp add: frame_def)
qed

definition reordered :: "piece_picker \<Rightarrow> piece_picker \<Rightarrow> bool" where
  "reordered s s' \<longleftrightarrow> frame s' = frame s \<and> num_pieces s' = num_pieces s \<and>
     (\<forall>i < num_pieces s. pos_of s' i = (pos_of s i)\<lparr>pp_index := pp_index (pos_of s' i)\<rparr> \<and>
        (have_pos (pos_of s' i) \<longleftrightarrow> have_pos (pos_of s i)))"

lemma reordered_refl [simp]: "reordered s s"
  by (simp add: reordered_def)

lemma reordered_trans:
  assumes 1: "reordered s s'" and 2: "reordered s' s''"
  shows "reordered s s''"
proof -
  have "pos_of s'' i = (pos_of s i)\<lparr>pp_index := pp_index (pos_of s'' i)\<rparr>" if i: "i < num_pieces s" for i
  proof -
    have a: "pos_of s' i = (pos_of s i)\<lparr>pp_index := pp_index (pos_of s' i)\<rparr>"
      using 1 i unfolding reordered_def by blast
    have b: "pos_of s'' i = (pos_of s' i)\<lparr>pp_index := pp_index (pos_of s'' i)\<rparr>"
      using 1 2 i unfolding reordered_def by simp
    have "(pos_of s' i)\<lparr>pp_index := k\<rparr> = (pos_of s i)\<lparr>pp_index := k\<rparr>" for k by (subst a) simp
    then show ?thesis using b by simp
  qed
  then show ?thesis using 1 2 unfolding reordered_def by simp
qed

lemma reordered_pos:
  assumes "reordered s s'" and "i < num_pieces s"
  shows "peer_count (pos_of s' i) = peer_count (pos_of s i)" "download_state (pos_of s' i) = download_state (pos_of s i)"
    "piece_priority (pos_of s' i) = piece_priority (pos_of s i)" "have_pos (pos_of s' i) = have_pos (pos_of s i)"
    "filtered (pos_of s' i) = filtered (pos_of s i)" "reverse_pos (pos_of s' i) = reverse_pos (pos_of s i)"
    "download_queue (pos_of s' i) = download_queue (pos_of s i)" "downloading (pos_of s' i) = downloading (pos_of s i)"
proof -
  have e: "pos_of s' i = (pos_of s i)\<lparr>pp_index := pp_index (pos_of s' i)\<rparr>"
    and h: "have_pos (pos_of s' i) = have_pos (pos_of s i)"
    using assms unfolding reordered_def by blast+
  show "peer_count (pos_of s' i) = peer_count (pos_of s i)" "download_state (pos_of s' i) = download_state (pos_of s i)"
    "piece_priority (pos_of s' i) = piece_priority (pos_of s i)"
    by (subst e; simp)+
  then show "filtered (pos_of s' i) = filtered (pos_of s i)" "reverse_pos (pos_of s' i) = reverse_pos (pos_of s i)"
    "download_queue (pos_of s' i) = download_queue (pos_of s i)" "downloading (pos_of s' i) = downloading (pos_of s i)"
    by (simp_all add: filtered_def reverse_pos_def download_queue_def downloading_def)
qed (use assms in \<open>simp add: reordered_def\<close>)

lemma reordered_prio:
  assumes "reordered s s'" and "i < num_pieces s"
  shows "prio_of s' i = prio_of s i"
  using reordered_pos [OF assms] assms frame_fields(8) [of s' s] by (simp add: priority_def reordered_def)

text \<open>The list agrees with the priorities, possibly but for one piece that has just changed.\<close>

definition list_ok_for :: "(nat \<Rightarrow> int) \<Rightarrow> piece_picker \<Rightarrow> bool" where
  "list_ok_for pr s \<longleftrightarrow> ordered pr (num_pieces s) (m_pieces s) (m_priority_boundaries s) \<and>
     indexed (m_piece_map s) 0 (m_pieces s)"

abbreviation list_ok :: "piece_picker \<Rightarrow> bool" where
  "list_ok s \<equiv> list_ok_for (prio_of s) s"

definition order_inv :: "piece_picker \<Rightarrow> bool" where
  "order_inv s \<longleftrightarrow> m_dirty s \<or> list_ok s"

lemma bucketed_cong: "(\<And>i. i < n \<Longrightarrow> pr i = pr' i) \<Longrightarrow> bucketed pr n Bs = bucketed pr' n Bs"
proof -
  assume A: "\<And>i. i < n \<Longrightarrow> pr i = pr' i"
  then have "bsets pr n l = bsets pr' n l" for l by (simp add: bsets_def cong: conj_cong)
  then show ?thesis using A by (simp add: bucketed_def cong: conj_cong)
qed

lemma ordered_cong: "(\<And>i. i < n \<Longrightarrow> pr i = pr' i) \<Longrightarrow> ordered pr n ps bs = ordered pr' n ps bs"
  by (simp add: ordered_def bucketed_cong [of n pr pr'])

lemma prio_nonneg_not_have: "0 \<le> priority seeds p \<Longrightarrow> \<not> have_pos p"
  by (auto simp: priority_def split: if_splits)

lemma have_pos_index [simp]: "have_pos (p\<lparr>pp_index := int n\<rparr>) = False"
  by (simp add: have_pos_def we_have_index_def)

text \<open>The state after a list operation, from the facts about the lists.\<close>

lemma relist:
  assumes r: "reindexed (m_piece_map s) (set ps) pm" and i: "indexed pm 0 ps"
    and o: "ordered (prio_of s) (num_pieces s) ps bs"
    and f: "frame s' = frame s" "m_pieces s' = ps" "m_piece_map s' = pm" "m_priority_boundaries s' = bs"
  shows "reordered s s'" and "list_ok s'"
proof -
  have len: "num_pieces s' = num_pieces s" using r f by (simp add: num_pieces_def reindexed_def)
  obtain Bs where "ps = concat Bs" "bucketed (prio_of s) (num_pieces s) Bs" using o by (auto simp: ordered_def)
  then have set: "set ps = {i. i < num_pieces s \<and> 0 \<le> prio_of s i}" using bucketed_set by simp
  have "have_pos (pm ! j) \<longleftrightarrow> have_pos (pos_of s j)" if j: "j < num_pieces s" for j
  proof (cases "j \<in> set ps")
    case True
    then obtain k where "k < length ps" "ps ! k = j" by (metis in_set_conv_nth)
    then have "pp_index (pm ! j) = int k" using i by (auto simp: indexed_def)
    then have "\<not> have_pos (pm ! j)" by (simp add: have_pos_def we_have_index_def)
    then show ?thesis using prio_nonneg_not_have True set by blast
  next
    case False
    then show ?thesis using r j unfolding reindexed_def num_pieces_def by simp
  qed
  then show re: "reordered s s'" using r f len unfolding reordered_def reindexed_def num_pieces_def by simp
  have "ordered (prio_of s') (num_pieces s) ps bs = ordered (prio_of s) (num_pieces s) ps bs"
    by (rule ordered_cong) (rule reordered_prio [OF re])
  then show "list_ok s'" using o i f len by (simp add: list_ok_for_def)
qed

end
