(* ===== verification/Picker_Invariant.thy ===== *)
theory Picker_Invariant
  imports Picker_Order
begin

text \<open>
  The operations of the picker keep the priority-ordered list: for each of them, if the list agreed
  with the piece map before the call, it does so after it.
\<close>

section \<open>Adding, removing and moving one piece\<close>

lemma random_bounds: "random mx s = (r, s1) \<Longrightarrow> r \<le> mx \<and> (\<exists>rs. s1 = s\<lparr>rng := rs\<rparr>)"
proof (cases "rng s")
  case Nil
  assume "random mx s = (r, s1)"
  then show ?thesis using Nil by (auto simp: random_def intro: exI [of _ "rng s"])
next
  case (Cons q qs)
  assume "random mx s = (r, s1)"
  then have "r = q mod (mx + 1)" "s1 = s\<lparr>rng := qs\<rparr>" using Cons by (auto simp: random_def)
  then show ?thesis by (auto simp: less_Suc_eq_le [symmetric])
qed

lemma frame_updates [simp]:
  "frame (s\<lparr>rng := rs\<rparr>) = frame s" "frame (s\<lparr>m_pieces := ps\<rparr>) = frame s" "frame (s\<lparr>m_piece_map := pm\<rparr>) = frame s"
  "frame (s\<lparr>m_priority_boundaries := bs\<rparr>) = frame s"
  by (simp_all add: frame_def)

lemma random_slot_bounds:
  assumes "random_slot first lst s = (r, s1)" and "first \<le> lst"
  shows "first \<le> r" "r \<le> lst" "frame s1 = frame s"
  using assms by (auto simp: random_slot_def split: if_splits prod.splits dest!: random_bounds)

lemma add_ok:
  assumes ok: "list_ok_for ((prio_of s)(x := -1)) s" and x: "x < num_pieces s"
  shows "reordered s (add x s)" and "0 \<le> prio_of s x \<Longrightarrow> list_ok (add x s)"
proof -
  have "reordered s (add x s) \<and> list_ok (add x s)" if p0: "0 \<le> prio_of s x"
  proof -
    define p where "p = nat (prio_of s x)"
    have px: "prio_of s x = int p" using p0 by (simp add: p_def)
    obtain Bs0 where Bs0: "m_pieces s = concat Bs0" "m_priority_boundaries s = ends 0 Bs0"
      "bucketed ((prio_of s)(x := -1)) (num_pieces s) Bs0"
      and ix: "indexed (m_piece_map s) 0 (m_pieces s)"
      using ok by (auto simp: list_ok_for_def ordered_def)
    define Bs where "Bs = (if length Bs0 \<le> p then Bs0 @ replicate (p + 1 - length Bs0) [] else Bs0)"
    have b: "bucketed ((prio_of s)(x := -1)) (length (m_piece_map s)) Bs"
      using Bs0(3) bucketed_extend unfolding Bs_def num_pieces_def by auto
    have cc: "m_pieces s = concat Bs" using Bs0(1) by (simp add: Bs_def)
    have pl: "p < length Bs" by (auto simp: Bs_def)
    have "Bs0 \<noteq> []" using Bs0(3) by (simp add: bucketed_def)
    then have bs: "grown_boundaries p s = ends 0 Bs"
      using ends_resize [of Bs0 "p + 1"] Bs0(1,2) by (simp add: Bs_def grown_boundaries_def)
    define first where "first = length (concat (take p Bs))"
    obtain ni s1 where ni: "random_slot (priority_begin (ends 0 Bs) p) (priority_end (ends 0 Bs) p) s = (ni, s1)"
      by fastforce
    have rng: "first \<le> ni" "ni \<le> first + length (Bs ! p)" "frame s1 = frame s"
      using random_slot_bounds [OF ni] priority_range_ends [OF pl] unfolding first_def by auto
    obtain ps pm bs' where af: "add_full (concat Bs) (m_piece_map s) (ends 0 Bs) p x ni = (ps, pm, bs')"
      by (metis prod_cases3)
    have S: "ordered (prio_of s) (length (m_piece_map s)) ps bs' \<and> indexed pm 0 ps \<and> reindexed (m_piece_map s) (set ps) pm"
      by (rule add_full_ordered [OF b _ pl _ px _ _ af])
        (use ix cc x rng in \<open>auto simp: num_pieces_def first_def\<close>)
    have A: "add x s = s1\<lparr>m_pieces := ps, m_piece_map := pm, m_priority_boundaries := bs'\<rparr>"
      using p0 ni af bs cc by (simp add: add_def p_def [symmetric])
    have f: "frame (add x s) = frame s" "m_pieces (add x s) = ps" "m_piece_map (add x s) = pm" "m_priority_boundaries (add x s) = bs'"
      using rng(3) unfolding A by auto
    show ?thesis using relist [OF _ _ _ f] S unfolding num_pieces_def by blast
  qed
  then show "reordered s (add x s)" "0 \<le> prio_of s x \<Longrightarrow> list_ok (add x s)"
    by (cases "0 \<le> prio_of s x"; simp add: add_def)+
qed

lemma remove_ok:
  assumes o: "ordered ((prio_of s)(x := int p)) (num_pieces s) (m_pieces s) (m_priority_boundaries s)"
    and ix: "indexed_but x (m_piece_map s) (m_pieces s)" and x: "prio_of s x = -1"
    and e: "e < length (m_pieces s)" "m_pieces s ! e = x"
  shows "reordered s (remove p e s)" and "list_ok (remove p e s)"
proof -
  obtain Bs where Bs: "m_pieces s = concat Bs" "m_priority_boundaries s = ends 0 Bs"
    "bucketed ((prio_of s)(x := int p)) (length (m_piece_map s)) Bs"
    using o by (auto simp: ordered_def num_pieces_def)
  obtain ps pm bs where r: "remove_loop (concat Bs) (m_piece_map s) (ends 0 Bs) p e = (ps, pm, bs)"
    by (metis prod_cases3)
  have S: "ordered (prio_of s) (length (m_piece_map s)) (butlast ps) bs \<and> indexed pm 0 (butlast ps) \<and>
      reindexed (m_piece_map s) (set (butlast ps)) pm"
    by (rule remove_ordered [OF Bs(3) _ x _ _ r]) (use ix e Bs(1) in auto)
  have A: "remove p e s = s\<lparr>m_pieces := butlast ps, m_piece_map := pm, m_priority_boundaries := bs\<rparr>"
    using r Bs by (simp add: remove_def)
  show "reordered s (remove p e s)" "list_ok (remove p e s)"
    by (rule relist [of s "butlast ps" pm bs]; use S A in \<open>simp add: num_pieces_def\<close>)+
qed

lemma indexed_nth: "indexed pm 0 ps \<Longrightarrow> j < length ps \<Longrightarrow> pp_index (pm ! (ps ! j)) = int j"
  by (simp add: indexed_def)

lemma shuffle_ok:
  assumes ok: "list_ok s" and e: "e < length (m_pieces s)" "prio_of s (m_pieces s ! e) = int p"
  shows "reordered s (shuffle p e s)" and "list_ok (shuffle p e s)"
proof -
  obtain Bs where Bs: "m_pieces s = concat Bs" "m_priority_boundaries s = ends 0 Bs"
    "bucketed (prio_of s) (num_pieces s) Bs" and ix: "indexed (m_piece_map s) 0 (concat Bs)"
    using ok by (auto simp: list_ok_for_def ordered_def)
  let ?ps = "concat Bs" and ?pm = "m_piece_map s"
  obtain As b1 b2 Zs where loc: "Bs = As @ (b1 @ ?ps ! e # b2) # Zs" "length As = p" "e = length (concat As @ b1)"
    by (rule locate [OF Bs(3), of e "?ps ! e" p]) (use e Bs(1) in auto)
  have p: "p < length Bs" "take p Bs = As" "Bs ! p = b1 @ ?ps ! e # b2"
    using arg_cong [OF loc(1), of length] arg_cong [OF loc(1), of "take p"] arg_cong [OF loc(1), of "\<lambda>xs. xs ! p"] loc(2)
    by (auto simp: nth_append)
  define off where "off = length (concat As)"
  obtain r s1 where r: "random (priority_end (ends 0 Bs) p - priority_begin (ends 0 Bs) p - 1) s = (r, s1)" by fastforce
  then have rl: "r < length (Bs ! p)" and s1: "\<exists>rs. s1 = s\<lparr>rng := rs\<rparr>"
    using random_bounds [OF r] priority_range_ends [OF p(1)] p(3) by auto
  have pb: "priority_begin (ends 0 Bs) p = off" using priority_range_ends(1) [OF p(1)] p(2) by (simp add: off_def)
  let ?i = "length b1"
  have e': "e = off + ?i" "?i < length (Bs ! p)" using loc(3) p(3) by (auto simp: off_def)
  have ol: "off + r < length ?ps" using length_concat_take [OF p(1) rl] p(2) by (simp add: off_def)
  show "reordered s (shuffle p e s)" "list_ok (shuffle p e s)"
  proof -
    have "reordered s (shuffle p e s) \<and> list_ok (shuffle p e s)"
    proof (cases "off + r = e")
      case True
      then have A: "shuffle p e s = s1" using r pb Bs by (simp add: shuffle_def Let_def add.commute)
      show ?thesis using ok s1 unfolding A
        by (auto simp: list_ok_for_def num_pieces_def reordered_def)
    next
      case False
      let ?a = "?ps ! (off + r)" and ?b = "?ps ! e"
      let ?ps' = "?ps[off + r := ?b, e := ?a]"
      let ?pm' = "set_index ?b (off + r) (set_index ?a e ?pm)"
      have el: "e < length ?ps" using e Bs by simp
      have ab: "?a \<noteq> ?b" using False Bs(3) ol el by (metis bucketed_def nth_eq_iff_index_eq)
      have sub: "?a < num_pieces s" "?b < num_pieces s" "set ?ps \<subseteq> {..<num_pieces s}"
        using bucketed_set [OF Bs(3)] nth_mem [OF ol] nth_mem [OF el] by auto
      have A: "m_pieces (shuffle p e s) = ?ps'" "m_piece_map (shuffle p e s) = ?pm'"
        "m_priority_boundaries (shuffle p e s) = ends 0 Bs" "frame (shuffle p e s) = frame s"
        using r pb Bs False s1 ix ol el ab indexed_nth [OF ix ol] indexed_nth [OF ix el]
        by (auto simp: shuffle_def Let_def add.commute set_index_def)
      have "ordered (prio_of s) (num_pieces s) ?ps' (ends 0 Bs)"
        using swap_ordered [OF Bs(3) p(1) rl e'(2), of off] p(2) e'(1) by (simp add: off_def)
      moreover have "set ?ps' = set ?ps" by (metis el ol mset_eq_setD mset_swap)
      moreover have "reindexed ?pm (set ?ps) ?pm'"
        by (rule reindexed_trans [OF set_index_reindexed [of ?a "{?a}"] set_index_reindexed [of ?b "{?b}"]])
          (use sub nth_mem [OF ol] nth_mem [OF el] in \<open>auto simp: num_pieces_def simp del: set_concat\<close>)
      moreover have "indexed ?pm' 0 ?ps'"
        unfolding indexed_def
      proof (intro allI impI)
        fix j assume j: "j < length ?ps'"
        have d: "distinct ?ps" using Bs(3) by (simp add: bucketed_def)
        have jm: "?ps ! j < num_pieces s" using sub(3) j nth_mem [of j ?ps] by auto
        consider "j = e" | "j = off + r" | "j \<noteq> e" "j \<noteq> off + r" by blast
        then show "pp_index (?pm' ! (?ps' ! j)) = int (0 + j)"
        proof cases
          case 1 then show ?thesis using ab sub el by (simp add: num_pieces_def)
        next
          case 2 then show ?thesis using ab sub ol False by (simp add: num_pieces_def nth_list_update)
        next
          case 3
          then have "?ps ! j \<noteq> ?a" "?ps ! j \<noteq> ?b" using d j ol el by (simp_all add: nth_eq_iff_index_eq)
          then show ?thesis using 3 sub jm j indexed_nth [OF ix, of j] by (simp add: num_pieces_def nth_list_update)
        qed
      qed
      ultimately show ?thesis using relist [of s ?ps' ?pm' "ends 0 Bs" "shuffle p e s"] A by simp
    qed
    then show "reordered s (shuffle p e s)" "list_ok (shuffle p e s)" by auto
  qed
qed

lemma update_ok:
  assumes ok: "list_ok_for ((prio_of s)(x := int p)) s" and x: "x < num_pieces s" and e: "e = nat (pp_index (pos_of s x))"
    and p: "0 \<le> prio_of s x \<or> prio_of s x = -1"
  shows "reordered s (update p e s)" and "list_ok (update p e s)"
proof -
  obtain Bs0 where Bs0: "m_pieces s = concat Bs0" "m_priority_boundaries s = ends 0 Bs0"
    "bucketed ((prio_of s)(x := int p)) (num_pieces s) Bs0" and ix: "indexed (m_piece_map s) 0 (m_pieces s)"
    using ok by (auto simp: list_ok_for_def ordered_def)
  have "x \<in> set (m_pieces s)" using bucketed_set [OF Bs0(3)] x Bs0(1) by simp
  then obtain j where j: "j < length (m_pieces s)" "m_pieces s ! j = x" by (metis in_set_conv_nth)
  then have ej: "e = j" using indexed_nth [OF ix j(1)] e by simp
  have "reordered s (update p e s) \<and> list_ok (update p e s)"
  proof (cases "prio_of s x = int p")
    case True
    then have "(prio_of s)(x := int p) = prio_of s" by (simp add: fun_upd_idem)
    then show ?thesis using True ok j ej by (simp add: update_def)
  next
    case np: False
    show ?thesis
    proof (cases "prio_of s x = -1")
      case True
      have "update p e s = remove p e s" using True np j ej by (simp add: update_def)
      then show ?thesis
        using remove_ok [OF _ indexed_indexed_but [OF ix] True, of p e] ok j ej by (simp add: list_ok_for_def)
    next
      case False
      define q where "q = nat (prio_of s x)"
      have q: "prio_of s x = int q" "p \<noteq> q" using False p np by (auto simp: q_def)
      define Bs where "Bs = (if length Bs0 \<le> q then Bs0 @ replicate (q + 1 - length Bs0) [] else Bs0)"
      have b: "bucketed ((prio_of s)(x := int p)) (length (m_piece_map s)) Bs"
        using Bs0(3) bucketed_extend unfolding Bs_def num_pieces_def by auto
      have cc: "m_pieces s = concat Bs" using Bs0(1) by (simp add: Bs_def)
      have ql: "q < length Bs" by (auto simp: Bs_def)
      have "Bs0 \<noteq> []" using Bs0(3) by (simp add: bucketed_def)
      then have bs: "grown_boundaries q s = ends 0 Bs"
        using ends_resize [of Bs0 "q + 1"] Bs0(1,2) by (simp add: Bs_def grown_boundaries_def)
      obtain ps pm bs' e' where u: "update_core (concat Bs) (m_piece_map s) (ends 0 Bs) p q e x = (ps, pm, bs', e')"
        by (metis prod_cases4)
      have S: "ordered (prio_of s) (length (m_piece_map s)) ps bs' \<and> indexed pm 0 ps \<and>
          reindexed (m_piece_map s) (set ps) pm \<and> e' < length ps \<and> ps ! e' = x"
      proof (cases "q < p")
        case True
        then show ?thesis
          by (intro update_down_ordered [OF b _ _ q(1) True _ _ u]) (use ix cc x j ej in \<open>auto simp: num_pieces_def\<close>)
      next
        case False
        then show ?thesis using q(2)
          by (intro update_up_ordered [OF b _ _ q(1) _ ql _ _ u]) (use ix cc x j ej in \<open>auto simp: num_pieces_def\<close>)
      qed
      let ?s = "s\<lparr>m_pieces := ps, m_piece_map := pm, m_priority_boundaries := bs'\<rparr>"
      have A: "update p e s = shuffle q e' ?s" using np False j ej u bs cc by (simp add: update_def q_def)
      have 1: "reordered s ?s" "list_ok ?s"
        by (rule relist [of s ps pm bs']; use S in \<open>simp add: num_pieces_def\<close>)+
      have "prio_of ?s x = int q" using reordered_prio [OF 1(1) x] q(1) by simp
      then have 2: "reordered ?s (shuffle q e' ?s)" "list_ok (shuffle q e' ?s)"
        using shuffle_ok [OF 1(2), of e' q] S by simp_all
      show ?thesis unfolding A using reordered_trans [OF 1(1) 2(1)] 2(2) by blast
    qed
  qed
  then show "reordered s (update p e s)" "list_ok (update p e s)" by auto
qed

section \<open>Changing one piece\<close>

definition prio_wf :: "piece_picker \<Rightarrow> bool" where
  "prio_wf s \<longleftrightarrow> (\<forall>i < num_pieces s. piece_priority (pos_of s i) \<le> 7)"

definition pieces_inv :: "piece_picker \<Rightarrow> bool" where
  "pieces_inv s \<longleftrightarrow> prio_wf s \<and> order_inv s"

definition unpickable :: "nat \<Rightarrow> piece_pos \<Rightarrow> bool" where
  "unpickable seeds p \<longleftrightarrow> filtered p \<or> have_pos p \<or> peer_count p + seeds = 0 \<or> download_state p = piece_full
     \<or> download_state p = piece_finished"

lemma priority_value:
  assumes "piece_priority p \<le> 7"
  shows "(unpickable seeds p \<and> priority seeds p = -1) \<or> (\<not> unpickable seeds p \<and> 0 \<le> priority seeds p)"
proof -
  define m where "m = (int (peer_count p) + 1) * (int priority_levels - int (piece_priority p)) * int prio_factor"
  have "1 \<le> (int (peer_count p) + 1) * (int priority_levels - int (piece_priority p))"
    using mult_mono [of 1 "int (peer_count p) + 1" 1 "8 - int (piece_priority p)"] assms by (simp add: priority_levels_def)
  then have "3 \<le> m" unfolding m_def prio_factor_def by simp
  then show ?thesis by (auto simp: priority_def unpickable_def Let_def m_def [symmetric])
qed

lemma priority_cases: "piece_priority p \<le> 7 \<Longrightarrow> 0 \<le> priority seeds p \<or> priority seeds p = -1"
  using priority_value by blast

lemma priority_minus_one: "piece_priority p \<le> 7 \<Longrightarrow> priority seeds p = -1 \<longleftrightarrow> unpickable seeds p"
  using priority_value [of p seeds] by auto

lemma prio_of_cases: "prio_wf s \<Longrightarrow> i < num_pieces s \<Longrightarrow> 0 \<le> prio_of s i \<or> prio_of s i = -1"
  using priority_cases by (auto simp: prio_wf_def)

text \<open>The invariant reads only these fields.\<close>

definition core :: "piece_picker \<Rightarrow> nat list \<times> piece_pos list \<times> nat list \<times> bool \<times> nat" where
  "core s = (m_pieces s, m_piece_map s, m_priority_boundaries s, m_dirty s, m_seeds s)"

lemma pieces_inv_core: "core s' = core s \<Longrightarrow> pieces_inv s' = pieces_inv s"
  by (simp add: core_def pieces_inv_def prio_wf_def order_inv_def list_ok_for_def num_pieces_def)

lemma num_pieces_core: "core s' = core s \<Longrightarrow> num_pieces s' = num_pieces s"
  by (simp add: core_def num_pieces_def)

lemma core_simps [simp]:
  "core (set_queue q dps s) = core s" "core (set_dp it f s) = core s" "core (set_block k g s) = core s"
  by (simp_all add: core_def set_queue_def set_dp_def set_block_def)

lemma pos_simps [simp]:
  "m_piece_map (set_queue q dps s) = m_piece_map s" "m_piece_map (set_dp it f s) = m_piece_map s"
  "m_piece_map (set_block k g s) = m_piece_map s" "m_seeds (set_queue q dps s) = m_seeds s"
  "m_seeds (set_dp it f s) = m_seeds s" "m_seeds (set_block k g s) = m_seeds s"
  "m_dirty (set_queue q dps s) = m_dirty s" "m_dirty (set_dp it f s) = m_dirty s" "m_dirty (set_block k g s) = m_dirty s"
  "num_pieces (set_queue q dps s) = num_pieces s" "num_pieces (set_dp it f s) = num_pieces s"
  "num_pieces (set_block k g s) = num_pieces s"
  by (simp_all add: set_queue_def set_dp_def set_block_def num_pieces_def)

lemma set_pos_simps [simp]:
  "num_pieces (set_pos i f s) = num_pieces s" "m_seeds (set_pos i f s) = m_seeds s" "m_dirty (set_pos i f s) = m_dirty s"
  "m_pieces (set_pos i f s) = m_pieces s" "m_priority_boundaries (set_pos i f s) = m_priority_boundaries s"
  "i < num_pieces s \<Longrightarrow> pos_of (set_pos i f s) j = (if j = i then f (pos_of s i) else pos_of s j)"
  by (auto simp: set_pos_def num_pieces_def nth_list_update)

text \<open>
  \<open>changed x prev s\<close>: the list is as it was when piece \<open>x\<close> had priority \<open>prev\<close>; every other piece is
  where it belongs.
\<close>

definition changed :: "nat \<Rightarrow> int \<Rightarrow> piece_picker \<Rightarrow> bool" where
  "changed x prev s \<longleftrightarrow> prio_wf s \<and> x < num_pieces s \<and> (0 \<le> prev \<or> prev = -1) \<and>
     (m_dirty s \<or> list_ok_for ((prio_of s)(x := prev)) s)"

lemma changed_core: "core s' = core s \<Longrightarrow> changed x prev s' = changed x prev s"
  by (simp add: core_def changed_def prio_wf_def list_ok_for_def num_pieces_def)

lemma changed_set_pos:
  assumes inv: "pieces_inv s" and x: "x < num_pieces s"
    and f: "pp_index (f (pos_of s x)) = pp_index (pos_of s x)" "piece_priority (f (pos_of s x)) \<le> 7"
  shows "changed x (prio_of s x) (set_pos x f s)"
proof -
  let ?s = "set_pos x f s"
  have w: "prio_wf ?s" using inv x f(2) by (auto simp: prio_wf_def pieces_inv_def)
  have "list_ok_for ((prio_of ?s)(x := prio_of s x)) ?s" if "list_ok s"
  proof -
    have "ordered ((prio_of ?s)(x := prio_of s x)) (num_pieces s) (m_pieces s) (m_priority_boundaries s) =
        ordered (prio_of s) (num_pieces s) (m_pieces s) (m_priority_boundaries s)"
      by (rule ordered_cong) (use x in auto)
    moreover have "indexed (m_piece_map ?s) 0 (m_pieces s) = indexed (m_piece_map s) 0 (m_pieces s)"
      using f(1) x by (auto simp: indexed_def)
    ultimately show ?thesis using that by (simp add: list_ok_for_def)
  qed
  then show ?thesis using w x inv prio_of_cases [of s x]
    by (auto simp: changed_def pieces_inv_def order_inv_def)
qed

lemma reordered_frame: "reordered s s' \<Longrightarrow> frame s' = frame s" and reordered_num: "reordered s s' \<Longrightarrow> num_pieces s' = num_pieces s"
  unfolding reordered_def by blast+

lemmas reordered_fields = frame_fields [OF reordered_frame]

lemma reordered_prio_wf: assumes "reordered s s'" shows "prio_wf s' = prio_wf s"
  unfolding prio_wf_def reordered_num [OF assms] by (metis reordered_pos(3) [OF assms])

lemma reordered_dirty: "reordered s s' \<Longrightarrow> m_dirty s' = m_dirty s"
  by (rule reordered_fields(20))

lemma changed_reposition:
  assumes c: "changed x prev s"
  shows "pieces_inv (reposition prev x s)" and "reordered s (reposition prev x s)"
proof -
  have x: "x < num_pieces s" and w: "prio_wf s" and pv: "0 \<le> prev \<or> prev = -1"
    and ok: "m_dirty s \<or> list_ok_for ((prio_of s)(x := prev)) s" using c by (auto simp: changed_def)
  have p: "0 \<le> prio_of s x \<or> prio_of s x = -1" by (rule prio_of_cases [OF w x])
  have "reordered s (reposition prev x s) \<and> (m_dirty s \<or> list_ok (reposition prev x s))"
  proof (cases "m_dirty s")
    case True
    then show ?thesis by (simp add: reposition_def)
  next
    case False
    with ok have ok: "list_ok_for ((prio_of s)(x := prev)) s" by simp
    show ?thesis
    proof (cases "prio_of s x = prev")
      case True
      then have "(prio_of s)(x := prev) = prio_of s" by (simp add: fun_upd_idem)
      then show ?thesis using ok True by (simp add: reposition_def)
    next
      case np: False
      show ?thesis
      proof (cases "prev = -1")
        case True
        then show ?thesis using add_ok [of s x] ok x np p False by (simp add: reposition_def)
      next
        case pos: False
        then have "prev = int (nat prev)" using pv by simp
        then show ?thesis using update_ok [of s x "nat prev" "nat (pp_index (pos_of s x))"] ok x p np pos False
          by (simp add: reposition_def)
      qed
    qed
  qed
  then show "reordered s (reposition prev x s)" "pieces_inv (reposition prev x s)"
    using reordered_prio_wf reordered_dirty w by (auto simp: pieces_inv_def order_inv_def)
qed

lemma changed_refresh:
  assumes c: "changed x prev s" and "prev = -1 \<Longrightarrow> prio_of s x = -1"
  shows "pieces_inv (refresh prev x s)" and "reordered s (refresh prev x s)"
proof -
  have pv: "0 \<le> prev \<or> prev = -1" and x: "x < num_pieces s" and w: "prio_wf s"
    and ok: "m_dirty s \<or> list_ok_for ((prio_of s)(x := prev)) s" using c by (auto simp: changed_def)
  have "pieces_inv (refresh prev x s) \<and> reordered s (refresh prev x s)"
  proof (cases "0 \<le> prev \<and> \<not> m_dirty s")
    case True
    then have "prev = int (nat prev)" "list_ok_for ((prio_of s)(x := prev)) s" using ok by auto
    then have "reordered s (refresh prev x s)" "list_ok (refresh prev x s)"
      using update_ok [of s x "nat prev" "nat (pp_index (pos_of s x))"] x prio_of_cases [OF w x] True
      by (simp_all add: refresh_def)
    then show ?thesis using reordered_prio_wf w by (auto simp: pieces_inv_def order_inv_def)
  next
    case False
    then have "refresh prev x s = s" by (auto simp: refresh_def)
    moreover have "prev = -1 \<Longrightarrow> (prio_of s)(x := prev) = prio_of s" using assms(2) by (simp add: fun_upd_idem)
    ultimately show ?thesis using False ok w pv by (auto simp: pieces_inv_def order_inv_def)
  qed
  then show "pieces_inv (refresh prev x s)" "reordered s (refresh prev x s)" by auto
qed

end
