(* ===== verification/Picker_Ops.thy ===== *)
theory Picker_Ops
  imports Picker_Invariant
begin

text \<open>
  Every public operation of the picker keeps \<open>pieces_inv\<close>: the ordered list, its boundaries and the
  back references agree with the priorities of the pieces, or the list is marked dirty.
\<close>

section \<open>Availability\<close>

lemma pieces_inv_dirty: "prio_wf s \<Longrightarrow> m_dirty s \<Longrightarrow> pieces_inv s"
  by (simp add: pieces_inv_def order_inv_def)

lemma num_pieces_reposition [simp]: "changed x prev s \<Longrightarrow> num_pieces (reposition prev x s) = num_pieces s"
  using changed_reposition(2) reordered_num by blast

lemma set_pos_prio [simp]:
  "x < num_pieces s \<Longrightarrow> prio_of (set_pos x f s) x = priority (m_seeds s) (f (pos_of s x))"
  by simp

lemma prio_wf_pos: "pieces_inv s \<Longrightarrow> x < num_pieces s \<Longrightarrow> piece_priority (pos_of s x) \<le> 7"
  by (simp add: pieces_inv_def prio_wf_def)

lemma inc_refcount_inv [wf_rules]:
  assumes "pieces_inv s" and "x < num_pieces s"
  shows "pieces_inv (inc_refcount x s)"
  unfolding inc_refcount_def Let_def
  by (rule changed_reposition(1), rule changed_set_pos) (use assms prio_wf_pos in auto)

lemma inc_refcount_one_eq: "\<not> m_dirty s \<Longrightarrow> pieces_inv s \<Longrightarrow> x < num_pieces s \<Longrightarrow> inc_refcount_one x s = inc_refcount x s"
  using prio_of_cases [of s x] by (auto simp: inc_refcount_one_def inc_refcount_def reposition_def Let_def pieces_inv_def)

lemma priority_dec:
  "priority seeds p = -1 \<Longrightarrow> piece_priority p \<le> 7 \<Longrightarrow> priority seeds (p\<lparr>peer_count := peer_count p - 1\<rparr>) = -1"
  by (auto simp: priority_minus_one unpickable_def filtered_def have_pos_def)

lemma break_one_seed_inv [wf_rules]: "prio_wf s \<Longrightarrow> pieces_inv (break_one_seed s)"
  by (rule pieces_inv_dirty) (auto simp: break_one_seed_def prio_wf_def num_pieces_def)

lemma num_pieces_break [simp]: "num_pieces (break_one_seed s) = num_pieces s" "m_dirty (break_one_seed s)"
  by (simp_all add: break_one_seed_def num_pieces_def)

lemma dec_refcount_inv [wf_rules]:
  assumes "pieces_inv s" and "x < num_pieces s"
  shows "pieces_inv (dec_refcount x s)"
proof -
  let ?s = "if peer_count (pos_of s x) = 0 then break_one_seed s else s"
  have s: "pieces_inv ?s" "x < num_pieces ?s" using assms break_one_seed_inv by (auto simp: pieces_inv_def)
  have "changed x (prio_of ?s x) (set_pos x (\<lambda>p. p\<lparr>peer_count := peer_count p - 1\<rparr>) ?s)"
    by (rule changed_set_pos) (use s prio_wf_pos in auto)
  moreover have "prio_of (set_pos x (\<lambda>p. p\<lparr>peer_count := peer_count p - 1\<rparr>) ?s) x = -1" if "prio_of ?s x = -1"
    using priority_dec [OF that] prio_wf_pos [OF s] s(2) by simp
  ultimately show ?thesis unfolding dec_refcount_def Let_def by (rule changed_refresh(1))
qed

lemma priority_seeds: "seeds > 0 \<Longrightarrow> seeds' > 0 \<Longrightarrow> priority seeds p = priority seeds' p"
  by (simp add: priority_def)

lemma pieces_inv_seeds:
  assumes "pieces_inv s" and "m_seeds s > 0" "n > 0"
  shows "pieces_inv (s\<lparr>m_seeds := n\<rparr>)"
  using assms priority_seeds [of n "m_seeds s"]
  by (simp add: pieces_inv_def prio_wf_def order_inv_def list_ok_for_def num_pieces_def)

lemma refcount_all_inv [wf_rules]:
  assumes "pieces_inv s"
  shows "pieces_inv (inc_refcount_all s)" "pieces_inv (dec_refcount_all s)"
proof -
  have w: "prio_wf s" using assms by (simp add: pieces_inv_def)
  show "pieces_inv (inc_refcount_all s)"
  proof (cases "m_seeds s = 0")
    case True
    then show ?thesis using w by (auto simp: inc_refcount_all_def prio_wf_def num_pieces_def intro!: pieces_inv_dirty)
  next
    case False
    then show ?thesis using pieces_inv_seeds [OF assms, of "Suc (m_seeds s)"] by (simp add: inc_refcount_all_def)
  qed
  show "pieces_inv (dec_refcount_all s)"
  proof (cases "m_seeds s > 1")
    case True
    then show ?thesis using pieces_inv_seeds [OF assms, of "m_seeds s - 1"] by (simp add: dec_refcount_all_def Let_def)
  next
    case False
    then show ?thesis using w
      by (cases "m_seeds s = 0") (auto simp: dec_refcount_all_def Let_def prio_wf_def num_pieces_def intro!: pieces_inv_dirty)
  qed
qed

lemma inc_refcount_dirty:
  assumes "pieces_inv s" "x < num_pieces s"
  shows "m_dirty (inc_refcount x s) = m_dirty s" "num_pieces (inc_refcount x s) = num_pieces s"
proof -
  let ?s = "set_pos x (\<lambda>p. p\<lparr>peer_count := peer_count p + 1\<rparr>) s"
  have c: "changed x (prio_of s x) ?s" by (rule changed_set_pos) (use assms prio_wf_pos in auto)
  show "m_dirty (inc_refcount x s) = m_dirty s" "num_pieces (inc_refcount x s) = num_pieces s"
    using reordered_dirty [OF changed_reposition(2) [OF c]] reordered_num [OF changed_reposition(2) [OF c]]
    by (simp_all add: inc_refcount_def Let_def)
qed

lemma fold_inc_inv:
  "pieces_inv s \<Longrightarrow> \<not> m_dirty s \<Longrightarrow> \<forall>i \<in> set is. i < num_pieces s \<Longrightarrow> pieces_inv (fold inc_refcount_one is s)"
proof (induction "is" arbitrary: s)
  case (Cons i "is")
  then show ?case
    using inc_refcount_inv [of s i] inc_refcount_dirty [of s i] by (simp add: inc_refcount_one_eq)
qed simp

lemma fold_prio_wf:
  "(\<And>i s. prio_wf s \<Longrightarrow> i < num_pieces s \<Longrightarrow> prio_wf (f i s) \<and> num_pieces (f i s) = num_pieces s) \<Longrightarrow>
   prio_wf s \<Longrightarrow> \<forall>i \<in> set is. i < num_pieces s \<Longrightarrow> prio_wf (fold f is s)"
  by (induction "is" arbitrary: s) auto

lemma prio_wf_set_pos [simp]:
  "prio_wf s \<Longrightarrow> i < num_pieces s \<Longrightarrow> piece_priority (f (pos_of s i)) \<le> 7 \<Longrightarrow> prio_wf (set_pos i f s)"
  by (auto simp: prio_wf_def)

lemma prio_wf_more [simp]: "prio_wf (s\<lparr>m_dirty := d\<rparr>) = prio_wf s"
  by (simp add: prio_wf_def num_pieces_def)

lemma dec_peer_count_wf: "prio_wf s \<Longrightarrow> i < num_pieces s \<Longrightarrow> prio_wf (dec_peer_count i s) \<and> num_pieces (dec_peer_count i s) = num_pieces s"
  using break_one_seed_inv [of s] by (auto simp: dec_peer_count_def Let_def pieces_inv_def prio_wf_def)

lemma dec_refcount_one_inv:
  assumes "pieces_inv s" and "x < num_pieces s"
  shows "pieces_inv (dec_refcount_one x s)" "num_pieces (dec_refcount_one x s) = num_pieces s"
proof -
  have "pieces_inv (dec_refcount_one x s) \<and> num_pieces (dec_refcount_one x s) = num_pieces s"
  proof (cases "peer_count (pos_of s x) = 0")
    case True
    then have "dec_refcount_one x s = dec_peer_count x s" "m_dirty (dec_peer_count x s)"
      by (simp_all add: dec_refcount_one_def dec_peer_count_def refresh_def Let_def)
    then show ?thesis using dec_peer_count_wf [of s x] assms by (simp add: pieces_inv_def pieces_inv_dirty order_inv_def)
  next
    case False
    then have "dec_refcount_one x s = dec_refcount x s"
      by (simp add: dec_refcount_one_def dec_peer_count_def dec_refcount_def)
    moreover have "changed x (prio_of s x) (set_pos x (\<lambda>p. p\<lparr>peer_count := peer_count p - 1\<rparr>) s)"
      by (rule changed_set_pos) (use assms prio_wf_pos in auto)
    then have "num_pieces (dec_refcount x s) = num_pieces s"
      using reordered_num [OF changed_refresh(2)] priority_dec prio_wf_pos [OF assms] assms(2) False
      by (simp add: dec_refcount_def)
    ultimately show ?thesis using dec_refcount_inv [OF assms] by simp
  qed
  then show "pieces_inv (dec_refcount_one x s)" "num_pieces (dec_refcount_one x s) = num_pieces s" by auto
qed

lemma fold_dec_inv:
  "pieces_inv s \<Longrightarrow> \<forall>i \<in> set is. i < num_pieces s \<Longrightarrow> pieces_inv (fold dec_refcount_one is s)"
proof (induction "is" arbitrary: s)
  case (Cons i "is")
  then show ?case using dec_refcount_one_inv [of s i] by simp
qed simp

lemma refcount_mask_inv [wf_rules]:
  assumes "pieces_inv s" and "size_bf bm \<le> num_pieces s"
  shows "pieces_inv (inc_refcount_mask bm s)" "pieces_inv (dec_refcount_mask bm s)"
proof -
  let ?is = "mask_indices bm"
  have i: "\<forall>i \<in> set ?is. i < num_pieces s" using assms(2) by (auto simp: mask_indices_def)
  have w: "prio_wf s" using assms(1) by (simp add: pieces_inv_def)
  have "prio_wf (fold (\<lambda>i. set_pos i (\<lambda>p. p\<lparr>peer_count := peer_count p + 1\<rparr>)) ?is s)"
    by (rule fold_prio_wf [OF _ w i]) (auto simp: prio_wf_def)
  moreover have "prio_wf (fold dec_peer_count ?is s)"
    by (rule fold_prio_wf [OF _ w i]) (rule dec_peer_count_wf)
  ultimately show "pieces_inv (inc_refcount_mask bm s)" "pieces_inv (dec_refcount_mask bm s)"
    using assms(1) i refcount_all_inv fold_inc_inv fold_dec_inv
    by (auto simp: inc_refcount_mask_def dec_refcount_mask_def Let_def intro!: pieces_inv_dirty)
qed

section \<open>Download states\<close>

lemma changed_follow:
  assumes c: "changed x prev s"
  shows "pieces_inv (follow prev x s)" and "reordered s (follow prev x s)"
proof -
  have pv: "0 \<le> prev \<or> prev = -1" and x: "x < num_pieces s" and w: "prio_wf s" using c by (auto simp: changed_def)
  have "follow prev x s = (if prev = -1 then reposition prev x s else refresh prev x s)"
    using pv by (auto simp: follow_def reposition_def refresh_def)
  then show "pieces_inv (follow prev x s)" "reordered s (follow prev x s)"
    using changed_reposition [OF c] changed_refresh [OF c] by auto
qed

lemma follow_downloads: "changed x prev s \<Longrightarrow> m_downloads (follow prev x s) = m_downloads s"
  using changed_follow(2) reordered_fields(10) by blast

definition valid_it :: "dl_it \<Rightarrow> piece_picker \<Rightarrow> bool" where
  "valid_it it s \<longleftrightarrow> snd it < length (m_downloads s (fst it))"

lemma deref_set_dp [simp]: "valid_it it s \<Longrightarrow> deref it (set_dp it f s) = f (deref it s)"
  by (simp add: deref_def set_dp_def set_queue_def valid_it_def)

lemma deref_set_block [simp]: "deref it (set_block k f s) = deref it s"
  by (simp add: deref_def set_block_def)

lemma valid_it_simps [simp]:
  "valid_it it (set_dp it f s) = valid_it it s" "valid_it it (set_block k g s) = valid_it it s"
  "valid_it it (s\<lparr>m_num_passed := n\<rparr>) = valid_it it s"
  by (simp_all add: valid_it_def set_dp_def set_queue_def set_block_def)

lemma deref_passed [simp]: "deref it (s\<lparr>m_num_passed := n\<rparr>) = deref it s"
  by (simp add: deref_def)

lemma insert_at_nth: "i \<le> length xs \<Longrightarrow> insert_at i x xs ! i = x \<and> i < length (insert_at i x xs)"
  by (simp add: insert_at_def nth_append)

lemma lower_bound_le: "lower_bound dps i \<le> length dps"
  by (simp add: lower_bound_def length_takeWhile_le)

lemma find_dl_piece_Some:
  assumes "find_dl_piece q i s = Some it"
  shows "valid_it it s" "dp_index (deref it s) = i" "fst it = q"
  using assms lower_bound_le [of "m_downloads s q" i]
  by (auto simp: find_dl_piece_def Let_def valid_it_def deref_def split: if_splits)

lemma set_state_changed:
  assumes "pieces_inv s" and "x < num_pieces s"
  shows "changed x (prio_of s x) (set_pos x (\<lambda>p. p\<lparr>download_state := st\<rparr>) s)"
  by (rule changed_set_pos) (use assms prio_wf_pos in auto)

text \<open>\<^verbatim>\<open>update_piece_state\<close> keeps the list and the entry the iterator names.\<close>

lemma update_piece_state_ok:
  assumes inv: "pieces_inv s" and v: "valid_it it s" and x: "dp_index (deref it s) < num_pieces s"
    and r: "update_piece_state it s = (it', s')"
  shows "pieces_inv s'" "num_pieces s' = num_pieces s" "deref it' s' = deref it s" "valid_it it' s'"
proof -
  let ?dp = "deref it s"
  let ?x = "dp_index ?dp"
  let ?p = "pos_of s ?x"
  let ?new = "new_dl_state s ?dp"
  have "pieces_inv s' \<and> num_pieces s' = num_pieces s \<and> deref it' s' = deref it s \<and> valid_it it' s'"
  proof (cases "download_state ?p = piece_open \<or> ?new = download_state ?p \<or> ?new = piece_open")
    case True
    then have "update_piece_state it s = (it, s)" unfolding update_piece_state_def Let_def by presburger
    then have "it' = it" "s' = s" using r by auto
    then show ?thesis using inv v by simp
  next
    case False
    define s1 where "s1 = set_queue (download_queue ?p) (erase_at (snd it) (m_downloads s (download_queue ?p))) s"
    define s2 where "s2 = set_pos ?x (\<lambda>p. p\<lparr>download_state := ?new\<rparr>) s1"
    define q where "q = download_queue (pos_of s2 ?x)"
    define i where "i = lower_bound (m_downloads s2 q) ?x"
    define s3 where "s3 = set_queue q (insert_at i ?dp (m_downloads s2 q)) s2"
    have r': "it' = (q, i)" "s' = follow (prio_of s1 ?x) ?x s3"
      using r False unfolding update_piece_state_def Let_def s1_def s2_def q_def i_def s3_def by auto
    have inv1: "pieces_inv s1" using inv pieces_inv_core [of s1 s] by (simp add: s1_def)
    have n: "num_pieces s1 = num_pieces s" "num_pieces s3 = num_pieces s" by (simp_all add: s1_def s2_def s3_def)
    have "changed ?x (prio_of s1 ?x) s2" unfolding s2_def
      by (rule set_state_changed [OF inv1]) (use x n in simp)
    then have c: "changed ?x (prio_of s1 ?x) s3" using changed_core [of s3 s2] by (simp add: s3_def)
    have d: "m_downloads s' = m_downloads s3" unfolding r' by (rule follow_downloads [OF c])
    have q3: "m_downloads s3 q = insert_at i ?dp (m_downloads s2 q)" by (simp add: s3_def set_queue_def)
    have "i \<le> length (m_downloads s2 q)" unfolding i_def by (rule lower_bound_le)
    from insert_at_nth [OF this, of ?dp] have "deref it' s' = ?dp" "valid_it it' s'"
      using d q3 r'(1) by (simp_all add: deref_def valid_it_def)
    then show ?thesis using changed_follow [OF c] reordered_num r'(2) n by fastforce
  qed
  then show "pieces_inv s'" "num_pieces s' = num_pieces s" "deref it' s' = deref it s" "valid_it it' s'" by auto
qed

lemma update_piece_state_snd:
  assumes "pieces_inv s" "valid_it it s" "dp_index (deref it s) < num_pieces s"
  shows "pieces_inv (snd (update_piece_state it s))" "num_pieces (snd (update_piece_state it s)) = num_pieces s"
  using update_piece_state_ok [OF assms] by (metis prod.collapse)+

text \<open>Erasing an entry changes the state of its piece only.\<close>

lemma erase_changed:
  assumes "pieces_inv s" and "dp_index (deref it s) = x" "x < num_pieces s"
  shows "changed x (prio_of s x) (erase_download_piece it s)"
proof -
  let ?s = "set_pos x (\<lambda>p. p\<lparr>download_state := piece_open\<rparr>) s"
  have "core (erase_download_piece it s) = core ?s"
    using assms(2) by (simp add: erase_download_piece_def Let_def core_def set_pos_def set_queue_def)
  then show ?thesis using set_state_changed [OF assms(1,3)] changed_core by blast
qed

lemma add_download_piece_ok:
  assumes inv: "pieces_inv s" and x: "x < num_pieces s" and r: "add_download_piece x s = (it, s')"
  shows "pieces_inv s'" "num_pieces s' = num_pieces s" "dp_index (deref it s') = x" "valid_it it s'"
proof -
  obtain k s1 where a: "alloc_blocks s = (k, s1)" by fastforce
  then have c1: "core s1 = core s" by (auto simp: alloc_blocks_def core_def split: if_splits)
  define i where "i = lower_bound (m_downloads s1 piece_downloading) x"
  define pads where "pads = map (is_pad s1 x) [0..<blocks_in_piece s1 x]"
  define dp where "dp = \<lparr>dp_index = x, info_idx = k, finished = length (filter id pads),
                passed_hash_check = False, writing = 0, locked = False, requested = 0\<rparr>"
  define s2 where "s2 = s1\<lparr>m_block_info := init_blocks (k * m_blocks_per_piece s1) pads (m_block_info s1)\<rparr>"
  define s3 where "s3 = set_queue piece_downloading (insert_at i dp (m_downloads s2 piece_downloading)) s2"
  have r': "update_piece_state (piece_downloading, i) s3 = (it, s')"
    using r a unfolding add_download_piece_def Let_def i_def pads_def dp_def s2_def s3_def by simp
  have "core s2 = core s1" by (simp add: s2_def core_def)
  then have c3: "core s3 = core s" using c1 by (simp add: s3_def)
  have q3: "m_downloads s3 piece_downloading = insert_at i dp (m_downloads s1 piece_downloading)"
    by (simp add: s3_def s2_def set_queue_def)
  have "i \<le> length (m_downloads s1 piece_downloading)" unfolding i_def by (rule lower_bound_le)
  from insert_at_nth [OF this, of dp] have d: "deref (piece_downloading, i) s3 = dp" "valid_it (piece_downloading, i) s3"
    using q3 by (simp_all add: deref_def valid_it_def)
  have inv3: "pieces_inv s3" and n3: "num_pieces s3 = num_pieces s"
    using inv pieces_inv_core [OF c3] num_pieces_core [OF c3] by auto
  have "dp_index (deref (piece_downloading, i) s3) < num_pieces s3" using d x n3 by (simp add: dp_def)
  from update_piece_state_ok [OF inv3 d(2) this r'] d(1) n3
  show "pieces_inv s'" "num_pieces s' = num_pieces s" "dp_index (deref it s') = x" "valid_it it s'"
    by (simp_all add: dp_def)
qed

section \<open>The public operations\<close>

lemma core_counters [simp]:
  "core (s\<lparr>m_num_passed := v0\<rparr>) = core s"
  "core (s\<lparr>m_num_have := v1\<rparr>) = core s"
  "core (s\<lparr>m_num_filtered := v2\<rparr>) = core s"
  "core (s\<lparr>m_num_have_filtered := v3\<rparr>) = core s"
  "core (s\<lparr>m_have_pad_blocks := v4\<rparr>) = core s"
  "core (s\<lparr>m_filtered_pad_blocks := v5\<rparr>) = core s"
  "core (s\<lparr>m_have_filtered_pad_blocks := v6\<rparr>) = core s"
  "core (s\<lparr>m_cursor := v7\<rparr>) = core s"
  "core (s\<lparr>m_reverse_cursor := v8\<rparr>) = core s"
  "core (s\<lparr>m_recent_extents := v9\<rparr>) = core s"
  "core (s\<lparr>m_free_block_infos := v10\<rparr>) = core s"
  "core (s\<lparr>m_block_info := v11\<rparr>) = core s"
  "core (s\<lparr>m_pad_blocks := v12\<rparr>) = core s"
  "core (s\<lparr>m_num_pad_blocks := v13\<rparr>) = core s"
  "core (s\<lparr>m_pads_in_piece := v14\<rparr>) = core s"
  by (simp_all add: core_def)

lemma pieces_inv_same [simp]:
  "pieces_inv (set_dp it f s) = pieces_inv s" "pieces_inv (set_block k g s) = pieces_inv s"
  "pieces_inv (s\<lparr>m_num_passed := n\<rparr>) = pieces_inv s" "num_pieces (s\<lparr>m_num_passed := n\<rparr>) = num_pieces s"
  by ((rule pieces_inv_core | rule num_pieces_core), simp)+

lemma restore_piece_inv [wf_rules]:
  assumes "pieces_inv s" and "x < num_pieces s"
  shows "pieces_inv (restore_piece x s)"
proof -
  let ?q = "download_queue (pos_of s x)"
  have "pieces_inv (reposition (prio_of (set_dp i (\<lambda>dp. dp\<lparr>locked := False\<rparr>) s) x) x
      (erase_download_piece i (set_dp i (\<lambda>dp. dp\<lparr>locked := False\<rparr>) s)))" if f: "find_dl_piece ?q x s = Some i" for i
    by (rule changed_reposition(1), rule erase_changed) (use assms find_dl_piece_Some [OF f] in auto)
  then show ?thesis using assms(1) by (simp add: restore_piece_def Let_def split: option.splits)
qed

lemma drop_if_idle_inv:
  assumes "pieces_inv s" and "valid_it i s" and "dp_index (deref i s) = x" "x < num_pieces s"
  shows "pieces_inv (drop_if_idle x (update_piece_state i s))"
proof -
  obtain i' s' where u: "update_piece_state i s = (i', s')" by fastforce
  note U = update_piece_state_ok [OF assms(1,2) _ u]
  have "changed x (prio_of s' x) (erase_download_piece i' s')"
    by (rule erase_changed) (use U assms in auto)
  then show ?thesis using U assms changed_reposition(1) by (simp add: drop_if_idle_def u Let_def)
qed

lemma lock_piece_inv [wf_rules]: "pieces_inv s \<Longrightarrow> pieces_inv (lock_piece x s)"
  by (auto simp: lock_piece_def Let_def split: option.splits)

lemma write_failed_inv [wf_rules]:
  assumes "pieces_inv s" and "x < num_pieces s"
  shows "pieces_inv (write_failed x b s)"
proof -
  have "pieces_inv (write_failed x b s)" if f: "find_dl_piece (download_queue (pos_of s x)) x s = Some i" for i
    using assms find_dl_piece_Some [OF f] f
    by (auto simp: write_failed_def Let_def intro!: drop_if_idle_inv)
  then show ?thesis using assms(1) by (cases "find_dl_piece (download_queue (pos_of s x)) x s") (auto simp: write_failed_def Let_def)
qed

lemma mark_as_canceled_inv [wf_rules]:
  assumes "pieces_inv s" and "x < num_pieces s"
  shows "pieces_inv (mark_as_canceled x b peer s)"
proof -
  have "pieces_inv (mark_as_canceled x b peer s)" if f: "find_dl_piece (download_queue (pos_of s x)) x s = Some i" for i
    using assms find_dl_piece_Some [OF f] f
    by (auto simp: mark_as_canceled_def Let_def intro!: drop_if_idle_inv)
  then show ?thesis using assms(1)
    by (cases "find_dl_piece (download_queue (pos_of s x)) x s") (auto simp: mark_as_canceled_def Let_def)
qed

lemma abort_download_inv [wf_rules]:
  assumes "pieces_inv s" and "x < num_pieces s"
  shows "pieces_inv (abort_download x b peer s)"
proof (cases "find_dl_piece (download_queue (pos_of s x)) x s")
  case None
  then show ?thesis using assms(1) by (simp add: abort_download_def Let_def)
next
  case (Some i)
  note f = find_dl_piece_Some [OF Some]
  define slot where "slot = block_slot s (deref i s) b"
  define n where "n = (if bi_num_peers (m_block_info s ! slot) > 0 then bi_num_peers (m_block_info s ! slot) - 1 else 0)"
  define s1 where "s1 = set_block slot (\<lambda>b. b\<lparr>bi_num_peers := n, bi_peer := (if bi_peer b = peer then None else bi_peer b)\<rparr>) s"
  define s3 where "s3 = set_dp i (\<lambda>dp. dp\<lparr>requested := requested dp - 1\<rparr>)
      (set_block slot (\<lambda>b. b\<lparr>bi_peer := None, bi_state := state_none\<rparr>) s1)"
  define s4 where "s4 = erase_download_piece i s3"
  have i3: "pieces_inv s3" "valid_it i s3" "dp_index (deref i s3) = x" "num_pieces s3 = num_pieces s" "prio_of s3 x = prio_of s x"
    using assms f by (simp_all add: s3_def s1_def)
  have c: "changed x (prio_of s x) s4" unfolding s4_def i3(5) [symmetric] by (rule erase_changed) (use i3 assms in auto)
  have F: "(if m_dirty s4 then s4 else if prio_of s x = -1 \<and> prio_of s4 x \<ge> 0 then add x s4
      else if prio_of s x \<ge> 0 then update (nat (prio_of s x)) (nat (pp_index (pos_of s4 x))) s4 else s4) = follow (prio_of s x) x s4"
    using prio_of_cases [of s x] prio_of_cases [of s4 x] c assms by (auto simp: follow_def changed_def pieces_inv_def)
  have "abort_download x b peer s =
    (if download_queue (pos_of s x) = piece_open then s
     else if bi_state (m_block_info s ! slot) \<noteq> state_requested then s
     else if n > 0 then s1
     else if requested (deref i s3) + finished (deref i s3) + writing (deref i s3) = 0 then follow (prio_of s x) x s4
     else snd (update_piece_state i s3))"
    unfolding F [symmetric] unfolding abort_download_def Let_def Some option.case s4_def s3_def s1_def n_def slot_def by (rule refl)
  moreover have "pieces_inv s1" using assms(1) by (simp add: s1_def)
  ultimately show ?thesis
    using changed_follow(1) [OF c] update_piece_state_snd(1) [OF i3(1,2)] i3(3,4) assms by simp
qed

lemma refresh_state_ok:
  assumes inv: "pieces_inv s" and x: "x < num_pieces s"
    and st: "prio_of s x = -1 \<Longrightarrow> prio_of (set_pos x (\<lambda>p. p\<lparr>download_state := st\<rparr>) s) x = -1"
  shows "pieces_inv (refresh (prio_of s x) x (set_pos x (\<lambda>p. p\<lparr>download_state := st\<rparr>) s))"
    and "num_pieces (refresh (prio_of s x) x (set_pos x (\<lambda>p. p\<lparr>download_state := st\<rparr>) s)) = num_pieces s"
  using changed_refresh [OF set_state_changed [OF inv x], of st] st reordered_num by fastforce+

lemma prio_start:
  assumes inv: "pieces_inv s" and x: "x < num_pieces s" and o: "download_state (pos_of s x) = piece_open"
    and st: "st = piece_downloading \<or> st = piece_downloading_reverse"
    and m: "prio_of s x = -1"
  shows "prio_of (set_pos x (\<lambda>p. p\<lparr>download_state := st\<rparr>) s) x = -1"
  using m prio_wf_pos [OF inv x] x st o
  by (auto simp: priority_minus_one unpickable_def filtered_def have_pos_def)

lemma download_queue_open: "download_queue p = piece_open \<longleftrightarrow> download_state p = piece_open"
  by (auto simp: download_queue_def)

text \<open>The first request, write or finished block of a piece.\<close>

lemma start_piece_ok:
  assumes inv: "pieces_inv s" and x: "x < num_pieces s" and o: "download_state (pos_of s x) = piece_open"
    and st: "st = piece_downloading \<or> st = piece_downloading_reverse"
    and s3: "core s3 = core (refresh (prio_of s x) x (set_pos x (\<lambda>p. p\<lparr>download_state := st\<rparr>) s))"
    and r: "add_download_piece x s3 = (it, s4)"
  shows "pieces_inv s4" "num_pieces s4 = num_pieces s" "dp_index (deref it s4) = x" "valid_it it s4"
proof -
  let ?s2 = "refresh (prio_of s x) x (set_pos x (\<lambda>p. p\<lparr>download_state := st\<rparr>) s)"
  have "pieces_inv ?s2" "num_pieces ?s2 = num_pieces s"
    using refresh_state_ok [OF inv x, of st] prio_start [OF inv x o st] by blast+
  then have i3: "pieces_inv s3" "num_pieces s3 = num_pieces s"
    using pieces_inv_core [OF s3] num_pieces_core [OF s3] by auto
  have x3: "x < num_pieces s3" using x i3 by simp
  show "pieces_inv s4" "num_pieces s4 = num_pieces s" "dp_index (deref it s4) = x" "valid_it it s4"
    using add_download_piece_ok [OF i3(1) x3 r] i3(2) by auto
qed

lemma core_record [simp]: "core (record_downloading_piece p s) = core s"
  by (simp add: record_downloading_piece_def Let_def)

lemma changed_reverse:
  assumes inv: "pieces_inv s" and x: "x < num_pieces s"
    and f: "f = unreverse \<or> f = make_reverse \<and> download_state (pos_of s x) \<noteq> piece_full"
  shows "pieces_inv (refresh (prio_of s x) x (set_pos x f s))"
    and "num_pieces (refresh (prio_of s x) x (set_pos x f s)) = num_pieces s"
    and "m_downloads (refresh (prio_of s x) x (set_pos x f s)) = m_downloads s"
proof -
  have c: "changed x (prio_of s x) (set_pos x f s)"
    by (rule changed_set_pos) (use assms prio_wf_pos in \<open>auto simp: make_reverse_def unreverse_def\<close>)
  have m: "prio_of (set_pos x f s) x = -1" if "prio_of s x = -1"
    using that prio_wf_pos [OF inv x] x f
    by (auto simp: priority_minus_one unpickable_def filtered_def have_pos_def make_reverse_def unreverse_def)
  note R = changed_refresh [OF c m]
  show "pieces_inv (refresh (prio_of s x) x (set_pos x f s))"
    "num_pieces (refresh (prio_of s x) x (set_pos x f s)) = num_pieces s"
    using R reordered_num by fastforce+
  show "m_downloads (refresh (prio_of s x) x (set_pos x f s)) = m_downloads s"
    using reordered_fields(10) [OF R(2)] by (simp add: set_pos_def)
qed

lemma mark_as_writing_inv [wf_rules]:
  assumes inv: "pieces_inv s" and x: "x < num_pieces s"
  shows "pieces_inv (snd (mark_as_writing x b peer s))"
proof (cases "downloading (pos_of s x)")
  case False
  then have o: "download_state (pos_of s x) = piece_open" by (simp add: downloading_def)
  define s2 where "s2 = refresh (prio_of s x) x (set_pos x (\<lambda>p. p\<lparr>download_state := piece_downloading\<rparr>) s)"
  obtain it s3 where a: "add_download_piece x s2 = (it, s3)" by fastforce
  have c: "core s2 = core (refresh (prio_of s x) x (set_pos x (\<lambda>p. p\<lparr>download_state := piece_downloading\<rparr>) s))"
    by (simp add: s2_def)
  note S = start_piece_ok [OF inv x o _ c a]
  show ?thesis using S False inv a x update_piece_state_snd(1)
    by (auto simp: mark_as_writing_def Let_def s2_def [symmetric])
next
  case True
  show ?thesis
  proof (cases "find_dl_piece (download_queue (pos_of s x)) x s")
    case None
    then show ?thesis using True inv by (simp add: mark_as_writing_def Let_def)
  next
    case (Some i)
    note f = find_dl_piece_Some [OF Some]
    show ?thesis using True Some f inv x update_piece_state_snd(1)
      by (auto simp: mark_as_writing_def Let_def)
  qed
qed

lemma mark_as_downloading_inv [wf_rules]:
  assumes inv: "pieces_inv s" and x: "x < num_pieces s" and full: "\<forall>dp \<in> set (m_downloads s piece_full). 0 < requested dp"
  shows "pieces_inv (snd (mark_as_downloading x b peer rv affinity s))"
proof (cases "download_queue (pos_of s x) = piece_open")
  case True
  then have o: "download_state (pos_of s x) = piece_open" by (simp add: download_queue_open)
  define st where "st = (if rv then piece_downloading_reverse else piece_downloading)"
  define s2 where "s2 = refresh (prio_of s x) x (set_pos x (\<lambda>p. p\<lparr>download_state := st\<rparr>) s)"
  define s3 where "s3 = (if affinity then record_downloading_piece x s2 else s2)"
  obtain it s4 where a: "add_download_piece x s3 = (it, s4)" by fastforce
  have c: "core s3 = core (refresh (prio_of s x) x (set_pos x (\<lambda>p. p\<lparr>download_state := st\<rparr>) s))"
    by (simp add: s3_def s2_def)
  have st: "st = piece_downloading \<or> st = piece_downloading_reverse" by (simp add: st_def)
  note S = start_piece_ok [OF inv x o st c a]
  define slot where "slot = block_slot s4 (deref it s4) b"
  have "snd (mark_as_downloading x b peer rv affinity s) =
    (if bi_state (m_block_info s4 ! slot) = state_finished then s4
     else snd (update_piece_state it (set_dp it (\<lambda>dp. dp\<lparr>requested := requested dp + 1\<rparr>)
       (set_block slot (\<lambda>b. b\<lparr>bi_state := state_requested, bi_peer := peer, bi_num_peers := 1\<rparr>) s4))))"
    using True a unfolding mark_as_downloading_def Let_def st_def s2_def s3_def slot_def by simp
  then show ?thesis using S x by (simp add: update_piece_state_snd(1))
next
  case False
  show ?thesis
  proof (cases "find_dl_piece (download_queue (pos_of s x)) x s")
    case None
    then show ?thesis using False inv by (simp add: mark_as_downloading_def Let_def)
  next
    case (Some i)
    note f = find_dl_piece_Some [OF Some]
    define slot where "slot = block_slot s (deref i s) b"
    define s1 where "s1 = (if rv \<and> \<not> reverse_pos (pos_of s x) \<and> requested (deref i s) = 0
      then refresh (prio_of s x) x (set_pos x make_reverse s) else s)"
    have nf: "download_state (pos_of s x) \<noteq> piece_full" if "requested (deref i s) = 0"
    proof
      assume "download_state (pos_of s x) = piece_full"
      then have "fst i = piece_full" using f(3) by (simp add: download_queue_def)
      then have "deref i s \<in> set (m_downloads s piece_full)" using f(1) by (simp add: deref_def valid_it_def)
      then show False using full that by auto
    qed
    have s1: "pieces_inv s1" "num_pieces s1 = num_pieces s" "m_downloads s1 = m_downloads s"
      using changed_reverse [OF inv x] nf inv by (auto simp: s1_def)
    define s2 where "s2 = set_block slot (\<lambda>b. b\<lparr>bi_peer := peer\<rparr>) s1"
    define s3 where "s3 = (if bi_state (m_block_info s ! slot) \<noteq> state_requested
      then snd (update_piece_state i (set_dp i (\<lambda>dp. dp\<lparr>requested := requested dp + 1\<rparr>)
             (set_block slot (\<lambda>b. b\<lparr>bi_state := state_requested\<rparr>) s2))) else s2)"
    define s4 where "s4 = set_block slot (\<lambda>b. b\<lparr>bi_num_peers := bi_num_peers b + 1\<rparr>) s3"
    have d1: "valid_it i s1" "dp_index (deref i s1) = x" using f s1(3) by (simp_all add: valid_it_def deref_def)
    have s3: "pieces_inv s3" "num_pieces s3 = num_pieces s"
      using s1 d1 x update_piece_state_snd [of "set_dp i (\<lambda>dp. dp\<lparr>requested := requested dp + 1\<rparr>)
          (set_block slot (\<lambda>b. b\<lparr>bi_state := state_requested\<rparr>) s2)" i]
      by (auto simp: s3_def s2_def)
    have s4: "pieces_inv s4" "x < num_pieces s4" using s3 x by (simp_all add: s4_def)
    have "snd (mark_as_downloading x b peer rv affinity s) =
      (if bi_state (m_block_info s ! slot) = state_writing \<or> bi_state (m_block_info s ! slot) = state_finished then s
       else if \<not> rv \<and> reverse_pos (pos_of s4 x) then refresh (prio_of s4 x) x (set_pos x unreverse s4) else s4)"
      using False Some unfolding mark_as_downloading_def Let_def s4_def s3_def s2_def s1_def slot_def by simp
    then show ?thesis using inv s4 changed_reverse(1) [OF s4] by simp
  qed
qed

text \<open>Having a piece takes it out of the list.\<close>

lemma list_frame_cursors [simp]:
  "core (shrink_cursors i s) = core s" "core (grow_cursors i s) = core s"
  by (simp_all add: shrink_cursors_def grow_cursors_def Let_def)

lemma remove_had:
  assumes inv: "pieces_inv s" and x: "x < num_pieces s"
    and c: "core s' = core (set_pos x (\<lambda>p. p\<lparr>download_state := st, pp_index := we_have_index\<rparr>) s)"
  shows "pieces_inv (if prio_of s x = -1 \<or> m_dirty s' then s' else remove (nat (prio_of s x)) (nat (pp_index (pos_of s x))) s')"
    and "reordered s' (if prio_of s x = -1 \<or> m_dirty s' then s' else remove (nat (prio_of s x)) (nat (pp_index (pos_of s x))) s')"
proof -
  let ?R = "if prio_of s x = -1 \<or> m_dirty s' then s' else remove (nat (prio_of s x)) (nat (pp_index (pos_of s x))) s'"
  let ?t = "set_pos x (\<lambda>p. p\<lparr>download_state := st, pp_index := we_have_index\<rparr>) s"
  have c': "m_pieces s' = m_pieces s" "m_piece_map s' = m_piece_map ?t" "m_priority_boundaries s' = m_priority_boundaries s"
    "m_dirty s' = m_dirty s" "m_seeds s' = m_seeds s" "num_pieces s' = num_pieces s"
    using c num_pieces_core [OF c] by (simp_all add: core_def)
  have pos: "pos_of s' j = (if j = x then (pos_of s x)\<lparr>download_state := st, pp_index := we_have_index\<rparr> else pos_of s j)" for j
    using c'(2) x by simp
  have w: "prio_wf s'" using inv x by (auto simp: pieces_inv_def prio_wf_def pos c'(6))
  have px: "prio_of s' x = -1" using prio_wf_pos [OF inv x] by (simp add: pos priority_def have_pos_def)
  have po: "prio_of s' j = prio_of s j" if "j \<noteq> x" for j using that c'(5) by (simp add: pos)
  have "pieces_inv ?R \<and> reordered s' ?R"
  proof (cases "m_dirty s")
    case True
    then show ?thesis using w c' by (simp add: pieces_inv_dirty)
  next
    case nd: False
    then have ok: "list_ok s" using inv by (simp add: pieces_inv_def order_inv_def)
    have ordx: "ordered ((prio_of s')(x := prio_of s x)) (num_pieces s') (m_pieces s') (m_priority_boundaries s')"
      using ok po unfolding list_ok_for_def c' by (subst ordered_cong [where pr' = "prio_of s"]) auto
    show ?thesis
    proof (cases "prio_of s x = -1")
      case True
      obtain Bs where Bs: "m_pieces s = concat Bs" "bucketed (prio_of s) (num_pieces s) Bs"
        using ok by (auto simp: list_ok_for_def ordered_def)
      have nx: "x \<notin> set (m_pieces s)" using bucketed_set [OF Bs(2)] Bs(1) True by simp
      have "(prio_of s')(x := prio_of s x) = prio_of s'" using True px by (simp add: fun_upd_idem)
      moreover have "indexed (m_piece_map s') 0 (m_pieces s')"
        unfolding indexed_def c'(1)
      proof (intro allI impI)
        fix j assume j: "j < length (m_pieces s)"
        then have "m_pieces s ! j \<noteq> x" using nx nth_mem by metis
        then show "pp_index (m_piece_map s' ! (m_pieces s ! j)) = int (0 + j)"
          using ok j pos by (simp add: list_ok_for_def indexed_def)
      qed
      ultimately have "list_ok s'" using ordx by (simp add: list_ok_for_def)
      then show ?thesis using True w by (simp add: pieces_inv_def order_inv_def)
    next
      case False
      then have p0: "0 \<le> prio_of s x" using prio_of_cases [of s x] inv x by (auto simp: pieces_inv_def)
      then have pn: "prio_of s x = int (nat (prio_of s x))" by simp
      obtain Bs where Bs: "m_pieces s = concat Bs" "bucketed (prio_of s) (num_pieces s) Bs"
        using ok by (auto simp: list_ok_for_def ordered_def)
      have "x \<in> set (m_pieces s)" using bucketed_set [OF Bs(2)] Bs(1) x p0 by simp
      then obtain j where j: "j < length (m_pieces s)" "m_pieces s ! j = x" by (metis in_set_conv_nth)
      have ej: "nat (pp_index (pos_of s x)) = j" using ok j by (auto simp: list_ok_for_def indexed_def)
      have "indexed_but x (m_piece_map s') (m_pieces s')"
        using ok by (auto simp: indexed_but_def c'(1) pos list_ok_for_def indexed_def)
      then have "reordered s' (remove (nat (prio_of s x)) j s')" "list_ok (remove (nat (prio_of s x)) j s')"
        using remove_ok [of s' x "nat (prio_of s x)" j] ordx px j c'(1) pn by simp_all
      then show ?thesis using False nd ej w reordered_prio_wf reordered_dirty c'(4)
        by (auto simp: pieces_inv_def order_inv_def)
    qed
  qed
  then show "pieces_inv ?R" "reordered s' ?R" by auto
qed

text \<open>The state \<^verbatim>\<open>we_have\<close> reaches before it takes the piece out of the list.\<close>

definition drop_entry :: "nat \<Rightarrow> piece_picker \<Rightarrow> piece_picker" where
  "drop_entry x s =
     (let q = download_queue (pos_of s x) in
      if q = piece_open then s
      else case find_dl_piece q x s of None \<Rightarrow> s
      | Some i \<Rightarrow> erase_download_piece i (if passed_hash_check (deref i s) then s\<lparr>m_num_passed := m_num_passed s - 1\<rparr> else s))"

definition count_had :: "nat \<Rightarrow> int \<Rightarrow> piece_picker \<Rightarrow> piece_picker" where
  "count_had x pads s =
     (let s2 = (if filtered (pos_of s x)
          then s\<lparr>m_filtered_pad_blocks := m_filtered_pad_blocks s - pads, m_num_filtered := m_num_filtered s - 1,
                 m_have_filtered_pad_blocks := m_have_filtered_pad_blocks s + pads,
                 m_num_have_filtered := m_num_have_filtered s + 1\<rparr> else s);
          s3 = s2\<lparr>m_num_have := m_num_have s2 + 1, m_num_passed := m_num_passed s2 + 1,
                  m_have_pad_blocks := m_have_pad_blocks s2 + pads\<rparr>
      in shrink_cursors x (set_pos x (\<lambda>p. p\<lparr>pp_index := we_have_index\<rparr>) s3))"

lemma we_have_list:
  assumes inv: "pieces_inv s" and x: "x < num_pieces s" and False: "\<not> have_pos (pos_of s x)"
  shows "pieces_inv (we_have x s)" "reordered (count_had x (pad_blocks_in_piece s x) (drop_entry x s)) (we_have x s)"
proof -
  let ?q = "download_queue (pos_of s x)"
  define pads where "pads = pad_blocks_in_piece s x"
  define s1 where "s1 = (if ?q = piece_open then s else case find_dl_piece ?q x s of None \<Rightarrow> s
    | Some i \<Rightarrow> erase_download_piece i (if passed_hash_check (deref i s) then s\<lparr>m_num_passed := m_num_passed s - 1\<rparr> else s))"
  define s2 where "s2 = (if filtered (pos_of s1 x)
    then s1\<lparr>m_filtered_pad_blocks := m_filtered_pad_blocks s1 - pads, m_num_filtered := m_num_filtered s1 - 1,
            m_have_filtered_pad_blocks := m_have_filtered_pad_blocks s1 + pads,
            m_num_have_filtered := m_num_have_filtered s1 + 1\<rparr> else s1)"
  define s3 where "s3 = s2\<lparr>m_num_have := m_num_have s2 + 1, m_num_passed := m_num_passed s2 + 1,
    m_have_pad_blocks := m_have_pad_blocks s2 + pads\<rparr>"
  define s5 where "s5 = shrink_cursors x (set_pos x (\<lambda>p. p\<lparr>pp_index := we_have_index\<rparr>) s3)"
  have eq: "we_have x s = (if prio_of s x = -1 \<or> m_dirty s5 then s5 else remove (nat (prio_of s x)) (nat (pp_index (pos_of s x))) s5)"
    using False unfolding we_have_def Let_def s5_def s3_def s2_def s1_def pads_def by simp
  have "\<exists>st. core s1 = core (set_pos x (\<lambda>p. p\<lparr>download_state := st\<rparr>) s)"
  proof (cases "?q = piece_open \<or> find_dl_piece ?q x s = None")
    case True
    then have "core s1 = core (set_pos x (\<lambda>p. p\<lparr>download_state := download_state (pos_of s x)\<rparr>) s)"
      by (auto simp: s1_def core_def set_pos_def)
    then show ?thesis by blast
  next
    case False
    then obtain i where i: "find_dl_piece ?q x s = Some i" by auto
    then have "core s1 = core (set_pos x (\<lambda>p. p\<lparr>download_state := piece_open\<rparr>) s)"
      using False find_dl_piece_Some(2) [OF i]
      by (simp add: s1_def erase_download_piece_def Let_def core_def set_pos_def set_queue_def)
    then show ?thesis by blast
  qed
  then obtain st where st: "core s1 = core (set_pos x (\<lambda>p. p\<lparr>download_state := st\<rparr>) s)" by blast
  have "core s3 = core s1" by (simp add: s3_def s2_def)
  then have "m_piece_map s3 = m_piece_map (set_pos x (\<lambda>p. p\<lparr>download_state := st\<rparr>) s)" "m_pieces s3 = m_pieces s"
    "m_priority_boundaries s3 = m_priority_boundaries s" "m_dirty s3 = m_dirty s" "m_seeds s3 = m_seeds s"
    using st by (simp_all add: core_def)
  then have "core s5 = core (set_pos x (\<lambda>p. p\<lparr>download_state := st, pp_index := we_have_index\<rparr>) s)"
    using x by (simp add: s5_def) (simp add: core_def set_pos_def num_pieces_def)
  note R = remove_had [OF inv x this]
  show "pieces_inv (we_have x s)" unfolding eq by (rule R(1))
  have "count_had x (pad_blocks_in_piece s x) (drop_entry x s) = s5"
    unfolding count_had_def drop_entry_def Let_def s5_def s3_def s2_def s1_def pads_def by (rule refl)
  then show "reordered (count_had x (pad_blocks_in_piece s x) (drop_entry x s)) (we_have x s)" unfolding eq using R(2) by simp
qed

lemma we_have_inv [wf_rules]: "pieces_inv s \<Longrightarrow> x < num_pieces s \<Longrightarrow> pieces_inv (we_have x s)"
  using we_have_list(1) by (cases "have_pos (pos_of s x)") (simp_all add: we_have_def Let_def)

lemma piece_passed_inv [wf_rules]:
  assumes "pieces_inv s" and "x < num_pieces s"
  shows "pieces_inv (piece_passed x s)"
  using assms by (auto simp: piece_passed_def Let_def split: option.splits intro!: we_have_inv)

lemma mark_as_finished_inv [wf_rules]:
  assumes inv: "pieces_inv s" and x: "x < num_pieces s"
  shows "pieces_inv (mark_as_finished x b peer s)"
proof (cases "download_queue (pos_of s x) = piece_open")
  case True
  then have o: "download_state (pos_of s x) = piece_open" by (simp add: download_queue_open)
  define s2 where "s2 = refresh (prio_of s x) x (set_pos x (\<lambda>p. p\<lparr>download_state := piece_downloading\<rparr>) s)"
  obtain it s3 where a: "add_download_piece x s2 = (it, s3)" by fastforce
  have c: "core s2 = core (refresh (prio_of s x) x (set_pos x (\<lambda>p. p\<lparr>download_state := piece_downloading\<rparr>) s))"
    by (simp add: s2_def)
  note S = start_piece_ok [OF inv x o _ c a]
  show ?thesis using S True inv a x update_piece_state_snd(1)
    by (auto simp: mark_as_finished_def Let_def s2_def [symmetric])
next
  case False
  show ?thesis
  proof (cases "find_dl_piece (download_queue (pos_of s x)) x s")
    case None
    then show ?thesis using False inv by (simp add: mark_as_finished_def Let_def)
  next
    case (Some i)
    note f = find_dl_piece_Some [OF Some]
    define slot where "slot = block_slot s (deref i s) b"
    define st where "st = bi_state (m_block_info s ! slot)"
    define s1 where "s1 = (if st \<noteq> state_writing \<or> peer \<noteq> None then set_block slot (\<lambda>b. b\<lparr>bi_peer := peer\<rparr>) s else s)"
    define s2 where "s2 = set_dp i (\<lambda>dp. dp\<lparr>finished := finished dp + 1\<rparr>) s1"
    define s3 where "s3 = (if st = state_writing then set_dp i (\<lambda>dp. dp\<lparr>writing := writing dp - 1\<rparr>) s2 else s2)"
    define s4 where "s4 = set_block slot (\<lambda>b. b\<lparr>bi_state := state_finished\<rparr>) s3"
    obtain i' s5 where u: "update_piece_state i s4 = (i', s5)" by fastforce
    have s4: "pieces_inv s4" "valid_it i s4" "dp_index (deref i s4) = x" "num_pieces s4 = num_pieces s"
      using f inv by (simp_all add: s4_def s3_def s2_def s1_def)
    have x4: "dp_index (deref i s4) < num_pieces s4" using s4 x by simp
    note U = update_piece_state_ok [OF s4(1,2) x4 u]
    have "mark_as_finished x b peer s =
      (if st = state_finished then s
       else if finished (deref i' s5) < blocks_in_piece s5 (dp_index (deref i' s5)) then s5
       else if passed_hash_check (deref i' s5) then we_have (dp_index (deref i' s5)) s5 else s5)"
      using False Some u unfolding mark_as_finished_def Let_def s4_def s3_def s2_def s1_def st_def slot_def by simp
    then show ?thesis using inv U s4 x we_have_inv [of s5 x] by simp
  qed
qed

lemma mark_as_pad_inv [wf_rules]:
  assumes "pieces_inv s" and "x < num_pieces s"
  shows "pieces_inv (mark_as_pad x b s)"
proof -
  let ?s1 = "if size_bf (m_pad_blocks s) = 0
    then s\<lparr>m_pad_blocks := resize (length (m_piece_map s) * m_blocks_per_piece s) (m_pad_blocks s)\<rparr> else s"
  define s3 where "s3 = (let s1 = ?s1; block_index = x * m_blocks_per_piece s1 + b;
          s2 = s1\<lparr>m_pad_blocks := set_bit block_index (m_pad_blocks s1),
                  m_num_pad_blocks := m_num_pad_blocks s1 + 1,
                  m_pads_in_piece := (m_pads_in_piece s1)(x \<mapsto>
                    (case m_pads_in_piece s1 x of None \<Rightarrow> 1 | Some n \<Rightarrow> n + 1))\<rparr>
      in if filtered (pos_of s2 x) then s2\<lparr>m_filtered_pad_blocks := m_filtered_pad_blocks s2 + 1\<rparr> else s2)"
  have "core s3 = core s" unfolding s3_def Let_def by simp
  then have "pieces_inv s3" "x < num_pieces s3" using assms pieces_inv_core num_pieces_core by metis+
  moreover have "mark_as_pad x b s = (if pad_blocks_in_piece s3 x = int (blocks_in_piece s3 x) then we_have x s3 else s3)"
    unfolding s3_def mark_as_pad_def Let_def by (rule refl)
  ultimately show ?thesis using we_have_inv by simp
qed

text \<open>
  A piece that is had and no longer is gets back into the list. (The other branch of \<^verbatim>\<open>we_dont_have\<close>,
  for a piece in download, does not keep the invariant; the root theory shows it on a concrete state.)
\<close>

definition count_lost :: "nat \<Rightarrow> piece_picker \<Rightarrow> piece_picker" where
  "count_lost x s = (let p = pos_of s x; pads = pad_blocks_in_piece s x;
      s1 = s\<lparr>m_num_passed := m_num_passed s - 1\<rparr>;
      s2 = (if filtered p
            then s1\<lparr>m_filtered_pad_blocks := m_filtered_pad_blocks s1 + pads, m_num_filtered := m_num_filtered s1 + 1,
                    m_have_filtered_pad_blocks := m_have_filtered_pad_blocks s1 - pads,
                    m_num_have_filtered := m_num_have_filtered s1 - 1\<rparr>
            else grow_cursors x s1);
      s3 = s2\<lparr>m_num_have := m_num_have s2 - 1, m_have_pad_blocks := m_have_pad_blocks s2 - pads\<rparr>
    in set_pos x (\<lambda>p. p\<lparr>pp_index := 0\<rparr>) s3)"

lemma we_dont_have_list:
  assumes inv: "pieces_inv s" and x: "x < num_pieces s" and True: "have_pos (pos_of s x)"
  shows "pieces_inv (we_dont_have x s)" "reordered (count_lost x s) (we_dont_have x s)"
proof -
  define s4 where "s4 = count_lost x s"
  have eq: "we_dont_have x s = (if m_dirty s4 then s4 else if prio_of s4 x \<ge> 0 then add x s4 else s4)"
    using True unfolding we_dont_have_def s4_def count_lost_def Let_def by simp
  let ?t = "set_pos x (\<lambda>p. p\<lparr>pp_index := 0\<rparr>) s"
  have set_pos_core: "core a = core b \<Longrightarrow> core (set_pos x f a) = core (set_pos x f b)" for a b f
    by (simp add: core_def set_pos_def)
  have c: "core s4 = core ?t" unfolding s4_def count_lost_def Let_def by (rule set_pos_core) simp
  have px: "prio_of s x = -1" using True by (simp add: priority_def)
  have w: "prio_wf ?t" using inv x by (auto simp: pieces_inv_def prio_wf_def)
  have "list_ok_for ((prio_of ?t)(x := -1)) ?t" if ok: "list_ok s"
  proof -
    obtain Bs where Bs: "m_pieces s = concat Bs" "bucketed (prio_of s) (num_pieces s) Bs"
      using ok by (auto simp: list_ok_for_def ordered_def)
    have nx: "x \<notin> set (m_pieces s)" using bucketed_set [OF Bs(2)] Bs(1) px by simp
    have "indexed (m_piece_map ?t) 0 (m_pieces s)" unfolding indexed_def
    proof (intro allI impI)
      fix j assume j: "j < length (m_pieces s)"
      then have "m_pieces s ! j \<noteq> x" using nx nth_mem by metis
      then show "pp_index (m_piece_map ?t ! (m_pieces s ! j)) = int (0 + j)"
        using ok j x by (simp add: list_ok_for_def indexed_def)
    qed
    moreover have "ordered ((prio_of ?t)(x := -1)) (num_pieces s) (m_pieces s) (m_priority_boundaries s)"
      using ok px x unfolding list_ok_for_def by (subst ordered_cong [where pr' = "prio_of s"]) auto
    ultimately show ?thesis by (simp add: list_ok_for_def)
  qed
  then have "changed x (-1) ?t" using inv w x by (auto simp: changed_def pieces_inv_def order_inv_def)
  then have ch: "changed x (-1) s4" using changed_core [OF c] by simp
  have "we_dont_have x s = reposition (-1) x s4"
    using ch prio_of_cases [of s4 x] unfolding eq by (auto simp: reposition_def changed_def)
  then show "pieces_inv (we_dont_have x s)" "reordered (count_lost x s) (we_dont_have x s)"
    using changed_reposition [OF ch] by (simp_all add: s4_def)
qed

lemma we_dont_have_inv [wf_rules]:
  "pieces_inv s \<Longrightarrow> x < num_pieces s \<Longrightarrow> have_pos (pos_of s x) \<or> download_state (pos_of s x) = piece_open \<Longrightarrow>
   pieces_inv (we_dont_have x s)"
  using we_dont_have_list(1) by (cases "have_pos (pos_of s x)") (auto simp: we_dont_have_def Let_def download_queue_def)

lemma we_have_all_inv [wf_rules]: "prio_wf s \<Longrightarrow> pieces_inv (we_have_all s)"
proof -
  assume w: "prio_wf s"
  let ?s = "we_have_all s"
  have p: "prio_of ?s i = -1" if "i < num_pieces s" for i
    using that by (simp add: we_have_all_def num_pieces_def priority_def have_pos_def)
  have n: "num_pieces ?s = num_pieces s" by (simp add: we_have_all_def num_pieces_def)
  have "bucketed (prio_of ?s) (num_pieces s) [[]]"
    by (rule bucketedI) (use p in auto)
  then have "list_ok ?s" unfolding list_ok_for_def ordered_def n
    by (intro conjI exI [of _ "[[]]"]) (auto simp: we_have_all_def)
  moreover have "prio_wf ?s" using w by (simp add: prio_wf_def we_have_all_def num_pieces_def)
  ultimately show ?thesis by (simp add: pieces_inv_def order_inv_def)
qed

lemma set_piece_priority_inv [wf_rules]:
  assumes inv: "pieces_inv s" and x: "x < num_pieces s" and p: "np \<le> 7"
  shows "pieces_inv (snd (set_piece_priority x np s))"
proof (cases "np = piece_priority (pos_of s x)")
  case True
  then show ?thesis using inv by (simp add: set_piece_priority_def)
next
  case False
  define r where "r = filter_change x np s"
  define s2 where "s2 = set_pos x (\<lambda>p. p\<lparr>piece_priority := np\<rparr>) (snd r)"
  define s3 where "s3 = reposition (prio_of s x) x s2"
  have eq: "snd (set_piece_priority x np s) =
    (if downloading (pos_of s3 x)
     then case find_dl_piece (download_queue (pos_of s3 x)) x s3 of None \<Rightarrow> s3 | Some i \<Rightarrow> snd (update_piece_state i s3)
     else s3)"
    using False unfolding set_piece_priority_def s3_def s2_def Let_def r_def [symmetric] by (simp add: case_prod_beta)
  have cr: "core (snd r) = core s" unfolding r_def filter_change_def Let_def by simp
  have "pieces_inv (snd r)" "x < num_pieces (snd r)" "prio_of (snd r) x = prio_of s x"
    using inv x pieces_inv_core [OF cr] num_pieces_core [OF cr] cr by (auto simp: core_def)
  then have c: "changed x (prio_of s x) s2"
    unfolding s2_def using changed_set_pos [of "snd r" x "\<lambda>p. p\<lparr>piece_priority := np\<rparr>"] p by simp
  have s3: "pieces_inv s3" "num_pieces s3 = num_pieces s2"
    using changed_reposition [OF c] reordered_num unfolding s3_def by blast+
  have x3: "x < num_pieces s3" using s3 c by (simp add: changed_def)
  have "pieces_inv (snd (update_piece_state i s3))" if "find_dl_piece (download_queue (pos_of s3 x)) x s3 = Some i" for i
    using update_piece_state_snd(1) [OF s3(1)] find_dl_piece_Some [OF that] x3 by simp
  then show ?thesis using s3 unfolding eq by (simp split: option.splits)
qed

lemma resize_picker_inv [wf_rules]:
  assumes "prio_wf s" and "resize_picker bpp bil n s = Some s'"
  shows "pieces_inv s'"
proof (rule pieces_inv_dirty)
  show "m_dirty s'" using assms(2) by (auto simp: resize_picker_def Let_def split: if_splits)
  have "m_piece_map s' = map (\<lambda>p. p\<lparr>peer_count := 0, download_state := piece_open, pp_index := 0\<rparr>)
      (resize_list n new_piece_pos (m_piece_map s))"
    using assms(2) by (auto simp: resize_picker_def Let_def split: if_splits)
  then show "prio_wf s'" using assms(1)
    by (auto simp: prio_wf_def num_pieces_def resize_list_def nth_append new_piece_pos_def default_priority_def)
qed

end
