(* ===== verification/Picker_Queue.thy ===== *)
theory Picker_Queue
  imports Picker_Ops
begin

text \<open>
  The download queues of the picker. A piece being downloaded has exactly one entry, in the queue its
  state names; the queues are sorted by piece; the entries own disjoint ranges of \<open>m_block_info\<close>;
  the counts of an entry are the counts of its blocks, and the state of the piece is the one these
  counts and its priority determine. Every operation keeps this (what the code checks in
  \<^verbatim>\<open>check_invariant\<close>), given the conditions it asserts of its caller.
\<close>

section \<open>Sorted queues\<close>

abbreviation sorted_dps :: "downloading_piece list \<Rightarrow> bool" where
  "sorted_dps dps \<equiv> sorted_wrt (<) (map dp_index dps)"

lemma sorted_dps_less: "sorted_dps dps \<Longrightarrow> i < j \<Longrightarrow> j < length dps \<Longrightarrow> dp_index (dps ! i) < dp_index (dps ! j)"
  by (simp add: sorted_wrt_iff_nth_less)

lemma sorted_dps_inj: "sorted_dps dps \<Longrightarrow> i < length dps \<Longrightarrow> j < length dps \<Longrightarrow> dp_index (dps ! i) = dp_index (dps ! j) \<Longrightarrow> i = j"
  by (metis linorder_neqE_nat order_less_irrefl sorted_dps_less)

lemma sorted_dps_unique:
  "sorted_dps dps \<Longrightarrow> dp \<in> set dps \<Longrightarrow> dp' \<in> set dps \<Longrightarrow> dp_index dp = dp_index dp' \<Longrightarrow> dp = dp'"
  by (metis in_set_conv_nth sorted_dps_inj)

lemma erase_at_set:
  assumes "sorted_dps dps" "k < length dps"
  shows "set (erase_at k dps) = {dp \<in> set dps. dp_index dp \<noteq> dp_index (dps ! k)}" "sorted_dps (erase_at k dps)"
proof -
  let ?a = "take k dps" and ?b = "drop (k + 1) dps"
  have e: "dps = ?a @ dps ! k # ?b" using assms(2) by (simp add: id_take_nth_drop)
  have s: "sorted_dps (?a @ dps ! k # ?b)" using assms(1) e by metis
  then show "sorted_dps (erase_at k dps)" by (auto simp: erase_at_def sorted_wrt_append)
  have "set dps = insert (dps ! k) (set ?a \<union> set ?b)" by (subst e) auto
  then show "set (erase_at k dps) = {dp \<in> set dps. dp_index dp \<noteq> dp_index (dps ! k)}"
    using s by (auto simp: erase_at_def sorted_wrt_append)
qed

lemma update_at_set:
  assumes "sorted_dps dps" "k < length dps" "dp_index y = dp_index (dps ! k)"
  shows "set (dps[k := y]) = insert y {dp \<in> set dps. dp_index dp \<noteq> dp_index (dps ! k)}" "sorted_dps (dps[k := y])"
proof -
  have "map dp_index (dps[k := y]) = map dp_index dps"
    using assms(2,3) by (simp add: list_eq_iff_nth_eq nth_list_update)
  then show "sorted_dps (dps[k := y])" using assms(1) by simp
  have "set (erase_at k (dps[k := y])) = set (erase_at k dps)" by (simp add: erase_at_def)
  moreover have "set (dps[k := y]) = insert y (set (erase_at k (dps[k := y])))"
    using assms(2) id_take_nth_drop [of k "dps[k := y]"]
    unfolding erase_at_def by (metis Un_insert_right id_take_nth_drop length_list_update list.simps(15) nth_list_update_eq
      set_append Suc_eq_plus1)
  ultimately show "set (dps[k := y]) = insert y {dp \<in> set dps. dp_index dp \<noteq> dp_index (dps ! k)}"
    using erase_at_set(1) [OF assms(1,2)] by simp
qed

lemma lower_bound_split:
  assumes "sorted_dps dps"
  shows "\<forall>dp \<in> set (take (lower_bound dps x) dps). dp_index dp < x"
    and "\<forall>dp \<in> set (drop (lower_bound dps x) dps). x \<le> dp_index dp"
proof -
  have t: "take (lower_bound dps x) dps = takeWhile (\<lambda>dp. dp_index dp < x) dps"
    by (simp add: lower_bound_def takeWhile_eq_take [symmetric])
  then show "\<forall>dp \<in> set (take (lower_bound dps x) dps). dp_index dp < x" by (auto dest: set_takeWhileD)
  have "drop (lower_bound dps x) dps = dropWhile (\<lambda>dp. dp_index dp < x) dps"
    by (simp add: lower_bound_def dropWhile_eq_drop [symmetric])
  moreover have "\<forall>dp \<in> set (dropWhile (\<lambda>dp. dp_index dp < x) dps). x \<le> dp_index dp"
    using assms by (induction dps) auto
  ultimately show "\<forall>dp \<in> set (drop (lower_bound dps x) dps). x \<le> dp_index dp" by simp
qed

lemma insert_at_set:
  assumes "sorted_dps dps" "\<forall>dp' \<in> set dps. dp_index dp' \<noteq> dp_index dp"
  shows "set (insert_at (lower_bound dps (dp_index dp)) dp dps) = insert dp (set dps)"
    and "sorted_dps (insert_at (lower_bound dps (dp_index dp)) dp dps)"
proof -
  let ?k = "lower_bound dps (dp_index dp)"
  have sp: "set dps = set (take ?k dps) \<union> set (drop ?k dps)" by (metis append_take_drop_id set_append)
  then show "set (insert_at ?k dp dps) = insert dp (set dps)" by (auto simp: insert_at_def)
  have "sorted_dps (take ?k dps @ drop ?k dps)" using assms(1) by simp
  moreover have "\<forall>dp' \<in> set (drop ?k dps). dp_index dp < dp_index dp'"
    using lower_bound_split(2) [OF assms(1)] assms(2) sp by (metis UnCI le_neq_implies_less)
  ultimately show "sorted_dps (insert_at ?k dp dps)"
    using lower_bound_split(1) [OF assms(1)]
    unfolding insert_at_def map_append list.map(2) sorted_wrt_append by fastforce
qed

text \<open>The binary search finds the entry of a piece exactly when there is one.\<close>

lemma find_dl_piece_iff:
  assumes "sorted_dps (m_downloads s q)"
  shows "(\<exists>it. find_dl_piece q x s = Some it) \<longleftrightarrow> (\<exists>dp \<in> set (m_downloads s q). dp_index dp = x)"
proof
  assume "\<exists>it. find_dl_piece q x s = Some it"
  then obtain it where "find_dl_piece q x s = Some it" by blast
  from find_dl_piece_Some [OF this] show "\<exists>dp \<in> set (m_downloads s q). dp_index dp = x"
    by (auto simp: valid_it_def deref_def)
next
  let ?dps = "m_downloads s q" let ?k = "lower_bound ?dps x"
  assume "\<exists>dp \<in> set ?dps. dp_index dp = x"
  then obtain dp where dp: "dp \<in> set ?dps" "dp_index dp = x" by blast
  have sp: "set ?dps = set (take ?k ?dps) \<union> set (drop ?k ?dps)" by (metis append_take_drop_id set_append)
  then have d: "dp \<in> set (drop ?k ?dps)" using dp lower_bound_split(1) [OF assms, of x] by auto
  then have k: "?k < length ?dps" by (metis drop_all empty_iff linorder_not_less list.set(1))
  then have "drop ?k ?dps = ?dps ! ?k # drop (?k + 1) ?dps" by (simp add: Cons_nth_drop_Suc)
  moreover have "sorted_dps (drop ?k ?dps)" using assms by (simp add: drop_map [symmetric] sorted_wrt_drop)
  ultimately have "dp_index (?dps ! ?k) \<le> x" using d dp(2) by auto
  moreover have "x \<le> dp_index (?dps ! ?k)"
    using lower_bound_split(2) [OF assms, of x] k \<open>drop ?k ?dps = _\<close> by auto
  ultimately show "\<exists>it. find_dl_piece q x s = Some it" using k by (simp add: find_dl_piece_def Let_def)
qed

section \<open>The structure of the queues\<close>

definition slot_ok :: "piece_picker \<Rightarrow> downloading_piece \<Rightarrow> bool" where
  "slot_ok s dp \<longleftrightarrow> (info_idx dp + 1) * m_blocks_per_piece s \<le> length (m_block_info s) \<and>
     info_idx dp \<notin> set (m_free_block_infos s)"

definition dps :: "piece_picker \<Rightarrow> downloading_piece set" where
  "dps s = {dp. \<exists>q. dp \<in> set (m_downloads s q)}"

definition pool_ok :: "piece_picker \<Rightarrow> bool" where
  "pool_ok s \<longleftrightarrow> 0 < m_blocks_per_piece s \<and> m_blocks_in_last_piece s \<le> m_blocks_per_piece s \<and>
     length (m_block_info s) mod m_blocks_per_piece s = 0 \<and> distinct (m_free_block_infos s) \<and>
     (\<forall>k \<in> set (m_free_block_infos s). (k + 1) * m_blocks_per_piece s \<le> length (m_block_info s))"

text \<open>\<open>h\<close> holds the pieces that are marked as downloading but have no entry yet.\<close>

definition queues :: "nat set \<Rightarrow> piece_picker \<Rightarrow> bool" where
  "queues h s \<longleftrightarrow> (\<forall>q. sorted_dps (m_downloads s q)) \<and>
     (\<forall>q. \<forall>dp \<in> set (m_downloads s q). dp_index dp < num_pieces s \<and> dp_index dp \<notin> h \<and>
        downloading (pos_of s (dp_index dp)) \<and> download_queue (pos_of s (dp_index dp)) = q) \<and>
     (\<forall>i < num_pieces s. downloading (pos_of s i) \<and> i \<notin> h \<longrightarrow> (\<exists>dp \<in> dps s. dp_index dp = i)) \<and>
     (\<forall>dp \<in> dps s. slot_ok s dp) \<and>
     (\<forall>dp \<in> dps s. \<forall>dp' \<in> dps s. info_idx dp = info_idx dp' \<longrightarrow> dp = dp') \<and> pool_ok s"

lemma queuesD:
  assumes "queues h s"
  shows "sorted_dps (m_downloads s q)"
    and "dp \<in> set (m_downloads s q) \<Longrightarrow> dp_index dp < num_pieces s \<and> dp_index dp \<notin> h \<and>
        downloading (pos_of s (dp_index dp)) \<and> download_queue (pos_of s (dp_index dp)) = q"
    and "i < num_pieces s \<Longrightarrow> downloading (pos_of s i) \<Longrightarrow> i \<notin> h \<Longrightarrow> \<exists>dp \<in> dps s. dp_index dp = i"
    and "dp \<in> dps s \<Longrightarrow> slot_ok s dp"
    and "dp \<in> dps s \<Longrightarrow> dp' \<in> dps s \<Longrightarrow> info_idx dp = info_idx dp' \<Longrightarrow> dp = dp'"
    and "pool_ok s"
  using assms unfolding queues_def by blast+

lemma dps_unique:
  assumes "queues h s" "dp \<in> dps s" "dp' \<in> dps s" "dp_index dp = dp_index dp'"
  shows "dp = dp'"
proof -
  obtain q q' where q: "dp \<in> set (m_downloads s q)" "dp' \<in> set (m_downloads s q')" using assms(2,3) by (auto simp: dps_def)
  then have "q = q'" using queuesD(2) [OF assms(1)] assms(4) by metis
  then show ?thesis using q queuesD(1) [OF assms(1)] assms(4) by (blast intro: sorted_dps_unique)
qed

lemma dps_queue:
  "queues h s \<Longrightarrow> dp \<in> dps s \<Longrightarrow> dp \<in> set (m_downloads s (download_queue (pos_of s (dp_index dp))))"
  using queuesD(2) by (fastforce simp: dps_def)

lemma deref_dps [simp]: "valid_it it s \<Longrightarrow> deref it s \<in> dps s"
  unfolding dps_def valid_it_def deref_def by (metis (mono_tags) mem_Collect_eq nth_mem)

lemma dps_split: "dps s = set (m_downloads s q) \<union> {dp. \<exists>r. r \<noteq> q \<and> dp \<in> set (m_downloads s r)}"
  unfolding dps_def set_eq_iff by auto

text \<open>The entry of a piece.\<close>

lemma find_entry:
  assumes "queues h s" and "x < num_pieces s" and "downloading (pos_of s x)" "x \<notin> h"
  obtains it where "find_dl_piece (download_queue (pos_of s x)) x s = Some it" "valid_it it s"
    "dp_index (deref it s) = x" "fst it = download_queue (pos_of s x)" "deref it s \<in> dps s"
proof -
  obtain dp where "dp \<in> dps s" "dp_index dp = x" using queuesD(3) [OF assms(1-3)] assms(4) by blast
  then have "dp \<in> set (m_downloads s (download_queue (pos_of s x)))" using dps_queue [OF assms(1)] by auto
  then obtain it where it: "find_dl_piece (download_queue (pos_of s x)) x s = Some it"
    using find_dl_piece_iff [OF queuesD(1) [OF assms(1)]] \<open>dp_index dp = x\<close> by blast
  show thesis using that [OF it] find_dl_piece_Some [OF it] by simp
qed

section \<open>The entries\<close>

definition counts :: "piece_picker \<Rightarrow> downloading_piece \<Rightarrow> bool" where
  "counts s dp \<longleftrightarrow>
     (let bs = map bi_state (blocks_for_piece s dp) in
      requested dp = count_list bs state_requested \<and> writing dp = count_list bs state_writing \<and>
      finished dp = count_list bs state_finished)"

definition busy :: "downloading_piece \<Rightarrow> nat" where
  "busy dp = requested dp + finished dp + writing dp"

definition entry_ok :: "piece_picker \<Rightarrow> downloading_piece \<Rightarrow> bool" where
  "entry_ok s dp \<longleftrightarrow> counts s dp \<and> 0 < busy dp \<and> download_state (pos_of s (dp_index dp)) = new_dl_state s dp"

definition queue_but :: "nat \<Rightarrow> piece_picker \<Rightarrow> bool" where
  "queue_but x s \<longleftrightarrow> queues {} s \<and> (\<forall>dp \<in> dps s. dp_index dp \<noteq> x \<longrightarrow> entry_ok s dp)"

definition queue_inv :: "piece_picker \<Rightarrow> bool" where
  "queue_inv s \<longleftrightarrow> queues {} s \<and> (\<forall>dp \<in> dps s. entry_ok s dp)"

text \<open>What of the state the invariant reads.\<close>

definition pview :: "piece_pos \<Rightarrow> dl_state \<times> nat" where
  "pview p = (download_state p, piece_priority p)"

definition eview :: "piece_picker \<Rightarrow> block_info list \<times> nat \<times> nat \<times> (dl_state \<times> nat) list" where
  "eview s = (m_block_info s, m_blocks_per_piece s, m_blocks_in_last_piece s, map pview (m_piece_map s))"

definition qview :: "piece_picker \<Rightarrow> (dl_state \<Rightarrow> downloading_piece list) \<times> nat list \<times>
    (block_info list \<times> nat \<times> nat \<times> (dl_state \<times> nat) list)" where
  "qview s = (m_downloads s, m_free_block_infos s, eview s)"

lemma pview_reads:
  assumes "pview p = pview p'"
  shows "download_queue p = download_queue p'" "downloading p = downloading p'" "filtered p = filtered p'"
    "reverse_pos p = reverse_pos p'" "download_state p = download_state p'"
  using assms by (auto simp: pview_def download_queue_def downloading_def filtered_def reverse_pos_def)

lemma eview_fields:
  assumes "eview s' = eview s"
  shows "m_block_info s' = m_block_info s" "m_blocks_per_piece s' = m_blocks_per_piece s"
    "m_blocks_in_last_piece s' = m_blocks_in_last_piece s" "num_pieces s' = num_pieces s"
    "i < num_pieces s \<Longrightarrow> pview (pos_of s' i) = pview (pos_of s i)"
proof -
  have m: "map pview (m_piece_map s') = map pview (m_piece_map s)" using assms by (simp add: eview_def)
  show "num_pieces s' = num_pieces s" using arg_cong [OF m, of length] by (simp add: num_pieces_def)
  then show "i < num_pieces s \<Longrightarrow> pview (pos_of s' i) = pview (pos_of s i)"
    using arg_cong [OF m, of "\<lambda>xs. xs ! i"] by (simp add: num_pieces_def)
qed (use assms in \<open>auto simp: eview_def\<close>)

lemma blocks_for_piece_cong:
  "m_block_info s' = m_block_info s \<Longrightarrow> m_blocks_per_piece s' = m_blocks_per_piece s \<Longrightarrow>
   m_blocks_in_last_piece s' = m_blocks_in_last_piece s \<Longrightarrow> num_pieces s' = num_pieces s \<Longrightarrow>
   blocks_for_piece s' dp = blocks_for_piece s dp"
  by (simp add: blocks_for_piece_def block_slot_def blocks_in_piece_def)

lemma entry_ok_eview:
  assumes "eview s' = eview s" and "dp_index dp < num_pieces s"
  shows "entry_ok s' dp = entry_ok s dp" "counts s' dp = counts s dp" "new_dl_state s' dp = new_dl_state s dp"
proof -
  note e = eview_fields [OF assms(1)]
  note p = pview_reads [OF e(5) [OF assms(2)]]
  show c: "counts s' dp = counts s dp" using blocks_for_piece_cong [OF e(1-4)] by (simp add: counts_def)
  show n: "new_dl_state s' dp = new_dl_state s dp"
    unfolding new_dl_state_def Let_def p blocks_in_piece_def e(2-4) ..
  show "entry_ok s' dp = entry_ok s dp" unfolding entry_ok_def c n p ..
qed

lemma qview_queues:
  assumes "qview s' = qview s"
  shows "queues h s' = queues h s" "dps s' = dps s" "eview s' = eview s"
proof -
  have v: "m_downloads s' = m_downloads s" "m_free_block_infos s' = m_free_block_infos s" and ev: "eview s' = eview s"
    using assms by (simp_all add: qview_def)
  note e = eview_fields [OF ev]
  show "eview s' = eview s" by (rule ev)
  show d: "dps s' = dps s" by (simp add: dps_def v)
  have so: "slot_ok s' dp = slot_ok s dp" for dp unfolding slot_ok_def v e ..
  have po: "pool_ok s' = pool_ok s" unfolding pool_ok_def v e ..
  have pd: "i < num_pieces s \<Longrightarrow> downloading (pos_of s' i) = downloading (pos_of s i) \<and>
      download_queue (pos_of s' i) = download_queue (pos_of s i)" for i
    using pview_reads [OF e(5)] by blast
  show "queues h s' = queues h s"
    unfolding queues_def d v e(4) so po by (simp add: pd cong: conj_cong)
qed

lemma queues_dps_bound: "queues h s \<Longrightarrow> dp \<in> dps s \<Longrightarrow> dp_index dp < num_pieces s \<and> dp_index dp \<notin> h"
  using queuesD(2) by (fastforce simp: dps_def)

lemma qview_inv:
  assumes "qview s' = qview s"
  shows "queue_inv s' = queue_inv s" "queue_but x s' = queue_but x s"
proof -
  note q = qview_queues [OF assms]
  have "\<And>dp. queues {} s \<Longrightarrow> dp \<in> dps s \<Longrightarrow> entry_ok s' dp = entry_ok s dp"
    using entry_ok_eview(1) [OF q(3)] queues_dps_bound by blast
  then show "queue_inv s' = queue_inv s" "queue_but x s' = queue_but x s"
    unfolding queue_inv_def queue_but_def q(1,2) by auto
qed

lemma reordered_qview:
  assumes "reordered s s'" shows "qview s' = qview s"
proof -
  note r = reordered_fields [OF assms]
  have "map pview (m_piece_map s') = map pview (m_piece_map s)"
    using reordered_num [OF assms] reordered_pos [OF assms]
    by (simp add: list_eq_iff_nth_eq num_pieces_def pview_def)
  then show ?thesis using r by (simp add: qview_def eview_def)
qed

section \<open>Steps of the operations\<close>

text \<open>An entry changes its counts and flags.\<close>

lemma set_dp_dps:
  assumes "queues h s" and v: "valid_it it s" and f: "dp_index (f (deref it s)) = dp_index (deref it s)"
  shows "dps (set_dp it f s) = insert (f (deref it s)) {dp \<in> dps s. dp_index dp \<noteq> dp_index (deref it s)}"
proof -
  let ?q = "fst it" and ?dp = "deref it s"
  have m: "set ((m_downloads s ?q)[snd it := f ?dp]) = insert (f ?dp) {dp \<in> set (m_downloads s ?q). dp_index dp \<noteq> dp_index ?dp}"
    using update_at_set(1) [OF queuesD(1) [OF assms(1)], of "snd it" ?q] v f by (simp add: valid_it_def deref_def)
  have "?dp \<in> set (m_downloads s ?q)" using v by (simp add: valid_it_def deref_def)
  then have o: "q \<noteq> ?q \<Longrightarrow> dp \<in> set (m_downloads s q) \<Longrightarrow> dp_index dp \<noteq> dp_index ?dp" for q dp
    using queuesD(2) [OF assms(1)] by metis
  have e: "m_downloads (set_dp it f s) q = (if q = ?q then (m_downloads s ?q)[snd it := f ?dp] else m_downloads s q)" for q
    by (simp add: set_dp_def set_queue_def)
  have "{dp. \<exists>r. r \<noteq> ?q \<and> dp \<in> set (m_downloads (set_dp it f s) r)} = {dp. \<exists>r. r \<noteq> ?q \<and> dp \<in> set (m_downloads s r)}"
    by (auto simp: e)
  then show ?thesis unfolding dps_split [of _ ?q] using m o by (auto simp: e)
qed

lemma queues_set_dp:
  assumes q: "queues h s" and v: "valid_it it s"
    and f: "dp_index (f (deref it s)) = dp_index (deref it s)" "info_idx (f (deref it s)) = info_idx (deref it s)"
  shows "queues h (set_dp it f s)"
proof -
  let ?dp = "deref it s"
  note d = set_dp_dps [where f = f, OF q v f(1)]
  have e: "m_downloads (set_dp it f s) r = (if r = fst it then (m_downloads s (fst it))[snd it := f ?dp] else m_downloads s r)" for r
    by (simp add: set_dp_def set_queue_def)
  have u: "set ((m_downloads s (fst it))[snd it := f ?dp]) = insert (f ?dp) {dp \<in> set (m_downloads s (fst it)). dp_index dp \<noteq> dp_index ?dp}"
    "sorted_dps ((m_downloads s (fst it))[snd it := f ?dp])"
    using update_at_set [OF queuesD(1) [OF q], of "snd it" "fst it"] v f by (simp_all add: valid_it_def deref_def)
  have x: "?dp \<in> set (m_downloads s (fst it))" "?dp \<in> dps s" using v deref_dps [OF v] by (simp_all add: valid_it_def deref_def)
  have p: "slot_ok (set_dp it f s) dp = slot_ok s dp" "pool_ok (set_dp it f s) = pool_ok s" for dp
    by (simp_all add: slot_ok_def pool_ok_def set_dp_def set_queue_def)
  have so: "slot_ok s (f ?dp)" using queuesD(4) [OF q x(2)] f(2) by (simp add: slot_ok_def)
  have 1: "sorted_dps (m_downloads (set_dp it f s) r)" for r using u(2) queuesD(1) [OF q] by (simp add: e)
  have 2: "dp_index dp < num_pieces s \<and> dp_index dp \<notin> h \<and> downloading (pos_of s (dp_index dp)) \<and>
      download_queue (pos_of s (dp_index dp)) = r" if "dp \<in> set (m_downloads (set_dp it f s) r)" for dp r
    using that queuesD(2) [OF q] x(1) f(1) u(1) by (auto simp: e split: if_splits)
  have 3: "\<exists>dp \<in> dps (set_dp it f s). dp_index dp = i"
    if "i < num_pieces s" "downloading (pos_of s i)" "i \<notin> h" for i
    using queuesD(3) [OF q that] f(1) unfolding d by (cases "i = dp_index ?dp") auto
  have 4: "\<forall>dp \<in> dps (set_dp it f s). slot_ok s dp" using so queuesD(4) [OF q] unfolding d by auto
  have 5: "\<forall>dp \<in> dps (set_dp it f s). \<forall>dp' \<in> dps (set_dp it f s). info_idx dp = info_idx dp' \<longrightarrow> dp = dp'"
    using queuesD(5) [OF q] x(2) f(2) unfolding d by (auto; metis)
  show ?thesis unfolding queues_def p pos_simps using 1 2 3 4 5 queuesD(6) [OF q] by simp
qed

text \<open>A block of an entry changes.\<close>

lemma blocks_length [simp]: "length (blocks_for_piece s dp) = blocks_in_piece s (dp_index dp)"
  by (simp add: blocks_for_piece_def)

lemma blocks_nth [simp]:
  "j < blocks_in_piece s (dp_index dp) \<Longrightarrow> blocks_for_piece s dp ! j = m_block_info s ! block_slot s dp j"
  by (simp add: blocks_for_piece_def)

lemma blocks_in_piece_le: "pool_ok s \<Longrightarrow> blocks_in_piece s i \<le> m_blocks_per_piece s"
  by (simp add: blocks_in_piece_def pool_ok_def)

lemma block_slot_less:
  assumes "pool_ok s" "slot_ok s dp" "j < blocks_in_piece s i"
  shows "block_slot s dp j < length (m_block_info s)"
  using assms blocks_in_piece_le [OF assms(1), of i] by (simp add: block_slot_def slot_ok_def)

lemma block_slot_inj:
  assumes "pool_ok s" "j < blocks_in_piece s i" "j' < blocks_in_piece s i'" "block_slot s dp j = block_slot s dp' j'"
  shows "info_idx dp = info_idx dp' \<and> j = j'"
proof -
  have "j < m_blocks_per_piece s" "j' < m_blocks_per_piece s"
    using assms(2,3) blocks_in_piece_le [OF assms(1)] by (meson less_le_trans)+
  then have "info_idx dp = block_slot s dp j div m_blocks_per_piece s" "info_idx dp' = block_slot s dp' j' div m_blocks_per_piece s"
    by (simp_all add: block_slot_def)
  then show ?thesis using assms(4) by (simp add: block_slot_def)
qed

lemma set_block_simps [simp]:
  "m_downloads (set_block k f s) = m_downloads s" "m_free_block_infos (set_block k f s) = m_free_block_infos s"
  "m_blocks_per_piece (set_block k f s) = m_blocks_per_piece s"
  "m_blocks_in_last_piece (set_block k f s) = m_blocks_in_last_piece s"
  "length (m_block_info (set_block k f s)) = length (m_block_info s)" "dps (set_block k f s) = dps s"
  "block_slot (set_block k f s) dp j = block_slot s dp j" "blocks_in_piece (set_block k f s) i = blocks_in_piece s i"
  "new_dl_state (set_block k f s) dp = new_dl_state s dp"
  by (simp_all add: set_block_def dps_def block_slot_def blocks_in_piece_def num_pieces_def new_dl_state_def Let_def)

lemma set_block_info: "m_block_info (set_block k f s) = (m_block_info s)[k := f (m_block_info s ! k)]"
  by (simp add: set_block_def)

lemma set_dp_simps [simp]:
  "m_free_block_infos (set_dp it g s) = m_free_block_infos s" "m_block_info (set_dp it g s) = m_block_info s"
  "m_blocks_per_piece (set_dp it g s) = m_blocks_per_piece s"
  "m_blocks_in_last_piece (set_dp it g s) = m_blocks_in_last_piece s"
  "block_slot (set_dp it g s) dp j = block_slot s dp j" "blocks_in_piece (set_dp it g s) i = blocks_in_piece s i"
  "new_dl_state (set_dp it g s) dp = new_dl_state s dp" "blocks_for_piece (set_dp it g s) dp = blocks_for_piece s dp"
  "counts (set_dp it g s) dp = counts s dp" "entry_ok (set_dp it g s) dp = entry_ok s dp"
  by (simp_all add: set_dp_def set_queue_def block_slot_def blocks_in_piece_def num_pieces_def new_dl_state_def Let_def
      blocks_for_piece_def counts_def entry_ok_def)

lemma queues_set_block [simp]: "queues h (set_block k f s) = queues h s"
  by (simp add: queues_def slot_ok_def pool_ok_def)

lemma blocks_set_block:
  assumes q: "queues h s" and dp: "dp \<in> dps s" and j: "j < blocks_in_piece s (dp_index dp)"
  shows "blocks_for_piece (set_block (block_slot s dp j) f s) dp = (blocks_for_piece s dp)[j := f (blocks_for_piece s dp ! j)]"
    and "dp' \<in> dps s \<Longrightarrow> dp_index dp' \<noteq> dp_index dp \<Longrightarrow>
         blocks_for_piece (set_block (block_slot s dp j) f s) dp' = blocks_for_piece s dp'"
proof -
  have l: "block_slot s dp j < length (m_block_info s)"
    by (rule block_slot_less [OF queuesD(6) [OF q] queuesD(4) [OF q dp] j])
  note inj = block_slot_inj [OF queuesD(6) [OF q]]
  have "m_block_info (set_block (block_slot s dp j) f s) ! block_slot s dp i =
      (blocks_for_piece s dp)[j := f (blocks_for_piece s dp ! j)] ! i" if "i < blocks_in_piece s (dp_index dp)" for i
    using that l j inj [OF that j, of dp dp] by (auto simp: set_block_def nth_list_update)
  then show "blocks_for_piece (set_block (block_slot s dp j) f s) dp = (blocks_for_piece s dp)[j := f (blocks_for_piece s dp ! j)]"
    by (simp add: list_eq_iff_nth_eq)
  show "blocks_for_piece (set_block (block_slot s dp j) f s) dp' = blocks_for_piece s dp'"
    if d: "dp' \<in> dps s" "dp_index dp' \<noteq> dp_index dp"
  proof -
    have "info_idx dp' \<noteq> info_idx dp" using queuesD(5) [OF q d(1) dp] d(2) by auto
    then have "block_slot s dp j \<noteq> block_slot s dp' i" if "i < blocks_in_piece s (dp_index dp')" for i
      using inj [OF j that, of dp dp'] by auto
    then show ?thesis by (simp add: list_eq_iff_nth_eq set_block_info)
  qed
qed

text \<open>The change of one block and the counts.\<close>

lemma count_list_update:
  "j < length xs \<Longrightarrow>
   count_list (xs[j := y]) z + (if xs ! j = z then 1 else 0) = count_list xs z + (if y = z then 1 else 0)"
proof (induction xs arbitrary: j)
  case (Cons a xs)
  show ?case
  proof (cases j)
    case (Suc k)
    then show ?thesis using Cons.IH [of k] Cons.prems by (auto split: if_splits)
  qed simp
qed simp

text \<open>Taking an entry out of its queue and putting it into another.\<close>

lemma erased_queue:
  assumes q: "queues h s" and v: "valid_it it s"
  shows "set (m_downloads (set_queue (fst it) (erase_at (snd it) (m_downloads s (fst it))) s) r) =
      {dp \<in> set (m_downloads s r). dp_index dp \<noteq> dp_index (deref it s)}"
    and "sorted_dps (m_downloads (set_queue (fst it) (erase_at (snd it) (m_downloads s (fst it))) s) r)"
proof -
  have e: "set (erase_at (snd it) (m_downloads s (fst it))) =
      {dp \<in> set (m_downloads s (fst it)). dp_index dp \<noteq> dp_index (deref it s)}"
    "sorted_dps (erase_at (snd it) (m_downloads s (fst it)))"
    using erase_at_set [OF queuesD(1) [OF q], of "snd it" "fst it"] v by (simp_all add: valid_it_def deref_def)
  have "deref it s \<in> set (m_downloads s (fst it))" using v by (simp add: valid_it_def deref_def)
  then have "r \<noteq> fst it \<Longrightarrow> dp \<in> set (m_downloads s r) \<Longrightarrow> dp_index dp \<noteq> dp_index (deref it s)" for dp
    using queuesD(2) [OF q] by metis
  then show "set (m_downloads (set_queue (fst it) (erase_at (snd it) (m_downloads s (fst it))) s) r) =
      {dp \<in> set (m_downloads s r). dp_index dp \<noteq> dp_index (deref it s)}"
    using e(1) by (auto simp: set_queue_def)
  show "sorted_dps (m_downloads (set_queue (fst it) (erase_at (snd it) (m_downloads s (fst it))) s) r)"
    using e(2) queuesD(1) [OF q] by (simp add: set_queue_def)
qed

lemma inserted_queue:
  assumes "\<And>r. sorted_dps (m_downloads s r)" and "\<forall>dp' \<in> set (m_downloads s q). dp_index dp' \<noteq> dp_index dp"
  shows "set (m_downloads (set_queue q (insert_at (lower_bound (m_downloads s q) (dp_index dp)) dp (m_downloads s q)) s) r) =
      (if r = q then insert dp (set (m_downloads s r)) else set (m_downloads s r))"
    and "sorted_dps (m_downloads (set_queue q (insert_at (lower_bound (m_downloads s q) (dp_index dp)) dp (m_downloads s q)) s) r)"
  using insert_at_set [OF assms] assms(1) by (simp_all add: set_queue_def)

lemma valid_queue: "queues h s \<Longrightarrow> valid_it it s \<Longrightarrow> fst it = download_queue (pos_of s (dp_index (deref it s)))"
  using queuesD(2) [of h s "deref it s" "fst it"] by (simp add: valid_it_def deref_def)

lemma new_dl_state_idem:
  assumes "dp_index dp < num_pieces s" "st = new_dl_state s dp" "st \<noteq> piece_open"
  shows "new_dl_state (set_pos (dp_index dp) (\<lambda>p. p\<lparr>download_state := st\<rparr>) s) dp = st"
  using assms by (auto simp: new_dl_state_def Let_def blocks_in_piece_def set_pos_def num_pieces_def filtered_def reverse_pos_def
      split: if_splits)

lemma set_pos_fields [simp]:
  "m_downloads (set_pos x f s) = m_downloads s" "m_free_block_infos (set_pos x f s) = m_free_block_infos s"
  "m_block_info (set_pos x f s) = m_block_info s" "m_blocks_per_piece (set_pos x f s) = m_blocks_per_piece s"
  "m_blocks_in_last_piece (set_pos x f s) = m_blocks_in_last_piece s" "dps (set_pos x f s) = dps s"
  "slot_ok (set_pos x f s) = slot_ok s" "pool_ok (set_pos x f s) = pool_ok s"
  by (simp_all add: set_pos_def dps_def slot_ok_def pool_ok_def fun_eq_iff)

lemma set_queue_fields [simp]:
  "m_downloads (set_queue q ds s) = (m_downloads s)(q := ds)" "m_free_block_infos (set_queue q ds s) = m_free_block_infos s"
  "m_block_info (set_queue q ds s) = m_block_info s" "m_blocks_per_piece (set_queue q ds s) = m_blocks_per_piece s"
  "m_blocks_in_last_piece (set_queue q ds s) = m_blocks_in_last_piece s"
  "slot_ok (set_queue q ds s) = slot_ok s" "pool_ok (set_queue q ds s) = pool_ok s"
  by (simp_all add: set_queue_def slot_ok_def pool_ok_def fun_eq_iff)

lemma entry_ok_other:
  assumes "x < num_pieces s" "dp_index dp \<noteq> x"
  shows "entry_ok (set_pos x f s) dp = entry_ok s dp"
  using assms by (simp add: entry_ok_def counts_def blocks_for_piece_def block_slot_def new_dl_state_def Let_def
      blocks_in_piece_def)

lemma entry_ok_queue [simp]:
  "entry_ok (set_queue q ds s) dp = entry_ok s dp" "counts (set_queue q ds s) dp = counts s dp"
  "new_dl_state (set_queue q ds s) dp = new_dl_state s dp"
  by (simp_all add: entry_ok_def counts_def blocks_for_piece_def block_slot_def new_dl_state_def Let_def
      blocks_in_piece_def num_pieces_def set_queue_def)

lemma counts_set_pos [simp]: "counts (set_pos x f s) dp = counts s dp"
  by (simp add: counts_def blocks_for_piece_def block_slot_def blocks_in_piece_def)

text \<open>A change of state moves the entry to the queue of the new state.\<close>

lemma moved:
  assumes q: "queue_but x s" and v: "valid_it it s" and dp: "deref it s = dp" "dp_index dp = x"
    and st: "st \<noteq> piece_open" and s1: "s1 = set_queue (fst it) (erase_at (snd it) (m_downloads s (fst it))) s"
    and s2: "s2 = set_pos x (\<lambda>p. p\<lparr>download_state := st\<rparr>) s1" and q': "q' = download_queue (pos_of s2 x)"
    and s3: "s3 = set_queue q' (insert_at (lower_bound (m_downloads s2 q') x) dp (m_downloads s2 q')) s2"
  shows "queue_but x s3" "dps s3 = dps s" "deref (q', lower_bound (m_downloads s2 q') x) s3 = dp"
    "valid_it (q', lower_bound (m_downloads s2 q') x) s3"
proof -
  have Q: "queues {} s" and ok: "\<And>dp. dp \<in> dps s \<Longrightarrow> dp_index dp \<noteq> x \<Longrightarrow> entry_ok s dp"
    using q by (auto simp: queue_but_def)
  have dpm: "dp \<in> dps s" using deref_dps [OF v] dp by simp
  have x: "x < num_pieces s" using queues_dps_bound [OF Q dpm] dp by simp
  have m2: "m_downloads s2 = m_downloads s1" by (simp add: s2)
  have e: "set (m_downloads s2 r) = {dp \<in> set (m_downloads s r). dp_index dp \<noteq> x}" "sorted_dps (m_downloads s2 r)" for r
    unfolding m2 using erased_queue [OF Q v, of r] dp unfolding s1 [symmetric] by simp_all
  have i: "set (m_downloads s3 r) = (if r = q' then insert dp (set (m_downloads s2 r)) else set (m_downloads s2 r))"
    "sorted_dps (m_downloads s3 r)" for r
    using inserted_queue [of s2 q' dp r] e unfolding s3 dp(2) by auto
  have "dps s2 = {dp \<in> dps s. dp_index dp \<noteq> x}" unfolding dps_def e by blast
  moreover have "dps s3 = insert dp (dps s2)"
  proof -
    have "{dp. \<exists>r. r \<noteq> q' \<and> dp \<in> set (m_downloads s3 r)} = {dp. \<exists>r. r \<noteq> q' \<and> dp \<in> set (m_downloads s2 r)}"
      by (rule Collect_cong) (metis i(1))
    then show ?thesis unfolding dps_split [of _ q'] by (simp add: i(1))
  qed
  ultimately have d: "dps s3 = insert dp {dp \<in> dps s. dp_index dp \<noteq> x}" by simp
  have "dp' \<in> dps s \<Longrightarrow> dp_index dp' = x \<Longrightarrow> dp' = dp" for dp' by (metis dp(2) dps_unique dpm Q)
  then show ds: "dps s3 = dps s" unfolding d using dpm by blast
  have ps: "pos_of s3 j = (if j = x then (pos_of s x)\<lparr>download_state := st\<rparr> else pos_of s j)" for j
    using x by (simp add: s3 s2 s1)
  have n: "num_pieces s3 = num_pieces s" "slot_ok s3 = slot_ok s" "pool_ok s3 = pool_ok s"
    by (simp_all add: s3 s2 s1)
  have q'x: "download_queue ((pos_of s x)\<lparr>download_state := st\<rparr>) = q'" using x by (simp add: q' s2 s1)
  have "queues {} s3"
    unfolding queues_def ds n
  proof (intro conjI)
    show "\<forall>q. \<forall>dp\<in>set (m_downloads s3 q). dp_index dp < num_pieces s \<and> dp_index dp \<notin> {} \<and>
        downloading (pos_of s3 (dp_index dp)) \<and> download_queue (pos_of s3 (dp_index dp)) = q"
      using queuesD(2) [OF Q] x st q'x dp(2) unfolding i e ps by (auto simp: downloading_def)
    show "\<forall>i<num_pieces s. downloading (pos_of s3 i) \<and> i \<notin> {} \<longrightarrow> (\<exists>dp\<in>dps s. dp_index dp = i)"
      using queuesD(3) [OF Q] dpm dp(2) unfolding ps by auto
  qed (use i(2) queuesD(4-6) [OF Q] in blast)+
  moreover have "entry_ok s3 dp'" if "dp' \<in> dps s" "dp_index dp' \<noteq> x" for dp'
    using ok [OF that] entry_ok_other [of x s1 dp'] x that by (simp add: s3 s2 s1)
  ultimately show "queue_but x s3" by (simp add: queue_but_def ds)
  show "deref (q', lower_bound (m_downloads s2 q') x) s3 = dp"  "valid_it (q', lower_bound (m_downloads s2 q') x) s3"
    using insert_at_nth [OF lower_bound_le, of "m_downloads s2 q'" x dp] by (simp_all add: s3 deref_def valid_it_def)
qed

text \<open>
  \<open>cview s\<close>: the counters and cursors, and what of the pieces they depend on.
  \<open>same_blocks s s'\<close>: these and the block pool are unchanged; of the pieces only the download state and the
  position in the list may differ.
\<close>

definition cview :: "piece_picker \<Rightarrow> (nat \<Rightarrow> nat option) \<times> int \<times> int \<times> int \<times> int \<times> int \<times> int \<times> int \<times> nat \<times> nat \<times> (bool \<times> nat) list" where
  "cview s = (m_pads_in_piece s, m_num_pad_blocks s, m_have_pad_blocks s, m_filtered_pad_blocks s, m_have_filtered_pad_blocks s,
     m_num_filtered s, m_num_have_filtered s, m_num_have s, m_cursor s, m_reverse_cursor s,
     map (\<lambda>p. (have_pos p, piece_priority p)) (m_piece_map s))"

definition same_blocks :: "piece_picker \<Rightarrow> piece_picker \<Rightarrow> bool" where
  "same_blocks s s' \<longleftrightarrow> cview s' = cview s \<and> m_block_info s' = m_block_info s \<and>
     m_blocks_per_piece s' = m_blocks_per_piece s \<and> m_blocks_in_last_piece s' = m_blocks_in_last_piece s \<and>
     m_pad_blocks s' = m_pad_blocks s \<and> num_pieces s' = num_pieces s \<and>
     (\<forall>i < num_pieces s. piece_priority (pos_of s' i) = piece_priority (pos_of s i) \<and>
        have_pos (pos_of s' i) = have_pos (pos_of s i))"

lemma same_blocks_refl [simp]: "same_blocks s s"
  by (simp add: same_blocks_def)

lemma same_blocks_trans [trans]: "same_blocks s s' \<Longrightarrow> same_blocks s' s'' \<Longrightarrow> same_blocks s s''"
  by (simp add: same_blocks_def)

lemma reordered_same_blocks:
  assumes "reordered s s'" shows "same_blocks s s'"
proof -
  note r = reordered_fields [OF assms] reordered_num [OF assms] reordered_pos [OF assms]
  have "map (\<lambda>p. (have_pos p, piece_priority p)) (m_piece_map s') = map (\<lambda>p. (have_pos p, piece_priority p)) (m_piece_map s)"
    using r by (simp add: list_eq_iff_nth_eq num_pieces_def)
  then show ?thesis using r by (simp add: same_blocks_def cview_def)
qed

lemma same_blocks_reads:
  assumes "same_blocks s s'"
  shows "blocks_for_piece s' dp = blocks_for_piece s dp" "counts s' dp = counts s dp"
    "blocks_in_piece s' i = blocks_in_piece s i" "block_slot s' dp j = block_slot s dp j" "num_pieces s' = num_pieces s"
    "m_block_info s' = m_block_info s" "cview s' = cview s"
  using assms by (simp_all add: same_blocks_def blocks_for_piece_def block_slot_def blocks_in_piece_def counts_def)

lemma map_update_same: "g y = g (xs ! i) \<Longrightarrow> map g (xs[i := y]) = map g xs"
  by (metis list_update_id map_update)

lemma cview_fields [simp]:
  "cview (s\<lparr>m_free_block_infos := v0\<rparr>) = cview s" "cview (s\<lparr>m_block_info := v1\<rparr>) = cview s"
  "cview (s\<lparr>m_num_passed := v2\<rparr>) = cview s" "cview (s\<lparr>m_recent_extents := v3\<rparr>) = cview s"
  "cview (s\<lparr>m_dirty := v4\<rparr>) = cview s" "cview (s\<lparr>m_seeds := v5\<rparr>) = cview s"
  "cview (set_queue q ds s) = cview s" "cview (set_dp it g s) = cview s" "cview (set_block k h s) = cview s"
  by (simp_all add: cview_def set_queue_def set_dp_def set_block_def)

lemma cview_set_pos:
  "piece_priority (f (pos_of s x)) = piece_priority (pos_of s x) \<Longrightarrow>
   have_pos (f (pos_of s x)) = have_pos (pos_of s x) \<Longrightarrow> cview (set_pos x f s) = cview s"
  by (simp add: cview_def set_pos_def map_update_same)

lemma same_blocks_steps [simp]:
  "same_blocks s (set_queue q ds s)" "same_blocks s (set_dp it g s)"
  "piece_priority (f (pos_of s x)) = piece_priority (pos_of s x) \<Longrightarrow>
   have_pos (f (pos_of s x)) = have_pos (pos_of s x) \<Longrightarrow> same_blocks s (set_pos x f s)"
  by (simp_all add: same_blocks_def cview_set_pos)
    (simp_all add: set_queue_def set_dp_def set_pos_def num_pieces_def, metis nth_list_update_eq nth_list_update_neq)

lemma have_pos_state [simp]: "have_pos (p\<lparr>download_state := st\<rparr>) = have_pos p"
  by (simp add: have_pos_def)

lemma new_dl_state_open: "new_dl_state s dp = piece_open \<Longrightarrow> busy dp = 0"
  by (auto simp: new_dl_state_def busy_def Let_def split: if_splits)

lemma update_piece_state_queue:
  assumes q: "queue_but x s" and pi: "pieces_inv s" and v: "valid_it it s" and dp: "deref it s = dp" "dp_index dp = x"
    and c: "counts s dp" and u: "update_piece_state it s = (it', s')"
  shows "queue_but x s'" "dps s' = dps s" "same_blocks s s'" "0 < busy dp \<Longrightarrow> queue_inv s'"
    "pieces_inv s'" "deref it' s' = dp" "valid_it it' s'"
proof -
  have Q: "queues {} s" using q by (simp add: queue_but_def)
  have x: "x < num_pieces s" using queues_dps_bound [OF Q deref_dps [OF v]] dp by simp
  let ?p = "pos_of s x" and ?new = "new_dl_state s dp"
  have op: "download_state ?p \<noteq> piece_open" using queuesD(2) [OF Q, of dp "fst it"] v dp
    by (metis deref_def downloading_def nth_mem valid_it_def)
  show "pieces_inv s'" "deref it' s' = dp" "valid_it it' s'"
    using update_piece_state_ok [OF pi v _ u] dp x by simp_all
  have "queue_but x s' \<and> dps s' = dps s \<and> same_blocks s s' \<and> (0 < busy dp \<longrightarrow> entry_ok s' dp)"
  proof (cases "?new = download_state ?p \<or> ?new = piece_open")
    case True
    then have "update_piece_state it s = (it, s)" unfolding update_piece_state_def Let_def dp by presburger
    then have "s' = s" using u by simp
    then show ?thesis using q c True new_dl_state_open [of s dp] dp(2) by (auto simp: entry_ok_def)
  next
    case False
    have f: "download_queue ?p = fst it" using valid_queue [OF Q v] dp by simp
    define s1 where "s1 = set_queue (fst it) (erase_at (snd it) (m_downloads s (fst it))) s"
    define s2 where "s2 = set_pos x (\<lambda>p. p\<lparr>download_state := ?new\<rparr>) s1"
    define q' where "q' = download_queue (pos_of s2 x)"
    define s3 where "s3 = set_queue q' (insert_at (lower_bound (m_downloads s2 q') x) dp (m_downloads s2 q')) s2"
    note m = moved [OF q v dp _ s1_def s2_def q'_def s3_def]
    have s': "s' = follow (prio_of s1 x) x s3"
      using u False op unfolding update_piece_state_def Let_def s1_def s2_def q'_def s3_def dp f by auto
    have "changed x (prio_of s1 x) s2"
      unfolding s2_def by (rule set_state_changed) (use pi pieces_inv_core [of s1 s] x in \<open>simp_all add: s1_def\<close>)
    then have "changed x (prio_of s1 x) s3" using changed_core [of s3 s2] by (simp add: s3_def)
    then have r: "reordered s3 s'" unfolding s' by (rule changed_follow(2))
    note v3 = reordered_qview [OF r]
    have "same_blocks s s2" unfolding s2_def
      by (rule same_blocks_trans [of _ s1]) (simp_all add: s1_def)
    then have sb: "same_blocks s s'"
      using same_blocks_trans reordered_same_blocks [OF r] same_blocks_steps(1) unfolding s3_def by blast
    have "download_state (pos_of s3 x) = ?new" using x by (simp add: s3_def s2_def s1_def)
    moreover have "new_dl_state s3 dp = ?new"
      using new_dl_state_idem [of dp s1 ?new] x False dp(2) by (simp add: s3_def s2_def s1_def)
    ultimately have "0 < busy dp \<longrightarrow> entry_ok s3 dp"
      using c dp(2) by (simp add: entry_ok_def s3_def s2_def s1_def)
    then have "0 < busy dp \<longrightarrow> entry_ok s' dp"
      using entry_ok_eview(1) [OF qview_queues(3) [OF v3]] x dp(2) by (simp add: s3_def s2_def s1_def)
    then show ?thesis using m False qview_inv(2) [OF v3] qview_queues(2) [OF v3] sb by simp
  qed
  then show r: "queue_but x s'" "dps s' = dps s" "same_blocks s s'" and "0 < busy dp \<Longrightarrow> queue_inv s'"
  proof -
    assume "queue_but x s' \<and> dps s' = dps s \<and> same_blocks s s' \<and> (0 < busy dp \<longrightarrow> entry_ok s' dp)" "0 < busy dp"
    moreover have "dp' = dp" if "dp' \<in> dps s" "dp_index dp' = x" for dp'
      by (metis Q deref_dps dp dps_unique that v)
    ultimately show "queue_inv s'" by (auto simp: queue_inv_def queue_but_def)
  qed auto
qed

text \<open>An entry is erased: its slot becomes free and the piece is open again.\<close>

lemma erase_queue:
  assumes q: "queue_but x s" and v: "valid_it it s" and dp: "dp_index (deref it s) = x"
  shows "queue_inv (erase_download_piece it s)" "dps (erase_download_piece it s) = {dp \<in> dps s. dp_index dp \<noteq> x}"
    "same_blocks s (erase_download_piece it s)"
proof -
  let ?dp = "deref it s"
  have Q: "queues {} s" and ok: "\<And>dp. dp \<in> dps s \<Longrightarrow> dp_index dp \<noteq> x \<Longrightarrow> entry_ok s dp"
    using q by (auto simp: queue_but_def)
  have dpm: "?dp \<in> dps s" using v by simp
  have x: "x < num_pieces s" using queues_dps_bound [OF Q dpm] dp by simp
  define s1 where "s1 = set_queue (fst it) (erase_at (snd it) (m_downloads s (fst it))) s"
  define s2 where "s2 = set_pos x (\<lambda>p. p\<lparr>download_state := piece_open\<rparr>) s1"
  have f: "download_queue (pos_of s x) = fst it" using valid_queue [OF Q v] dp by simp
  have E: "erase_download_piece it s = s2\<lparr>m_free_block_infos := m_free_block_infos s @ [info_idx ?dp]\<rparr>" (is "_ = ?s'")
    unfolding erase_download_piece_def Let_def s2_def s1_def dp f by (simp add: set_pos_def set_queue_def)
  have e: "set (m_downloads s2 r) = {dp \<in> set (m_downloads s r). dp_index dp \<noteq> x}" "sorted_dps (m_downloads s2 r)" for r
    using erased_queue [OF Q v, of r] dp unfolding s1_def [symmetric] by (simp_all add: s2_def)
  have d: "dps ?s' = {dp \<in> dps s. dp_index dp \<noteq> x}" unfolding dps_def using e(1) by auto
  show "dps (erase_download_piece it s) = {dp \<in> dps s. dp_index dp \<noteq> x}" unfolding E by (rule d)
  have ps: "pos_of ?s' j = (if j = x then (pos_of s x)\<lparr>download_state := piece_open\<rparr> else pos_of s j)" for j
    using x by (simp add: s2_def s1_def)
  have b: "m_block_info ?s' = m_block_info s" "m_blocks_per_piece ?s' = m_blocks_per_piece s" "num_pieces ?s' = num_pieces s"
    "m_blocks_in_last_piece ?s' = m_blocks_in_last_piece s" by (simp_all add: s2_def s1_def num_pieces_def set_pos_def set_queue_def)
  have sb: "same_blocks s s2" unfolding s2_def by (rule same_blocks_trans [of _ s1]) (simp_all add: s1_def)
  then show "same_blocks s (erase_download_piece it s)" unfolding E by (simp add: same_blocks_def num_pieces_def)
  have so: "slot_ok s ?dp" by (rule queuesD(4) [OF Q dpm])
  have "queues {} ?s'"
    unfolding queues_def d b
  proof (intro conjI)
    show "\<forall>q. sorted_dps (m_downloads ?s' q)" using e(2) by simp
    show "\<forall>q. \<forall>dp\<in>set (m_downloads ?s' q). dp_index dp < num_pieces s \<and> dp_index dp \<notin> {} \<and>
        downloading (pos_of ?s' (dp_index dp)) \<and> download_queue (pos_of ?s' (dp_index dp)) = q"
      using queuesD(2) [OF Q] e(1) unfolding ps by auto
    show "\<forall>i<num_pieces s. downloading (pos_of ?s' i) \<and> i \<notin> {} \<longrightarrow> (\<exists>dp\<in>{dp \<in> dps s. dp_index dp \<noteq> x}. dp_index dp = i)"
      using queuesD(3) [OF Q] unfolding ps by (auto simp: downloading_def)
    show "\<forall>dp\<in>{dp \<in> dps s. dp_index dp \<noteq> x}. slot_ok ?s' dp"
      using queuesD(4,5) [OF Q] dpm dp unfolding slot_ok_def b by auto
    show "\<forall>dp\<in>{dp \<in> dps s. dp_index dp \<noteq> x}. \<forall>dp'\<in>{dp \<in> dps s. dp_index dp \<noteq> x}. info_idx dp = info_idx dp' \<longrightarrow> dp = dp'"
      using queuesD(5) [OF Q] by blast
    show "pool_ok ?s'"
      using queuesD(6) [OF Q] so unfolding pool_ok_def slot_ok_def b by auto
  qed
  moreover have "entry_ok ?s' dp'" if "dp' \<in> dps s" "dp_index dp' \<noteq> x" for dp'
    using ok [OF that] entry_ok_other [of x s1 dp'] x that
      entry_ok_eview(1) [of ?s' s2 dp'] queues_dps_bound [OF Q that(1)]
    by (simp add: eview_def s2_def s1_def)
  ultimately show "queue_inv (erase_download_piece it s)" unfolding E queue_inv_def d by blast
qed

text \<open>A new entry: a free range of the pool, initialised with the pad blocks finished.\<close>

lemma init_blocks_nth:
  "slot + length pads \<le> length bis \<Longrightarrow> init_blocks slot pads bis ! i =
     (if slot \<le> i \<and> i < slot + length pads then init_block (pads ! (i - slot)) else bis ! i)"
proof (induction slot pads bis rule: init_blocks.induct)
  case (2 slot pad pads bis)
  then show ?case by (auto simp: nth_list_update nth_Cons' Suc_diff_le not_less_eq_eq)
qed auto

lemma length_init_blocks [simp]: "length (init_blocks slot pads bis) = length bis"
  by (induction slot pads bis rule: init_blocks.induct) auto

lemma alloc_blocks_ok:
  assumes Q: "queues h s" and a: "alloc_blocks s = (k, s1)"
  shows "pool_ok s1" "k \<notin> set (m_free_block_infos s1)" "(k + 1) * m_blocks_per_piece s \<le> length (m_block_info s1)"
    "\<And>dp. dp \<in> dps s \<Longrightarrow> slot_ok s1 dp \<and> info_idx dp \<noteq> k"
    "i < length (m_block_info s) \<Longrightarrow> m_block_info s1 ! i = m_block_info s ! i"
    "length (m_block_info s) \<le> length (m_block_info s1)"
    "\<exists>bis fr. s1 = s\<lparr>m_block_info := bis, m_free_block_infos := fr\<rparr>"
proof -
  let ?n = "length (m_block_info s)" and ?b = "m_blocks_per_piece s" and ?fr = "m_free_block_infos s"
  have P: "pool_ok s" and so: "\<And>dp. dp \<in> dps s \<Longrightarrow> slot_ok s dp" using queuesD [OF Q] by auto
  have b0: "0 < ?b" and dv: "?n div ?b * ?b = ?n" using P by (auto simp: pool_ok_def)
  have "pool_ok s1 \<and> k \<notin> set (m_free_block_infos s1) \<and> (k + 1) * ?b \<le> length (m_block_info s1) \<and>
    (\<forall>dp \<in> dps s. slot_ok s1 dp \<and> info_idx dp \<noteq> k) \<and> (i < ?n \<longrightarrow> m_block_info s1 ! i = m_block_info s ! i) \<and>
    ?n \<le> length (m_block_info s1) \<and> (\<exists>bis fr. s1 = s\<lparr>m_block_info := bis, m_free_block_infos := fr\<rparr>)"
  proof (cases "?fr = []")
    case True
    then have k: "k = ?n div ?b" and s1: "s1 = s\<lparr>m_block_info := m_block_info s @ replicate ?b default_block\<rparr>"
      using a by (auto simp: alloc_blocks_def)
    have "info_idx dp \<noteq> k" if "dp \<in> dps s" for dp
      using so [OF that] dv b0 unfolding slot_ok_def k by (metis add_mult_distrib linorder_not_less mult_1 less_add_same_cancel1)
    moreover have "info_idx dp * ?b \<le> ?n" if "dp \<in> dps s" for dp
      using so [OF that] by (simp add: slot_ok_def)
    ultimately show ?thesis using P so dv True
      by (auto simp: s1 k pool_ok_def slot_ok_def nth_append distrib_right mod_add_self2
          intro!: exI [of _ "m_block_info s @ replicate ?b default_block"] exI [of _ ?fr])
  next
    case False
    then have k: "k = last ?fr" and s1: "s1 = s\<lparr>m_free_block_infos := butlast ?fr\<rparr>"
      using a by (auto simp: alloc_blocks_def)
    obtain ys where ys: "?fr = ys @ [k]" using False k by (metis append_butlast_last_id)
    then have s1': "s1 = s\<lparr>m_block_info := m_block_info s, m_free_block_infos := ys\<rparr>" by (simp add: s1)
    have "pool_ok s1" "k \<notin> set ys" "(k + 1) * ?b \<le> ?n" using P by (auto simp: s1' pool_ok_def ys)
    moreover have "slot_ok s1 dp \<and> info_idx dp \<noteq> k" if "dp \<in> dps s" for dp
      using so [OF that] by (simp add: s1' slot_ok_def ys)
    moreover have "\<exists>bis fr. s1 = s\<lparr>m_block_info := bis, m_free_block_infos := fr\<rparr>" using s1' by blast
    ultimately show ?thesis by (simp add: s1')
  qed
  then show "pool_ok s1" "k \<notin> set (m_free_block_infos s1)" "(k + 1) * m_blocks_per_piece s \<le> length (m_block_info s1)"
    "\<And>dp. dp \<in> dps s \<Longrightarrow> slot_ok s1 dp \<and> info_idx dp \<noteq> k"
    "i < length (m_block_info s) \<Longrightarrow> m_block_info s1 ! i = m_block_info s ! i"
    "length (m_block_info s) \<le> length (m_block_info s1)"
    "\<exists>bis fr. s1 = s\<lparr>m_block_info := bis, m_free_block_infos := fr\<rparr>" by blast+
qed

lemma count_init:
  "count_list (map (bi_state \<circ> init_block) pads) state_finished = length (filter id pads)"
  "count_list (map (bi_state \<circ> init_block) pads) state_requested = 0"
  "count_list (map (bi_state \<circ> init_block) pads) state_writing = 0"
  by (induction pads) (auto simp: init_block_def)

lemma new_dl_state_cong:
  "pos_of s' (dp_index dp) = pos_of s (dp_index dp) \<Longrightarrow> blocks_in_piece s' (dp_index dp) = blocks_in_piece s (dp_index dp) \<Longrightarrow>
   new_dl_state s' dp = new_dl_state s dp"
  by (simp add: new_dl_state_def)

lemma add_download_piece_queue:
  assumes Q: "queues {x} s" and ok: "\<And>dp. dp \<in> dps s \<Longrightarrow> entry_ok s dp" and pi: "pieces_inv s"
    and x: "x < num_pieces s" "download_queue (pos_of s x) = piece_downloading"
    and r: "add_download_piece x s = (it, s')"
  obtains "queue_but x s'" "pieces_inv s'" "valid_it it s'" "dp_index (deref it s') = x"
    "dps s' = insert (deref it s') (dps s)" "counts s' (deref it s')" "0 < busy (deref it s') \<Longrightarrow> queue_inv s'"
    "blocks_for_piece s' (deref it s') = map (init_block \<circ> is_pad s x) [0..<blocks_in_piece s x]"
    "\<not> passed_hash_check (deref it s')" "\<not> locked (deref it s')"
    "\<And>dp. dp \<in> dps s \<Longrightarrow> blocks_for_piece s' dp = blocks_for_piece s dp"
    "num_pieces s' = num_pieces s" "blocks_in_piece s' x = blocks_in_piece s x" "cview s' = cview s"
proof -
  obtain k s1 where a: "alloc_blocks s = (k, s1)" by fastforce
  note A = alloc_blocks_ok [OF Q a]
  obtain bis fr where s1: "s1 = s\<lparr>m_block_info := bis, m_free_block_infos := fr\<rparr>" using A(7) by blast
  define pads where "pads = map (is_pad s x) [0..<blocks_in_piece s x]"
  define dp where "dp = \<lparr>dp_index = x, info_idx = k, finished = length (filter id pads),
                passed_hash_check = False, writing = 0, locked = False, requested = 0\<rparr>"
  define s2 where "s2 = s\<lparr>m_free_block_infos := fr, m_block_info := init_blocks (k * m_blocks_per_piece s) pads bis\<rparr>"
  define i where "i = lower_bound (m_downloads s2 piece_downloading) x"
  define s3 where "s3 = set_queue piece_downloading (insert_at i dp (m_downloads s2 piece_downloading)) s2"
  have p1: "is_pad s1 x = is_pad s x" "blocks_in_piece s1 x = blocks_in_piece s x"
    by (simp_all add: s1 is_pad_def fun_eq_iff blocks_in_piece_def num_pieces_def)
  have u: "update_piece_state (piece_downloading, i) s3 = (it, s')"
    using r a p1 unfolding add_download_piece_def Let_def i_def pads_def dp_def s2_def s3_def
    by (simp add: s1)
  have n2: "num_pieces s2 = num_pieces s" "m_downloads s2 = m_downloads s" "dps s2 = dps s" "pos_of s2 = pos_of s"
    "m_blocks_per_piece s2 = m_blocks_per_piece s" "m_free_block_infos s2 = fr" "length (m_block_info s2) = length bis"
    "blocks_in_piece s2 = blocks_in_piece s" "block_slot s2 = block_slot s"
    by (simp_all add: s2_def num_pieces_def dps_def blocks_in_piece_def block_slot_def fun_eq_iff)
  have P: "pool_ok s" by (rule queuesD(6) [OF Q])
  have pl: "length pads \<le> m_blocks_per_piece s" using blocks_in_piece_le [OF P] by (simp add: pads_def)
  have kb: "k * m_blocks_per_piece s + length pads \<le> length bis" using A(3) pl by (simp add: s1)
  have b2: "m_block_info s2 ! j = (if k * m_blocks_per_piece s \<le> j \<and> j < k * m_blocks_per_piece s + length pads
      then init_block (pads ! (j - k * m_blocks_per_piece s)) else bis ! j)" for j
    using init_blocks_nth [OF kb] by (simp add: s2_def)
  have new: "blocks_for_piece s2 dp = map (init_block \<circ> is_pad s x) [0..<blocks_in_piece s x]"
    by (simp add: list_eq_iff_nth_eq n2 b2 dp_def block_slot_def pads_def)
  have old: "blocks_for_piece s2 dp' = blocks_for_piece s dp'" if d: "dp' \<in> dps s" for dp'
  proof -
    have so: "slot_ok s dp'" and ne: "info_idx dp' \<noteq> k" using queuesD(4) [OF Q d] A(4) [OF d] by auto
    have "m_block_info s2 ! block_slot s dp' j = m_block_info s ! block_slot s dp' j" if j: "j < blocks_in_piece s (dp_index dp')" for j
    proof -
      have "block_slot s dp' j < length (m_block_info s)" by (rule block_slot_less [OF P so j])
      moreover have "\<not> (k * m_blocks_per_piece s \<le> block_slot s dp' j \<and> block_slot s dp' j < k * m_blocks_per_piece s + length pads)"
      proof
        assume h: "k * m_blocks_per_piece s \<le> block_slot s dp' j \<and> block_slot s dp' j < k * m_blocks_per_piece s + length pads"
        then obtain m where m: "block_slot s dp' j = block_slot s dp m" "m < blocks_in_piece s x"
          using that by (auto simp: block_slot_def dp_def pads_def le_iff_add)
        from block_slot_inj [OF P j m(2) m(1)] ne show False by (simp add: dp_def)
      qed
      ultimately show ?thesis using A(5) b2 by (auto simp: s1)
    qed
    then show ?thesis by (simp add: list_eq_iff_nth_eq n2)
  qed
  have no_x: "\<forall>dp' \<in> set (m_downloads s2 piece_downloading). dp_index dp' \<noteq> dp_index dp"
    using queuesD(2) [OF Q] by (auto simp: n2 dp_def)
  have ins: "set (m_downloads s3 r) = (if r = piece_downloading then insert dp (set (m_downloads s r)) else set (m_downloads s r))"
    "sorted_dps (m_downloads s3 r)" for r
    using inserted_queue [OF _ no_x, of r] queuesD(1) [OF Q] by (simp_all add: s3_def i_def n2 dp_def)
  have d3: "dps s3 = insert dp (dps s)"
  proof -
    have "{dp. \<exists>r. r \<noteq> piece_downloading \<and> dp \<in> set (m_downloads s3 r)} = {dp. \<exists>r. r \<noteq> piece_downloading \<and> dp \<in> set (m_downloads s r)}"
      by (rule Collect_cong) (metis ins(1))
    then show ?thesis unfolding dps_split [of _ piece_downloading] by (simp add: ins(1))
  qed
  have f3: "num_pieces s3 = num_pieces s" "pos_of s3 = pos_of s" "slot_ok s3 = slot_ok s2" "pool_ok s3 = pool_ok s2"
    "\<And>dp. blocks_for_piece s3 dp = blocks_for_piece s2 dp"
    using n2 by (simp_all add: s3_def same_blocks_reads(1) [OF same_blocks_steps(1)])
  have dl: "downloading (pos_of s x)" using x(2) by (auto simp: downloading_def download_queue_def)
  have so3: "slot_ok s2 dp'" if "dp' \<in> insert dp (dps s)" for dp'
    using that A(2-4) n2 by (auto simp: slot_ok_def dp_def s1)
  have "pool_ok s2" using A(1) n2 by (simp add: pool_ok_def s1 s2_def)
  then have Q3: "queues {} s3"
    unfolding queues_def d3 f3
  proof (intro conjI)
    show "\<forall>q. sorted_dps (m_downloads s3 q)" using ins(2) by blast
    show "\<forall>q. \<forall>dp\<in>set (m_downloads s3 q). dp_index dp < num_pieces s \<and> dp_index dp \<notin> {} \<and>
        downloading (pos_of s (dp_index dp)) \<and> download_queue (pos_of s (dp_index dp)) = q"
      using queuesD(2) [OF Q] x dl unfolding ins(1) by (auto simp: dp_def)
    show "\<forall>i<num_pieces s. downloading (pos_of s i) \<and> i \<notin> {} \<longrightarrow> (\<exists>dp\<in>insert dp (dps s). dp_index dp = i)"
      using queuesD(3) [OF Q] by (auto simp: dp_def)
    show "\<forall>dp\<in>insert dp (dps s). slot_ok s2 dp" using so3 by blast
    show "\<forall>dpa\<in>insert dp (dps s). \<forall>dp'\<in>insert dp (dps s). info_idx dpa = info_idx dp' \<longrightarrow> dpa = dp'"
      using queuesD(5) [OF Q] A(4) by (auto simp: dp_def)
  qed
  have bp3: "blocks_in_piece s3 = blocks_in_piece s2"
    unfolding s3_def fun_eq_iff by (simp add: same_blocks_reads(3) [OF same_blocks_steps(1)])
  have e3: "entry_ok s3 dp'" if "dp' \<in> dps s" for dp'
    using ok [OF that] old [OF that] new_dl_state_cong [of s3 dp' s] f3 n2(8)
    by (simp add: entry_ok_def counts_def bp3)
  have xn: "dp_index dp' \<noteq> x" if "dp' \<in> dps s" for dp' using queues_dps_bound [OF Q that] by simp
  have qb: "queue_but x s3" using Q3 e3 by (auto simp: queue_but_def d3 dp_def)
  have "i \<le> length (m_downloads s2 piece_downloading)" unfolding i_def by (rule lower_bound_le)
  from insert_at_nth [OF this, of dp] have v3: "deref (piece_downloading, i) s3 = dp" "valid_it (piece_downloading, i) s3"
    by (simp_all add: s3_def deref_def valid_it_def)
  have c3: "counts s3 dp"
    using new count_init [of pads] by (simp add: counts_def f3 pads_def map_map [symmetric] o_assoc del: map_map)
      (simp add: dp_def pads_def comp_def)
  have "core s3 = core s" by (simp add: s3_def s2_def core_def set_queue_def)
  then have pi3: "pieces_inv s3" using pi pieces_inv_core by blast
  have dx: "dp_index dp = x" by (simp add: dp_def)
  note U = update_piece_state_queue [OF qb pi3 v3(2,1) dx c3 u]
  note B = same_blocks_reads [OF U(3)]
  show thesis
  proof (rule that)
    show "queue_but x s'" "pieces_inv s'" "valid_it it s'" by (rule U)+
    show "dp_index (deref it s') = x" "\<not> passed_hash_check (deref it s')" "\<not> locked (deref it s')"
      by (simp_all add: U(6) dp_def)
    show "dps s' = insert (deref it s') (dps s)" using U(2,6) d3 by simp
    show "counts s' (deref it s')" using c3 B(2) U(6) by simp
    show "queue_inv s'" if "0 < busy (deref it s')" using U(4,6) that by simp
    show "blocks_for_piece s' (deref it s') = map (init_block \<circ> is_pad s x) [0..<blocks_in_piece s x]"
      using new B(1) f3(5) U(6) by simp
    show "blocks_for_piece s' dp = blocks_for_piece s dp" if "dp \<in> dps s" for dp
      using old [OF that] B(1) f3(5) by simp
    show "num_pieces s' = num_pieces s" using B(5) f3(1) by simp
    show "blocks_in_piece s' x = blocks_in_piece s x" using B(3) n2(8) bp3 by simp
    show "cview s' = cview s" using B(7) by (simp add: s3_def s2_def)
  qed
qed

end
