(* ===== verification/Picker_Blocks.thy ===== *)
theory Picker_Blocks
  imports Picker_Queue
begin

text \<open>
  What the block operations of the picker do, seen through the map from pieces to their blocks that the
  queues and the block pool implement. Each operation is described by a short function on that map, and
  keeps the invariants of the list and of the queues.
\<close>

section \<open>The map the queues implement\<close>

type_synonym dl_entry = "block_info list \<times> bool \<times> bool" \<comment> \<open>the blocks, passed, locked\<close>

definition dl_view :: "piece_picker \<Rightarrow> downloading_piece \<Rightarrow> dl_entry" where
  "dl_view s dp = (blocks_for_piece s dp, passed_hash_check dp, locked dp)"

definition dl_map :: "piece_picker \<Rightarrow> nat \<Rightarrow> dl_entry option" where
  "dl_map s x =
     (if x < num_pieces s \<and> downloading (pos_of s x)
      then map_option (\<lambda>it. dl_view s (deref it s)) (find_dl_piece (download_queue (pos_of s x)) x s) else None)"

lemma dl_map_Some:
  assumes Q: "queues {} s" and d: "dp \<in> dps s" "dp_index dp = x"
  shows "dl_map s x = Some (dl_view s dp)"
proof -
  have x: "x < num_pieces s" using queues_dps_bound [OF Q d(1)] d(2) by simp
  have dl: "downloading (pos_of s x)" using dps_queue [OF Q d(1)] queuesD(2) [OF Q] d(2) by blast
  obtain it where it: "find_dl_piece (download_queue (pos_of s x)) x s = Some it" "dp_index (deref it s) = x" "deref it s \<in> dps s"
    using find_entry [OF Q x dl] by blast
  have "deref it s = dp" using dps_unique [OF Q it(3) d(1)] it(2) d(2) by simp
  then show ?thesis using x dl it(1) by (simp add: dl_map_def)
qed

lemma dl_map_None: "queues {} s \<Longrightarrow> \<forall>dp \<in> dps s. dp_index dp \<noteq> x \<Longrightarrow> dl_map s x = None"
  using queuesD(3) [of "{}" s x] by (auto simp: dl_map_def)

lemma dl_map_dom: "queues {} s \<Longrightarrow> x < num_pieces s \<Longrightarrow> dl_map s x = None \<longleftrightarrow> \<not> downloading (pos_of s x)"
  by (cases "downloading (pos_of s x)", metis dl_map_Some empty_iff option.distinct(1) queuesD(3), simp add: dl_map_def)

text \<open>Changing the entry of one piece changes the map there only.\<close>

lemma dl_map_change:
  assumes Q: "queues {} s" "queues {} s'" and d: "dps s' = insert dp' {dp \<in> dps s. dp_index dp \<noteq> x}" and x: "dp_index dp' = x"
    and b: "\<And>dp. dp \<in> dps s \<Longrightarrow> dp_index dp \<noteq> x \<Longrightarrow> blocks_for_piece s' dp = blocks_for_piece s dp"
  shows "dl_map s' = (dl_map s)(x \<mapsto> dl_view s' dp')"
proof
  fix y
  show "dl_map s' y = ((dl_map s)(x \<mapsto> dl_view s' dp')) y"
  proof (cases "y = x")
    case True
    then show ?thesis using dl_map_Some [OF Q(2), of dp'] d x by simp
  next
    case y: False
    show ?thesis
    proof (cases "\<exists>dp \<in> dps s. dp_index dp = y")
      case True
      then obtain dp where dp: "dp \<in> dps s" "dp_index dp = y" by blast
      then have "dl_map s' y = Some (dl_view s' dp)" using d y by (intro dl_map_Some [OF Q(2)]) auto
      moreover have "dl_map s y = Some (dl_view s dp)" using dp by (intro dl_map_Some [OF Q(1)]) auto
      ultimately show ?thesis using y b dp by (simp add: dl_view_def)
    next
      case False
      then have "dl_map s' y = None" using d x y by (intro dl_map_None [OF Q(2)]) auto
      moreover have "dl_map s y = None" using False by (intro dl_map_None [OF Q(1)]) auto
      ultimately show ?thesis using y by simp
    qed
  qed
qed

lemma dl_map_erase:
  assumes Q: "queues {} s" "queues {} s'" and d: "dps s' = {dp \<in> dps s. dp_index dp \<noteq> x}" and b: "same_blocks s s'"
  shows "dl_map s' = (dl_map s)(x := None)"
proof
  fix y
  show "dl_map s' y = ((dl_map s)(x := None)) y"
  proof (cases "\<exists>dp \<in> dps s'. dp_index dp = y")
    case True
    then obtain dp where dp: "dp \<in> dps s'" "dp_index dp = y" by blast
    then show ?thesis
      using dl_map_Some [OF Q(1), of dp y] dl_map_Some [OF Q(2) dp] d same_blocks_reads(1) [OF b] by (auto simp: dl_view_def)
  next
    case False
    then have "dl_map s' y = None" by (intro dl_map_None [OF Q(2)]) auto
    moreover have "y \<noteq> x \<Longrightarrow> dl_map s y = None" using False d by (intro dl_map_None [OF Q(1)]) auto
    ultimately show ?thesis by auto
  qed
qed

lemma dl_map_same:
  assumes Q: "queues {} s" "queues {} s'" and d: "dps s' = dps s" and b: "same_blocks s s'"
  shows "dl_map s' = dl_map s"
proof
  fix y
  show "dl_map s' y = dl_map s y"
  proof (cases "\<exists>dp \<in> dps s. dp_index dp = y")
    case True
    then obtain dp where dp: "dp \<in> dps s" "dp_index dp = y" by blast
    then show ?thesis using dl_map_Some [OF Q(1) dp] dl_map_Some [OF Q(2), of dp y] d same_blocks_reads(1) [OF b]
      by (simp add: dl_view_def)
  next
    case False
    then show ?thesis using dl_map_None [OF Q(1), of y] dl_map_None [OF Q(2), of y] d by simp
  qed
qed

text \<open>Reading the map.\<close>

lemma find_valid:
  assumes "queues {} s" and "find_dl_piece (download_queue (pos_of s x)) x s = Some it" and "x < num_pieces s"
  shows "dl_map s x = Some (dl_view s (deref it s))" "valid_it it s" "dp_index (deref it s) = x" "deref it s \<in> dps s"
proof -
  note f = find_dl_piece_Some [OF assms(2)]
  show v: "valid_it it s" "dp_index (deref it s) = x" "deref it s \<in> dps s" using f by auto
  show "dl_map s x = Some (dl_view s (deref it s))" by (rule dl_map_Some [OF assms(1) v(3,2)])
qed

section \<open>Editing one block\<close>

lemma set_block_set_dp: "set_block k f (set_dp it g s) = set_dp it g (set_block k f s)"
  by (simp add: set_block_def set_dp_def set_queue_def deref_def)

lemma set_block_set_block: "k < length (m_block_info s) \<Longrightarrow> set_block k f (set_block k g s) = set_block k (f \<circ> g) s"
  by (simp add: set_block_def)

lemma set_dp_set_dp: "valid_it it s \<Longrightarrow> set_dp it f (set_dp it g s) = set_dp it (f \<circ> g) s"
  by (simp add: set_dp_def set_queue_def deref_def valid_it_def)

abbreviation hit :: "block_state \<Rightarrow> block_state \<Rightarrow> nat" where
  "hit a b \<equiv> if a = b then 1 else 0"

definition recount :: "block_state \<Rightarrow> block_state \<Rightarrow> downloading_piece \<Rightarrow> downloading_piece \<Rightarrow> bool" where
  "recount a b dp dp' \<longleftrightarrow>
     requested dp' + hit a state_requested = requested dp + hit b state_requested \<and>
     writing dp' + hit a state_writing = writing dp + hit b state_writing \<and>
     finished dp' + hit a state_finished = finished dp + hit b state_finished"

lemma edit_block:
  assumes q: "queue_but x s" and pi: "pieces_inv s" and v: "valid_it it s" and dp: "deref it s = dp" "dp_index dp = x"
    and c: "counts s dp" and j: "j < blocks_in_piece s x"
    and g: "dp_index (g dp) = x" "info_idx (g dp) = info_idx dp"
    and rc: "recount (bi_state (m_block_info s ! block_slot s dp j)) (bi_state (f (m_block_info s ! block_slot s dp j))) dp (g dp)"
    and t: "t = set_dp it g (set_block (block_slot s dp j) f s)"
  shows "queue_but x t" "pieces_inv t" "valid_it it t" "deref it t = g dp" "counts t (g dp)"
    "dps t = insert (g dp) {dp \<in> dps s. dp_index dp \<noteq> x}"
    "blocks_for_piece t (g dp) = (blocks_for_piece s dp)[j := f (blocks_for_piece s dp ! j)]"
    "\<And>dp'. dp' \<in> dps s \<Longrightarrow> dp_index dp' \<noteq> x \<Longrightarrow> blocks_for_piece t dp' = blocks_for_piece s dp'"
    "num_pieces t = num_pieces s"
proof -
  have Q: "queues {} s" and ok: "\<And>dp. dp \<in> dps s \<Longrightarrow> dp_index dp \<noteq> x \<Longrightarrow> entry_ok s dp"
    using q by (auto simp: queue_but_def)
  have dpm: "dp \<in> dps s" using deref_dps [OF v] dp by simp
  let ?s = "set_block (block_slot s dp j) f s"
  have Q1: "queues {} ?s" using Q by simp
  have v1: "valid_it it ?s" "deref it ?s = dp" using v dp by simp_all
  show "valid_it it t" "deref it t = g dp" "pieces_inv t" "num_pieces t = num_pieces s" using v dp pi by (simp_all add: t)
  have g1: "dp_index (g (deref it ?s)) = dp_index (deref it ?s)" "info_idx (g (deref it ?s)) = info_idx (deref it ?s)"
    using g v1 dp by simp_all
  show d: "dps t = insert (g dp) {dp \<in> dps s. dp_index dp \<noteq> x}"
    using set_dp_dps [where f = g, OF Q1 v1(1) g1(1)] v1(2) dp(2) by (simp add: t)
  have Qt: "queues {} t" using queues_set_dp [where f = g, OF Q1 v1(1) g1] by (simp add: t)
  have bp: "blocks_for_piece s' (g dp) = blocks_for_piece s' dp" for s'
    using g dp(2) by (simp add: blocks_for_piece_def block_slot_def)
  have j': "j < blocks_in_piece s (dp_index dp)" using j dp(2) by simp
  note B = blocks_set_block [where f = f, OF Q dpm j']
  show b: "blocks_for_piece t (g dp) = (blocks_for_piece s dp)[j := f (blocks_for_piece s dp ! j)]"
    using B(1) bp by (simp add: t)
  show o: "blocks_for_piece t dp' = blocks_for_piece s dp'" if "dp' \<in> dps s" "dp_index dp' \<noteq> x" for dp'
    using B(2) [OF that(1)] that(2) dp(2) by (simp add: t)
  have "count_list (map bi_state (blocks_for_piece t (g dp))) z + hit (bi_state (blocks_for_piece s dp ! j)) z =
      count_list (map bi_state (blocks_for_piece s dp)) z + hit (bi_state (f (blocks_for_piece s dp ! j))) z" for z
    using count_list_update [of j "map bi_state (blocks_for_piece s dp)"] j' unfolding b by (simp add: map_update)
  from this [of state_requested] this [of state_writing] this [of state_finished]
  show "counts t (g dp)" using c rc j' unfolding counts_def recount_def Let_def by (simp split: if_splits)
  have "entry_ok t dp'" if "dp' \<in> dps s" "dp_index dp' \<noteq> x" for dp'
    using ok [OF that] o [OF that] by (simp add: entry_ok_def counts_def t)
  then show "queue_but x t" using Qt d g(1) by (auto simp: queue_but_def)
qed

text \<open>The counts answer questions about all blocks.\<close>

lemma count_list_all: "count_list xs z = length xs \<longleftrightarrow> (\<forall>a \<in> set xs. a = z)"
proof (induction xs)
  case (Cons a xs)
  then show ?case using count_le_length [of xs z] by auto
qed simp

lemma busy_zero:
  assumes "counts s dp"
  shows "busy dp = 0 \<longleftrightarrow> (\<forall>b \<in> set (blocks_for_piece s dp). bi_state b = state_none)"
proof -
  let ?bs = "map bi_state (blocks_for_piece s dp)"
  have "busy dp = 0 \<longleftrightarrow> state_requested \<notin> set ?bs \<and> state_finished \<notin> set ?bs \<and> state_writing \<notin> set ?bs"
    using assms by (simp add: busy_def counts_def Let_def count_list_0_iff)
  also have "\<dots> \<longleftrightarrow> (\<forall>a \<in> set ?bs. a = state_none)" by (metis block_state.exhaust block_state.distinct(1,3,5))
  finally show ?thesis by simp
qed

lemma all_finished:
  assumes "counts s dp"
  shows "finished dp < blocks_in_piece s (dp_index dp) \<longleftrightarrow> \<not> (\<forall>b \<in> set (blocks_for_piece s dp). bi_state b = state_finished)"
proof -
  let ?bs = "map bi_state (blocks_for_piece s dp)"
  have "finished dp = count_list ?bs state_finished" "length ?bs = blocks_in_piece s (dp_index dp)"
    using assms by (simp_all add: counts_def Let_def)
  then have "finished dp < blocks_in_piece s (dp_index dp) \<longleftrightarrow> count_list ?bs state_finished \<noteq> length ?bs"
    using count_le_length [of ?bs state_finished] by auto
  then show ?thesis using count_list_all [of ?bs state_finished] by simp
qed

lemma count_busy: "counts s dp \<Longrightarrow> b \<in> set (blocks_for_piece s dp) \<Longrightarrow> bi_state b \<noteq> state_none \<Longrightarrow> 0 < busy dp"
  using busy_zero [of s dp] by auto

section \<open>The operations\<close>

definition picker_ok :: "piece_picker \<Rightarrow> bool" where
  "picker_ok s \<longleftrightarrow> pieces_inv s \<and> queue_inv s"

lemma queue_inv_but: "queue_inv s \<Longrightarrow> queue_but x s"
  by (simp add: queue_inv_def queue_but_def)

lemma queue_inv_queues: "queue_inv s \<Longrightarrow> queues {} s" and queue_but_queues: "queue_but x s \<Longrightarrow> queues {} s"
  by (simp_all add: queue_inv_def queue_but_def)

lemma queue_inv_counts: "queue_inv s \<Longrightarrow> dp \<in> dps s \<Longrightarrow> counts s dp \<and> 0 < busy dp"
  by (simp add: queue_inv_def entry_ok_def)

text \<open>An edit of a block followed by \<^verbatim>\<open>update_piece_state\<close>.\<close>

lemma edit_update:
  assumes q: "queue_but x s" and pi: "pieces_inv s" and v: "valid_it it s" and dp: "deref it s = dp" "dp_index dp = x"
    and c: "counts s dp" and j: "j < blocks_in_piece s x"
    and g: "dp_index (g dp) = x" "info_idx (g dp) = info_idx dp"
    and rc: "recount (bi_state (m_block_info s ! block_slot s dp j)) (bi_state (f (m_block_info s ! block_slot s dp j))) dp (g dp)"
    and t: "t = set_dp it g (set_block (block_slot s dp j) f s)" and u: "update_piece_state it t = (it', s')"
  shows "queue_but x s'" "pieces_inv s'" "0 < busy (g dp) \<Longrightarrow> picker_ok s'" "deref it' s' = g dp" "valid_it it' s'"
    "counts s' (g dp)" "num_pieces s' = num_pieces s" "blocks_in_piece s' i = blocks_in_piece s i" "same_blocks t s'"
    "blocks_for_piece s' (g dp) = (blocks_for_piece s dp)[j := f (blocks_for_piece s dp ! j)]"
    "dl_map s' = (dl_map s)(x \<mapsto> ((blocks_for_piece s dp)[j := f (blocks_for_piece s dp ! j)], passed_hash_check (g dp), locked (g dp)))"
    "cview s' = cview s"
proof -
  note E = edit_block [where f = f and g = g, OF q pi v dp c j g rc t]
  note U = update_piece_state_queue [OF E(1,2,3,4) g(1) E(5) u]
  note B = same_blocks_reads [OF U(3)]
  show "cview s' = cview s" using B(7) by (simp add: t)
  show "queue_but x s'" "pieces_inv s'" "deref it' s' = g dp" "valid_it it' s'" "same_blocks t s'" by (rule U)+
  show "picker_ok s'" if "0 < busy (g dp)" using U(4) [OF that] U(5) by (simp add: picker_ok_def)
  show "counts s' (g dp)" using E(5) B(2) by simp
  show "num_pieces s' = num_pieces s" using B(5) E(9) by simp
  show "blocks_in_piece s' i = blocks_in_piece s i" using B(3) by (simp add: t)
  show b: "blocks_for_piece s' (g dp) = (blocks_for_piece s dp)[j := f (blocks_for_piece s dp ! j)]" using B(1) E(7) by simp
  have "dl_map s' = (dl_map s)(x \<mapsto> dl_view s' (g dp))"
    by (rule dl_map_change [OF queue_but_queues [OF q] queue_but_queues [OF U(1)]]) (use U(2) E B(1) g in auto)
  then show "dl_map s' = (dl_map s)(x \<mapsto> ((blocks_for_piece s dp)[j := f (blocks_for_piece s dp ! j)], passed_hash_check (g dp), locked (g dp)))"
    by (simp add: dl_view_def b)
qed

text \<open>An edit that leaves the counts alone needs no \<^verbatim>\<open>update_piece_state\<close>.\<close>

lemma edit_only:
  assumes q: "picker_ok s" and v: "valid_it it s" and dp: "deref it s = dp" "dp_index dp = x" and j: "j < blocks_in_piece s x"
    and g: "dp_index (g dp) = x" "info_idx (g dp) = info_idx dp" "requested (g dp) = requested dp" "writing (g dp) = writing dp"
    "finished (g dp) = finished dp"
    and f: "bi_state (f (m_block_info s ! block_slot s dp j)) = bi_state (m_block_info s ! block_slot s dp j)"
    and t: "t = set_dp it g (set_block (block_slot s dp j) f s)"
  shows "picker_ok t"
    "dl_map t = (dl_map s)(x \<mapsto> ((blocks_for_piece s dp)[j := f (blocks_for_piece s dp ! j)], passed_hash_check (g dp), locked (g dp)))"
proof -
  have qi: "queue_inv s" and pi: "pieces_inv s" using q by (simp_all add: picker_ok_def)
  have dpm: "dp \<in> dps s" using deref_dps [OF v] dp by simp
  have c: "counts s dp" and e: "entry_ok s dp" using queue_inv_counts [OF qi dpm] qi dpm by (auto simp: queue_inv_def)
  have rc: "recount (bi_state (m_block_info s ! block_slot s dp j)) (bi_state (f (m_block_info s ! block_slot s dp j))) dp (g dp)"
    using g f by (simp add: recount_def)
  note E = edit_block [where f = f and g = g, OF queue_inv_but [OF qi] pi v dp c j g(1,2) rc t]
  have "new_dl_state t (g dp) = new_dl_state s dp" using g dp(2) by (simp add: t new_dl_state_def Let_def)
  then have "entry_ok t (g dp)" using e E(5) g dp(2) by (simp add: entry_ok_def busy_def) (simp add: t)
  then have "queue_inv t" using E(1,6) g(1) by (auto simp: queue_inv_def queue_but_def)
  then show "picker_ok t" using E(2) by (simp add: picker_ok_def)
  have "dl_map t = (dl_map s)(x \<mapsto> dl_view t (g dp))"
    by (rule dl_map_change [OF queue_inv_queues [OF qi] queue_but_queues [OF E(1)]]) (use E g in auto)
  then show "dl_map t = (dl_map s)(x \<mapsto> ((blocks_for_piece s dp)[j := f (blocks_for_piece s dp ! j)], passed_hash_check (g dp), locked (g dp)))"
    by (simp add: dl_view_def E(7))
qed

text \<open>The list follows a piece whose entry was erased.\<close>

lemma reordered_ok:
  assumes "reordered s s'" and "queue_inv s" and "pieces_inv s'"
  shows "picker_ok s'" "dl_map s' = dl_map s" "num_pieces s' = num_pieces s" "cview s' = cview s"
proof -
  note v = reordered_qview [OF assms(1)]
  show "cview s' = cview s" by (rule same_blocks_reads(7) [OF reordered_same_blocks [OF assms(1)]])
  show "picker_ok s'" using qview_inv(1) [OF v] assms(2,3) by (simp add: picker_ok_def)
  have q: "queues {} s" "queues {} s'" using qview_queues(1) [OF v] assms(2) by (auto simp: queue_inv_def)
  show "dl_map s' = dl_map s" by (rule dl_map_same [OF q qview_queues(2) [OF v] reordered_same_blocks [OF assms(1)]])
  show "num_pieces s' = num_pieces s" by (rule reordered_num [OF assms(1)])
qed

lemma erase_ok:
  assumes q: "queue_but x s" and pi: "pieces_inv s" and v: "valid_it it s" and dp: "dp_index (deref it s) = x"
    and pr: "prev = prio_of s x"
  shows "picker_ok (reposition prev x (erase_download_piece it s))"
    "dl_map (reposition prev x (erase_download_piece it s)) = (dl_map s)(x := None)"
    "cview (reposition prev x (erase_download_piece it s)) = cview s"
proof -
  let ?s = "erase_download_piece it s"
  note E = erase_queue [OF q v dp]
  have Q: "queues {} s" by (rule queue_but_queues [OF q])
  have x: "x < num_pieces s" using queues_dps_bound [OF Q deref_dps [OF v]] dp by simp
  note c = changed_reposition [OF erase_changed [OF pi dp x]]
  note r = reordered_ok [OF c(2) E(1) c(1)]
  show "picker_ok (reposition prev x ?s)" using r(1) pr by simp
  show "cview (reposition prev x ?s) = cview s"
    using same_blocks_reads(7) [OF reordered_same_blocks [OF c(2)]] same_blocks_reads(7) [OF E(3)] pr by simp
  show "dl_map (reposition prev x ?s) = (dl_map s)(x := None)"
    using r(2) dl_map_erase [OF Q queue_inv_queues [OF E(1)] E(2,3)] pr by simp
qed

text \<open>The first block of a piece: the piece gets an entry.\<close>

definition fresh :: "piece_picker \<Rightarrow> nat \<Rightarrow> block_info list" where
  "fresh s x = map (init_block \<circ> is_pad s x) [0..<blocks_in_piece s x]"

lemma queues_start:
  assumes Q: "queues {} s" and x: "x < num_pieces s" "download_state (pos_of s x) = piece_open"
  shows "queues {x} (set_pos x (\<lambda>p. p\<lparr>download_state := st\<rparr>) s)"
proof -
  have nx: "dp_index dp \<noteq> x" if "dp \<in> set (m_downloads s q)" for dp q
    using queuesD(2) [OF Q that] x(2) by (auto simp: downloading_def)
  show ?thesis
    unfolding queues_def set_pos_fields set_pos_simps(1)
    using queuesD [OF Q] nx x(1) by (auto simp: set_pos_simps)
qed

lemma start_ok:
  assumes P: "picker_ok s" and x: "x < num_pieces s" "download_state (pos_of s x) = piece_open"
    and st: "st = piece_downloading \<or> st = piece_downloading_reverse"
    and s2: "s2 = refresh (prio_of s x) x (set_pos x (\<lambda>p. p\<lparr>download_state := st\<rparr>) s)"
    and s3: "s3 = s2\<lparr>m_recent_extents := ext\<rparr>"
    and a: "add_download_piece x s3 = (it, s4)"
  shows "queue_but x s4" "pieces_inv s4" "valid_it it s4" "dp_index (deref it s4) = x" "counts s4 (deref it s4)"
    "blocks_for_piece s4 (deref it s4) = fresh s x" "dl_map s4 = (dl_map s)(x \<mapsto> (fresh s x, False, False))"
    "0 < busy (deref it s4) \<Longrightarrow> picker_ok s4" "num_pieces s4 = num_pieces s" "blocks_in_piece s4 x = blocks_in_piece s x"
    "\<not> passed_hash_check (deref it s4)" "\<not> locked (deref it s4)" "cview s4 = cview s"
proof -
  have pi: "pieces_inv s" and qi: "queue_inv s" using P by (simp_all add: picker_ok_def)
  let ?s1 = "set_pos x (\<lambda>p. p\<lparr>download_state := st\<rparr>) s"
  have pr: "prio_of s x = -1 \<Longrightarrow> prio_of ?s1 x = -1" by (rule prio_start [OF pi x(1,2) st])
  have r: "pieces_inv s2" "reordered ?s1 s2"
    unfolding s2 using changed_refresh [OF set_state_changed [OF pi x(1)] pr] by blast+
  note v = reordered_qview [OF r(2)]
  have v3: "qview s3 = qview ?s1" using v by (simp add: s3 qview_def eview_def)
  have Q3: "queues {x} s3" using queues_start [OF queue_inv_queues [OF qi] x] qview_queues(1) [OF v3] by simp
  have d3: "dps s3 = dps s" using qview_queues(2) [OF v3] by simp
  have nx: "dp_index dp \<noteq> x" if "dp \<in> dps s" for dp using queues_dps_bound [OF Q3] that d3 by simp
  have "num_pieces s2 = num_pieces s" using reordered_num [OF r(2)] by simp
  then have n3: "num_pieces s3 = num_pieces s" by (simp add: s3 num_pieces_def)
  have ok: "entry_ok s3 dp" if "dp \<in> dps s3" for dp
  proof -
    have "entry_ok s dp" using qi that d3 by (simp add: queue_inv_def)
    then have "entry_ok ?s1 dp" using entry_ok_other [OF x(1)] nx that d3 by simp
    then show ?thesis using entry_ok_eview(1) [OF qview_queues(3) [OF v3], of dp] queues_dps_bound [OF Q3 that] n3 by simp
  qed
  have pi3: "pieces_inv s3" using r(1) pieces_inv_core [of s3 s2] by (simp add: s3 core_def)
  have "same_blocks ?s1 s2" by (rule reordered_same_blocks [OF r(2)])
  moreover have "same_blocks s ?s1" by simp
  ultimately have "same_blocks s s2" using same_blocks_trans by blast
  then have sb: "same_blocks s s3" unfolding s3 same_blocks_def by (simp add: num_pieces_def)
  have dq: "download_queue (pos_of s3 x) = piece_downloading"
    using reordered_pos(7) [OF r(2), of x] x st by (auto simp: s3 download_queue_def)
  have fr: "map (init_block \<circ> is_pad s3 x) [0..<blocks_in_piece s3 x] = fresh s x"
    using sb same_blocks_reads(3) [OF sb] by (simp add: fresh_def is_pad_def same_blocks_def fun_eq_iff)
  have x3: "x < num_pieces s3" using x n3 by simp
  obtain "queue_but x s4" "pieces_inv s4" "valid_it it s4" "dp_index (deref it s4) = x"
    "dps s4 = insert (deref it s4) (dps s3)" "counts s4 (deref it s4)" "0 < busy (deref it s4) \<Longrightarrow> queue_inv s4"
    "blocks_for_piece s4 (deref it s4) = map (init_block \<circ> is_pad s3 x) [0..<blocks_in_piece s3 x]"
    "\<not> passed_hash_check (deref it s4)" "\<not> locked (deref it s4)"
    and ob: "\<And>dp. dp \<in> dps s3 \<Longrightarrow> blocks_for_piece s4 dp = blocks_for_piece s3 dp"
    and "num_pieces s4 = num_pieces s3" "blocks_in_piece s4 x = blocks_in_piece s3 x" and cv: "cview s4 = cview s3"
    using add_download_piece_queue [OF Q3 ok pi3 x3 dq a] by metis
  note A = this
  show "queue_but x s4" "pieces_inv s4" "valid_it it s4" "dp_index (deref it s4) = x" "counts s4 (deref it s4)"
    "\<not> passed_hash_check (deref it s4)" "\<not> locked (deref it s4)" by (fact A)+
  show b: "blocks_for_piece s4 (deref it s4) = fresh s x" using A(8) fr by simp
  show "cview s4 = cview s" using cv same_blocks_reads(7) [OF sb] by simp
  show "picker_ok s4" if "0 < busy (deref it s4)" using A that by (simp add: picker_ok_def)
  show "num_pieces s4 = num_pieces s" "blocks_in_piece s4 x = blocks_in_piece s x"
    using A n3 same_blocks_reads(3) [OF sb] by simp_all
  have "dl_map s4 = (dl_map s)(x \<mapsto> dl_view s4 (deref it s4))"
  proof (rule dl_map_change [OF queue_inv_queues [OF qi] queue_but_queues [OF A(1)]])
    show "dps s4 = insert (deref it s4) {dp \<in> dps s. dp_index dp \<noteq> x}" using A(5) d3 nx by auto
    show "blocks_for_piece s4 dp = blocks_for_piece s dp" if "dp \<in> dps s" for dp
      using ob [of dp] same_blocks_reads(1) [OF sb] that d3 by simp
  qed (rule A(4))
  then show "dl_map s4 = (dl_map s)(x \<mapsto> (fresh s x, False, False))" using b A by (simp add: dl_view_def)
qed

definition edit :: "nat \<Rightarrow> (block_info \<Rightarrow> block_info) \<Rightarrow> dl_entry \<Rightarrow> dl_entry" where
  "edit j f e = ((fst e)[j := f (fst e ! j)], snd e)"

definition entry_or :: "block_info list \<Rightarrow> dl_entry option \<Rightarrow> dl_entry" where
  "entry_or bs e = (case e of None \<Rightarrow> (bs, False, False) | Some e \<Rightarrow> e)"

definition state_at :: "dl_entry \<Rightarrow> nat \<Rightarrow> block_state" where
  "state_at e j = bi_state (fst e ! j)"

text \<open>\<^verbatim>\<open>mark_as_writing\<close>: a block that is not received yet becomes one being written.\<close>

definition spec_writing :: "block_info list \<Rightarrow> nat \<Rightarrow> nat \<Rightarrow> peer \<Rightarrow> (nat \<Rightarrow> dl_entry option) \<Rightarrow> bool \<times> (nat \<Rightarrow> dl_entry option)" where
  "spec_writing bs x j peer m =
     (let e = entry_or bs (m x) in
      if state_at e j = state_writing \<or> state_at e j = state_finished
      then (False, m(x \<mapsto> (if m x = None then e else edit j (\<lambda>b. b\<lparr>bi_peer := peer\<rparr>) e)))
      else (True, m(x \<mapsto> edit j (\<lambda>b. b\<lparr>bi_state := state_writing, bi_peer := peer, bi_num_peers := 0\<rparr>) e)))"

lemma block_update_order:
  "b\<lparr>bi_state := st, bi_peer := p, bi_num_peers := n\<rparr> = b\<lparr>bi_peer := p, bi_state := st, bi_num_peers := n\<rparr>"
  by simp

lemma fresh_states:
  "j < blocks_in_piece s x \<Longrightarrow> bi_state (fresh s x ! j) = (if is_pad s x j then state_finished else state_none)"
  "length (fresh s x) = blocks_in_piece s x"
  by (simp_all add: fresh_def init_block_def)

lemma fresh_counts:
  assumes "counts s4 dp" "blocks_for_piece s4 dp = fresh s x"
  shows "writing dp = 0" "requested dp = 0"
proof -
  have "map bi_state (blocks_for_piece s4 dp) = map (bi_state \<circ> init_block) (map (is_pad s x) [0..<blocks_in_piece s x])"
    by (simp add: assms(2) fresh_def)
  then show "writing dp = 0" "requested dp = 0" using assms(1) count_init(2,3) by (simp_all only: counts_def Let_def)
qed

lemma mark_as_writing_refines:
  assumes P: "picker_ok s" and x: "x < num_pieces s" and j: "j < blocks_in_piece s x"
    and h: "\<not> have_pos (pos_of s x)" and r: "mark_as_writing x j peer s = (res, s')"
  shows "picker_ok s'" "(res, dl_map s') = spec_writing (fresh s x) x j peer (dl_map s)" "cview s' = cview s"
proof -
  have qi: "queue_inv s" and pi: "pieces_inv s" and Q: "queues {} s" using P by (auto simp: picker_ok_def queue_inv_def)
  have "picker_ok s' \<and> (res, dl_map s') = spec_writing (fresh s x) x j peer (dl_map s) \<and> cview s' = cview s"
  proof (cases "downloading (pos_of s x)")
    case False
    then have o: "download_state (pos_of s x) = piece_open" by (simp add: downloading_def)
    define s2 where "s2 = refresh (prio_of s x) x (set_pos x (\<lambda>p. p\<lparr>download_state := piece_downloading\<rparr>) s)"
    obtain it s3 where a: "add_download_piece x s2 = (it, s3)" by fastforce
    have "s2 = s2\<lparr>m_recent_extents := m_recent_extents s2\<rparr>" by simp
    note S = start_ok [OF P x o disjI1 [OF refl] s2_def this a]
    define dp where "dp = deref it s3"
    define slot where "slot = block_slot s3 dp j"
    have j3: "j < blocks_in_piece s3 x" using j S(10) by simp
    have dp: "deref it s3 = dp" "dp_index dp = x" using S(4) by (simp_all add: dp_def)
    have b: "m_block_info s3 ! slot = fresh s x ! j" by (metis blocks_nth j3 S(6) dp slot_def)
    note z = fresh_counts [OF S(5,6)]
    have m: "dl_map s x = None" using dl_map_dom [OF Q x] False by simp
    have R: "mark_as_writing x j peer s = (if bi_state (m_block_info s3 ! slot) = state_finished then (False, s3)
        else (True, snd (update_piece_state it (set_dp it (\<lambda>dp. dp\<lparr>writing := 1\<rparr>)
              (set_block slot (\<lambda>b. b\<lparr>bi_state := state_writing, bi_peer := peer, bi_num_peers := 0\<rparr>) s3)))))"
      using False h a unfolding mark_as_writing_def Let_def s2_def slot_def dp_def by (simp add: have_piece_def have_pos_def)
    show ?thesis
    proof (cases "bi_state (fresh s x ! j) = state_finished")
      case True
      then have "fresh s x ! j \<in> set (blocks_for_piece s3 dp)" using j S(6) dp fresh_states(2) [of s x] by (simp add: nth_mem)
      then have "picker_ok s3" using count_busy [OF S(5)] True S(8) dp by (metis block_state.distinct(5))
      then show ?thesis using R r b True S(7,13) m by (auto simp: spec_writing_def entry_or_def state_at_def)
    next
      case nf: False
      then have no: "bi_state (fresh s x ! j) = state_none" using fresh_states(1) [OF j] by (auto split: if_splits)
      let ?g = "\<lambda>dp. dp\<lparr>writing := 1\<rparr>" and ?f = "\<lambda>b. b\<lparr>bi_state := state_writing, bi_peer := peer, bi_num_peers := 0\<rparr>"
      obtain it' s5 where u: "update_piece_state it (set_dp it ?g (set_block (block_slot s3 dp j) ?f s3)) = (it', s5)" by fastforce
      have rc: "recount (bi_state (m_block_info s3 ! block_slot s3 dp j)) (bi_state (?f (m_block_info s3 ! block_slot s3 dp j))) dp (?g dp)"
        using b no z dp by (simp add: recount_def slot_def)
      note E = edit_update [where f = ?f and g = ?g, OF S(1,2,3) dp S(5) [unfolded dp] j3 _ _ rc refl u]
      have "picker_ok s5" using E(3) dp by (simp add: busy_def)
      then show ?thesis using R r b no E(11,12) u S(6,7,11,12,13) m dp
        by (auto simp: spec_writing_def entry_or_def state_at_def edit_def slot_def)
    qed
  next
    case True
    then obtain it where f: "find_dl_piece (download_queue (pos_of s x)) x s = Some it" using find_entry [OF Q x] by blast
    note F = find_valid [OF Q f x]
    define dp where "dp = deref it s"
    have dp: "deref it s = dp" "dp_index dp = x" using F by (simp_all add: dp_def)
    define slot where "slot = block_slot s dp j"
    have sl: "slot < length (m_block_info s)" unfolding slot_def dp_def
      by (rule block_slot_less [OF queuesD(6) [OF Q] queuesD(4) [OF Q F(4)] j])
    have b: "blocks_for_piece s dp ! j = m_block_info s ! slot" using j dp by (simp add: slot_def)
    define st where "st = bi_state (m_block_info s ! slot)"
    have c: "counts s dp" "0 < busy dp" using queue_inv_counts [OF qi] F(4) dp by auto
    have m: "dl_map s x = Some (blocks_for_piece s dp, passed_hash_check dp, locked dp)" using F(1) dp by (simp add: dl_view_def)
    show ?thesis
    proof (cases "st = state_writing \<or> st = state_finished")
      case T: True
      then have R: "mark_as_writing x j peer s = (False, set_block slot (\<lambda>b. b\<lparr>bi_peer := peer\<rparr>) s)"
        using True f by (auto simp: mark_as_writing_def Let_def st_def slot_def dp_def)
      have e: "set_block slot (\<lambda>b. b\<lparr>bi_peer := peer\<rparr>) s = set_dp it id (set_block (block_slot s dp j) (\<lambda>b. b\<lparr>bi_peer := peer\<rparr>) s)"
        by (simp add: set_dp_def set_queue_def slot_def deref_def set_block_def)
      note E = edit_only [where f = "\<lambda>b. b\<lparr>bi_peer := peer\<rparr>" and g = id, OF P F(2) dp j _ _ _ _ _ _ e]
      show ?thesis using R r E dp T m b by (auto simp: spec_writing_def entry_or_def state_at_def edit_def st_def)
    next
      case nT: False
      let ?f = "\<lambda>b. b\<lparr>bi_state := state_writing, bi_peer := peer, bi_num_peers := 0\<rparr>"
      let ?g = "\<lambda>dp. dp\<lparr>requested := requested dp - hit st state_requested, writing := writing dp + 1\<rparr>"
      obtain it' s5 where u: "update_piece_state it (set_dp it ?g (set_block (block_slot s dp j) ?f s)) = (it', s5)" by fastforce
      have "st = state_requested \<Longrightarrow> 0 < requested dp"
        using c(1) b j dp unfolding counts_def st_def Let_def
        by (metis blocks_length count_list_0_iff imageI list.set_map neq0_conv nth_mem)
      then have rc: "recount (bi_state (m_block_info s ! block_slot s dp j)) (bi_state (?f (m_block_info s ! block_slot s dp j))) dp (?g dp)"
        using nT by (cases st) (auto simp: recount_def slot_def [symmetric] st_def)
      note E = edit_update [where f = ?f and g = ?g, OF queue_inv_but [OF qi] pi F(2) dp c(1) j _ _ rc refl u]
      have R: "mark_as_writing x j peer s = (True, s5)"
        using True f nT sl u F(2)
        by (auto simp: mark_as_writing_def Let_def st_def [symmetric] slot_def [symmetric] dp_def [symmetric] set_block_set_dp
            set_block_set_block set_dp_set_dp comp_def block_update_order)
      have "picker_ok s5" using E(3) dp by (simp add: busy_def)
      then show ?thesis using R r E(11,12) m dp b nT by (auto simp: spec_writing_def entry_or_def state_at_def edit_def st_def)
    qed
  qed
  then show "picker_ok s'" "(res, dl_map s') = spec_writing (fresh s x) x j peer (dl_map s)" "cview s' = cview s" by auto
qed

text \<open>The entry of a piece in download, and its block.\<close>

lemma at_entry:
  assumes P: "picker_ok s" and x: "x < num_pieces s" and d: "download_queue (pos_of s x) \<noteq> piece_open"
  obtains it dp where "find_dl_piece (download_queue (pos_of s x)) x s = Some it" "valid_it it s" "deref it s = dp"
    "dp_index dp = x" "dp \<in> dps s" "counts s dp" "0 < busy dp"
    "dl_map s x = Some (blocks_for_piece s dp, passed_hash_check dp, locked dp)"
    "\<And>j. j < blocks_in_piece s x \<Longrightarrow> block_slot s dp j < length (m_block_info s) \<and>
       blocks_for_piece s dp ! j = m_block_info s ! block_slot s dp j \<and> j < length (blocks_for_piece s dp)"
proof -
  have qi: "queue_inv s" and Q: "queues {} s" using P by (auto simp: picker_ok_def queue_inv_def)
  have "downloading (pos_of s x)" using d by (auto simp: downloading_def download_queue_open)
  then obtain it where f: "find_dl_piece (download_queue (pos_of s x)) x s = Some it" using find_entry [OF Q x] by blast
  note F = find_valid [OF Q f x]
  have "dl_map s x = Some (blocks_for_piece s (deref it s), passed_hash_check (deref it s), locked (deref it s))"
    using F(1) by (simp add: dl_view_def)
  moreover have "counts s (deref it s) \<and> 0 < busy (deref it s)" by (rule queue_inv_counts [OF qi F(4)])
  moreover have "block_slot s (deref it s) j < length (m_block_info s) \<and>
       blocks_for_piece s (deref it s) ! j = m_block_info s ! block_slot s (deref it s) j \<and>
       j < length (blocks_for_piece s (deref it s))" if "j < blocks_in_piece s x" for j
    using block_slot_less [OF queuesD(6) [OF Q] queuesD(4) [OF Q F(4)] that] that F(3) by simp
  ultimately show thesis using that [OF f F(2) refl F(3,4)] by blast
qed

lemma no_entry: "picker_ok s \<Longrightarrow> x < num_pieces s \<Longrightarrow> download_queue (pos_of s x) = piece_open \<Longrightarrow> dl_map s x = None"
  by (simp add: dl_map_def download_queue_open downloading_def)

text \<open>A changed flag of an entry.\<close>

lemma flag_only:
  assumes P: "picker_ok s" and v: "valid_it it s" and dp: "deref it s = dp" "dp_index dp = x"
    and g: "dp_index (g dp) = x" "info_idx (g dp) = info_idx dp" "requested (g dp) = requested dp" "writing (g dp) = writing dp"
    "finished (g dp) = finished dp"
  shows "picker_ok (set_dp it g s)"
    "dl_map (set_dp it g s) = (dl_map s)(x \<mapsto> (blocks_for_piece s dp, passed_hash_check (g dp), locked (g dp)))"
proof -
  have qi: "queue_inv s" and Q: "queues {} s" using P by (auto simp: picker_ok_def queue_inv_def)
  have dpm: "dp \<in> dps s" using deref_dps [OF v] dp by simp
  have e: "entry_ok s dp" using qi dpm by (simp add: queue_inv_def)
  have g1: "dp_index (g (deref it s)) = dp_index (deref it s)" "info_idx (g (deref it s)) = info_idx (deref it s)"
    using g dp by simp_all
  note D = set_dp_dps [where f = g, OF Q v g1(1), unfolded dp]
  have Q': "queues {} (set_dp it g s)" by (rule queues_set_dp [where f = g, OF Q v g1])
  have b: "blocks_for_piece s (g dp) = blocks_for_piece s dp" using g dp by (simp add: blocks_for_piece_def block_slot_def)
  have "new_dl_state s (g dp) = new_dl_state s dp" "counts s (g dp) = counts s dp" "busy (g dp) = busy dp"
    using g dp(2) b by (simp_all add: counts_def busy_def new_dl_state_def Let_def)
  then have "entry_ok s (g dp)" using e g(1) dp(2) by (simp add: entry_ok_def)
  then have "queue_inv (set_dp it g s)" using Q' D qi by (auto simp: queue_inv_def)
  then show "picker_ok (set_dp it g s)" using P by (simp add: picker_ok_def)
  have "dl_map (set_dp it g s) = (dl_map s)(x \<mapsto> dl_view (set_dp it g s) (g dp))"
    by (rule dl_map_change [OF Q Q' _ g(1)]) (use D dp in auto)
  then show "dl_map (set_dp it g s) = (dl_map s)(x \<mapsto> (blocks_for_piece s dp, passed_hash_check (g dp), locked (g dp)))"
    by (simp add: dl_view_def b)
qed

text \<open>The map depends on the queues, the pool and the states only.\<close>

lemma qview_dl_map:
  assumes "qview s' = qview s" shows "dl_map s' = dl_map s"
proof
  fix y
  have d: "m_downloads s' = m_downloads s" and ev: "eview s' = eview s" using assms by (simp_all add: qview_def)
  note e = eview_fields [OF ev]
  have v: "dl_view s' (deref it s') = dl_view s (deref it s)" for it
    using blocks_for_piece_cong [OF e(1-4)] d by (simp add: dl_view_def deref_def)
  have f: "find_dl_piece q x s' = find_dl_piece q x s" for q x by (simp add: find_dl_piece_def d)
  show "dl_map s' y = dl_map s y"
  proof (cases "y < num_pieces s")
    case True
    note p = pview_reads [OF e(5) [OF True]]
    show ?thesis unfolding dl_map_def v f p e(4) ..
  qed (simp add: dl_map_def e(4))
qed

lemma qview_ok: "qview s' = qview s \<Longrightarrow> queue_inv s \<Longrightarrow> pieces_inv s' \<Longrightarrow> picker_ok s' \<and> dl_map s' = dl_map s"
  using qview_inv(1) [of s' s] qview_dl_map [of s' s] by (simp add: picker_ok_def)

lemma pview_set_index [simp]: "map pview (set_index i n pm) = map pview pm"
  by (cases "i < length pm") (simp_all add: set_index_def map_update pview_def list_update_beyond list_eq_iff_nth_eq nth_list_update)

lemma pview_remove_loop: "remove_loop ps pm bs p e = (ps', pm', bs') \<Longrightarrow> map pview pm' = map pview pm"
proof (induction ps pm bs p e rule: remove_loop.induct)
  case (1 ps pm bs p e)
  obtain t bs1 p1 where d: "drop_boundaries bs p e = (t, bs1, p1)" by (metis prod_cases3)
  show ?case
  proof (cases "e = t \<or> length bs \<le> p1")
    case True
    then show ?thesis using 1(2) d pview_set_index by (subst (asm) remove_loop.simps) (auto simp: Let_def split: if_splits)
  next
    case False
    then have "remove_loop (ps[e := ps ! t]) (set_index (ps ! t) e pm) bs1 p1 t = (ps', pm', bs')"
      using 1(2) d by (subst (asm) remove_loop.simps) (simp add: Let_def)
    then show ?thesis using 1(1) [OF d [symmetric] refl refl] False by simp
  qed
qed

lemma qview_remove [simp]: "qview (remove p e s) = qview s"
proof -
  obtain ps pm bs where r: "remove_loop (m_pieces s) (m_piece_map s) (m_priority_boundaries s) p e = (ps, pm, bs)" by (metis prod_cases3)
  then show ?thesis using pview_remove_loop [OF r] by (simp add: remove_def qview_def eview_def)
qed

lemma qview_fields [simp]:
  "qview (s\<lparr>m_num_passed := v0\<rparr>) = qview s"
  "qview (s\<lparr>m_num_have := v1\<rparr>) = qview s"
  "qview (s\<lparr>m_num_filtered := v2\<rparr>) = qview s"
  "qview (s\<lparr>m_num_have_filtered := v3\<rparr>) = qview s"
  "qview (s\<lparr>m_have_pad_blocks := v4\<rparr>) = qview s"
  "qview (s\<lparr>m_filtered_pad_blocks := v5\<rparr>) = qview s"
  "qview (s\<lparr>m_have_filtered_pad_blocks := v6\<rparr>) = qview s"
  "qview (s\<lparr>m_cursor := v7\<rparr>) = qview s"
  "qview (s\<lparr>m_reverse_cursor := v8\<rparr>) = qview s"
  "qview (s\<lparr>m_dirty := v9\<rparr>) = qview s"
  "qview (s\<lparr>m_seeds := v10\<rparr>) = qview s"
  "qview (s\<lparr>m_recent_extents := v11\<rparr>) = qview s"
  "qview (s\<lparr>m_pads_in_piece := v12\<rparr>) = qview s"
  "qview (s\<lparr>m_num_pad_blocks := v13\<rparr>) = qview s"
  "qview (s\<lparr>m_pad_blocks := v14\<rparr>) = qview s"
  by (simp_all add: qview_def eview_def)

lemma qview_set_pos: "pview (f (pos_of s i)) = pview (pos_of s i) \<Longrightarrow> qview (set_pos i f s) = qview s"
  by (simp add: qview_def eview_def set_pos_def map_update) (metis list_update_beyond list_update_id map_update not_less)

lemma qview_cursors [simp]: "qview (shrink_cursors i s) = qview s" "qview (grow_cursors i s) = qview s"
  by (simp_all add: shrink_cursors_def grow_cursors_def Let_def)

text \<open>Having a piece drops its entry.\<close>

lemma we_have_refines:
  assumes P: "picker_ok s" and x: "x < num_pieces s"
  shows "picker_ok (we_have x s)"
    "dl_map (we_have x s) = (if have_pos (pos_of s x) then dl_map s else (dl_map s)(x := None))"
proof -
  have qi: "queue_inv s" and pi: "pieces_inv s" using P by (auto simp: picker_ok_def)
  have "picker_ok (we_have x s) \<and> dl_map (we_have x s) = (if have_pos (pos_of s x) then dl_map s else (dl_map s)(x := None))"
  proof (cases "have_pos (pos_of s x)")
    case True
    then show ?thesis using P by (simp add: we_have_def Let_def)
  next
    case h: False
    define np where "np i = (if passed_hash_check (deref i s) then s\<lparr>m_num_passed := m_num_passed s - 1\<rparr> else s)" for i
    have npv: "qview (np i) = qview s" for i by (simp add: np_def)
    define s1 where "s1 = (if download_queue (pos_of s x) = piece_open then s
      else case find_dl_piece (download_queue (pos_of s x)) x s of None \<Rightarrow> s | Some i \<Rightarrow> erase_download_piece i (np i))"
    have s1: "queue_inv s1" "dl_map s1 = (dl_map s)(x := None)"
    proof -
      have "queue_inv s1 \<and> dl_map s1 = (dl_map s)(x := None)"
      proof (cases "download_queue (pos_of s x) = piece_open")
        case True
        then show ?thesis using qi no_entry [OF P x True] by (simp add: s1_def fun_upd_idem)
      next
        case False
        then obtain it dp where e: "find_dl_piece (download_queue (pos_of s x)) x s = Some it" "valid_it it s" "deref it s = dp" "dp_index dp = x"
          using at_entry [OF P x] by metis
        have q: "queue_but x (np it)" using qview_inv(2) [OF npv] queue_inv_but [OF qi] by simp
        have v: "valid_it it (np it)" "dp_index (deref it (np it)) = x" using e by (simp_all add: np_def)
        note E = erase_queue [OF q v]
        have "dl_map (erase_download_piece it (np it)) = (dl_map s)(x := None)"
          using dl_map_erase [OF queue_but_queues [OF q] queue_inv_queues [OF E(1)] E(2,3)] qview_dl_map [OF npv] by simp
        then show ?thesis using E(1) e False by (simp add: s1_def)
      qed
      then show "queue_inv s1" "dl_map s1 = (dl_map s)(x := None)" by auto
    qed
    have "qview (we_have x s) = qview s1"
      unfolding we_have_def Let_def s1_def np_def using h
      by (simp add: qview_set_pos pview_def split del: if_split) (simp add: qview_set_pos pview_def)
    then show ?thesis using qview_ok [of "we_have x s" s1] s1 we_have_inv [OF pi x] h by simp
  qed
  then show "picker_ok (we_have x s)"
    "dl_map (we_have x s) = (if have_pos (pos_of s x) then dl_map s else (dl_map s)(x := None))" by auto
qed

lemma passed_counter_ok: "picker_ok s \<Longrightarrow> picker_ok (s\<lparr>m_num_passed := n\<rparr>)" "dl_map (s\<lparr>m_num_passed := n\<rparr>) = dl_map s"
  using qview_inv(1) [of "s\<lparr>m_num_passed := n\<rparr>" s] qview_dl_map [of "s\<lparr>m_num_passed := n\<rparr>" s] by (simp_all add: picker_ok_def)

definition complete :: "dl_entry \<Rightarrow> bool" where
  "complete e \<longleftrightarrow> (\<forall>b \<in> set (fst e). bi_state b = state_finished)"

definition idle :: "dl_entry \<Rightarrow> bool" where
  "idle e \<longleftrightarrow> (\<forall>b \<in> set (fst e). bi_state b = state_none)"

text \<open>The piece's hash was good: a complete piece is had now, another waits for its blocks.\<close>

definition spec_passed :: "nat \<Rightarrow> (nat \<Rightarrow> dl_entry option) \<Rightarrow> nat \<Rightarrow> dl_entry option" where
  "spec_passed x m = (case m x of None \<Rightarrow> m | Some (bs, p, l) \<Rightarrow>
     if l then m else if complete (bs, p, l) then m(x := None) else m(x \<mapsto> (bs, True, l)))"

lemma piece_passed_refines:
  assumes P: "picker_ok s" and x: "x < num_pieces s" and h: "\<not> have_pos (pos_of s x)"
  shows "picker_ok (piece_passed x s)" "dl_map (piece_passed x s) = spec_passed x (dl_map s)"
    "\<exists>t. picker_ok t \<and> cview t = cview s \<and>
      (piece_passed x s = t \<and> (dl_map s x \<noteq> None \<longrightarrow> dl_map t x \<noteq> None) \<or> dl_map s x \<noteq> None \<and> piece_passed x s = we_have x t)"
proof -
  have "picker_ok (piece_passed x s) \<and> dl_map (piece_passed x s) = spec_passed x (dl_map s) \<and>
    (\<exists>t. picker_ok t \<and> cview t = cview s \<and>
      (piece_passed x s = t \<and> (dl_map s x \<noteq> None \<longrightarrow> dl_map t x \<noteq> None) \<or> dl_map s x \<noteq> None \<and> piece_passed x s = we_have x t))"
  proof (cases "download_queue (pos_of s x) = piece_open")
    case True
    then show ?thesis using P no_entry [OF P x True] by (auto simp: piece_passed_def Let_def spec_passed_def)
  next
    case False
    then obtain it dp where e: "find_dl_piece (download_queue (pos_of s x)) x s = Some it" "valid_it it s" "deref it s = dp"
      "dp_index dp = x" "counts s dp" "dl_map s x = Some (blocks_for_piece s dp, passed_hash_check dp, locked dp)"
      using at_entry [OF P x] by metis
    let ?g = "\<lambda>dp. dp\<lparr>passed_hash_check := True\<rparr>"
    define s1 where "s1 = (set_dp it ?g s)\<lparr>m_num_passed := m_num_passed s + 1\<rparr>"
    have s1: "picker_ok s1" "dl_map s1 = (dl_map s)(x \<mapsto> (blocks_for_piece s dp, True, locked dp))"
      using flag_only [where g = ?g, OF P e(2-4)] e(4) passed_counter_ok by (simp_all add: s1_def)
    have n1: "num_pieces s1 = num_pieces s" "have_pos (pos_of s1 x) = have_pos (pos_of s x)" "finished (deref it s1) = finished dp"
      "blocks_in_piece s1 x = blocks_in_piece s x"
      using e by (simp_all add: s1_def blocks_in_piece_def num_pieces_def)
    have R: "piece_passed x s = (if locked dp then s else if finished dp < blocks_in_piece s x then s1 else we_have x s1)"
      using e False n1(3,4) by (simp add: piece_passed_def Let_def s1_def)
    have dn: "finished dp < blocks_in_piece s x \<longleftrightarrow> \<not> complete (blocks_for_piece s dp, passed_hash_check dp, locked dp)"
      using all_finished [OF e(5)] e(4) by (simp add: complete_def)
    have "\<exists>t. picker_ok t \<and> cview t = cview s \<and>
      (piece_passed x s = t \<and> (dl_map s x \<noteq> None \<longrightarrow> dl_map t x \<noteq> None) \<or> dl_map s x \<noteq> None \<and> piece_passed x s = we_have x t)"
    proof (cases "locked dp")
      case True
      then show ?thesis using P R by (intro exI [of _ s]) simp
    next
      case False
      then show ?thesis using s1 R e(6) by (intro exI [of _ s1]) (simp add: s1_def)
    qed
    then show ?thesis using P s1 we_have_refines [OF s1(1), of x] n1 h x e(6) dn unfolding R by (auto simp: spec_passed_def)
  qed
  then show "picker_ok (piece_passed x s)" "dl_map (piece_passed x s) = spec_passed x (dl_map s)"
    "\<exists>t. picker_ok t \<and> cview t = cview s \<and>
      (piece_passed x s = t \<and> (dl_map s x \<noteq> None \<longrightarrow> dl_map t x \<noteq> None) \<or> dl_map s x \<noteq> None \<and> piece_passed x s = we_have x t)" by auto
qed

lemma restore_piece_refines:
  assumes P: "picker_ok s" and x: "x < num_pieces s"
  shows "picker_ok (restore_piece x s)" "dl_map (restore_piece x s) = (dl_map s)(x := None)" "cview (restore_piece x s) = cview s"
proof -
  have "picker_ok (restore_piece x s) \<and> dl_map (restore_piece x s) = (dl_map s)(x := None) \<and> cview (restore_piece x s) = cview s"
  proof (cases "download_queue (pos_of s x) = piece_open")
    case True
    then show ?thesis using P no_entry [OF P x True] by (simp add: restore_piece_def Let_def fun_upd_idem)
  next
    case False
    then obtain it dp where e: "find_dl_piece (download_queue (pos_of s x)) x s = Some it" "valid_it it s" "deref it s = dp"
      "dp_index dp = x" using at_entry [OF P x] by metis
    let ?g = "\<lambda>dp. dp\<lparr>locked := False\<rparr>"
    note F = flag_only [where g = ?g, OF P e(2-4)]
    let ?s = "set_dp it ?g s"
    have ok: "picker_ok ?s" using F(1) e(4) by simp
    have "valid_it it ?s" "dp_index (deref it ?s) = x" using e by simp_all
    note E = erase_ok [OF queue_inv_but _ this refl]
    have "picker_ok (reposition (prio_of ?s x) x (erase_download_piece it ?s)) \<and>
      dl_map (reposition (prio_of ?s x) x (erase_download_piece it ?s)) = (dl_map ?s)(x := None) \<and>
      cview (reposition (prio_of ?s x) x (erase_download_piece it ?s)) = cview s"
      using E ok by (simp add: picker_ok_def)
    then show ?thesis using F(2) e False by (simp add: restore_piece_def Let_def)
  qed
  then show "picker_ok (restore_piece x s)" "dl_map (restore_piece x s) = (dl_map s)(x := None)" "cview (restore_piece x s) = cview s" by auto
qed

definition spec_lock :: "nat \<Rightarrow> (nat \<Rightarrow> dl_entry option) \<Rightarrow> nat \<Rightarrow> dl_entry option" where
  "spec_lock x m = (case m x of None \<Rightarrow> m | Some (bs, p, l) \<Rightarrow> m(x \<mapsto> (bs, False, True)))"

lemma lock_piece_refines:
  assumes P: "picker_ok s" and x: "x < num_pieces s"
  shows "picker_ok (lock_piece x s)" "dl_map (lock_piece x s) = spec_lock x (dl_map s)" "cview (lock_piece x s) = cview s"
proof -
  have "picker_ok (lock_piece x s) \<and> dl_map (lock_piece x s) = spec_lock x (dl_map s) \<and> cview (lock_piece x s) = cview s"
  proof (cases "download_queue (pos_of s x) = piece_open")
    case True
    then show ?thesis using P no_entry [OF P x True] by (simp add: lock_piece_def Let_def spec_lock_def)
  next
    case False
    then obtain it dp where e: "find_dl_piece (download_queue (pos_of s x)) x s = Some it" "valid_it it s" "deref it s = dp"
      "dp_index dp = x" "dl_map s x = Some (blocks_for_piece s dp, passed_hash_check dp, locked dp)"
      using at_entry [OF P x] by metis
    let ?g = "\<lambda>dp. dp\<lparr>passed_hash_check := False\<rparr>" and ?l = "\<lambda>dp. dp\<lparr>locked := True\<rparr>"
    define s1 where "s1 = (if passed_hash_check dp then (set_dp it ?g s)\<lparr>m_num_passed := m_num_passed s - 1\<rparr> else s)"
    have s1: "picker_ok s1" "dl_map s1 = (dl_map s)(x \<mapsto> (blocks_for_piece s dp, False, locked dp))"
      using flag_only [where g = ?g, OF P e(2-4)] e(4,5) passed_counter_ok P by (auto simp: s1_def)
    have v: "valid_it it s1" "deref it s1 = dp\<lparr>passed_hash_check := False\<rparr>" using e by (auto simp: s1_def)
    have R: "lock_piece x s = set_dp it ?l s1" using e False by (simp add: lock_piece_def Let_def s1_def)
    have b: "blocks_for_piece s1 (dp\<lparr>passed_hash_check := False\<rparr>) = blocks_for_piece s dp"
      by (simp add: s1_def blocks_for_piece_def block_slot_def blocks_in_piece_def num_pieces_def set_dp_def set_queue_def)
    have "cview s1 = cview s" by (simp add: s1_def)
    then show ?thesis unfolding R
      using flag_only [where g = ?l, OF s1(1) v(1,2)] e(4,5) s1(2) b by (simp add: spec_lock_def)
  qed
  then show "picker_ok (lock_piece x s)" "dl_map (lock_piece x s) = spec_lock x (dl_map s)" "cview (lock_piece x s) = cview s" by auto
qed

text \<open>An entry whose blocks are all open again is dropped.\<close>

definition settle :: "nat \<Rightarrow> dl_entry \<Rightarrow> (nat \<Rightarrow> dl_entry option) \<Rightarrow> nat \<Rightarrow> dl_entry option" where
  "settle x e m = (if idle e then m(x := None) else m(x \<mapsto> e))"

lemma drop_if_idle_refines:
  assumes q: "queue_but x s" and pi: "pieces_inv s" and v: "valid_it it s" and dp: "deref it s = dp" "dp_index dp = x"
    and c: "counts s dp" and b: "0 < busy dp \<Longrightarrow> picker_ok s" and m: "dl_map s = m(x \<mapsto> e)" "fst e = blocks_for_piece s dp"
  shows "picker_ok (drop_if_idle x (it, s))" "dl_map (drop_if_idle x (it, s)) = settle x e m" "cview (drop_if_idle x (it, s)) = cview s"
proof -
  have i: "busy dp = 0 \<longleftrightarrow> idle e" using busy_zero [OF c] m(2) by (simp add: idle_def)
  have "drop_if_idle x (it, s) = (if busy dp = 0 then reposition (prio_of s x) x (erase_download_piece it s) else s)"
    using dp by (simp add: drop_if_idle_def busy_def add.commute add.left_commute)
  then show "picker_ok (drop_if_idle x (it, s))" "dl_map (drop_if_idle x (it, s)) = settle x e m" "cview (drop_if_idle x (it, s)) = cview s"
    using erase_ok [OF q pi v _ refl] dp b m(1) i by (auto simp: settle_def)
qed

lemma not_passed: "\<not> passed_hash_check dp \<Longrightarrow> dp\<lparr>passed_hash_check := False\<rparr> = dp"
  by simp

text \<open>\<^verbatim>\<open>write_failed\<close>: the block is open again and the piece locked.\<close>

definition spec_write_failed :: "nat \<Rightarrow> nat \<Rightarrow> (nat \<Rightarrow> dl_entry option) \<Rightarrow> nat \<Rightarrow> dl_entry option" where
  "spec_write_failed x j m = (case m x of None \<Rightarrow> m | Some e \<Rightarrow>
     settle x (fst (edit j (\<lambda>b. b\<lparr>bi_peer := None, bi_state := state_none\<rparr>) e), False, True) m)"

lemma write_failed_refines:
  assumes P: "picker_ok s" and x: "x < num_pieces s" and j: "j < blocks_in_piece s x"
    and w: "\<And>e. dl_map s x = Some e \<Longrightarrow> state_at e j = state_writing"
  shows "picker_ok (write_failed x j s)" "dl_map (write_failed x j s) = spec_write_failed x j (dl_map s)" "cview (write_failed x j s) = cview s"
proof -
  have qi: "queue_inv s" and pi: "pieces_inv s" using P by (auto simp: picker_ok_def)
  have "picker_ok (write_failed x j s) \<and> dl_map (write_failed x j s) = spec_write_failed x j (dl_map s) \<and> cview (write_failed x j s) = cview s"
  proof (cases "download_queue (pos_of s x) = piece_open")
    case True
    then show ?thesis using P no_entry [OF P x True] by (simp add: write_failed_def Let_def spec_write_failed_def)
  next
    case False
    obtain it dp where e: "find_dl_piece (download_queue (pos_of s x)) x s = Some it" "valid_it it s" "deref it s = dp"
      "dp_index dp = x" "counts s dp" "dl_map s x = Some (blocks_for_piece s dp, passed_hash_check dp, locked dp)"
      and sl: "block_slot s dp j < length (m_block_info s)" "blocks_for_piece s dp ! j = m_block_info s ! block_slot s dp j"
      using at_entry [OF P x False] j by metis
    define slot where "slot = block_slot s dp j"
    have st: "bi_state (m_block_info s ! slot) = state_writing" using w [OF e(6)] sl(2) by (simp add: state_at_def slot_def)
    let ?f = "\<lambda>b. b\<lparr>bi_peer := None, bi_state := state_none\<rparr>"
    let ?g = "\<lambda>dp. dp\<lparr>writing := writing dp - 1, passed_hash_check := False, locked := True\<rparr>"
    define s0 where "s0 = s\<lparr>m_num_passed := (if passed_hash_check dp then m_num_passed s - 1 else m_num_passed s)\<rparr>"
    have s0: "picker_ok s0" "dl_map s0 = dl_map s" "valid_it it s0" "deref it s0 = dp" "block_slot s0 = block_slot s"
      "m_block_info s0 = m_block_info s" "blocks_in_piece s0 = blocks_in_piece s" "blocks_for_piece s0 = blocks_for_piece s"
      using passed_counter_ok P e
      by (simp_all add: s0_def block_slot_def blocks_in_piece_def blocks_for_piece_def num_pieces_def fun_eq_iff)
    have c0: "counts s0 dp" using e(5) s0(8) by (simp add: counts_def)
    have q0: "queue_but x s0" "pieces_inv s0" using s0(1) by (auto simp: picker_ok_def intro: queue_inv_but)
    have wr: "0 < writing dp"
      using e(5) j e(4) st sl(2) unfolding counts_def Let_def slot_def
      by (metis blocks_length count_list_0_iff imageI list.set_map neq0_conv nth_mem)
    then have rc: "recount (bi_state (m_block_info s0 ! block_slot s0 dp j)) (bi_state (?f (m_block_info s0 ! block_slot s0 dp j))) dp (?g dp)"
      using st s0 by (simp add: recount_def slot_def)
    obtain it' s' where u: "update_piece_state it (set_dp it ?g (set_block (block_slot s0 dp j) ?f s0)) = (it', s')" by fastforce
    have j0: "j < blocks_in_piece s0 x" using j s0 by simp
    note E = edit_update [where f = ?f and g = ?g, OF q0 s0(3,4) e(4) c0 j0 _ _ rc refl u]
    have d1: "deref it (set_block slot ?f (set_dp it (\<lambda>dp. dp\<lparr>writing := writing dp - 1\<rparr>) s)) = dp\<lparr>writing := writing dp - 1\<rparr>"
      using e by simp
    have R: "write_failed x j s = drop_if_idle x (it', s')"
    proof -
      define s2 where "s2 = set_block slot ?f (set_dp it (\<lambda>dp. dp\<lparr>writing := writing dp - 1\<rparr>) s)"
      define s4 where "s4 = set_dp it (\<lambda>dp. dp\<lparr>locked := True\<rparr>) (if passed_hash_check dp
          then (set_dp it (\<lambda>dp. dp\<lparr>passed_hash_check := False\<rparr>) s2)\<lparr>m_num_passed := m_num_passed s2 - 1\<rparr> else s2)"
      have "write_failed x j s = drop_if_idle x (update_piece_state it s4)"
        using False e(1,3) st d1 unfolding write_failed_def Let_def s4_def s2_def slot_def by (simp del: One_nat_def)
      moreover have "s4 = set_dp it ?g (set_block (block_slot s0 dp j) ?f s0)"
        using e(2,3) by (cases "passed_hash_check dp")
          (auto simp: s4_def s2_def s0_def slot_def set_dp_def set_queue_def set_block_def deref_def valid_it_def block_slot_def not_passed)
      ultimately show ?thesis using u by simp
    qed
    have "picker_ok (drop_if_idle x (it', s')) \<and> dl_map (drop_if_idle x (it', s')) =
        settle x ((blocks_for_piece s dp)[j := ?f (blocks_for_piece s dp ! j)], False, True) (dl_map s) \<and>
        cview (drop_if_idle x (it', s')) = cview s0"
      using drop_if_idle_refines [OF E(1,2,5,4) _ E(6,3,11)] E(10,12) s0 e(4) by simp
    moreover have "cview s0 = cview s" by (simp add: s0_def)
    ultimately have "picker_ok (drop_if_idle x (it', s')) \<and> dl_map (drop_if_idle x (it', s')) =
        settle x ((blocks_for_piece s dp)[j := ?f (blocks_for_piece s dp ! j)], False, True) (dl_map s) \<and>
        cview (drop_if_idle x (it', s')) = cview s" by simp
    then show ?thesis unfolding R using e(6) by (simp add: spec_write_failed_def edit_def)
  qed
  then show "picker_ok (write_failed x j s)" "dl_map (write_failed x j s) = spec_write_failed x j (dl_map s)" "cview (write_failed x j s) = cview s" by auto
qed

text \<open>\<^verbatim>\<open>mark_as_canceled\<close>: a write was called off.\<close>

definition spec_canceled :: "nat \<Rightarrow> nat \<Rightarrow> peer \<Rightarrow> (nat \<Rightarrow> dl_entry option) \<Rightarrow> nat \<Rightarrow> dl_entry option" where
  "spec_canceled x j peer m = (case m x of None \<Rightarrow> m | Some e \<Rightarrow>
     if state_at e j = state_finished then m
     else if state_at e j = state_writing then settle x (edit j (\<lambda>b. b\<lparr>bi_peer := peer, bi_state := state_none\<rparr>) e) m
     else m(x \<mapsto> edit j (\<lambda>b. b\<lparr>bi_peer := peer\<rparr>) e))"

lemma count_pos:
  assumes "counts s dp" "j < length (blocks_for_piece s dp)"
  shows "bi_state (blocks_for_piece s dp ! j) = state_writing \<Longrightarrow> 0 < writing dp"
    "bi_state (blocks_for_piece s dp ! j) = state_requested \<Longrightarrow> 0 < requested dp"
    "bi_state (blocks_for_piece s dp ! j) = state_finished \<Longrightarrow> 0 < finished dp"
  using assms unfolding counts_def Let_def
  by (metis count_list_0_iff imageI list.set_map neq0_conv nth_mem)+

lemma set_dp_id: "set_dp it id s = s"
  by (simp add: set_dp_def set_queue_def deref_def)

lemma mark_as_canceled_refines:
  assumes P: "picker_ok s" and x: "x < num_pieces s" and j: "j < blocks_in_piece s x"
  shows "picker_ok (mark_as_canceled x j peer s)" "dl_map (mark_as_canceled x j peer s) = spec_canceled x j peer (dl_map s)" "cview (mark_as_canceled x j peer s) = cview s"
proof -
  have qi: "queue_inv s" and pi: "pieces_inv s" using P by (auto simp: picker_ok_def)
  have "picker_ok (mark_as_canceled x j peer s) \<and> dl_map (mark_as_canceled x j peer s) = spec_canceled x j peer (dl_map s) \<and> cview (mark_as_canceled x j peer s) = cview s"
  proof (cases "download_queue (pos_of s x) = piece_open")
    case True
    then show ?thesis using P no_entry [OF P x True] by (simp add: mark_as_canceled_def Let_def spec_canceled_def)
  next
    case False
    obtain it dp where e: "find_dl_piece (download_queue (pos_of s x)) x s = Some it" "valid_it it s" "deref it s = dp"
      "dp_index dp = x" "counts s dp" "dl_map s x = Some (blocks_for_piece s dp, passed_hash_check dp, locked dp)"
      and sl: "block_slot s dp j < length (m_block_info s)" "blocks_for_piece s dp ! j = m_block_info s ! block_slot s dp j"
        "j < length (blocks_for_piece s dp)"
      using at_entry [OF P x False] j by metis
    define slot where "slot = block_slot s dp j"
    define st where "st = bi_state (m_block_info s ! slot)"
    consider "st = state_finished" | "st = state_writing" | "st \<noteq> state_finished" "st \<noteq> state_writing" by blast
    then show ?thesis
    proof cases
      case 1
      then have "mark_as_canceled x j peer s = s" using e(1,3) by (simp add: mark_as_canceled_def Let_def st_def slot_def)
      then show ?thesis using P 1 e(6) sl(2) by (simp add: spec_canceled_def state_at_def st_def slot_def)
    next
      case 2
      let ?f = "\<lambda>b. b\<lparr>bi_peer := peer, bi_state := state_none\<rparr>" and ?g = "\<lambda>dp. dp\<lparr>writing := writing dp - 1\<rparr>"
      have "0 < writing dp" using count_pos(1) [OF e(5) sl(3)] 2 sl(2) by (simp add: st_def slot_def)
      then have rc: "recount (bi_state (m_block_info s ! block_slot s dp j)) (bi_state (?f (m_block_info s ! block_slot s dp j))) dp (?g dp)"
        using 2 by (simp add: recount_def st_def slot_def)
      obtain it' s' where u: "update_piece_state it (set_dp it ?g (set_block (block_slot s dp j) ?f s)) = (it', s')" by fastforce
      note E = edit_update [where f = ?f and g = ?g, OF queue_inv_but [OF qi] pi e(2,3,4,5) j _ _ rc refl u]
      have "mark_as_canceled x j peer s = drop_if_idle x (update_piece_state it (set_block slot (\<lambda>b. b\<lparr>bi_state := state_none\<rparr>)
          (set_dp it ?g (set_block slot (\<lambda>b. b\<lparr>bi_peer := peer\<rparr>) s))))"
        using False e(1,3) 2 by (simp add: mark_as_canceled_def Let_def st_def slot_def)
      then have R: "mark_as_canceled x j peer s = drop_if_idle x (it', s')"
        using u sl(1) by (simp add: set_block_set_dp set_block_set_block comp_def slot_def)
      show ?thesis unfolding R
        using drop_if_idle_refines [OF E(1,2,5,4) _ E(6,3,11)] E(10,12) e(4,6) 2 sl(2)
        by (simp add: spec_canceled_def edit_def state_at_def st_def slot_def)
    next
      case 3
      let ?f = "\<lambda>b. b\<lparr>bi_peer := peer\<rparr>"
      have t: "set_block slot ?f s = set_dp it id (set_block (block_slot s dp j) ?f s)" by (simp add: set_dp_id slot_def)
      note E = edit_only [where f = ?f and g = id, OF P e(2-4) j _ _ _ _ _ _ t]
      have "mark_as_canceled x j peer s = set_block slot ?f s"
        using False e(1,3) 3 by (simp add: mark_as_canceled_def Let_def st_def slot_def)
      then show ?thesis using E e(4,6) 3 sl(2) by (simp add: spec_canceled_def edit_def state_at_def st_def slot_def)
    qed
  qed
  then show "picker_ok (mark_as_canceled x j peer s)" "dl_map (mark_as_canceled x j peer s) = spec_canceled x j peer (dl_map s)" "cview (mark_as_canceled x j peer s) = cview s" by auto
qed

text \<open>\<^verbatim>\<open>abort_download\<close>: one request of a block is called off; the last one opens it again.\<close>

definition spec_abort :: "nat \<Rightarrow> nat \<Rightarrow> peer \<Rightarrow> (nat \<Rightarrow> dl_entry option) \<Rightarrow> nat \<Rightarrow> dl_entry option" where
  "spec_abort x j peer m = (case m x of None \<Rightarrow> m | Some e \<Rightarrow>
     if state_at e j \<noteq> state_requested then m
     else if 1 < bi_num_peers (fst e ! j)
     then m(x \<mapsto> edit j (\<lambda>b. b\<lparr>bi_num_peers := bi_num_peers b - 1, bi_peer := (if bi_peer b = peer then None else bi_peer b)\<rparr>) e)
     else settle x (edit j (\<lambda>b. b\<lparr>bi_num_peers := 0, bi_peer := None, bi_state := state_none\<rparr>) e) m)"

lemma set_block_cong: "f (m_block_info s ! k) = g (m_block_info s ! k) \<Longrightarrow> set_block k f s = set_block k g s"
  by (simp add: set_block_def)

lemma abort_download_refines:
  assumes P: "picker_ok s" and x: "x < num_pieces s" and j: "j < blocks_in_piece s x"
  shows "picker_ok (abort_download x j peer s)" "dl_map (abort_download x j peer s) = spec_abort x j peer (dl_map s)" "cview (abort_download x j peer s) = cview s"
proof -
  have qi: "queue_inv s" and pi: "pieces_inv s" using P by (auto simp: picker_ok_def)
  have "picker_ok (abort_download x j peer s) \<and> dl_map (abort_download x j peer s) = spec_abort x j peer (dl_map s) \<and> cview (abort_download x j peer s) = cview s"
  proof (cases "download_queue (pos_of s x) = piece_open")
    case True
    then show ?thesis using P no_entry [OF P x True] by (simp add: abort_download_def Let_def spec_abort_def)
  next
    case False
    obtain it dp where e: "find_dl_piece (download_queue (pos_of s x)) x s = Some it" "valid_it it s" "deref it s = dp"
      "dp_index dp = x" "counts s dp" "dl_map s x = Some (blocks_for_piece s dp, passed_hash_check dp, locked dp)"
      and sl: "block_slot s dp j < length (m_block_info s)" "blocks_for_piece s dp ! j = m_block_info s ! block_slot s dp j"
        "j < length (blocks_for_piece s dp)"
      using at_entry [OF P x False] j by metis
    define slot where "slot = block_slot s dp j"
    define info where "info = m_block_info s ! slot"
    show ?thesis
    proof (cases "bi_state info = state_requested")
      case nr: False
      then have "abort_download x j peer s = s" using e(1,3) by (simp add: abort_download_def Let_def info_def slot_def)
      then show ?thesis using P nr e(6) sl(2) by (simp add: spec_abort_def state_at_def info_def slot_def)
    next
      case rq: True
      define n where "n = (if bi_num_peers info > 0 then bi_num_peers info - 1 else 0)"
      have n: "n = bi_num_peers info - 1" by (simp add: n_def)
      let ?h = "\<lambda>b. b\<lparr>bi_num_peers := n, bi_peer := (if bi_peer b = peer then None else bi_peer b)\<rparr>"
      define s1 where "s1 = set_block slot ?h s"
      let ?g = "\<lambda>dp. dp\<lparr>requested := requested dp - 1\<rparr>"
      define s2 where "s2 = set_dp it ?g (set_block slot (\<lambda>b. b\<lparr>bi_peer := None, bi_state := state_none\<rparr>) s1)"
      define fl where "fl = (let s4 = erase_download_piece it s2 in
            if m_dirty s4 then s4
            else if prio_of s x = -1 \<and> prio_of s4 x \<ge> 0 then add x s4
            else if prio_of s x \<ge> 0 then update (nat (prio_of s x)) (nat (pp_index (pos_of s4 x))) s4 else s4)"
      have "abort_download x j peer s =
        (if download_queue (pos_of s x) = piece_open then s
         else if bi_state info \<noteq> state_requested then s
         else if n > 0 then s1
         else if requested (deref it s2) + finished (deref it s2) + writing (deref it s2) = 0 then fl
         else snd (update_piece_state it s2))"
        unfolding fl_def abort_download_def Let_def e(1) option.case s2_def s1_def n_def info_def slot_def e(3) by (rule refl)
      then have R0: "abort_download x j peer s = (if n > 0 then s1 else if busy (deref it s2) = 0 then fl else snd (update_piece_state it s2))"
        using False rq by (simp add: busy_def)
      show ?thesis
      proof (cases "0 < n")
        case True
        have R: "abort_download x j peer s = s1"
          using R0 True by simp
        have t: "s1 = set_dp it id (set_block (block_slot s dp j) ?h s)" by (simp add: set_dp_id slot_def s1_def)
        note E = edit_only [where f = ?h and g = id, OF P e(2-4) j _ _ _ _ _ _ t]
        have "cview s1 = cview s" by (simp add: s1_def)
        then show ?thesis unfolding R using E e(4,6) rq sl(2) True
          by (simp add: spec_abort_def edit_def state_at_def info_def slot_def n)
      next
        case n0: False
        let ?f = "\<lambda>b. b\<lparr>bi_num_peers := 0, bi_peer := None, bi_state := state_none\<rparr>"
        define s3 where "s3 = set_dp it ?g (set_block (block_slot s dp j) ?f s)"
        have "0 < requested dp" using count_pos(2) [OF e(5) sl(3)] rq sl(2) by (simp add: info_def slot_def)
        then have rc: "recount (bi_state (m_block_info s ! block_slot s dp j)) (bi_state (?f (m_block_info s ! block_slot s dp j))) dp (?g dp)"
          using rq by (simp add: recount_def info_def slot_def)
        note B = edit_block [where f = ?f and g = ?g, OF queue_inv_but [OF qi] pi e(2,3,4,5) j _ _ rc s3_def]
        have s3: "s2 = s3"
          using sl(1) n0 by (simp add: s2_def s3_def s1_def slot_def set_block_set_block comp_def)
        define bs where "bs = (blocks_for_piece s dp)[j := ?f (blocks_for_piece s dp ! j)]"
        have S: "spec_abort x j peer (dl_map s) = settle x (bs, passed_hash_check dp, locked dp) (dl_map s)"
          using e(6) rq sl(2) n0 by (simp add: spec_abort_def edit_def state_at_def info_def slot_def n bs_def)
        have pr: "prio_of s3 x = prio_of s x" by (simp add: s3_def)
        have R: "abort_download x j peer s = (if busy (?g dp) = 0 then fl else snd (update_piece_state it s3))"
          using R0 n0 s3 B(4) e(4) by simp
        show ?thesis
        proof (cases "busy (?g dp) = 0")
          case True
          have v3: "dp_index (deref it s3) = x" using B(4) e(4) by simp
          have x3: "x < num_pieces s3" using x B(9) e(4) by simp
          have B1: "queue_but x s3" "pieces_inv s3" "valid_it it s3" using B(1-3) e(4) by simp_all
          note X = erase_queue [OF B1(1,3) v3]
          have ch: "changed x (prio_of s x) (erase_download_piece it s3)" using erase_changed [OF B1(2) v3 x3] pr by simp
          then have "prio_of (erase_download_piece it s3) x = -1 \<or> 0 \<le> prio_of (erase_download_piece it s3) x"
            "prio_of s x = -1 \<or> 0 \<le> prio_of s x"
            using prio_of_cases by (auto simp: changed_def)
          then have "fl = follow (prio_of s x) x (erase_download_piece it s3)"
            by (auto simp: fl_def Let_def follow_def s3)
          then have ok: "picker_ok fl" "dl_map fl = dl_map (erase_download_piece it s3)" "cview fl = cview s"
            using reordered_ok [OF changed_follow(2) [OF ch] X(1) changed_follow(1) [OF ch]] same_blocks_reads(7) [OF X(3)]
            by (simp_all add: s3_def)
          have bp: "blocks_for_piece s3 (?g dp) = bs" using B(7) e(4) by (simp add: bs_def)
          have "idle (bs, passed_hash_check dp, locked dp)" using busy_zero [of s3 "?g dp"] B(5) True e(4) bp by (simp add: idle_def)
          moreover have "dl_map (erase_download_piece it s3) = (dl_map s)(x := None)"
          proof -
            have m3: "dl_map s3 = (dl_map s)(x \<mapsto> dl_view s3 (?g dp))"
              by (rule dl_map_change [OF queue_inv_queues [OF qi] queue_but_queues [OF B1(1)]]) (use B e(4) in auto)
            show ?thesis using dl_map_erase [OF queue_but_queues [OF B1(1)] queue_inv_queues [OF X(1)] X(2,3)] m3 by simp
          qed
          ultimately show ?thesis using R True ok S by (simp add: settle_def)
        next
          case nb: False
          obtain it' s' where u: "update_piece_state it s3 = (it', s')" by fastforce
          note E = edit_update [where f = ?f and g = ?g, OF queue_inv_but [OF qi] pi e(2,3,4,5) j _ _ rc s3_def u]
          have "\<not> idle (bs, passed_hash_check dp, locked dp)"
            using busy_zero [OF E(6)] nb E(10) e(4) by (simp add: idle_def bs_def)
          then show ?thesis using R nb u E(3,11,12) S e(4) by (simp add: settle_def bs_def)
        qed
      qed
    qed
  qed
  then show "picker_ok (abort_download x j peer s)" "dl_map (abort_download x j peer s) = spec_abort x j peer (dl_map s)" "cview (abort_download x j peer s) = cview s" by auto
qed

text \<open>
  \<^verbatim>\<open>mark_as_finished\<close>: a block is on disk. When it is the last one of a piece whose hash was good, the
  piece is had.
\<close>

definition spec_finished :: "block_info list \<Rightarrow> nat \<Rightarrow> nat \<Rightarrow> peer \<Rightarrow> (nat \<Rightarrow> dl_entry option) \<Rightarrow> nat \<Rightarrow> dl_entry option" where
  "spec_finished bs x j peer m =
     (let e = entry_or bs (m x);
          keep = (state_at e j = state_writing \<and> peer = None);
          e' = edit j (\<lambda>b. b\<lparr>bi_peer := (if keep then bi_peer b else peer), bi_state := state_finished\<rparr>) e in
      if state_at e j = state_finished then m(x \<mapsto> e)
      else if complete e' \<and> fst (snd e') then m(x := None) else m(x \<mapsto> e'))"

lemma same_blocks_have: "same_blocks s s' \<Longrightarrow> i < num_pieces s \<Longrightarrow> have_pos (pos_of s' i) = have_pos (pos_of s i)"
  by (simp add: same_blocks_def)

lemma mark_as_finished_refines:
  assumes P: "picker_ok s" and x: "x < num_pieces s" and j: "j < blocks_in_piece s x" and h: "\<not> have_pos (pos_of s x)"
    and w: "\<And>e. dl_map s x = Some e \<Longrightarrow> state_at e j \<noteq> state_requested"
  shows "picker_ok (mark_as_finished x j peer s)"
    "dl_map (mark_as_finished x j peer s) = spec_finished (fresh s x) x j peer (dl_map s)"
    "\<exists>t. picker_ok t \<and> cview t = cview s \<and>
      (mark_as_finished x j peer s = t \<and> (dl_map s x \<noteq> None \<longrightarrow> dl_map t x \<noteq> None) \<or> dl_map s x \<noteq> None \<and> mark_as_finished x j peer s = we_have x t)"
proof -
  have qi: "queue_inv s" and pi: "pieces_inv s" using P by (auto simp: picker_ok_def)
  have "picker_ok (mark_as_finished x j peer s) \<and>
    dl_map (mark_as_finished x j peer s) = spec_finished (fresh s x) x j peer (dl_map s) \<and>
    (\<exists>t. picker_ok t \<and> cview t = cview s \<and>
      (mark_as_finished x j peer s = t \<and> (dl_map s x \<noteq> None \<longrightarrow> dl_map t x \<noteq> None) \<or> dl_map s x \<noteq> None \<and> mark_as_finished x j peer s = we_have x t))"
  proof (cases "download_queue (pos_of s x) = piece_open")
    case True
    then have o: "download_state (pos_of s x) = piece_open" by (simp add: download_queue_open)
    define s2 where "s2 = refresh (prio_of s x) x (set_pos x (\<lambda>p. p\<lparr>download_state := piece_downloading\<rparr>) s)"
    obtain it s3 where a: "add_download_piece x s2 = (it, s3)" by fastforce
    have "s2 = s2\<lparr>m_recent_extents := m_recent_extents s2\<rparr>" by simp
    note S = start_ok [OF P x o disjI1 [OF refl] s2_def this a]
    define dp where "dp = deref it s3"
    define slot where "slot = block_slot s3 dp j"
    have j3: "j < blocks_in_piece s3 x" using j S(10) by simp
    have dp: "deref it s3 = dp" "dp_index dp = x" using S(4) by (simp_all add: dp_def)
    have b: "m_block_info s3 ! slot = fresh s x ! j" by (metis blocks_nth j3 S(6) dp slot_def)
    have sl: "slot < length (m_block_info s3)" unfolding slot_def
      by (rule block_slot_less [OF queuesD(6) [OF queue_but_queues [OF S(1)]] queuesD(4) [OF queue_but_queues [OF S(1)]] j3])
        (use deref_dps [OF S(3)] dp in simp)
    have m: "dl_map s x = None" by (rule no_entry [OF P x True])
    let ?f = "\<lambda>b. b\<lparr>bi_peer := peer, bi_state := state_finished\<rparr>" and ?g = "\<lambda>dp. dp\<lparr>finished := finished dp + 1\<rparr>"
    have R: "mark_as_finished x j peer s = (if bi_state (m_block_info s3 ! slot) = state_finished then s3
        else snd (update_piece_state it (set_block slot (\<lambda>b. b\<lparr>bi_state := state_finished\<rparr>)
               (set_dp it ?g (set_block slot (\<lambda>b. b\<lparr>bi_peer := peer\<rparr>) s3)))))"
      using True h a unfolding mark_as_finished_def Let_def s2_def slot_def dp_def by (simp add: have_piece_def have_pos_def)
    show ?thesis
    proof (cases "bi_state (fresh s x ! j) = state_finished")
      case True
      then have "fresh s x ! j \<in> set (blocks_for_piece s3 dp)" using j S(6) dp fresh_states(2) [of s x] by (simp add: nth_mem)
      then have "picker_ok s3" using count_busy [OF S(5)] True S(8) dp by (metis block_state.distinct(5))
      then show ?thesis using R b True S(7,13) m by (auto simp: spec_finished_def entry_or_def state_at_def Let_def)
    next
      case nf: False
      then have no: "bi_state (fresh s x ! j) = state_none" using fresh_states(1) [OF j] by (auto split: if_splits)
      obtain it' s5 where u: "update_piece_state it (set_dp it ?g (set_block (block_slot s3 dp j) ?f s3)) = (it', s5)" by fastforce
      have rc: "recount (bi_state (m_block_info s3 ! block_slot s3 dp j)) (bi_state (?f (m_block_info s3 ! block_slot s3 dp j))) dp (?g dp)"
        using b no by (simp add: recount_def slot_def)
      note E = edit_update [where f = ?f and g = ?g, OF S(1,2,3) dp S(5) [unfolded dp] j3 _ _ rc refl u]
      have "picker_ok s5" using E(3) dp by (simp add: busy_def)
      moreover have "mark_as_finished x j peer s = s5"
        using R b no u sl by (simp add: set_block_set_dp set_block_set_block comp_def slot_def)
      ultimately show ?thesis using E(11,12) S(6,7,11,12,13) m dp no
        by (auto simp: spec_finished_def entry_or_def state_at_def edit_def Let_def)
    qed
  next
    case False
    obtain it dp where e: "find_dl_piece (download_queue (pos_of s x)) x s = Some it" "valid_it it s" "deref it s = dp"
      "dp_index dp = x" "counts s dp" "dl_map s x = Some (blocks_for_piece s dp, passed_hash_check dp, locked dp)"
      and sl: "block_slot s dp j < length (m_block_info s)" "blocks_for_piece s dp ! j = m_block_info s ! block_slot s dp j"
        "j < length (blocks_for_piece s dp)"
      using at_entry [OF P x False] j by metis
    define slot where "slot = block_slot s dp j"
    define st where "st = bi_state (m_block_info s ! slot)"
    show ?thesis
    proof (cases "st = state_finished")
      case True
      then have "mark_as_finished x j peer s = s" using False e(1,3) by (simp add: mark_as_finished_def Let_def st_def slot_def)
      then show ?thesis using P True e(6) sl(2)
        by (auto simp: spec_finished_def entry_or_def state_at_def st_def slot_def Let_def fun_upd_idem)
    next
      case nf: False
      let ?k = "st = state_writing \<and> peer = None"
      let ?f = "\<lambda>b. b\<lparr>bi_peer := (if ?k then bi_peer b else peer), bi_state := state_finished\<rparr>"
      let ?g = "\<lambda>dp. dp\<lparr>finished := finished dp + 1, writing := writing dp - hit st state_writing\<rparr>"
      have nr: "st \<noteq> state_requested" using w [OF e(6)] sl(2) by (simp add: state_at_def st_def slot_def)
      have "st = state_writing \<Longrightarrow> 0 < writing dp" using count_pos(1) [OF e(5) sl(3)] sl(2) by (simp add: st_def slot_def)
      then have rc: "recount (bi_state (m_block_info s ! block_slot s dp j)) (bi_state (?f (m_block_info s ! block_slot s dp j))) dp (?g dp)"
        using nf nr by (cases st) (auto simp: recount_def st_def slot_def)
      define t where "t = set_dp it ?g (set_block (block_slot s dp j) ?f s)"
      obtain it' s5 where u: "update_piece_state it t = (it', s5)" by fastforce
      note E = edit_update [where f = ?f and g = ?g, OF queue_inv_but [OF qi] pi e(2,3,4,5) j _ _ rc t_def u]
      define s1 where "s1 = (if st \<noteq> state_writing \<or> peer \<noteq> None then set_block slot (\<lambda>b. b\<lparr>bi_peer := peer\<rparr>) s else s)"
      define s2 where "s2 = set_dp it (\<lambda>dp. dp\<lparr>finished := finished dp + 1\<rparr>) s1"
      define s3 where "s3 = (if st = state_writing then set_dp it (\<lambda>dp. dp\<lparr>writing := writing dp - 1\<rparr>) s2 else s2)"
      define s4 where "s4 = set_block slot (\<lambda>b. b\<lparr>bi_state := state_finished\<rparr>) s3"
      have "mark_as_finished x j peer s =
        (let (i', s5) = update_piece_state it s4; dp = deref i' s5 in
           if finished dp < blocks_in_piece s5 (dp_index dp) then s5
           else if passed_hash_check dp then we_have (dp_index dp) s5 else s5)"
        using False nf e(1,3) unfolding s4_def s3_def s2_def s1_def st_def slot_def mark_as_finished_def Let_def by simp
      moreover have "s4 = t"
        using e(2,3) sl(1)
        by (auto simp: s4_def s3_def s2_def s1_def t_def slot_def set_dp_def set_queue_def set_block_def deref_def valid_it_def)
      ultimately have R: "mark_as_finished x j peer s =
          (if finished (?g dp) < blocks_in_piece s5 x then s5 else if passed_hash_check dp then we_have x s5 else s5)"
        using u E(4) e(4) by simp
      have ok: "picker_ok s5" using E(3) e(4) by (simp add: busy_def)
      have dn: "finished (?g dp) < blocks_in_piece s5 x \<longleftrightarrow>
          \<not> complete ((blocks_for_piece s dp)[j := ?f (blocks_for_piece s dp ! j)], passed_hash_check dp, locked dp)"
        using all_finished [OF E(6)] E(10) e(4) by (simp add: complete_def)
      have "have_pos (pos_of s5 x) = have_pos (pos_of t x)" using E(9) e(4) x by (intro same_blocks_have) (auto simp: t_def)
      then have h5: "\<not> have_pos (pos_of s5 x)" using h by (simp add: t_def)
      have x5: "x < num_pieces s5" using E(7) e(4) x by simp
      have "\<exists>t. picker_ok t \<and> cview t = cview s \<and>
      (mark_as_finished x j peer s = t \<and> (dl_map s x \<noteq> None \<longrightarrow> dl_map t x \<noteq> None) \<or> dl_map s x \<noteq> None \<and> mark_as_finished x j peer s = we_have x t)"
        using ok R E(11,12) e(4,6) by (intro exI [of _ s5]) simp
      then show ?thesis using ok R dn we_have_refines [OF ok x5] h5 E(11) e(4,6) sl(2) nf
        by (auto simp: spec_finished_def entry_or_def state_at_def edit_def Let_def st_def slot_def)
    qed
  qed
  then show "picker_ok (mark_as_finished x j peer s)"
    "dl_map (mark_as_finished x j peer s) = spec_finished (fresh s x) x j peer (dl_map s)"
    "\<exists>t. picker_ok t \<and> cview t = cview s \<and>
      (mark_as_finished x j peer s = t \<and> (dl_map s x \<noteq> None \<longrightarrow> dl_map t x \<noteq> None) \<or> dl_map s x \<noteq> None \<and> mark_as_finished x j peer s = we_have x t)" by auto
qed

text \<open>Making a piece reverse, or not, does not touch its entry.\<close>

lemma reverse_reads:
  assumes "f = make_reverse \<or> f = unreverse"
  shows "download_queue (f p) = download_queue p" "downloading (f p) = downloading p" "piece_priority (f p) = piece_priority p"
    "have_pos (f p) = have_pos p" "filtered (f p) = filtered p"
  using assms by (auto simp: make_reverse_def unreverse_def download_queue_def downloading_def have_pos_def filtered_def
      split: if_splits)

lemma reverse_state:
  assumes f: "f = make_reverse \<or> f = unreverse" and x: "x < num_pieces s" and e: "entry_ok s dp" and d: "dp_index dp = x"
  shows "entry_ok (set_pos x f s) dp"
proof -
  have b: "blocks_in_piece (set_pos x f s) i = blocks_in_piece s i" for i by (simp add: blocks_in_piece_def)
  let ?p = "pos_of s x" and ?n = "requested dp + finished dp + writing dp"
  have n: "new_dl_state (set_pos x f s) dp =
      (if filtered ?p then piece_zero_prio else if ?n = 0 then piece_open
       else if ?n < blocks_in_piece s x then (if reverse_pos (f ?p) then piece_downloading_reverse else piece_downloading)
       else if requested dp > 0 then (if reverse_pos (f ?p) then piece_full_reverse else piece_full) else piece_finished)"
    using x d reverse_reads(5) [OF f] by (simp add: new_dl_state_def Let_def b)
  have n0: "?n \<noteq> 0" and s: "(if filtered ?p then piece_zero_prio else if ?n = 0 then piece_open
       else if ?n < blocks_in_piece s x then (if reverse_pos ?p then piece_downloading_reverse else piece_downloading)
       else if requested dp > 0 then (if reverse_pos ?p then piece_full_reverse else piece_full) else piece_finished) = download_state ?p"
    using e d by (simp_all add: entry_ok_def busy_def new_dl_state_def Let_def)
  have "download_state (f ?p) = new_dl_state (set_pos x f s) dp"
    unfolding n using f
  proof (elim disjE)
    assume m: "f = make_reverse"
    show "download_state (f ?p) = (if filtered ?p then piece_zero_prio else if ?n = 0 then piece_open
       else if ?n < blocks_in_piece s x then (if reverse_pos (f ?p) then piece_downloading_reverse else piece_downloading)
       else if requested dp > 0 then (if reverse_pos (f ?p) then piece_full_reverse else piece_full) else piece_finished)"
      using s n0 unfolding m by (cases "download_state ?p") (simp_all add: make_reverse_def reverse_pos_def split: if_splits)
  next
    assume m: "f = unreverse"
    show "download_state (f ?p) = (if filtered ?p then piece_zero_prio else if ?n = 0 then piece_open
       else if ?n < blocks_in_piece s x then (if reverse_pos (f ?p) then piece_downloading_reverse else piece_downloading)
       else if requested dp > 0 then (if reverse_pos (f ?p) then piece_full_reverse else piece_full) else piece_finished)"
      using s n0 unfolding m by (cases "download_state ?p") (simp_all add: unreverse_def reverse_pos_def split: if_splits)
  qed
  then show ?thesis using e x d by (simp add: entry_ok_def)
qed

lemma queue_inv_reverse:
  assumes f: "f = make_reverse \<or> f = unreverse" and q: "queue_inv s" and x: "x < num_pieces s"
  shows "queue_inv (set_pos x f s)"
proof -
  have Q: "queues {} s" and ok: "\<And>dp. dp \<in> dps s \<Longrightarrow> entry_ok s dp" using q by (auto simp: queue_inv_def)
  have "entry_ok (set_pos x f s) dp" if "dp \<in> dps s" for dp
    using ok [OF that] entry_ok_other [OF x] reverse_state [OF f x] by (cases "dp_index dp = x") auto
  moreover have "queues {} (set_pos x f s)"
    using queuesD [OF Q] x reverse_reads [OF f]
    unfolding queues_def set_pos_fields set_pos_simps(1) by (auto simp: set_pos_simps)
  ultimately show ?thesis by (simp add: queue_inv_def)
qed

lemma refresh_reverse:
  assumes f: "f = unreverse \<or> f = make_reverse \<and> download_state (pos_of s x) \<noteq> piece_full" and P: "picker_ok s" and x: "x < num_pieces s"
    and s': "s' = refresh (prio_of s x) x (set_pos x f s)"
  shows "picker_ok s'" "dl_map s' = dl_map s" "m_downloads s' = m_downloads s" "same_blocks s s'"
proof -
  have pi: "pieces_inv s" and qi: "queue_inv s" using P by (simp_all add: picker_ok_def)
  have f': "f = make_reverse \<or> f = unreverse" using f by blast
  have c: "pieces_inv s'" "m_downloads s' = m_downloads s" using changed_reverse [OF pi x f] s' by simp_all
  have ch: "changed x (prio_of s x) (set_pos x f s)"
  proof (rule changed_set_pos [OF pi x])
    show "pp_index (f (pos_of s x)) = pp_index (pos_of s x)" using f' by (auto simp: make_reverse_def unreverse_def)
    show "piece_priority (f (pos_of s x)) \<le> 7" using prio_wf_pos [OF pi x] reverse_reads(3) [OF f'] by simp
  qed
  have pr: "prio_of s x = -1 \<Longrightarrow> prio_of (set_pos x f s) x = -1"
  proof -
    assume "prio_of s x = -1"
    then have u: "unpickable (m_seeds s) (pos_of s x)" using priority_minus_one [OF prio_wf_pos [OF pi x]] by simp
    have "unpickable (m_seeds s) (f (pos_of s x))"
      using u f reverse_reads(4,5) [OF f'] by (auto simp: unpickable_def make_reverse_def unreverse_def split: if_splits)
    then show ?thesis using x priority_minus_one [of "f (pos_of s x)"] prio_wf_pos [OF pi x] reverse_reads(3) [OF f'] by simp
  qed
  have r: "reordered (set_pos x f s) s'" unfolding s' by (rule changed_refresh(2) [OF ch pr])
  have sb: "same_blocks s (set_pos x f s)" using reverse_reads [OF f'] by simp
  note O = reordered_ok [OF r queue_inv_reverse [OF f' qi x] c(1)]
  show "picker_ok s'" "m_downloads s' = m_downloads s" by (fact O(1) c(2))+
  show "same_blocks s s'" by (rule same_blocks_trans [OF sb reordered_same_blocks [OF r]])
  have "dl_map (set_pos x f s) = dl_map s"
    by (rule dl_map_same [OF queue_inv_queues [OF qi] queue_inv_queues [OF queue_inv_reverse [OF f' qi x]] _ sb]) simp
  then show "dl_map s' = dl_map s" using O(2) by simp
qed

lemma record_extents: "\<exists>ext. record_downloading_piece x s = s\<lparr>m_recent_extents := ext\<rparr>"
  by (auto simp: record_downloading_piece_def Let_def intro: exI [of _ "m_recent_extents s"])

text \<open>\<^verbatim>\<open>mark_as_downloading\<close>: a block that was not received becomes requested.\<close>

definition spec_downloading :: "block_info list \<Rightarrow> nat \<Rightarrow> nat \<Rightarrow> peer \<Rightarrow> (nat \<Rightarrow> dl_entry option) \<Rightarrow> bool \<times> (nat \<Rightarrow> dl_entry option)" where
  "spec_downloading bs x j peer m =
     (let e = entry_or bs (m x) in
      if state_at e j = state_writing \<or> state_at e j = state_finished then (False, m(x \<mapsto> e))
      else (True, m(x \<mapsto> edit j (\<lambda>b. b\<lparr>bi_state := state_requested, bi_peer := peer, bi_num_peers := bi_num_peers b + 1\<rparr>) e)))"

lemma fresh_peers: "j < blocks_in_piece s x \<Longrightarrow> bi_num_peers (fresh s x ! j) = 0"
  by (simp add: fresh_def init_block_def)

lemma mark_as_downloading_open:
  assumes P: "picker_ok s" and x: "x < num_pieces s" and j: "j < blocks_in_piece s x" and o: "download_queue (pos_of s x) = piece_open"
    and r: "mark_as_downloading x j peer rv aff s = (res, s')"
  shows "picker_ok s'" "(res, dl_map s') = spec_downloading (fresh s x) x j peer (dl_map s)" "cview s' = cview s"
proof -
  have op: "download_state (pos_of s x) = piece_open" using o by (simp add: download_queue_open)
  define st where "st = (if rv then piece_downloading_reverse else piece_downloading)"
  define s2 where "s2 = refresh (prio_of s x) x (set_pos x (\<lambda>p. p\<lparr>download_state := st\<rparr>) s)"
  define s3 where "s3 = (if aff then record_downloading_piece x s2 else s2)"
  obtain it s4 where a: "add_download_piece x s3 = (it, s4)" by fastforce
  have "\<exists>ext. s3 = s2\<lparr>m_recent_extents := ext\<rparr>" using record_extents [of x s2] by (auto simp: s3_def intro: exI [of _ "m_recent_extents s2"])
  then obtain ext where ext: "s3 = s2\<lparr>m_recent_extents := ext\<rparr>" by blast
  have st: "st = piece_downloading \<or> st = piece_downloading_reverse" by (simp add: st_def)
  note S = start_ok [OF P x op st s2_def ext a]
  define dp where "dp = deref it s4"
  define slot where "slot = block_slot s4 dp j"
  have j4: "j < blocks_in_piece s4 x" using j S(10) by simp
  have dp: "deref it s4 = dp" "dp_index dp = x" using S(4) by (simp_all add: dp_def)
  have b: "m_block_info s4 ! slot = fresh s x ! j" by (metis blocks_nth j4 S(6) dp slot_def)
  have m: "dl_map s x = None" by (rule no_entry [OF P x o])
  let ?f = "\<lambda>b. b\<lparr>bi_state := state_requested, bi_peer := peer, bi_num_peers := 1\<rparr>" and ?g = "\<lambda>dp. dp\<lparr>requested := requested dp + 1\<rparr>"
  have R: "mark_as_downloading x j peer rv aff s = (if bi_state (m_block_info s4 ! slot) = state_finished then (False, s4)
      else (True, snd (update_piece_state it (set_dp it ?g (set_block slot ?f s4)))))"
    using o a unfolding mark_as_downloading_def Let_def st_def s2_def s3_def slot_def dp_def by simp
  have "picker_ok s' \<and> (res, dl_map s') = spec_downloading (fresh s x) x j peer (dl_map s) \<and> cview s' = cview s"
  proof (cases "bi_state (fresh s x ! j) = state_finished")
    case True
    then have "fresh s x ! j \<in> set (blocks_for_piece s4 dp)" using j S(6) dp fresh_states(2) [of s x] by (simp add: nth_mem)
    then have "picker_ok s4" using count_busy [OF S(5)] True S(8) dp by (metis block_state.distinct(5))
    then show ?thesis using R r b True S(7,13) m by (auto simp: spec_downloading_def entry_or_def state_at_def)
  next
    case nf: False
    then have no: "bi_state (fresh s x ! j) = state_none" using fresh_states(1) [OF j] by (auto split: if_splits)
    obtain it' s5 where u: "update_piece_state it (set_dp it ?g (set_block (block_slot s4 dp j) ?f s4)) = (it', s5)" by fastforce
    have rc: "recount (bi_state (m_block_info s4 ! block_slot s4 dp j)) (bi_state (?f (m_block_info s4 ! block_slot s4 dp j))) dp (?g dp)"
      using b no by (simp add: recount_def slot_def)
    note E = edit_update [where f = ?f and g = ?g, OF S(1,2,3) dp S(5) [unfolded dp] j4 _ _ rc refl u]
    have "picker_ok s5" using E(3) dp by (simp add: busy_def)
    then show ?thesis using R r b no E(11,12) u S(6,7,11,12,13) m dp fresh_peers [OF j]
      by (auto simp: spec_downloading_def entry_or_def state_at_def edit_def slot_def)
  qed
  then show "picker_ok s'" "(res, dl_map s') = spec_downloading (fresh s x) x j peer (dl_map s)" "cview s' = cview s" by auto
qed

lemma mark_as_downloading_again:
  assumes P: "picker_ok s" and x: "x < num_pieces s" and j: "j < blocks_in_piece s x" and o: "download_queue (pos_of s x) \<noteq> piece_open"
    and r: "mark_as_downloading x j peer rv aff s = (res, s')"
  shows "picker_ok s'" "(res, dl_map s') = spec_downloading (fresh s x) x j peer (dl_map s)" "cview s' = cview s"
proof -
  have qi: "queue_inv s" and pi: "pieces_inv s" using P by (auto simp: picker_ok_def)
  obtain it dp where e: "find_dl_piece (download_queue (pos_of s x)) x s = Some it" "valid_it it s" "deref it s = dp"
    "dp_index dp = x" "counts s dp" "dl_map s x = Some (blocks_for_piece s dp, passed_hash_check dp, locked dp)" "dp \<in> dps s"
    and sl: "block_slot s dp j < length (m_block_info s)" "blocks_for_piece s dp ! j = m_block_info s ! block_slot s dp j"
      "j < length (blocks_for_piece s dp)"
    using at_entry [OF P x o] j by metis
  define slot where "slot = block_slot s dp j"
  define st where "st = bi_state (m_block_info s ! slot)"
  define s1 where "s1 = (if rv \<and> \<not> reverse_pos (pos_of s x) \<and> requested dp = 0
    then refresh (prio_of s x) x (set_pos x make_reverse s) else s)"
  let ?p = "\<lambda>b. b\<lparr>bi_peer := peer\<rparr>" and ?r = "\<lambda>b. b\<lparr>bi_state := state_requested\<rparr>" and ?n = "\<lambda>b. b\<lparr>bi_num_peers := bi_num_peers b + 1\<rparr>"
  let ?g = "\<lambda>dp. dp\<lparr>requested := requested dp + 1\<rparr>"
  define s2 where "s2 = set_block slot ?p s1"
  define s3 where "s3 = (if st \<noteq> state_requested then snd (update_piece_state it (set_dp it ?g (set_block slot ?r s2))) else s2)"
  define s4 where "s4 = set_block slot ?n s3"
  define s5 where "s5 = (if \<not> rv \<and> reverse_pos (pos_of s4 x) then refresh (prio_of s4 x) x (set_pos x unreverse s4) else s4)"
  have R: "mark_as_downloading x j peer rv aff s = (if st = state_writing \<or> st = state_finished then (False, s) else (True, s5))"
    using o e(1,3) unfolding s5_def s4_def s3_def s2_def s1_def st_def slot_def mark_as_downloading_def Let_def by simp
  have "picker_ok s' \<and> (res, dl_map s') = spec_downloading (fresh s x) x j peer (dl_map s) \<and> cview s' = cview s"
  proof (cases "st = state_writing \<or> st = state_finished")
    case True
    then show ?thesis using R r P e(6) sl(2)
      by (auto simp: spec_downloading_def entry_or_def state_at_def st_def slot_def fun_upd_idem)
  next
    case nT: False
    have nf: "download_state (pos_of s x) \<noteq> piece_full" if "requested dp = 0"
    proof -
      have "download_state (pos_of s x) = new_dl_state s dp" using qi e(4,7) by (auto simp: queue_inv_def entry_ok_def)
      then show ?thesis using that by (simp add: new_dl_state_def Let_def)
    qed
    note rr = refresh_reverse [where f = make_reverse and s' = "refresh (prio_of s x) x (set_pos x make_reverse s)", OF _ P x refl]
    have s1: "picker_ok s1" "dl_map s1 = dl_map s" "m_downloads s1 = m_downloads s" "same_blocks s s1"
      using rr P nf by (auto simp: s1_def)
    note B1 = same_blocks_reads [OF s1(4)]
    have v1: "valid_it it s1" "deref it s1 = dp" using e s1(3) by (simp_all add: valid_it_def deref_def)
    have j1: "j < blocks_in_piece s1 x" using j B1(3) by simp
    have sl1: "slot = block_slot s1 dp j" "m_block_info s1 ! slot = blocks_for_piece s dp ! j" "slot < length (m_block_info s1)"
      using sl B1 by (simp_all add: slot_def)
    have c1: "counts s1 dp" using e(5) B1(2) by simp
    have q1: "queue_but x s1" "pieces_inv s1" using s1(1) by (auto simp: picker_ok_def intro: queue_inv_but)
    define b where "b = blocks_for_piece s dp ! j"
    define bs where "bs = (blocks_for_piece s dp)[j := b\<lparr>bi_peer := peer, bi_state := state_requested\<rparr>]"
    have "\<exists>it3 dp3. valid_it it3 s3 \<and> deref it3 s3 = dp3 \<and> dp_index dp3 = x \<and> picker_ok s3 \<and> blocks_for_piece s3 dp3 = bs \<and>
        passed_hash_check dp3 = passed_hash_check dp \<and> locked dp3 = locked dp \<and> block_slot s3 dp3 j = slot \<and>
        dl_map s3 = (dl_map s)(x \<mapsto> (bs, passed_hash_check dp, locked dp)) \<and> num_pieces s3 = num_pieces s \<and>
        blocks_in_piece s3 x = blocks_in_piece s x \<and> cview s3 = cview s"
    proof (cases "st = state_requested")
      case False
      then have no: "st = state_none" using nT by (cases st) auto
      let ?f = "\<lambda>b. b\<lparr>bi_peer := peer, bi_state := state_requested\<rparr>"
      define t where "t = set_dp it ?g (set_block (block_slot s1 dp j) ?f s1)"
      obtain it' s3' where u: "update_piece_state it t = (it', s3')" by fastforce
      have rc: "recount (bi_state (m_block_info s1 ! block_slot s1 dp j)) (bi_state (?f (m_block_info s1 ! block_slot s1 dp j))) dp (?g dp)"
        using no sl1 sl(2) by (simp add: recount_def st_def slot_def)
      note E = edit_update [where f = ?f and g = ?g, OF q1 v1 e(4) c1 j1 _ _ rc t_def u]
      have "set_dp it ?g (set_block slot ?r s2) = t" using sl1 by (simp add: s2_def t_def set_block_set_block comp_def)
      then have s3: "s3 = s3'" using u False by (simp add: s3_def)
      have "block_slot s3' (?g dp) j = slot"
        using same_blocks_reads(4) [OF E(9)] e(4) sl1(1) by (simp add: t_def block_slot_def)
      moreover have "picker_ok s3'" using E(3) e(4) by (simp add: busy_def)
      ultimately show ?thesis unfolding s3 using E(4,5,7,8,10,11,12) e(4) B1 s1(2)
        by (intro exI [of _ it'] exI [of _ "?g dp"]) (simp add: bs_def b_def)
    next
      case True
      have t: "s2 = set_dp it id (set_block (block_slot s1 dp j) ?p s1)" by (simp add: s2_def set_dp_id sl1)
      note E = edit_only [where f = ?p and g = id, OF s1(1) v1 e(4) j1 _ _ _ _ _ _ t]
      have Q1: "queues {} s1" using s1(1) by (simp add: picker_ok_def queue_inv_def)
      have "dp \<in> dps s1" using deref_dps [OF v1(1)] v1(2) by simp
      then have b2: "blocks_for_piece s2 dp = (blocks_for_piece s1 dp)[j := ?p (blocks_for_piece s1 dp ! j)]"
        using blocks_set_block(1) [where f = ?p, OF Q1] j1 e(4) by (simp add: s2_def sl1(1))
      have "?p b = b\<lparr>bi_peer := peer, bi_state := state_requested\<rparr>" using True sl(2) by (simp add: b_def st_def slot_def)
      then have b2': "blocks_for_piece s2 dp = bs" using b2 B1 by (simp add: bs_def b_def)
      have s3: "s3 = s2" using True by (simp add: s3_def)
      show ?thesis unfolding s3 using E e(4) B1 s1(2) v1 b2 b2' sl1(1)
        by (intro exI [of _ it] exI [of _ dp]) (simp add: s2_def)
    qed
    then obtain it3 dp3 where s3: "valid_it it3 s3" "deref it3 s3 = dp3" "dp_index dp3 = x" "picker_ok s3" "blocks_for_piece s3 dp3 = bs"
      "passed_hash_check dp3 = passed_hash_check dp" "locked dp3 = locked dp" "block_slot s3 dp3 j = slot"
      "dl_map s3 = (dl_map s)(x \<mapsto> (bs, passed_hash_check dp, locked dp))" "num_pieces s3 = num_pieces s"
      "blocks_in_piece s3 x = blocks_in_piece s x" "cview s3 = cview s" by blast
    have t: "s4 = set_dp it3 id (set_block (block_slot s3 dp3 j) ?n s3)" by (simp add: s4_def set_dp_id s3(8))
    have j3: "j < blocks_in_piece s3 x" using s3(11) j by simp
    note E = edit_only [where f = ?n and g = id, OF s3(4) s3(1-3) j3 _ _ _ _ _ _ t]
    have s4: "picker_ok s4" "dl_map s4 = (dl_map s)(x \<mapsto> (bs[j := ?n (bs ! j)], passed_hash_check dp, locked dp))"
      using E s3 by simp_all
    have c4: "cview s4 = cview s" using s3(12) by (simp add: s4_def)
    have x4: "x < num_pieces s4" using x s3(10) by (simp add: s4_def)
    have s5: "picker_ok s5" "dl_map s5 = dl_map s4" "cview s5 = cview s4"
      using refresh_reverse(1,2) [where f = unreverse and s' = "refresh (prio_of s4 x) x (set_pos x unreverse s4)", OF _ s4(1) x4 refl]
        same_blocks_reads(7) [OF refresh_reverse(4) [where f = unreverse and s' = "refresh (prio_of s4 x) x (set_pos x unreverse s4)", OF _ s4(1) x4 refl]] s4(1)
      by (auto simp: s5_def)
    have "bs[j := ?n (bs ! j)] = (blocks_for_piece s dp)[j := b\<lparr>bi_state := state_requested, bi_peer := peer, bi_num_peers := bi_num_peers b + 1\<rparr>]"
      using sl(3) by (simp add: bs_def block_update_order)
    then show ?thesis using R r nT s5 s4(2) c4 e(6) sl(2)
      by (auto simp: spec_downloading_def entry_or_def state_at_def edit_def st_def slot_def b_def)
  qed
  then show "picker_ok s'" "(res, dl_map s') = spec_downloading (fresh s x) x j peer (dl_map s)" "cview s' = cview s" by auto
qed

lemma mark_as_downloading_refines:
  assumes "picker_ok s" and "x < num_pieces s" and "j < blocks_in_piece s x"
    and "mark_as_downloading x j peer rv aff s = (res, s')"
  shows "picker_ok s'" "(res, dl_map s') = spec_downloading (fresh s x) x j peer (dl_map s)" "cview s' = cview s"
  using mark_as_downloading_open [OF assms(1-3) _ assms(4)] mark_as_downloading_again [OF assms(1-3) _ assms(4)] by auto

end
