(* ===== verification/Picker_Counters.thy ===== *)
theory Picker_Counters
  imports Picker_Blocks
begin

text \<open>
  The counters and cursors of the picker. The picker counts pieces and pad blocks incrementally; the
  invariant says that every counter is the sum over the pieces it stands for, and that the cursors
  delimit the pieces still wanted.
\<close>

section \<open>The invariant\<close>

definition total :: "piece_picker \<Rightarrow> (piece_pos \<Rightarrow> bool) \<Rightarrow> (nat \<Rightarrow> int) \<Rightarrow> int" where
  "total s P w = (\<Sum>i < num_pieces s. if P (pos_of s i) then w i else 0)"

abbreviation missing :: "piece_pos \<Rightarrow> bool" where "missing p \<equiv> filtered p \<and> \<not> have_pos p"
abbreviation unwanted :: "piece_pos \<Rightarrow> bool" where "unwanted p \<equiv> filtered p \<and> have_pos p"

definition counts_ok :: "piece_picker \<Rightarrow> bool" where
  "counts_ok s \<longleftrightarrow>
     m_num_have s = total s have_pos (\<lambda>_. 1) \<and> m_num_filtered s = total s missing (\<lambda>_. 1) \<and>
     m_num_have_filtered s = total s unwanted (\<lambda>_. 1) \<and>
     m_num_pad_blocks s = total s (\<lambda>_. True) (pad_blocks_in_piece s) \<and>
     m_have_pad_blocks s = total s have_pos (pad_blocks_in_piece s) \<and>
     m_filtered_pad_blocks s = total s missing (pad_blocks_in_piece s) \<and>
     m_have_filtered_pad_blocks s = total s unwanted (pad_blocks_in_piece s)"

definition first_open :: "(nat \<Rightarrow> bool) \<Rightarrow> nat \<Rightarrow> nat \<Rightarrow> bool" where
  "first_open skip n c \<longleftrightarrow> c \<le> n \<and> (\<forall>i < c. skip i) \<and> (c < n \<longrightarrow> \<not> skip c)"

definition last_open :: "(nat \<Rightarrow> bool) \<Rightarrow> nat \<Rightarrow> nat \<Rightarrow> bool" where
  "last_open skip n c \<longleftrightarrow> c \<le> n \<and> (\<forall>i. c \<le> i \<and> i < n \<longrightarrow> skip i) \<and> (0 < c \<longrightarrow> \<not> skip (c - 1))"

definition cursors_ok :: "piece_picker \<Rightarrow> bool" where
  "cursors_ok s \<longleftrightarrow> first_open (\<lambda>i. skip_pos (pos_of s i)) (num_pieces s) (m_cursor s) \<and>
     last_open (\<lambda>i. skip_pos (pos_of s i)) (num_pieces s) (m_reverse_cursor s)"

definition counters_inv :: "piece_picker \<Rightarrow> bool" where
  "counters_inv s \<longleftrightarrow> counts_ok s \<and> cursors_ok s"

lemma first_open_cong: "(\<And>i. i < n \<Longrightarrow> f i = g i) \<Longrightarrow> first_open f n c = first_open g n c"
  unfolding first_open_def by (meson order_less_le_trans)

lemma last_open_cong: "(\<And>i. i < n \<Longrightarrow> f i = g i) \<Longrightarrow> last_open f n c = last_open g n c"
  unfolding last_open_def by (metis Suc_pred' lessI order_less_le_trans)

lemma total_cong:
  "num_pieces s' = num_pieces s \<Longrightarrow> (\<And>i. i < num_pieces s \<Longrightarrow> P (pos_of s' i) = Q (pos_of s i)) \<Longrightarrow> total s' P w = total s Q w"
  unfolding total_def by (intro sum.cong) auto

lemma sum_change:
  fixes f g :: "nat \<Rightarrow> int"
  assumes "x < n" "\<And>i. i < n \<Longrightarrow> i \<noteq> x \<Longrightarrow> f i = g i"
  shows "sum f {..<n} = sum g {..<n} + f x - g x"
proof -
  have "sum f ({..<n} - {x}) = sum g ({..<n} - {x})" using assms by (intro sum.cong) auto
  then show ?thesis using assms(1) by (simp add: sum.remove [of "{..<n}" x])
qed

lemma total_change:
  assumes "num_pieces s' = num_pieces s" "x < num_pieces s" "\<And>i. i < num_pieces s \<Longrightarrow> i \<noteq> x \<Longrightarrow> P (pos_of s' i) = Q (pos_of s i)"
  shows "total s' P w = total s Q w + (if P (pos_of s' x) then w x else 0) - (if Q (pos_of s x) then w x else 0)"
  unfolding total_def assms(1) by (rule sum_change [OF assms(2)]) (simp add: assms(3))

lemma cview_reads:
  assumes "cview s' = cview s"
  shows "num_pieces s' = num_pieces s" "pad_blocks_in_piece s' = pad_blocks_in_piece s"
    "m_num_have s' = m_num_have s" "m_num_filtered s' = m_num_filtered s" "m_num_have_filtered s' = m_num_have_filtered s"
    "m_num_pad_blocks s' = m_num_pad_blocks s" "m_have_pad_blocks s' = m_have_pad_blocks s"
    "m_filtered_pad_blocks s' = m_filtered_pad_blocks s" "m_have_filtered_pad_blocks s' = m_have_filtered_pad_blocks s"
    "m_cursor s' = m_cursor s" "m_reverse_cursor s' = m_reverse_cursor s"
    "i < num_pieces s \<Longrightarrow> have_pos (pos_of s' i) = have_pos (pos_of s i)"
    "i < num_pieces s \<Longrightarrow> filtered (pos_of s' i) = filtered (pos_of s i)"
    "i < num_pieces s \<Longrightarrow> piece_priority (pos_of s' i) = piece_priority (pos_of s i)"
proof -
  have m: "map (\<lambda>p. (have_pos p, piece_priority p)) (m_piece_map s') = map (\<lambda>p. (have_pos p, piece_priority p)) (m_piece_map s)"
    using assms by (simp add: cview_def)
  show n: "num_pieces s' = num_pieces s" using arg_cong [OF m, of length] by (simp add: num_pieces_def)
  have "i < num_pieces s \<Longrightarrow> have_pos (pos_of s' i) = have_pos (pos_of s i) \<and> piece_priority (pos_of s' i) = piece_priority (pos_of s i)"
    using arg_cong [OF m, of "\<lambda>xs. xs ! i"] n by (simp add: num_pieces_def)
  then show "i < num_pieces s \<Longrightarrow> have_pos (pos_of s' i) = have_pos (pos_of s i)"
    "i < num_pieces s \<Longrightarrow> filtered (pos_of s' i) = filtered (pos_of s i)"
    "i < num_pieces s \<Longrightarrow> piece_priority (pos_of s' i) = piece_priority (pos_of s i)"
    by (auto simp: filtered_def)
qed (use assms in \<open>auto simp: cview_def pad_blocks_in_piece_def fun_eq_iff\<close>)

lemma counters_cview:
  assumes "cview s' = cview s" shows "counters_inv s' = counters_inv s"
proof -
  note r = cview_reads [OF assms]
  have t: "total s' have_pos w = total s have_pos w" "total s' missing w = total s missing w"
    "total s' unwanted w = total s unwanted w" "total s' (\<lambda>_. True) w = total s (\<lambda>_. True) w" for w
    using r by (auto intro: total_cong)
  have "cursors_ok s' = cursors_ok s"
    unfolding cursors_ok_def r(1,10,11)
    by (intro arg_cong2 [where f = "(\<and>)"] first_open_cong last_open_cong) (simp_all add: skip_pos_def r)
  then show ?thesis unfolding counters_inv_def counts_ok_def t r(2-9) by simp
qed

section \<open>The cursors\<close>

lemma skip_forward_spec:
  "c \<le> skip_forward pm c \<and> (\<forall>i. c \<le> i \<and> i < skip_forward pm c \<longrightarrow> skip_pos (pm ! i)) \<and>
   (skip_forward pm c < length pm \<longrightarrow> \<not> skip_pos (pm ! skip_forward pm c)) \<and> (c \<le> length pm \<longrightarrow> skip_forward pm c \<le> length pm)"
proof (induction pm c rule: skip_forward.induct)
  case (1 pm c)
  show ?case
  proof (cases "c < length pm \<and> skip_pos (pm ! c)")
    case True
    then have e: "skip_forward pm c = skip_forward pm (c + 1)" by (subst skip_forward.simps) simp
    show ?thesis using 1 [OF True] True unfolding e by (metis Suc_eq_plus1 Suc_leI le_antisym not_less_eq_eq le_SucI)
  next
    case False
    then have "skip_forward pm c = c" by (subst skip_forward.simps) auto
    then show ?thesis using False by auto
  qed
qed

lemma skip_backward_spec:
  "skip_backward pm c \<le> c \<and> (\<forall>i. skip_backward pm c \<le> i \<and> i < c \<longrightarrow> skip_pos (pm ! i)) \<and>
   (0 < skip_backward pm c \<longrightarrow> \<not> skip_pos (pm ! (skip_backward pm c - 1)))"
proof (induction pm c rule: skip_backward.induct)
  case (2 pm c)
  then show ?case by (cases "skip_pos (pm ! c)") (auto simp: less_Suc_eq)
qed simp

lemma shrink_ok:
  assumes c: "first_open skip n (m_cursor s)" "last_open skip n (m_reverse_cursor s)" and n: "n = num_pieces s" and x: "x < n"
    and sk: "\<And>i. i < n \<Longrightarrow> i \<noteq> x \<Longrightarrow> skip_pos (pos_of s i) = skip i"
  shows "first_open (skip(x := True)) n (m_cursor (shrink_cursors x s))"
    "last_open (skip(x := True)) n (m_reverse_cursor (shrink_cursors x s))"
proof -
  let ?c = "m_cursor s" and ?r = "m_reverse_cursor s"
  have l: "length (m_piece_map s) = n" using n by (simp add: num_pieces_def)
  note f = skip_forward_spec [of "x + 1" "m_piece_map s", unfolded l] and b = skip_backward_spec [of "m_piece_map s" x]
  have "first_open (skip(x := True)) n (m_cursor (shrink_cursors x s)) \<and>
    last_open (skip(x := True)) n (m_reverse_cursor (shrink_cursors x s))"
  proof -
    consider "?c = x" "?r = x + 1" | "?c = x" "?r \<noteq> x + 1" | "?c \<noteq> x" "?r = x + 1" | "?c \<noteq> x" "?r \<noteq> x + 1"
      by blast
    then show ?thesis
    proof cases
      case both: 1
      then have "(skip(x := True)) i" if "i < n" for i
        using c that by (cases "i < x") (auto simp: first_open_def last_open_def)
      then show ?thesis using both n by (simp add: shrink_cursors_def first_open_def last_open_def)
    next
      case front: 2
      let ?f = "skip_forward (m_piece_map s) (x + 1)"
      have "shrink_cursors x s = s\<lparr>m_cursor := ?f\<rparr>" using front by (simp add: shrink_cursors_def)
      moreover have "first_open (skip(x := True)) n ?f"
        unfolding first_open_def
      proof (intro conjI allI impI)
        show "?f \<le> n" using f x by simp
        show "(skip(x := True)) i" if "i < ?f" for i
        proof (cases "i < x")
          case True
          then show ?thesis using c(1) front by (simp add: first_open_def)
        next
          case False
          then show ?thesis using that f x sk [of i] by (cases "i = x") auto
        qed
        show "\<not> (skip(x := True)) ?f" if "?f < n" using f sk [OF that] that by auto
      qed
      moreover have "last_open (skip(x := True)) n ?r" using c(2) front by (auto simp: last_open_def)
      ultimately show ?thesis by simp
    next
      case rear: 3
      let ?b = "skip_backward (m_piece_map s) x"
      have "shrink_cursors x s = s\<lparr>m_reverse_cursor := ?b\<rparr>" using rear by (simp add: shrink_cursors_def)
      moreover have "last_open (skip(x := True)) n ?b"
        unfolding last_open_def
      proof (intro conjI allI impI)
        show "?b \<le> n" using b x by (meson le_trans less_imp_le)
        show "(skip(x := True)) i" if "?b \<le> i \<and> i < n" for i
        proof (cases "x < i")
          case True
          then show ?thesis using c(2) rear that by (simp add: last_open_def)
        next
          case False
          then show ?thesis using that b sk [of i] by (cases "i = x") auto
        qed
        show "\<not> (skip(x := True)) (?b - 1)" if "0 < ?b"
        proof -
          have "?b - 1 < x" using that b by (meson diff_less less_le_trans zero_less_one)
          then show ?thesis using that b sk [of "?b - 1"] x by simp
        qed
      qed
      moreover have "first_open (skip(x := True)) n ?c" using c(1) rear by (auto simp: first_open_def)
      ultimately show ?thesis by simp
    next
      case none: 4
      then have "shrink_cursors x s = s" by (simp add: shrink_cursors_def)
      then show ?thesis using none c by (auto simp: first_open_def last_open_def)
    qed
  qed
  then show "first_open (skip(x := True)) n (m_cursor (shrink_cursors x s))"
    "last_open (skip(x := True)) n (m_reverse_cursor (shrink_cursors x s))" by auto
qed

lemma grow_ok:
  assumes c: "first_open skip n (m_cursor s)" "last_open skip n (m_reverse_cursor s)" and x: "x < n"
  shows "first_open (skip(x := False)) n (m_cursor (grow_cursors x s))"
    "last_open (skip(x := False)) n (m_reverse_cursor (grow_cursors x s))"
proof -
  let ?c = "if x < m_cursor s then x else m_cursor s" and ?r = "if x \<ge> m_reverse_cursor s then x + 1 else m_reverse_cursor s"
  have "?r \<noteq> ?c" by auto
  then have e: "m_cursor (grow_cursors x s) = ?c" "m_reverse_cursor (grow_cursors x s) = ?r"
    by (auto simp: grow_cursors_def Let_def split: if_splits)
  show "first_open (skip(x := False)) n (m_cursor (grow_cursors x s))"
    unfolding e using c(1) x by (auto simp: first_open_def)
  show "last_open (skip(x := False)) n (m_reverse_cursor (grow_cursors x s))"
    unfolding e using c(2) x by (auto simp: last_open_def)
qed

section \<open>The operations\<close>

lemma cursor_fields [simp]:
  "m_piece_map (shrink_cursors x s) = m_piece_map s" "m_piece_map (grow_cursors x s) = m_piece_map s"
  "m_pads_in_piece (shrink_cursors x s) = m_pads_in_piece s" "m_pads_in_piece (grow_cursors x s) = m_pads_in_piece s"
  "m_num_have (shrink_cursors x s) = m_num_have s" "m_num_have (grow_cursors x s) = m_num_have s"
  "m_num_filtered (shrink_cursors x s) = m_num_filtered s" "m_num_filtered (grow_cursors x s) = m_num_filtered s"
  "m_num_have_filtered (shrink_cursors x s) = m_num_have_filtered s" "m_num_have_filtered (grow_cursors x s) = m_num_have_filtered s"
  "m_num_pad_blocks (shrink_cursors x s) = m_num_pad_blocks s" "m_num_pad_blocks (grow_cursors x s) = m_num_pad_blocks s"
  "m_have_pad_blocks (shrink_cursors x s) = m_have_pad_blocks s" "m_have_pad_blocks (grow_cursors x s) = m_have_pad_blocks s"
  "m_filtered_pad_blocks (shrink_cursors x s) = m_filtered_pad_blocks s" "m_filtered_pad_blocks (grow_cursors x s) = m_filtered_pad_blocks s"
  "m_have_filtered_pad_blocks (shrink_cursors x s) = m_have_filtered_pad_blocks s"
  "m_have_filtered_pad_blocks (grow_cursors x s) = m_have_filtered_pad_blocks s"
  "num_pieces (shrink_cursors x s) = num_pieces s" "num_pieces (grow_cursors x s) = num_pieces s"
  by (simp_all add: shrink_cursors_def grow_cursors_def Let_def num_pieces_def)

lemma set_pos_counters [simp]:
  "m_pads_in_piece (set_pos i f s) = m_pads_in_piece s" "m_num_have (set_pos i f s) = m_num_have s"
  "m_num_filtered (set_pos i f s) = m_num_filtered s" "m_num_have_filtered (set_pos i f s) = m_num_have_filtered s"
  "m_num_pad_blocks (set_pos i f s) = m_num_pad_blocks s" "m_have_pad_blocks (set_pos i f s) = m_have_pad_blocks s"
  "m_filtered_pad_blocks (set_pos i f s) = m_filtered_pad_blocks s"
  "m_have_filtered_pad_blocks (set_pos i f s) = m_have_filtered_pad_blocks s"
  "m_cursor (set_pos i f s) = m_cursor s" "m_reverse_cursor (set_pos i f s) = m_reverse_cursor s"
  by (simp_all add: set_pos_def)

lemma cursors_okI:
  assumes "num_pieces t = n" "first_open g n (m_cursor t)" "last_open g n (m_reverse_cursor t)"
    "\<And>i. i < n \<Longrightarrow> skip_pos (pos_of t i) = g i"
  shows "cursors_ok t"
  unfolding cursors_ok_def assms(1)
  using first_open_cong [of n "\<lambda>i. skip_pos (pos_of t i)" g] last_open_cong [of n "\<lambda>i. skip_pos (pos_of t i)" g] assms(2-4) by blast

text \<open>
  One piece changes: the counters have to move by what the piece contributed before and contributes
  now, and the cursors by whether it became wanted or unwanted.
\<close>

lemma counters_change:
  assumes c: "counters_inv s" and x: "x < num_pieces s" and n: "num_pieces t = num_pieces s"
    and p: "\<And>i. i < num_pieces s \<Longrightarrow> i \<noteq> x \<Longrightarrow> pos_of t i = pos_of s i"
    and pd: "m_pads_in_piece t = m_pads_in_piece s" "m_num_pad_blocks t = m_num_pad_blocks s"
    and d: "\<And>P w. delta P w = (if P (pos_of t x) then w else 0) - (if P (pos_of s x) then w else (0 :: int))"
    and f: "m_num_have t = m_num_have s + delta have_pos 1" "m_num_filtered t = m_num_filtered s + delta missing 1"
      "m_num_have_filtered t = m_num_have_filtered s + delta unwanted 1"
      "m_have_pad_blocks t = m_have_pad_blocks s + delta have_pos (pad_blocks_in_piece s x)"
      "m_filtered_pad_blocks t = m_filtered_pad_blocks s + delta missing (pad_blocks_in_piece s x)"
      "m_have_filtered_pad_blocks t = m_have_filtered_pad_blocks s + delta unwanted (pad_blocks_in_piece s x)"
    and cu: "cursors_ok t"
  shows "counters_inv t"
proof -
  have pp: "pad_blocks_in_piece t = pad_blocks_in_piece s" using pd by (simp add: pad_blocks_in_piece_def fun_eq_iff)
  have T: "total t P w = total s P w + delta P (w x)" for P w
    using total_change [OF n x, of P P w] p d by simp
  have "delta (\<lambda>_. True) w = 0" for w using d by simp
  then show ?thesis using c cu unfolding counters_inv_def counts_ok_def T pp f pd by auto
qed

lemma count_had_ok:
  assumes c: "counters_inv s" and x: "x < num_pieces s" and h: "\<not> have_pos (pos_of s x)"
  shows "counters_inv (count_had x (pad_blocks_in_piece s x) s)"
proof -
  define t where "t = count_had x (pad_blocks_in_piece s x) s"
  let ?p = "pos_of s x" and ?q = "(pos_of s x)\<lparr>pp_index := we_have_index\<rparr>"
  have q: "have_pos ?q" "filtered ?q = filtered ?p" by (simp_all add: have_pos_def filtered_def)
  have pos: "pos_of t i = (if i = x then ?q else pos_of s i)" for i
    using x by (simp add: t_def count_had_def Let_def set_pos_def num_pieces_def nth_list_update)
  have n: "num_pieces t = num_pieces s" by (simp add: t_def count_had_def Let_def) (simp add: num_pieces_def)
  define skip where "skip = (\<lambda>i. skip_pos (pos_of s i))"
  obtain s3 where s3: "t = shrink_cursors x (set_pos x (\<lambda>p. p\<lparr>pp_index := we_have_index\<rparr>) s3)" "m_piece_map s3 = m_piece_map s"
    "m_cursor s3 = m_cursor s" "m_reverse_cursor s3 = m_reverse_cursor s"
    by (simp add: t_def count_had_def Let_def)
  have cu: "first_open skip (num_pieces s) (m_cursor s)" "last_open skip (num_pieces s) (m_reverse_cursor s)"
    using c by (simp_all add: counters_inv_def cursors_ok_def skip_def)
  have "first_open (skip(x := True)) (num_pieces s) (m_cursor t)" "last_open (skip(x := True)) (num_pieces s) (m_reverse_cursor t)"
    unfolding s3(1) using cu x s3(2-4)
    by (intro shrink_ok; simp add: num_pieces_def; simp add: set_pos_def skip_def)+
  then have "cursors_ok t"
    by (rule cursors_okI [OF n]) (simp add: pos skip_def skip_pos_def q)
  then have "counters_inv t"
    by (intro counters_change [OF c x n, where delta = "\<lambda>P w. (if P (pos_of t x) then w else 0) - (if P (pos_of s x) then w else 0)"])
      (use h q in \<open>simp_all add: pos\<close>, simp_all add: t_def count_had_def Let_def)
  then show ?thesis by (simp add: t_def)
qed

lemma drop_entry_cview:
  assumes P: "picker_ok s" and x: "x < num_pieces s"
  shows "cview (drop_entry x s) = cview s"
proof (cases "download_queue (pos_of s x) = piece_open")
  case True
  then show ?thesis by (simp add: drop_entry_def Let_def)
next
  case False
  then obtain it dp where e: "find_dl_piece (download_queue (pos_of s x)) x s = Some it" "valid_it it s" "deref it s = dp" "dp_index dp = x"
    using at_entry [OF P x] by metis
  define s0 where "s0 = (if passed_hash_check dp then s\<lparr>m_num_passed := m_num_passed s - 1\<rparr> else s)"
  have "queue_but x s" using P by (simp add: picker_ok_def queue_inv_but)
  then have q: "queue_but x s0" using qview_inv(2) [of s0 s] by (simp add: s0_def)
  have v: "valid_it it s0" "dp_index (deref it s0) = x" using e by (simp_all add: s0_def)
  have "cview (erase_download_piece it s0) = cview s"
    using same_blocks_reads(7) [OF erase_queue(3) [OF q v]] by (simp add: s0_def)
  then show ?thesis using e False by (simp add: drop_entry_def Let_def s0_def)
qed

lemma we_have_counters:
  assumes P: "picker_ok s" and c: "counters_inv s" and x: "x < num_pieces s"
  shows "counters_inv (we_have x s)"
proof (cases "have_pos (pos_of s x)")
  case True
  then show ?thesis using c by (simp add: we_have_def Let_def)
next
  case False
  have pi: "pieces_inv s" using P by (simp add: picker_ok_def)
  let ?s = "drop_entry x s"
  note d = drop_entry_cview [OF P x]
  note r = cview_reads [OF d]
  have "counters_inv (count_had x (pad_blocks_in_piece ?s x) ?s)"
    by (rule count_had_ok) (use c counters_cview [OF d] r x False in auto)
  then have "counters_inv (count_had x (pad_blocks_in_piece s x) ?s)" using r(2) by simp
  then show ?thesis
    using counters_cview [OF same_blocks_reads(7) [OF reordered_same_blocks [OF we_have_list(2) [OF pi x False]]]] by simp
qed

lemma count_lost_ok:
  assumes c: "counters_inv s" and x: "x < num_pieces s" and h: "have_pos (pos_of s x)"
  shows "counters_inv (count_lost x s)"
proof -
  define t where "t = count_lost x s"
  let ?p = "pos_of s x" and ?q = "(pos_of s x)\<lparr>pp_index := 0\<rparr>"
  have q: "\<not> have_pos ?q" "filtered ?q = filtered ?p" by (simp_all add: have_pos_def filtered_def we_have_index_def)
  have pos: "pos_of t i = (if i = x then ?q else pos_of s i)" for i
    using x by (simp add: t_def count_lost_def Let_def set_pos_def num_pieces_def nth_list_update)
  have n: "num_pieces t = num_pieces s" by (simp add: t_def count_lost_def Let_def) (simp add: num_pieces_def)
  define skip where "skip = (\<lambda>i. skip_pos (pos_of s i))"
  have cu: "first_open skip (num_pieces s) (m_cursor s)" "last_open skip (num_pieces s) (m_reverse_cursor s)"
    using c by (simp_all add: counters_inv_def cursors_ok_def skip_def)
  have "cursors_ok t"
  proof (cases "filtered ?p")
    case True
    then have "m_cursor t = m_cursor s" "m_reverse_cursor t = m_reverse_cursor s" by (simp_all add: t_def count_lost_def Let_def)
    then show ?thesis using cu True h q by (intro cursors_okI [OF n, of skip]) (auto simp: pos skip_def skip_pos_def)
  next
    case False
    then have "m_cursor t = m_cursor (grow_cursors x (s\<lparr>m_num_passed := m_num_passed s - 1\<rparr>))"
      "m_reverse_cursor t = m_reverse_cursor (grow_cursors x (s\<lparr>m_num_passed := m_num_passed s - 1\<rparr>))"
      by (simp_all add: t_def count_lost_def Let_def)
    then show ?thesis using grow_ok [of skip "num_pieces s" "s\<lparr>m_num_passed := m_num_passed s - 1\<rparr>" x] cu x False q
      by (intro cursors_okI [OF n, of "skip(x := False)"]) (auto simp: pos skip_def skip_pos_def)
  qed
  then have "counters_inv t"
    by (intro counters_change [OF c x n, where delta = "\<lambda>P w. (if P (pos_of t x) then w else 0) - (if P (pos_of s x) then w else 0)"])
      (use h q in \<open>simp_all add: pos\<close>, simp_all add: t_def count_lost_def Let_def)
  then show ?thesis by (simp add: t_def)
qed

lemma we_dont_have_counters:
  assumes P: "picker_ok s" and c: "counters_inv s" and x: "x < num_pieces s" and h: "have_pos (pos_of s x)"
  shows "counters_inv (we_dont_have x s)"
  using counters_cview [OF same_blocks_reads(7) [OF reordered_same_blocks [OF we_dont_have_list(2) [OF _ x h]]]]
    count_lost_ok [OF c x h] P by (simp add: picker_ok_def)

lemma filter_change_ok:
  assumes c: "counters_inv s" and x: "x < num_pieces s" and np: "np \<noteq> piece_priority (pos_of s x)"
  shows "counters_inv (set_pos x (\<lambda>p. p\<lparr>piece_priority := np\<rparr>) (snd (filter_change x np s)))" (is "counters_inv ?t")
proof -
  define t where "t = ?t"
  let ?p = "pos_of s x" and ?q = "(pos_of s x)\<lparr>piece_priority := np\<rparr>"
  define s1 where "s1 = snd (filter_change x np s)"
  have m1: "m_piece_map s1 = m_piece_map s" "num_pieces s1 = num_pieces s" by (simp_all add: s1_def filter_change_def Let_def num_pieces_def)
  have q: "have_pos ?q = have_pos ?p" "filtered ?q = (np = 0)" by (simp_all add: have_pos_def filtered_def filter_priority_def)
  have pos: "pos_of t i = (if i = x then ?q else pos_of s i)" for i
    using x m1 by (simp add: t_def s1_def [symmetric])
  have n: "num_pieces t = num_pieces s" using m1 by (simp add: t_def s1_def)
  define skip where "skip = (\<lambda>i. skip_pos (pos_of s i))"
  have cu: "first_open skip (num_pieces s) (m_cursor s)" "last_open skip (num_pieces s) (m_reverse_cursor s)"
    using c by (simp_all add: counters_inv_def cursors_ok_def skip_def)
  have ct: "m_cursor t = m_cursor s1" "m_reverse_cursor t = m_reverse_cursor s1" by (simp_all add: t_def s1_def)
  have "cursors_ok t"
  proof (cases "have_pos ?p \<or> (filtered ?p \<longleftrightarrow> np = 0)")
    case True
    then have "m_cursor s1 = m_cursor s" "m_reverse_cursor s1 = m_reverse_cursor s"
      by (auto simp: s1_def filter_change_def Let_def filtered_def filter_priority_def dont_download_def)
    then show ?thesis using cu True q ct by (intro cursors_okI [OF n, of skip]) (auto simp: pos skip_def skip_pos_def)
  next
    case False
    show ?thesis
    proof (cases "np = 0")
      case True
      define s0 where "s0 = s\<lparr>m_filtered_pad_blocks := m_filtered_pad_blocks s + pad_blocks_in_piece s x, m_num_filtered := m_num_filtered s + 1\<rparr>"
      have e: "s1 = shrink_cursors x s0" using True False
        by (simp add: s1_def s0_def filter_change_def Let_def filtered_def filter_priority_def dont_download_def)
      have f0: "m_piece_map s0 = m_piece_map s" "m_cursor s0 = m_cursor s" "m_reverse_cursor s0 = m_reverse_cursor s" "num_pieces s0 = num_pieces s"
        by (simp_all add: s0_def num_pieces_def)
      have "first_open (skip(x := True)) (num_pieces s) (m_cursor s1)" "last_open (skip(x := True)) (num_pieces s) (m_reverse_cursor s1)"
        unfolding e using cu x f0 by (intro shrink_ok; simp add: skip_def)+
      then show ?thesis using True q ct by (intro cursors_okI [OF n, of "skip(x := True)"]) (auto simp: pos skip_def skip_pos_def)
    next
      case nz: False
      define s0 where "s0 = s\<lparr>m_filtered_pad_blocks := m_filtered_pad_blocks s - pad_blocks_in_piece s x, m_num_filtered := m_num_filtered s - 1\<rparr>"
      have e: "s1 = grow_cursors x s0" using nz False
        by (simp add: s1_def s0_def filter_change_def Let_def filtered_def filter_priority_def dont_download_def)
      have "first_open (skip(x := False)) (num_pieces s) (m_cursor s1)" "last_open (skip(x := False)) (num_pieces s) (m_reverse_cursor s1)"
        unfolding e using cu x by (intro grow_ok; simp add: s0_def)+
      then show ?thesis using nz False q ct by (intro cursors_okI [OF n, of "skip(x := False)"]) (auto simp: pos skip_def skip_pos_def)
    qed
  qed
  then have "counters_inv t"
    by (intro counters_change [OF c x n, where delta = "\<lambda>P w. (if P (pos_of t x) then w else 0) - (if P (pos_of s x) then w else 0)"])
      (use np q in \<open>simp_all add: pos\<close>, simp_all add: t_def filter_change_def Let_def filtered_def filter_priority_def dont_download_def)
  then show ?thesis by (simp add: t_def)
qed

end
