(* ===== verification/Picker_Rebuild.thy ===== *)
theory Picker_Rebuild
  imports Picker_Invariant
begin

text \<open>
  \<^verbatim>\<open>update_pieces\<close> of the picker: whatever the list was before, afterwards it holds every pickable piece
  once, ordered by priority, and the piece map points back into it.
\<close>

section \<open>Counting\<close>

definition nth0 :: "nat list \<Rightarrow> nat \<Rightarrow> nat" where
  "nth0 xs k = (if k < length xs then xs ! k else 0)"

lemma nth0_resize: "nth0 (if k \<ge> length bs then resize_list (k + 1) 0 bs else bs) j = nth0 bs j"
  by (auto simp: nth0_def resize_list_def nth_append)

lemma nth0_update: "k < length bs \<Longrightarrow> nth0 (bs[k := v]) j = (if j = k then v else nth0 bs j)"
  by (simp add: nth0_def)

definition same_prio :: "nat \<Rightarrow> nat \<Rightarrow> piece_pos \<Rightarrow> bool" where
  "same_prio seeds k p \<longleftrightarrow> priority seeds p = int k"

lemma count_spec:
  assumes "count_priorities seeds pm bs = (pm', bs')" and "\<forall>p \<in> set pm. piece_priority p \<le> 7"
  shows "length pm' = length pm \<and> length bs \<le> length bs' \<and>
    (\<forall>k. nth0 bs' k = nth0 bs k + length (filter (same_prio seeds k) pm)) \<and>
    (\<forall>i < length pm. priority seeds (pm ! i) < int (length bs') \<and>
       pm' ! i = (if priority seeds (pm ! i) = -1 then pm ! i else (pm ! i)\<lparr>pp_index :=
         int (nth0 bs (nat (priority seeds (pm ! i))) +
           length (filter (same_prio seeds (nat (priority seeds (pm ! i)))) (take i pm)))\<rparr>))"
  using assms
proof (induction pm arbitrary: bs pm' bs')
  case (Cons p pm)
  define k where "k = nat (priority seeds p)"
  have pc: "priority seeds p = -1 \<or> priority seeds p = int k" using priority_cases [of p seeds] Cons.prems(2) by (auto simp: k_def)
  have ok: "\<forall>p \<in> set pm. piece_priority p \<le> 7" using Cons.prems(2) by simp
  show ?case
  proof (cases "priority seeds p = -1")
    case True
    then obtain pm1 where r: "count_priorities seeds pm bs = (pm1, bs')" "pm' = p # pm1"
      using Cons.prems(1) by (auto simp: Let_def split: prod.splits)
    have np: "\<not> same_prio seeds j p" for j using True by (simp add: same_prio_def)
    note I = Cons.IH [OF r(1) ok]
    show ?thesis
    proof (intro conjI allI impI)
      fix i assume i: "i < length (p # pm)"
      show "priority seeds ((p # pm) ! i) < int (length bs')" using I True i by (cases i) auto
      show "pm' ! i = (if priority seeds ((p # pm) ! i) = -1 then (p # pm) ! i else ((p # pm) ! i)\<lparr>pp_index :=
         int (nth0 bs (nat (priority seeds ((p # pm) ! i))) +
           length (filter (same_prio seeds (nat (priority seeds ((p # pm) ! i)))) (take i (p # pm))))\<rparr>)"
        using I True i r(2) np by (cases i) auto
    qed (use I np r(2) in auto)
  next
    case False
    then have pk: "priority seeds p = int k" using pc by blast
    define bs1 where "bs1 = (if k \<ge> length bs then resize_list (k + 1) 0 bs else bs)"
    have k1: "k < length bs1" "length bs \<le> length bs1" by (auto simp: bs1_def resize_list_def)
    obtain pm1 bs2 where r0: "count_priorities seeds pm (bs1[k := bs1 ! k + 1]) = (pm1, bs2)" by fastforce
    have "count_priorities seeds (p # pm) bs = (p\<lparr>pp_index := int (bs1 ! k)\<rparr> # pm1, bs2)"
      using r0 pk unfolding bs1_def by (simp add: Let_def)
    then have r: "count_priorities seeds pm (bs1[k := bs1 ! k + 1]) = (pm1, bs')" "pm' = p\<lparr>pp_index := int (bs1 ! k)\<rparr> # pm1"
      using r0 Cons.prems(1) by auto
    note I = Cons.IH [OF r(1) ok]
    have n1: "nth0 bs1 j = nth0 bs j" for j unfolding bs1_def by (rule nth0_resize)
    have b1: "bs1 ! k = nth0 bs k" using n1 [of k] k1 by (simp add: nth0_def)
    have nu: "nth0 (bs1[k := bs1 ! k + 1]) j = nth0 bs j + (if same_prio seeds j p then 1 else 0)" for j
      using nth0_update [OF k1(1)] n1 b1 pk by (auto simp: same_prio_def)
    show ?thesis
    proof (intro conjI allI impI)
      show "length pm' = length (p # pm)" using I r(2) by simp
      show "length bs \<le> length bs'" using I k1(2) by simp
      show "nth0 bs' j = nth0 bs j + length (filter (same_prio seeds j) (p # pm))" for j
        using I nu [of j] by simp
      fix i assume i: "i < length (p # pm)"
      show "priority seeds ((p # pm) ! i) < int (length bs')" using I pk i k1(1) by (cases i) auto
      show "pm' ! i = (if priority seeds ((p # pm) ! i) = -1 then (p # pm) ! i else ((p # pm) ! i)\<lparr>pp_index :=
         int (nth0 bs (nat (priority seeds ((p # pm) ! i))) +
           length (filter (same_prio seeds (nat (priority seeds ((p # pm) ! i)))) (take i (p # pm))))\<rparr>)"
      proof (cases i)
        case 0
        then show ?thesis using r(2) pk b1 by simp
      next
        case (Suc j)
        then have j: "j < length pm" using i by simp
        show ?thesis using I j Suc r(2) nu by auto
      qed
    qed
  qed
qed simp

section \<open>Placing\<close>

definition slot_of :: "nat \<Rightarrow> nat list \<Rightarrow> piece_pos \<Rightarrow> nat" where
  "slot_of seeds bs p = priority_begin bs (nat (priority seeds p)) + nat (pp_index p)"

lemma place_spec:
  assumes "\<And>i. i < length pm \<Longrightarrow> priority seeds (pm ! i) \<noteq> -1 \<Longrightarrow> slot_of seeds bs (pm ! i) < length ps"
    and "\<And>i j. i < length pm \<Longrightarrow> j < length pm \<Longrightarrow> priority seeds (pm ! i) \<noteq> -1 \<Longrightarrow> priority seeds (pm ! j) \<noteq> -1 \<Longrightarrow>
      slot_of seeds bs (pm ! i) = slot_of seeds bs (pm ! j) \<Longrightarrow> i = j"
  shows "length (place_pieces seeds m pm bs ps) = length ps \<and>
    (\<forall>i < length pm. priority seeds (pm ! i) \<noteq> -1 \<longrightarrow> place_pieces seeds m pm bs ps ! slot_of seeds bs (pm ! i) = m + i) \<and>
    (\<forall>j. (\<forall>i < length pm. priority seeds (pm ! i) \<noteq> -1 \<longrightarrow> slot_of seeds bs (pm ! i) \<noteq> j) \<longrightarrow>
       place_pieces seeds m pm bs ps ! j = ps ! j)"
  using assms
proof (induction pm arbitrary: m ps)
  case (Cons p pm)
  define ps1 where "ps1 = (if priority seeds p = -1 then ps else ps[slot_of seeds bs p := m])"
  have e: "place_pieces seeds m (p # pm) bs ps = place_pieces seeds (m + 1) pm bs ps1"
    by (simp add: ps1_def slot_of_def Let_def)
  have l: "length ps1 = length ps" by (simp add: ps1_def)
  have I: "length (place_pieces seeds (m + 1) pm bs ps1) = length ps1 \<and>
    (\<forall>i < length pm. priority seeds (pm ! i) \<noteq> -1 \<longrightarrow> place_pieces seeds (m + 1) pm bs ps1 ! slot_of seeds bs (pm ! i) = m + 1 + i) \<and>
    (\<forall>j. (\<forall>i < length pm. priority seeds (pm ! i) \<noteq> -1 \<longrightarrow> slot_of seeds bs (pm ! i) \<noteq> j) \<longrightarrow>
       place_pieces seeds (m + 1) pm bs ps1 ! j = ps1 ! j)"
  proof (rule Cons.IH)
    show "slot_of seeds bs (pm ! i) < length ps1" if "i < length pm" "priority seeds (pm ! i) \<noteq> -1" for i
      using Cons.prems(1) [of "Suc i"] that l by simp
    show "i = j" if "i < length pm" "j < length pm" "priority seeds (pm ! i) \<noteq> -1" "priority seeds (pm ! j) \<noteq> -1"
      "slot_of seeds bs (pm ! i) = slot_of seeds bs (pm ! j)" for i j
      using Cons.prems(2) [of "Suc i" "Suc j"] that by simp
  qed
  have diff: "slot_of seeds bs (pm ! i) \<noteq> slot_of seeds bs p" if "i < length pm" "priority seeds (pm ! i) \<noteq> -1" "priority seeds p \<noteq> -1" for i
    using Cons.prems(2) [of "Suc i" 0] that by auto
  show ?case
    unfolding e
  proof (intro conjI allI impI)
    show "length (place_pieces seeds (m + 1) pm bs ps1) = length ps" using I l by simp
    fix i assume i: "i < length (p # pm)" "priority seeds ((p # pm) ! i) \<noteq> -1"
    show "place_pieces seeds (m + 1) pm bs ps1 ! slot_of seeds bs ((p # pm) ! i) = m + i"
    proof (cases i)
      case 0
      then have "place_pieces seeds (m + 1) pm bs ps1 ! slot_of seeds bs p = ps1 ! slot_of seeds bs p" using I diff i by simp
      then show ?thesis using 0 i Cons.prems(1) [of 0] by (simp add: ps1_def)
    next
      case (Suc j)
      then show ?thesis using I i by simp
    qed
  next
    fix j assume j: "\<forall>i < length (p # pm). priority seeds ((p # pm) ! i) \<noteq> -1 \<longrightarrow> slot_of seeds bs ((p # pm) ! i) \<noteq> j"
    have "\<forall>i < length pm. priority seeds (pm ! i) \<noteq> -1 \<longrightarrow> slot_of seeds bs (pm ! i) \<noteq> j"
      using j by (metis length_Cons not_less_eq nth_Cons_Suc)
    then have "place_pieces seeds (m + 1) pm bs ps1 ! j = ps1 ! j" using I by simp
    also have "\<dots> = ps ! j" using j by (auto simp: ps1_def)
    finally show "place_pieces seeds (m + 1) pm bs ps1 ! j = ps ! j" .
  qed
qed simp

section \<open>The buckets\<close>

definition buckets :: "nat \<Rightarrow> piece_pos list \<Rightarrow> nat \<Rightarrow> nat list list" where
  "buckets seeds pm l = map (\<lambda>k. filter (\<lambda>i. same_prio seeds k (pm ! i)) [0..<length pm]) [0..<l]"

lemma length_buckets [simp]: "length (buckets seeds pm l) = l"
  by (simp add: buckets_def)

lemma buckets_nth: "k < l \<Longrightarrow> buckets seeds pm l ! k = filter (\<lambda>i. same_prio seeds k (pm ! i)) [0..<length pm]"
  by (simp add: buckets_def)

lemma filter_take_nth: "i \<le> length pm \<Longrightarrow> length (filter P (take i pm)) = length (filter (\<lambda>j. P (pm ! j)) [0..<i])"
proof -
  assume "i \<le> length pm"
  then have "take i pm = map (\<lambda>j. pm ! j) [0..<i]" by (simp add: list_eq_iff_nth_eq)
  then show ?thesis by (simp add: filter_map comp_def)
qed

lemma filter_rank:
  assumes "i < n" "P i"
  shows "filter P [0..<n] ! length (filter P [0..<i]) = i" "length (filter P [0..<i]) < length (filter P [0..<n])"
proof -
  have "[0..<n] = [0..<i] @ i # [Suc i..<n]"
    using assms(1) by (metis less_imp_le_nat upt_add_eq_append upt_conv_Cons le_add_diff_inverse zero_le)
  then have "filter P [0..<n] = filter P [0..<i] @ i # filter P [Suc i..<n]" using assms(2) by simp
  then show "filter P [0..<n] ! length (filter P [0..<i]) = i" "length (filter P [0..<i]) < length (filter P [0..<n])"
    by (simp_all add: nth_append)
qed

lemma concat_position: "j < length (concat Bs) \<Longrightarrow> \<exists>k r. k < length Bs \<and> r < length (Bs ! k) \<and> j = length (concat (take k Bs)) + r"
proof (induction Bs arbitrary: j)
  case (Cons B Bs)
  show ?case
  proof (cases "j < length B")
    case True
    then show ?thesis by (intro exI [of _ 0] exI [of _ j]) simp
  next
    case False
    then have "j - length B < length (concat Bs)" using Cons.prems by simp
    then obtain k r where "k < length Bs" "r < length (Bs ! k)" "j - length B = length (concat (take k Bs)) + r"
      using Cons.IH by blast
    then show ?thesis using False by (intro exI [of _ "Suc k"] exI [of _ r]) simp
  qed
qed simp

lemma running_sums_ends: "running_sums n (map length Bs) = ends n Bs"
  by (induction Bs arbitrary: n) auto

lemma last_ends: "Bs \<noteq> [] \<Longrightarrow> last (ends n Bs) = n + length (concat Bs)"
  by (metis append_butlast_last_id append_take_drop_id diff_less ends_nth last_conv_nth length_ends length_greater_0_conv
      Suc_pred' order_refl take_all zero_less_one list.size(3))

lemma buckets_bucketed:
  assumes "\<And>i. i < length pm \<Longrightarrow> priority seeds (pm ! i) < int l" "0 < l"
  shows "bucketed (\<lambda>i. priority seeds (pm ! i)) (length pm) (buckets seeds pm l)"
proof (rule bucketedI)
  show "buckets seeds pm l \<noteq> []" using assms(2) by (simp add: buckets_def)
  have "distinct (concat (map (\<lambda>k. filter (\<lambda>i. same_prio seeds k (pm ! i)) [0..<length pm]) [0..<m]))" for m
    by (induction m) (auto simp: same_prio_def)
  then show "distinct (concat (buckets seeds pm l))" by (simp add: buckets_def)
qed (use assms in \<open>auto simp: buckets_nth same_prio_def\<close>)

text \<open>Counting and placing give the buckets, in the order of the piece indices.\<close>

lemma count_place:
  assumes c: "count_priorities seeds pm (map (\<lambda>_. 0) bs0) = (pm', cs)" and w: "\<forall>p \<in> set pm. piece_priority p \<le> 7"
    and bs0: "bs0 \<noteq> []"
  shows "cs = map length (buckets seeds pm (length cs))" "cs \<noteq> []"
    "reindexed pm (set (concat (buckets seeds pm (length cs)))) pm'"
    "\<And>i. i < length pm \<Longrightarrow> priority seeds (pm' ! i) = priority seeds (pm ! i)"
    "\<And>i. i < length pm \<Longrightarrow> priority seeds (pm ! i) < int (length cs)"
    "length ps = length (concat (buckets seeds pm (length cs))) \<Longrightarrow>
     place_pieces seeds 0 pm' (ends 0 (buckets seeds pm (length cs))) ps = concat (buckets seeds pm (length cs))"
proof -
  let ?l = "length cs" let ?B = "buckets seeds pm ?l"
  have z: "nth0 (map (\<lambda>_. 0) bs0) k = 0" for k by (simp add: nth0_def)
  note C = count_spec [OF c w, unfolded z]
  show ne: "cs \<noteq> []" using C bs0 by auto
  show lt: "priority seeds (pm ! i) < int ?l" if "i < length pm" for i using C that by blast
  have len: "length pm' = length pm" using C by blast
  have pm': "pm' ! i = (if priority seeds (pm ! i) = -1 then pm ! i
      else (pm ! i)\<lparr>pp_index := int (length (filter (same_prio seeds (nat (priority seeds (pm ! i)))) (take i pm)))\<rparr>)"
    if "i < length pm" for i using C that by simp
  have pc: "priority seeds (pm ! i) = -1 \<or> 0 \<le> priority seeds (pm ! i)" if "i < length pm" for i
    using priority_cases w nth_mem [OF that] by blast
  show pr: "priority seeds (pm' ! i) = priority seeds (pm ! i)" if i: "i < length pm" for i
  proof (cases "priority seeds (pm ! i) = -1")
    case False
    then have "\<not> have_pos (pm ! i)" using pc [OF i] prio_nonneg_not_have by blast
    then show ?thesis using False pm' [OF i] by (simp add: priority_def filtered_def reverse_pos_def)
  qed (use pm' [OF i] in simp)
  have cl: "cs ! k = length (?B ! k)" if "k < ?l" for k
  proof -
    have "nth0 cs k = length (filter (same_prio seeds k) pm)" using C by simp
    then have "cs ! k = length (filter (same_prio seeds k) pm)" using that by (simp add: nth0_def)
    then show ?thesis using filter_take_nth [of "length pm" pm "same_prio seeds k"] that by (simp add: buckets_nth)
  qed
  show "cs = map length ?B" by (rule nth_equalityI) (use cl in simp_all)
  have mem: "i \<in> set (concat ?B)" if i: "i < length pm" "priority seeds (pm ! i) \<noteq> -1" for i
  proof -
    have "nat (priority seeds (pm ! i)) < ?l" using lt [OF i(1)] pc [OF i(1)] i(2) by linarith
    moreover have "same_prio seeds (nat (priority seeds (pm ! i))) (pm ! i)" using pc [OF i(1)] i(2) by (simp add: same_prio_def)
    ultimately show ?thesis using i(1) by (auto simp: buckets_def)
  qed
  show "reindexed pm (set (concat ?B)) pm'"
    unfolding reindexed_def using len pm' mem by auto
  define rank where "rank i = length (filter (\<lambda>j. same_prio seeds (nat (priority seeds (pm ! i))) (pm ! j)) [0..<i])" for i
  have slot: "slot_of seeds (ends 0 ?B) (pm' ! i) = length (concat (take (nat (priority seeds (pm ! i))) ?B)) + rank i \<and>
      nat (priority seeds (pm ! i)) < ?l \<and> rank i < length (?B ! nat (priority seeds (pm ! i))) \<and>
      ?B ! nat (priority seeds (pm ! i)) ! rank i = i"
    if i: "i < length pm" "priority seeds (pm ! i) \<noteq> -1" for i
  proof -
    let ?k = "nat (priority seeds (pm ! i))"
    have k: "?k < ?l" using lt [OF i(1)] pc [OF i(1)] i(2) by linarith
    have "same_prio seeds ?k (pm ! i)" using pc [OF i(1)] i(2) by (simp add: same_prio_def)
    from filter_rank [of i "length pm" "\<lambda>j. same_prio seeds ?k (pm ! j)", OF i(1) this]
    have "?B ! ?k ! rank i = i" "rank i < length (?B ! ?k)" using k by (simp_all add: buckets_nth rank_def)
    moreover have "nat (pp_index (pm' ! i)) = rank i"
      using pm' [OF i(1)] i filter_take_nth [of i pm "same_prio seeds ?k"] by (simp add: rank_def)
    moreover have "priority_begin (ends 0 ?B) ?k = length (concat (take ?k ?B))"
      using priority_range_ends(1) [of ?k ?B] k by simp
    ultimately show ?thesis using k pr [OF i(1)] by (simp add: slot_of_def)
  qed
  have at: "concat ?B ! slot_of seeds (ends 0 ?B) (pm' ! i) = i \<and> slot_of seeds (ends 0 ?B) (pm' ! i) < length (concat ?B)"
    if i: "i < length pm" "priority seeds (pm ! i) \<noteq> -1" for i
    using slot [OF i] concat_nth [of "nat (priority seeds (pm ! i))" ?B "rank i"]
      length_concat_take [of "nat (priority seeds (pm ! i))" ?B "rank i"] by simp
  show "place_pieces seeds 0 pm' (ends 0 ?B) ps = concat ?B" if lp: "length ps = length (concat ?B)"
  proof -
    have a1: "slot_of seeds (ends 0 ?B) (pm' ! i) < length ps" if "i < length pm'" "priority seeds (pm' ! i) \<noteq> -1" for i
      using at [of i] that lp len pr [of i] by simp
    have a2: "i = j" if "i < length pm'" "j < length pm'" "priority seeds (pm' ! i) \<noteq> -1" "priority seeds (pm' ! j) \<noteq> -1"
      "slot_of seeds (ends 0 ?B) (pm' ! i) = slot_of seeds (ends 0 ?B) (pm' ! j)" for i j
      by (metis at len pr that)
    have P: "length (place_pieces seeds 0 pm' (ends 0 ?B) ps) = length ps \<and>
      (\<forall>i < length pm'. priority seeds (pm' ! i) \<noteq> -1 \<longrightarrow> place_pieces seeds 0 pm' (ends 0 ?B) ps ! slot_of seeds (ends 0 ?B) (pm' ! i) = 0 + i)"
      using place_spec [of pm' seeds "ends 0 ?B" ps 0, OF a1 a2] by blast
    show ?thesis
    proof (rule nth_equalityI)
      show "length (place_pieces seeds 0 pm' (ends 0 ?B) ps) = length (concat ?B)" using P lp by simp
      fix j assume "j < length (place_pieces seeds 0 pm' (ends 0 ?B) ps)"
      then have "j < length (concat ?B)" using P lp by simp
      then obtain k r where k: "k < ?l" "r < length (?B ! k)" "j = length (concat (take k ?B)) + r"
        using concat_position by (metis length_buckets)
      define i where "i = ?B ! k ! r"
      have "i \<in> set (?B ! k)" using k by (simp add: i_def)
      then have i: "i < length pm" "priority seeds (pm ! i) = int k" using k(1) by (auto simp: buckets_nth same_prio_def)
      have "?B ! k ! rank i = i" "rank i < length (?B ! k)" using slot [of i] i by auto
      moreover have "distinct (?B ! k)" using k(1) by (simp add: buckets_nth)
      ultimately have "rank i = r" using k(2) by (simp add: i_def nth_eq_iff_index_eq)
      then have "slot_of seeds (ends 0 ?B) (pm' ! i) = j" using slot [of i] i k(3) by simp
      then have "place_pieces seeds 0 pm' (ends 0 ?B) ps ! j = i" using P len i pr by auto
      moreover have "concat ?B ! j = i" using concat_nth [of k ?B r] k by (simp add: i_def)
      ultimately show "place_pieces seeds 0 pm' (ends 0 ?B) ps ! j = concat ?B ! j" by simp
    qed
  qed
qed

section \<open>Shuffling and indexing\<close>

lemma random_shuffle_spec:
  assumes "random_shuffle start k n ps s = (ps', s')" "start + k + n \<le> length ps"
  shows "mset ps' = mset ps \<and> (\<forall>i. i < start \<or> start + k + n \<le> i \<longrightarrow> ps' ! i = ps ! i) \<and> (\<exists>rs. s' = s\<lparr>rng := rs\<rparr>)"
  using assms
proof (induction start k n ps s rule: random_shuffle.induct)
  case (1 start k ps s)
  then show ?case by (auto intro: exI [of _ "rng s"])
next
  case (2 start k n ps s)
  obtain r s1 where r: "random k s = (r, s1)" by fastforce
  have rk: "r \<le> k" and s1: "\<exists>rs. s1 = s\<lparr>rng := rs\<rparr>" using random_bounds [OF r] by auto
  let ?i = "start + k" and ?j = "start + r"
  define ps1 where "ps1 = ps[?i := ps ! ?j, ?j := ps ! ?i]"
  have ij: "?i < length ps" "?j < length ps" using 2(3) rk by auto
  have m: "mset ps1 = mset ps" unfolding ps1_def using ij by (simp add: mset_swap)
  have e: "random_shuffle start (k + 1) n ps1 s1 = (ps', s')" using 2(2) r by (simp add: ps1_def Let_def)
  have "start + (k + 1) + n \<le> length ps1" using 2(3) by (simp add: ps1_def)
  from 2(1) [OF r [symmetric] refl refl refl, folded ps1_def, OF e this]
  have I: "mset ps' = mset ps1" "\<And>i. i < start \<or> start + (k + 1) + n \<le> i \<Longrightarrow> ps' ! i = ps1 ! i" "\<exists>rs. s' = s1\<lparr>rng := rs\<rparr>" by auto
  have "ps1 ! i = ps ! i" if "i < start \<or> start + k + Suc n \<le> i" for i
    using that rk by (auto simp: ps1_def)
  then show ?case using I m s1 by auto
qed

lemma shuffle_buckets_spec:
  assumes "shuffle_buckets (length pre) (ends (length pre) Bs) (pre @ concat Bs) s = (ps', s')"
  shows "\<exists>Bs'. ps' = pre @ concat Bs' \<and> map mset Bs' = map mset Bs \<and> (\<exists>rs. s' = s\<lparr>rng := rs\<rparr>)"
  using assms
proof (induction Bs arbitrary: pre s)
  case Nil
  then show ?case by (auto intro: exI [of _ "rng s"])
next
  case (Cons B Bs)
  show ?case
  proof (cases "B = []")
    case True
    then have "shuffle_buckets (length pre) (ends (length pre) Bs) (pre @ concat Bs) s = (ps', s')" using Cons.prems by simp
    from Cons.IH [OF this] obtain Bs' where "ps' = pre @ concat Bs'" "map mset Bs' = map mset Bs" "\<exists>rs. s' = s\<lparr>rng := rs\<rparr>" by blast
    then show ?thesis using True by (intro exI [of _ "[] # Bs'"]) simp
  next
    case False
    let ?ps = "pre @ B @ concat Bs" and ?a = "length pre" and ?b = "length pre + length B"
    obtain ps1 s1 where r: "random_shuffle ?a 0 (length B) ?ps s = (ps1, s1)" by fastforce
    have R: "mset ps1 = mset ?ps" "\<And>i. i < ?a \<or> ?b \<le> i \<Longrightarrow> ps1 ! i = ?ps ! i" "\<exists>rs. s1 = s\<lparr>rng := rs\<rparr>"
      using random_shuffle_spec [OF r] by auto
    have len: "length ps1 = length ?ps" using R(1) by (metis size_mset)
    define C where "C = take (length B) (drop ?a ps1)"
    have "take ?a ps1 = pre" by (rule nth_equalityI) (use len R(2) in \<open>auto simp: nth_append\<close>)
    moreover have "drop ?b ps1 = concat Bs"
      by (rule nth_equalityI) (use len R(2) in \<open>auto simp: nth_append\<close>)
    ultimately have ps1: "ps1 = pre @ C @ concat Bs"
      by (metis C_def append_take_drop_id drop_drop add.commute)
    then have mC: "mset C = mset B" using R(1) by simp
    then have lC: "length C = length B" by (metis size_mset)
    have "shuffle_buckets ?b (ends ?b Bs) ps1 s1 = (ps', s')" using Cons.prems False r by (simp add: Let_def)
    then have "shuffle_buckets (length (pre @ C)) (ends (length (pre @ C)) Bs) ((pre @ C) @ concat Bs) s1 = (ps', s')"
      using ps1 lC by simp
    from Cons.IH [OF this] obtain Bs' where "ps' = (pre @ C) @ concat Bs'" "map mset Bs' = map mset Bs" "\<exists>rs. s' = s1\<lparr>rng := rs\<rparr>" by blast
    then show ?thesis using R(3) mC by (intro exI [of _ "C # Bs'"]) auto
  qed
qed

lemma index_pieces_spec:
  assumes "distinct ps" "set ps \<subseteq> {..<length pm}"
  shows "indexed (index_pieces n ps pm) n ps" "reindexed pm (set ps) (index_pieces n ps pm)"
proof -
  have "indexed (index_pieces n ps pm) n ps \<and> reindexed pm (set ps) (index_pieces n ps pm)"
    using assms
  proof (induction ps arbitrary: n pm)
    case (Cons p ps)
    let ?pm = "set_index p n pm"
    have p: "p < length pm" "p \<notin> set ps" using Cons.prems by auto
    have I: "indexed (index_pieces (n + 1) ps ?pm) (n + 1) ps" "reindexed ?pm (set ps) (index_pieces (n + 1) ps ?pm)"
      using Cons.IH [of ?pm "n + 1"] Cons.prems by auto
    have "index_pieces (n + 1) ps ?pm ! p = ?pm ! p" using I(2) p by (simp add: reindexed_def)
    then have "pp_index (index_pieces n (p # ps) pm ! p) = int n" using p by simp
    moreover have "reindexed pm (set (p # ps)) (index_pieces n (p # ps) pm)"
      using reindexed_trans [OF set_index_reindexed [of p "{p}" pm n] I(2), of "set (p # ps)"] p by auto
    ultimately show ?case using I by simp
  qed simp
  then show "indexed (index_pieces n ps pm) n ps" "reindexed pm (set ps) (index_pieces n ps pm)" by auto
qed

lemma map_mset_facts:
  assumes "map mset Bs' = map mset Bs"
  shows "length Bs' = length Bs" "ends n Bs' = ends n Bs" "mset (concat Bs') = mset (concat Bs)"
    "k < length Bs \<Longrightarrow> set (Bs' ! k) = set (Bs ! k)"
proof -
  show l: "length Bs' = length Bs" using assms by (metis length_map)
  have "map size (map mset Bs') = map size (map mset Bs)" using assms by simp
  then have "map length Bs' = map length Bs" by (simp add: comp_def)
  then show "ends n Bs' = ends n Bs" by (rule ends_cong)
  show "mset (concat Bs') = mset (concat Bs)" using assms by (simp add: mset_concat)
  show "set (Bs' ! k) = set (Bs ! k)" if "k < length Bs"
    using arg_cong [OF assms, of "\<lambda>xs. xs ! k"] that l by (metis nth_map set_mset_mset)
qed

lemma bucketed_mset:
  assumes b: "bucketed pr n Bs" and m: "map mset Bs' = map mset Bs"
  shows "bucketed pr n Bs'"
proof (rule bucketedI)
  note f = map_mset_facts [OF m]
  show "Bs' \<noteq> []" using b f(1) by (auto simp: bucketed_def)
  show "distinct (concat Bs')" using b f(3) by (metis bucketed_def mset_eq_imp_distinct_iff)
  have s: "map set Bs = bsets pr n (length Bs)" using b by (simp add: bucketed_def)
  show "y \<in> set (Bs' ! k) \<longleftrightarrow> y < n \<and> pr y = int k" if "k < length Bs'" for k y
    using arg_cong [OF s, of "\<lambda>xs. xs ! k"] that f(1,4) by (simp add: bsets_nth)
  show "pr i < int (length Bs')" if "i < n" for i using b that f(1) by (simp add: bucketed_def)
qed

section \<open>The result\<close>

lemma update_pieces_rebuilds:
  assumes w: "prio_wf s"
  shows "reordered (s\<lparr>m_dirty := False\<rparr>) (update_pieces s)" "list_ok (update_pieces s)" "\<not> m_dirty (update_pieces s)"
proof -
  define bs0 where "bs0 = (if m_priority_boundaries s = [] then [0] else m_priority_boundaries s)"
  obtain pm cs where c: "count_priorities (m_seeds s) (m_piece_map s) (map (\<lambda>_. 0) bs0) = (pm, cs)" by fastforce
  have w': "\<forall>p \<in> set (m_piece_map s). piece_priority p \<le> 7" using w by (auto simp: prio_wf_def num_pieces_def in_set_conv_nth)
  have bs0: "bs0 \<noteq> []" by (simp add: bs0_def)
  note C = count_place [OF c w' bs0]
  define Bs where "Bs = buckets (m_seeds s) (m_piece_map s) (length cs)"
  have rs: "running_sums 0 cs = ends 0 Bs" using running_sums_ends [of 0 Bs] C(1) by (simp add: Bs_def)
  have Bne: "Bs \<noteq> []" using C(2) by (auto simp: Bs_def buckets_def)
  then have ne: "ends 0 Bs \<noteq> []" by (metis length_0_conv length_ends)
  define new_size where "new_size = (if ends 0 Bs = [] then 0 else last (ends 0 Bs))"
  have ns: "new_size = length (concat Bs)" using ne last_ends [OF Bne, of 0] by (simp add: new_size_def)
  define ps where "ps = place_pieces (m_seeds s) 0 pm (ends 0 Bs) (resize_list new_size 0 (m_pieces s))"
  have ps: "ps = concat Bs" unfolding ps_def Bs_def
    by (rule C(6)) (simp add: ns Bs_def resize_list_def)
  obtain ps' s1 where sh: "shuffle_buckets 0 (ends 0 Bs) ps s = (ps', s1)" by fastforce
  have "shuffle_buckets (length []) (ends (length []) Bs) ([] @ concat Bs) s = (ps', s1)" using sh ps by simp
  from shuffle_buckets_spec [OF this] obtain Bs' where Bs': "ps' = concat Bs'" "map mset Bs' = map mset Bs"
    and s1: "\<exists>rs. s1 = s\<lparr>rng := rs\<rparr>" by auto
  have U: "update_pieces s = s1\<lparr>m_priority_boundaries := ends 0 Bs, m_pieces := ps', m_piece_map := index_pieces 0 ps' pm, m_dirty := False\<rparr>"
    unfolding update_pieces_def Let_def bs0_def [symmetric] c prod.case rs new_size_def [symmetric] ps_def [symmetric] sh ..
  let ?s = "s\<lparr>m_dirty := False\<rparr>"
  have b: "bucketed (prio_of s) (num_pieces s) Bs"
    unfolding Bs_def num_pieces_def by (rule buckets_bucketed) (use C(2,5) in auto)
  have b': "bucketed (prio_of s) (num_pieces s) Bs'" by (rule bucketed_mset [OF b Bs'(2)])
  note f = map_mset_facts [OF Bs'(2)]
  have st: "set ps' = set (concat Bs)" using f(3) Bs'(1) by (metis set_mset_mset)
  have lp: "length pm = length (m_piece_map s)" using C(3) by (simp add: reindexed_def)
  have sub: "distinct ps'" "set ps' \<subseteq> {..<length pm}"
    using b' bucketed_set [OF b'] Bs'(1) lp by (auto simp: bucketed_def num_pieces_def)
  note I = index_pieces_spec [OF sub, of 0]
  have re: "reindexed (m_piece_map ?s) (set ps') (index_pieces 0 ps' pm)"
    using reindexed_trans [OF C(3) I(2), of "set ps'"] st by (simp add: Bs_def)
  have o: "ordered (prio_of ?s) (num_pieces ?s) ps' (ends 0 Bs)"
    using b' Bs'(1) f(2) by (auto simp: ordered_def num_pieces_def)
  have fr: "frame (update_pieces s) = frame ?s" using s1 unfolding U by (auto simp: frame_def)
  show "reordered ?s (update_pieces s)" "list_ok (update_pieces s)"
    by (rule relist [OF re I(1) o fr]; simp add: U)+
  show "\<not> m_dirty (update_pieces s)" by (simp add: U)
qed

lemma update_pieces_inv:
  assumes "prio_wf s" shows "pieces_inv (update_pieces s)"
  using update_pieces_rebuilds [OF assms] assms reordered_prio_wf [of "s\<lparr>m_dirty := False\<rparr>"]
  by (simp add: pieces_inv_def order_inv_def prio_wf_def num_pieces_def)

end
