(* ===== verification/Picker_Steps.thy ===== *)
theory Picker_Steps
  imports Picker_Counters Picker_Rebuild
begin

text \<open>
  The picker as a state machine: its operations, the conditions the code asserts of the caller, the
  states reachable from a new picker, and the invariant of all of them.
\<close>

section \<open>The invariant\<close>

definition had_open :: "piece_picker \<Rightarrow> bool" where
  "had_open s \<longleftrightarrow> (\<forall>x < num_pieces s. have_pos (pos_of s x) \<longrightarrow> dl_map s x = None)"

definition picker_inv :: "piece_picker \<Rightarrow> bool" where
  "picker_inv s \<longleftrightarrow> picker_ok s \<and> counters_inv s \<and> had_open s"

lemma picker_inv_parts:
  assumes "picker_inv s"
  shows "picker_ok s" "counters_inv s" "had_open s" "pieces_inv s" "queue_inv s" "prio_wf s" "queues {} s"
  using assms by (auto simp: picker_inv_def picker_ok_def pieces_inv_def queue_inv_def)

text \<open>An operation that leaves the queues, the counters and the cursors alone.\<close>

definition same_view :: "piece_picker \<Rightarrow> piece_picker \<Rightarrow> bool" where
  "same_view s s' \<longleftrightarrow> qview s' = qview s \<and> cview s' = cview s"

lemma same_view_refl [simp]: "same_view s s"
  by (simp add: same_view_def)

lemma same_view_trans [trans]: "same_view s s' \<Longrightarrow> same_view s' s'' \<Longrightarrow> same_view s s''"
  by (simp add: same_view_def)

lemma reordered_same_view: "reordered s s' \<Longrightarrow> same_view s s'"
  using reordered_qview same_blocks_reads(7) [OF reordered_same_blocks] by (simp add: same_view_def)

lemma same_view_inv:
  assumes "same_view s s'" "picker_inv s" "pieces_inv s'"
  shows "picker_inv s'"
proof -
  have q: "qview s' = qview s" and c: "cview s' = cview s" using assms(1) by (simp_all add: same_view_def)
  note r = cview_reads [OF c]
  have "picker_ok s'" "dl_map s' = dl_map s" using qview_ok [OF q] picker_inv_parts [OF assms(2)] assms(3) by auto
  then show ?thesis using counters_cview [OF c] r(1,12) assms(2) by (simp add: picker_inv_def had_open_def)
qed

lemma same_view_set_pos:
  "download_state (f (pos_of s x)) = download_state (pos_of s x) \<Longrightarrow> piece_priority (f (pos_of s x)) = piece_priority (pos_of s x) \<Longrightarrow>
   have_pos (f (pos_of s x)) = have_pos (pos_of s x) \<Longrightarrow> same_view s (set_pos x f s)"
  by (simp add: same_view_def qview_set_pos cview_set_pos pview_def)

lemma have_pos_peers [simp]: "have_pos (p\<lparr>peer_count := n\<rparr>) = have_pos p"
  by (simp add: have_pos_def)

lemma same_view_fields [simp]:
  "same_view s (s\<lparr>m_dirty := d\<rparr>)" "same_view s (s\<lparr>m_seeds := n\<rparr>)" "same_view s (s\<lparr>m_num_passed := k\<rparr>)"
  by (simp_all add: same_view_def)

lemma same_view_map:
  assumes "\<And>p. pview (f p) = pview p" "\<And>p. have_pos (f p) = have_pos p"
  shows "same_view s (s\<lparr>m_piece_map := map f (m_piece_map s)\<rparr>)"
proof -
  have "piece_priority (f p) = piece_priority p" for p using assms(1) [of p] by (simp add: pview_def)
  then show ?thesis using assms by (simp add: same_view_def qview_def cview_def eview_def comp_def)
qed

section \<open>Availability\<close>

lemma inc_refcount_view:
  assumes "pieces_inv s" "x < num_pieces s"
  shows "same_view s (inc_refcount x s)"
proof -
  let ?s = "set_pos x (\<lambda>p. p\<lparr>peer_count := peer_count p + 1\<rparr>) s"
  have c: "changed x (prio_of s x) ?s" by (rule changed_set_pos) (use assms prio_wf_pos in auto)
  have "same_view s ?s" by (rule same_view_set_pos) simp_all
  then show ?thesis using same_view_trans reordered_same_view [OF changed_reposition(2) [OF c]]
    by (fastforce simp: inc_refcount_def Let_def)
qed

lemma break_one_seed_view: "same_view s (break_one_seed s)"
proof -
  have "same_view s (s\<lparr>m_seeds := m_seeds s - 1\<rparr>)" by simp
  also have "same_view \<dots> ((s\<lparr>m_seeds := m_seeds s - 1\<rparr>)\<lparr>m_piece_map := map (\<lambda>p. p\<lparr>peer_count := peer_count p + 1\<rparr>) (m_piece_map s)\<rparr>)"
    using same_view_map [of "\<lambda>p. p\<lparr>peer_count := peer_count p + 1\<rparr>" "s\<lparr>m_seeds := m_seeds s - 1\<rparr>"] by (simp add: pview_def)
  also have "same_view \<dots> (break_one_seed s)" by (simp add: break_one_seed_def same_view_def qview_def cview_def eview_def)
  finally show ?thesis .
qed

lemma dec_change:
  assumes "pieces_inv s" "x < num_pieces s"
  shows "changed x (prio_of s x) (set_pos x (\<lambda>p. p\<lparr>peer_count := peer_count p - 1\<rparr>) s)"
    "prio_of s x = -1 \<Longrightarrow> prio_of (set_pos x (\<lambda>p. p\<lparr>peer_count := peer_count p - 1\<rparr>) s) x = -1"
  using assms prio_wf_pos [OF assms] priority_dec by (auto intro!: changed_set_pos)

lemma dec_refresh_view:
  assumes "pieces_inv s" "x < num_pieces s"
  shows "same_view s (refresh (prio_of s x) x (set_pos x (\<lambda>p. p\<lparr>peer_count := peer_count p - 1\<rparr>) s))"
proof -
  have "same_view s (set_pos x (\<lambda>p. p\<lparr>peer_count := peer_count p - 1\<rparr>) s)" by (rule same_view_set_pos) simp_all
  then show ?thesis using same_view_trans reordered_same_view [OF changed_refresh(2) [OF dec_change [OF assms]]] by blast
qed

lemma dec_refcount_view:
  assumes "pieces_inv s" "x < num_pieces s"
  shows "same_view s (dec_refcount x s)"
proof -
  let ?s = "if peer_count (pos_of s x) = 0 then break_one_seed s else s"
  have "pieces_inv ?s" "x < num_pieces ?s" using assms break_one_seed_inv by (auto simp: pieces_inv_def)
  moreover have "same_view s ?s" using break_one_seed_view by simp
  ultimately show ?thesis using same_view_trans dec_refresh_view unfolding dec_refcount_def Let_def by blast
qed

lemma refcount_all_view: "same_view s (inc_refcount_all s)" "same_view s (dec_refcount_all s)"
proof -
  show "same_view s (inc_refcount_all s)" by (simp add: inc_refcount_all_def Let_def same_view_def)
  have "same_view s (s\<lparr>m_piece_map := map (\<lambda>p. p\<lparr>peer_count := peer_count p - 1\<rparr>) (m_piece_map s)\<rparr>)"
    by (rule same_view_map) (simp_all add: pview_def)
  then show "same_view s (dec_refcount_all s)"
    by (simp add: dec_refcount_all_def Let_def same_view_def)
qed

lemma fold_inc_view:
  "pieces_inv s \<Longrightarrow> \<not> m_dirty s \<Longrightarrow> \<forall>i \<in> set is. i < num_pieces s \<Longrightarrow> same_view s (fold inc_refcount_one is s)"
proof (induction "is" arbitrary: s)
  case (Cons i "is")
  have "same_view s (inc_refcount i s)" using Cons.prems by (simp add: inc_refcount_view)
  moreover have "same_view (inc_refcount i s) (fold inc_refcount_one is (inc_refcount i s))"
    using Cons.IH [of "inc_refcount i s"] Cons.prems inc_refcount_inv [of s i] inc_refcount_dirty [of s i] by simp
  ultimately show ?case using Cons.prems same_view_trans by (simp add: inc_refcount_one_eq)
qed simp

lemma dec_peer_count_view: "same_view s (dec_peer_count i s)"
proof -
  let ?s = "if peer_count (pos_of s i) = 0 then break_one_seed s else s"
  have "same_view s ?s" using break_one_seed_view by simp
  moreover have "same_view ?s (dec_peer_count i s)"
    unfolding dec_peer_count_def Let_def by (rule same_view_set_pos) simp_all
  ultimately show ?thesis by (rule same_view_trans)
qed

lemma dec_refcount_one_view:
  assumes "pieces_inv s" "x < num_pieces s"
  shows "same_view s (dec_refcount_one x s)"
proof (cases "peer_count (pos_of s x) = 0")
  case True
  then have "m_dirty (dec_peer_count x s)" by (simp add: dec_peer_count_def)
  then have "dec_refcount_one x s = dec_peer_count x s" by (simp add: dec_refcount_one_def refresh_def)
  then show ?thesis using dec_peer_count_view by simp
next
  case False
  then have "dec_refcount_one x s = refresh (prio_of s x) x (set_pos x (\<lambda>p. p\<lparr>peer_count := peer_count p - 1\<rparr>) s)"
    by (simp add: dec_refcount_one_def dec_peer_count_def)
  then show ?thesis using dec_refresh_view [OF assms] by simp
qed

lemma fold_dec_view:
  "pieces_inv s \<Longrightarrow> \<forall>i \<in> set is. i < num_pieces s \<Longrightarrow> same_view s (fold dec_refcount_one is s)"
proof (induction "is" arbitrary: s)
  case (Cons i "is")
  have "same_view s (dec_refcount_one i s)" using Cons.prems by (simp add: dec_refcount_one_view)
  moreover have "same_view (dec_refcount_one i s) (fold dec_refcount_one is (dec_refcount_one i s))"
    using Cons.IH [of "dec_refcount_one i s"] Cons.prems dec_refcount_one_inv [of s i] by simp
  ultimately show ?case using same_view_trans by simp
qed simp

lemma fold_view: "(\<And>i s. same_view s (f i s)) \<Longrightarrow> same_view s (fold f is s)"
proof (induction "is" arbitrary: s)
  case (Cons i "is")
  then show ?case using same_view_trans by (metis fold_simps(2))
qed simp

lemma refcount_mask_view:
  assumes "pieces_inv s" and "size_bf bm \<le> num_pieces s"
  shows "same_view s (inc_refcount_mask bm s)" "same_view s (dec_refcount_mask bm s)"
proof -
  let ?is = "mask_indices bm"
  have i: "\<forall>i \<in> set ?is. i < num_pieces s" using assms(2) by (auto simp: mask_indices_def)
  have 1: "same_view s (fold (\<lambda>i. set_pos i (\<lambda>p. p\<lparr>peer_count := peer_count p + 1\<rparr>)) ?is s)"
    by (rule fold_view, rule same_view_set_pos) simp_all
  have 2: "same_view s (fold dec_peer_count ?is s)" by (rule fold_view) (rule dec_peer_count_view)
  show "same_view s (inc_refcount_mask bm s)"
    using 1 fold_inc_view [OF assms(1) _ i] refcount_all_view same_view_trans same_view_fields(1)
    unfolding inc_refcount_mask_def Let_def by (auto simp: same_view_def split: if_splits)
  show "same_view s (dec_refcount_mask bm s)"
    using 2 fold_dec_view [OF assms(1) i] refcount_all_view same_view_trans same_view_fields(1)
    unfolding dec_refcount_mask_def Let_def by (auto simp: same_view_def split: if_splits)
qed

section \<open>Priorities\<close>

lemma dl_map_cong:
  assumes "m_downloads s' = m_downloads s" "m_block_info s' = m_block_info s" "m_blocks_per_piece s' = m_blocks_per_piece s"
    "m_blocks_in_last_piece s' = m_blocks_in_last_piece s" "num_pieces s' = num_pieces s"
    "\<And>i. i < num_pieces s \<Longrightarrow> download_state (pos_of s' i) = download_state (pos_of s i)"
  shows "dl_map s' = dl_map s"
proof
  fix y
  have v: "dl_view s' (deref it s') = dl_view s (deref it s)" for it
    using blocks_for_piece_cong [OF assms(2-5)] assms(1) by (simp add: dl_view_def deref_def)
  have f: "find_dl_piece q x s' = find_dl_piece q x s" for q x by (simp add: find_dl_piece_def assms(1))
  show "dl_map s' y = dl_map s y"
  proof (cases "y < num_pieces s")
    case True
    then have "download_queue (pos_of s' y) = download_queue (pos_of s y)" "downloading (pos_of s' y) = downloading (pos_of s y)"
      using assms(6) by (simp_all add: download_queue_def downloading_def)
    then show ?thesis unfolding dl_map_def v f assms(5) by simp
  qed (simp add: dl_map_def assms(5))
qed

lemma queue_but_prio:
  assumes q: "queue_inv s" and x: "x < num_pieces s"
  shows "queue_but x (set_pos x (\<lambda>p. p\<lparr>piece_priority := np\<rparr>) s)" (is "queue_but x ?s")
proof -
  have Q: "queues {} s" using q by (simp add: queue_inv_def)
  have dq: "download_queue (pos_of ?s i) = download_queue (pos_of s i)" "downloading (pos_of ?s i) = downloading (pos_of s i)" for i
    using x by (simp_all add: download_queue_def downloading_def)
  have "queues {} ?s" using Q unfolding queues_def set_pos_fields set_pos_simps(1) dq .
  then show ?thesis using q entry_ok_other [OF x] by (simp add: queue_but_def queue_inv_def)
qed

lemma set_piece_priority_full:
  assumes I: "picker_inv s" and x: "x < num_pieces s" and np: "np \<le> 7"
  shows "picker_inv (snd (set_piece_priority x np s))" "dl_map (snd (set_piece_priority x np s)) = dl_map s"
    "num_pieces (snd (set_piece_priority x np s)) = num_pieces s"
    "i < num_pieces s \<Longrightarrow> have_pos (pos_of (snd (set_piece_priority x np s)) i) = have_pos (pos_of s i)"
    "i < num_pieces s \<Longrightarrow> piece_priority (pos_of (snd (set_piece_priority x np s)) i) = (if i = x then np else piece_priority (pos_of s i))"
proof -
  note P = picker_inv_parts [OF I]
  let ?new = "\<lambda>t. num_pieces t = num_pieces s \<and> (\<forall>i < num_pieces s. have_pos (pos_of t i) = have_pos (pos_of s i) \<and>
    piece_priority (pos_of t i) = (if i = x then np else piece_priority (pos_of s i)))"
  have "picker_inv (snd (set_piece_priority x np s)) \<and> dl_map (snd (set_piece_priority x np s)) = dl_map s \<and>
    ?new (snd (set_piece_priority x np s))"
  proof (cases "np = piece_priority (pos_of s x)")
    case True
    then show ?thesis using I by (simp add: set_piece_priority_def)
  next
    case False
    define s1 where "s1 = snd (filter_change x np s)"
    define s2 where "s2 = set_pos x (\<lambda>p. p\<lparr>piece_priority := np\<rparr>) s1"
    define s3 where "s3 = reposition (prio_of s x) x s2"
    have R: "snd (set_piece_priority x np s) =
      (if downloading (pos_of s3 x)
       then case find_dl_piece (download_queue (pos_of s3 x)) x s3 of None \<Rightarrow> s3 | Some i \<Rightarrow> snd (update_piece_state i s3)
       else s3)"
      using False unfolding set_piece_priority_def s3_def s2_def s1_def Let_def by (simp add: case_prod_beta)
    have v1: "qview s1 = qview s" unfolding s1_def filter_change_def Let_def by simp
    have c1: "core s1 = core s" unfolding s1_def filter_change_def Let_def by simp
    have n1: "num_pieces s1 = num_pieces s" "m_piece_map s1 = m_piece_map s" "m_seeds s1 = m_seeds s"
      using num_pieces_core [OF c1] c1 by (auto simp: core_def)
    have q1: "queue_inv s1" using qview_inv(1) [OF v1] P(5) by simp
    have pi1: "pieces_inv s1" using pieces_inv_core [OF c1] P(4) by simp
    have x1: "x < num_pieces s1" using x n1 by simp
    have q2: "queue_but x s2" unfolding s2_def by (rule queue_but_prio [OF q1 x1])
    have "changed x (prio_of s1 x) s2" unfolding s2_def by (rule changed_set_pos [OF pi1 x1]) (use np in simp_all)
    then have ch: "changed x (prio_of s x) s2" using n1 by simp
    have r3: "pieces_inv s3" "reordered s2 s3" unfolding s3_def using changed_reposition [OF ch] by auto
    have q3: "queue_but x s3" using qview_inv(2) [OF reordered_qview [OF r3(2)]] q2 by simp
    have c3: "counters_inv s3"
      using counters_cview [OF same_blocks_reads(7) [OF reordered_same_blocks [OF r3(2)]]] filter_change_ok [OF P(2) x False]
      by (simp add: s2_def s1_def)
    have d2: "dl_map s2 = dl_map s"
      using v1 n1 x1 unfolding s2_def by (intro dl_map_cong) (auto simp: qview_def eview_def)
    have d3: "dl_map s3 = dl_map s" using qview_dl_map [OF reordered_qview [OF r3(2)]] d2 by simp
    have n3: "num_pieces s3 = num_pieces s" using reordered_num [OF r3(2)] n1 by (simp add: s2_def)
    have h2: "have_pos (pos_of s2 i) = have_pos (pos_of s i)" for i using x1 n1 by (simp add: s2_def have_pos_def)
    have h3: "have_pos (pos_of s3 i) = have_pos (pos_of s i)" if "i < num_pieces s" for i
      using reordered_pos(4) [OF r3(2)] h2 that n1 by (simp add: s2_def)
    have p3: "piece_priority (pos_of s3 i) = (if i = x then np else piece_priority (pos_of s i))" if "i < num_pieces s" for i
      using reordered_pos(3) [OF r3(2)] that n1 x1 by (simp add: s2_def)
    have new3: "?new s3" using n3 h3 p3 by simp
    have ho: "had_open s3" using P(3) d3 n3 h3 by (simp add: had_open_def)
    have x3: "x < num_pieces s3" using x n3 by simp
    show ?thesis
    proof (cases "downloading (pos_of s3 x)")
      case False
      have Q3: "queues {} s3" by (rule queue_but_queues [OF q3])
      have "dp_index dp \<noteq> x" if "dp \<in> dps s3" for dp
        using dps_queue [OF Q3 that] queuesD(2) [OF Q3] False by metis
      then have "queue_inv s3" using q3 by (auto simp: queue_inv_def queue_but_def)
      then show ?thesis using False R r3(1) c3 ho d3 new3 by (simp add: picker_inv_def picker_ok_def)
    next
      case True
      have Q3: "queues {} s3" by (rule queue_but_queues [OF q3])
      obtain it where f: "find_dl_piece (download_queue (pos_of s3 x)) x s3 = Some it" "valid_it it s3" "dp_index (deref it s3) = x"
        "deref it s3 \<in> dps s3"
        using find_entry [OF Q3 x3 True] by blast
      obtain it' s4 where u: "update_piece_state it s3 = (it', s4)" by fastforce
      have "dps s3 = dps s" using qview_queues(2) [OF reordered_qview [OF r3(2)]] qview_queues(2) [OF v1] by (simp add: s2_def)
      then have "counts s (deref it s3) \<and> 0 < busy (deref it s3)" using queue_inv_counts [OF P(5)] f(4) by simp
      moreover have "counts s3 (deref it s3) = counts s (deref it s3)"
      proof -
        have e1: "eview s1 = eview s" using v1 by (simp add: qview_def)
        note b1 = eview_fields [OF e1]
        have "blocks_for_piece s1 (deref it s3) = blocks_for_piece s (deref it s3)" by (rule blocks_for_piece_cong [OF b1(1-4)])
        then have "counts s1 (deref it s3) = counts s (deref it s3)" by (simp add: counts_def)
        moreover have "counts s2 (deref it s3) = counts s1 (deref it s3)" by (simp add: s2_def)
        moreover have "counts s3 (deref it s3) = counts s2 (deref it s3)" by (rule same_blocks_reads(2) [OF reordered_same_blocks [OF r3(2)]])
        ultimately show ?thesis by simp
      qed
      ultimately have c: "counts s3 (deref it s3)" "0 < busy (deref it s3)" by auto
      note U = update_piece_state_queue [OF q3 r3(1) f(2) refl f(3) c(1) u]
      have d4: "dl_map s4 = dl_map s3"
        by (rule dl_map_same [OF Q3 queue_but_queues [OF U(1)] U(2,3)])
      have c4: "cview s4 = cview s3" by (rule same_blocks_reads(7) [OF U(3)])
      have "had_open s4" using ho d4 cview_reads(1,12) [OF c4] by (simp add: had_open_def)
      then have "picker_inv s4" using U(4) [OF c(2)] U(5) counters_cview [OF c4] c3 by (simp add: picker_inv_def picker_ok_def)
      moreover have "?new s4" using new3 cview_reads(1,12,14) [OF c4] by simp
      ultimately show ?thesis using R True f(1) u d4 d3 by simp
    qed
  qed
  then show "picker_inv (snd (set_piece_priority x np s))" "dl_map (snd (set_piece_priority x np s)) = dl_map s"
    "num_pieces (snd (set_piece_priority x np s)) = num_pieces s"
    "i < num_pieces s \<Longrightarrow> have_pos (pos_of (snd (set_piece_priority x np s)) i) = have_pos (pos_of s i)"
    "i < num_pieces s \<Longrightarrow> piece_priority (pos_of (snd (set_piece_priority x np s)) i) = (if i = x then np else piece_priority (pos_of s i))"
    by auto
qed

section \<open>Having pieces\<close>

lemma had_openI:
  "cview s' = cview s \<Longrightarrow> had_open s \<Longrightarrow> (\<And>y. dl_map s' y = dl_map s y \<or> dl_map s' y = None \<or> y = x) \<Longrightarrow>
   dl_map s' x = None \<or> \<not> have_pos (pos_of s x) \<Longrightarrow> had_open s'"
  using cview_reads(1,12) [of s' s] by (metis had_open_def)

lemma we_have_have:
  assumes P: "picker_ok s" and x: "x < num_pieces s"
  shows "num_pieces (we_have x s) = num_pieces s"
    "i < num_pieces s \<Longrightarrow> have_pos (pos_of (we_have x s) i) \<longleftrightarrow> i = x \<or> have_pos (pos_of s i)"
    "i < num_pieces s \<Longrightarrow> piece_priority (pos_of (we_have x s) i) = piece_priority (pos_of s i)"
proof -
  have pi: "pieces_inv s" using P by (simp add: picker_ok_def)
  have "num_pieces (we_have x s) = num_pieces s \<and>
    (i < num_pieces s \<longrightarrow> (have_pos (pos_of (we_have x s) i) \<longleftrightarrow> i = x \<or> have_pos (pos_of s i)) \<and>
       piece_priority (pos_of (we_have x s) i) = piece_priority (pos_of s i))"
  proof (cases "have_pos (pos_of s x)")
    case True
    then show ?thesis by (auto simp: we_have_def Let_def)
  next
    case False
    let ?d = "drop_entry x s" let ?t = "count_had x (pad_blocks_in_piece s x) ?d"
    note r = cview_reads [OF drop_entry_cview [OF P x]]
    note re = we_have_list(2) [OF pi x False]
    have n: "num_pieces ?t = num_pieces s" using r(1) by (simp add: count_had_def Let_def) (simp add: num_pieces_def)
    have "pos_of ?t i = (if i = x then (pos_of ?d x)\<lparr>pp_index := we_have_index\<rparr> else pos_of ?d i)"
      using x r(1) by (simp add: count_had_def Let_def set_pos_def num_pieces_def nth_list_update)
    then have "i < num_pieces s \<Longrightarrow> (have_pos (pos_of ?t i) \<longleftrightarrow> i = x \<or> have_pos (pos_of s i)) \<and>
        piece_priority (pos_of ?t i) = piece_priority (pos_of s i)"
      using r(12,14) by (auto simp: have_pos_def)
    then show ?thesis using reordered_num [OF re] reordered_pos(3,4) [OF re] n by simp
  qed
  then show "num_pieces (we_have x s) = num_pieces s"
    "i < num_pieces s \<Longrightarrow> have_pos (pos_of (we_have x s) i) \<longleftrightarrow> i = x \<or> have_pos (pos_of s i)"
    "i < num_pieces s \<Longrightarrow> piece_priority (pos_of (we_have x s) i) = piece_priority (pos_of s i)" by auto
qed

lemma we_have_full:
  assumes I: "picker_inv s" and x: "x < num_pieces s"
  shows "picker_inv (we_have x s)" "dl_map (we_have x s) = (dl_map s)(x := None)"
proof -
  note P = picker_inv_parts [OF I]
  show d: "dl_map (we_have x s) = (dl_map s)(x := None)"
    using we_have_refines(2) [OF P(1) x] P(3) x by (auto simp: had_open_def fun_upd_idem)
  have "had_open (we_have x s)" using P(3) d we_have_have [OF P(1) x] by (auto simp: had_open_def)
  then show "picker_inv (we_have x s)"
    using we_have_refines(1) [OF P(1) x] we_have_counters [OF P(1,2) x] by (simp add: picker_inv_def)
qed

lemma count_lost_qview: "qview (count_lost x s) = qview s"
  by (simp add: count_lost_def Let_def qview_set_pos pview_def)

lemma we_dont_have_full:
  assumes I: "picker_inv s" and x: "x < num_pieces s" and h: "have_pos (pos_of s x)"
  shows "picker_inv (we_dont_have x s)" "dl_map (we_dont_have x s) = dl_map s" "num_pieces (we_dont_have x s) = num_pieces s"
    "i < num_pieces s \<Longrightarrow> have_pos (pos_of (we_dont_have x s) i) \<longleftrightarrow> i \<noteq> x \<and> have_pos (pos_of s i)"
    "i < num_pieces s \<Longrightarrow> piece_priority (pos_of (we_dont_have x s) i) = piece_priority (pos_of s i)"
proof -
  note P = picker_inv_parts [OF I]
  note L = we_dont_have_list [OF P(4) x h]
  have v: "qview (we_dont_have x s) = qview s" using reordered_qview [OF L(2)] count_lost_qview by simp
  have q: "picker_ok (we_dont_have x s)" "dl_map (we_dont_have x s) = dl_map s" using qview_ok [OF v P(5) L(1)] by auto
  have n: "num_pieces (count_lost x s) = num_pieces s" by (simp add: count_lost_def Let_def) (simp add: num_pieces_def)
  have "pos_of (count_lost x s) i = (if i = x then (pos_of s x)\<lparr>pp_index := 0\<rparr> else pos_of s i)" for i
    using x by (simp add: count_lost_def Let_def set_pos_def num_pieces_def nth_list_update)
  then have c: "have_pos (pos_of (count_lost x s) i) \<longleftrightarrow> i \<noteq> x \<and> have_pos (pos_of s i)"
      "piece_priority (pos_of (count_lost x s) i) = piece_priority (pos_of s i)" for i
    by (auto simp: have_pos_def we_have_index_def)
  show n': "num_pieces (we_dont_have x s) = num_pieces s" using reordered_num [OF L(2)] n by simp
  show h': "have_pos (pos_of (we_dont_have x s) i) \<longleftrightarrow> i \<noteq> x \<and> have_pos (pos_of s i)"
    "piece_priority (pos_of (we_dont_have x s) i) = piece_priority (pos_of s i)" if "i < num_pieces s" for i
    using reordered_pos(3,4) [OF L(2)] n c that by auto
  have "had_open (we_dont_have x s)" using P(3) q(2) n' h'(1) by (auto simp: had_open_def)
  then show "picker_inv (we_dont_have x s)" "dl_map (we_dont_have x s) = dl_map s"
    using q we_dont_have_counters [OF P(1,2) x h] by (auto simp: picker_inv_def)
qed

text \<open>A state with no entry.\<close>

lemma empty_queues:
  assumes "\<And>q. m_downloads s q = []" "\<And>i. i < num_pieces s \<Longrightarrow> download_state (pos_of s i) = piece_open"
    "m_block_info s = []" "m_free_block_infos s = []" "0 < m_blocks_per_piece s" "m_blocks_in_last_piece s \<le> m_blocks_per_piece s"
  shows "queue_inv s" "dl_map s = (\<lambda>_. None)"
proof -
  have d: "dps s = {}" using assms(1) by (simp add: dps_def)
  have "queues {} s" unfolding queues_def d using assms by (simp add: downloading_def pool_ok_def)
  then show "queue_inv s" by (simp add: queue_inv_def d)
  show "dl_map s = (\<lambda>_. None)" using assms(2) by (auto simp: fun_eq_iff dl_map_def downloading_def)
qed

lemma we_have_all_full:
  assumes I: "picker_inv s" and np: "\<And>i. i < num_pieces s \<Longrightarrow> pad_blocks_in_piece s i = 0"
  shows "picker_inv (we_have_all s)" "dl_map (we_have_all s) = (\<lambda>_. None)"
proof -
  note P = picker_inv_parts [OF I]
  let ?t = "we_have_all s"
  have n: "num_pieces ?t = num_pieces s" by (simp add: we_have_all_def num_pieces_def)
  have h: "have_pos (pos_of ?t i)" "filtered (pos_of ?t i) = filtered (pos_of s i)" "download_state (pos_of ?t i) = piece_open"
    if "i < num_pieces s" for i
    using that by (simp_all add: we_have_all_def num_pieces_def have_pos_def filtered_def)
  have po: "pool_ok s" by (rule queuesD(6) [OF P(7)])
  have q: "queue_inv ?t" "dl_map ?t = (\<lambda>_. None)"
    by (rule empty_queues; use po h n in \<open>simp add: we_have_all_def pool_ok_def num_pieces_def\<close>)+
  have pp: "pad_blocks_in_piece ?t = pad_blocks_in_piece s" by (simp add: we_have_all_def pad_blocks_in_piece_def fun_eq_iff)
  have z: "total u Q (pad_blocks_in_piece s) = 0" if "num_pieces u = num_pieces s" for u Q
    unfolding total_def that by (rule sum.neutral) (use np in auto)
  have tt: "total ?t have_pos (\<lambda>_. 1) = int (num_pieces s)" "total ?t missing (\<lambda>_. 1) = 0"
    "total ?t unwanted (\<lambda>_. 1) = total s missing (\<lambda>_. 1) + total s unwanted (\<lambda>_. 1)"
    unfolding total_def n sum.distrib [symmetric] by (auto simp: h intro!: sum.cong sum.neutral)
  have c: "counts_ok s" using P(2) by (simp add: counters_inv_def)
  have "counts_ok ?t"
    using c z [of s] z [OF n] unfolding counts_ok_def tt pp by (simp add: we_have_all_def)
  moreover have "cursors_ok ?t"
    by (rule cursors_okI [OF n, of "\<lambda>_. True"]) (use h in \<open>auto simp: we_have_all_def first_open_def last_open_def skip_pos_def\<close>)
  ultimately show "picker_inv ?t" "dl_map ?t = (\<lambda>_. None)"
    using q we_have_all_inv [OF P(6)] by (auto simp: picker_inv_def picker_ok_def counters_inv_def had_open_def)
qed

section \<open>Construction and pads\<close>

lemma resize_picker_full:
  assumes w: "prio_wf s" and c: "counts_ok s" and r: "resize_picker bpp bil n s = Some s'"
    and b: "0 < bpp" "bil \<le> bpp" and n: "num_pieces s \<le> n" "\<And>i. num_pieces s \<le> i \<Longrightarrow> i < n \<Longrightarrow> pad_blocks_in_piece s i = 0"
  shows "picker_inv s'" "dl_map s' = (\<lambda>_. None)" "num_pieces s' = n"
proof -
  define pm where "pm = map (\<lambda>p. p\<lparr>peer_count := 0, download_state := piece_open, pp_index := 0\<rparr>)
      (resize_list n new_piece_pos (m_piece_map s))"
  have e: "m_piece_map s' = pm" "m_cursor s' = skip_forward pm 0" "m_reverse_cursor s' = skip_backward pm (length pm)"
    "m_downloads s' q = []" "m_block_info s' = []" "m_free_block_infos s' = []" "m_pads_in_piece s' = m_pads_in_piece s"
    "m_num_filtered s' = m_num_filtered s + m_num_have_filtered s" "m_num_have_filtered s' = 0" "m_num_have s' = 0"
    "m_have_pad_blocks s' = 0" "m_filtered_pad_blocks s' = m_filtered_pad_blocks s + m_have_filtered_pad_blocks s"
    "m_have_filtered_pad_blocks s' = 0" "m_num_pad_blocks s' = m_num_pad_blocks s" "m_blocks_per_piece s' = bpp"
    "m_blocks_in_last_piece s' = (if bil = 0 then bpp else bil)" for q
    using r by (auto simp: resize_picker_def Let_def pm_def split: if_splits)
  have len: "length pm = n" using n(1) by (simp add: pm_def resize_list_def num_pieces_def)
  then show n': "num_pieces s' = n" using e(1) by (simp add: num_pieces_def)
  have old: "filtered (pm ! i) = filtered (pos_of s i)" if "i < num_pieces s" for i
    using that n(1) by (simp add: pm_def resize_list_def num_pieces_def nth_append filtered_def)
  have new: "\<not> filtered (pm ! i)" if "num_pieces s \<le> i" "i < n" for i
    using that n(1) by (simp add: pm_def resize_list_def num_pieces_def nth_append filtered_def new_piece_pos_def
        default_priority_def filter_priority_def)
  have op: "\<not> have_pos (pm ! i)" "download_state (pm ! i) = piece_open" if "i < n" for i
    using that len by (simp_all add: pm_def have_pos_def we_have_index_def)
  have q: "queue_inv s'" "dl_map s' = (\<lambda>_. None)"
    by (rule empty_queues; use e op n' b in simp)+
  show "dl_map s' = (\<lambda>_. None)" by (rule q(2))
  have pp: "pad_blocks_in_piece s' = pad_blocks_in_piece s" using e(7) by (simp add: pad_blocks_in_piece_def fun_eq_iff)
  have ext: "sum f {..<n} = sum f {..<num_pieces s}" if "\<And>i. num_pieces s \<le> i \<Longrightarrow> i < n \<Longrightarrow> f i = 0" for f :: "nat \<Rightarrow> int"
    by (rule sum.mono_neutral_right) (use that n(1) in auto)
  have none: "total s' have_pos v = 0" "total s' unwanted v = 0" for v
    unfolding total_def n' e(1) using op by (auto intro: sum.neutral)
  have filt: "total s' missing v = total s missing v + total s unwanted v" for v
  proof -
    have "total s' missing v = (\<Sum>i < num_pieces s. if filtered (pos_of s' i) \<and> \<not> have_pos (pos_of s' i) then v i else 0)"
      unfolding total_def n' by (rule ext) (use new e(1) in simp)
    also have "\<dots> = total s missing v + total s unwanted v"
      unfolding total_def sum.distrib [symmetric] by (rule sum.cong) (use old op e(1) n(1) in auto)
    finally show ?thesis .
  qed
  have all: "total s' (\<lambda>_. True) (pad_blocks_in_piece s) = total s (\<lambda>_. True) (pad_blocks_in_piece s)"
    unfolding total_def n' by (simp add: ext n(2))
  have "counts_ok s'" using c unfolding counts_ok_def pp none filt all e by simp
  moreover have "cursors_ok s'"
  proof -
    have l: "length (m_piece_map s') = n" using e(1) len by simp
    show ?thesis unfolding cursors_ok_def n' e(2,3)
      using skip_forward_spec [of 0 pm] skip_backward_spec [of pm n] len e(1) by (simp add: first_open_def last_open_def)
  qed
  moreover have "pieces_inv s'" by (rule resize_picker_inv [OF w r])
  ultimately show "picker_inv s'"
    using q by (simp add: picker_inv_def picker_ok_def counters_inv_def had_open_def)
qed

lemma new_picker_full:
  assumes "new_picker bpp bil n rs = Some s" "0 < bpp" "bil \<le> bpp"
  shows "picker_inv s" "num_pieces s = n"
proof -
  have e: "num_pieces (empty_picker rs) = 0" "prio_wf (empty_picker rs)" "counts_ok (empty_picker rs)" "pad_blocks_in_piece (empty_picker rs) i = 0" for i
    by (simp_all add: empty_picker_def num_pieces_def prio_wf_def counts_ok_def total_def pad_blocks_in_piece_def)
  show "picker_inv s" "num_pieces s = n"
    using resize_picker_full [OF e(2,3) _ assms(2,3)] assms(1) e by (auto simp: new_picker_def)
qed

lemma mark_as_pad_full:
  assumes I: "picker_inv s" and x: "x < num_pieces s" and h: "\<not> have_pos (pos_of s x)" and d: "dl_map s x = None"
  shows "picker_inv (mark_as_pad x j s)" "dl_map (mark_as_pad x j s) = dl_map s" "num_pieces (mark_as_pad x j s) = num_pieces s"
    "i < num_pieces s \<Longrightarrow> have_pos (pos_of (mark_as_pad x j s) i) \<longleftrightarrow>
       have_pos (pos_of s i) \<or> i = x \<and> pad_blocks_in_piece s x + 1 = int (blocks_in_piece s x)"
    "i < num_pieces s \<Longrightarrow> piece_priority (pos_of (mark_as_pad x j s) i) = piece_priority (pos_of s i)"
proof -
  note P = picker_inv_parts [OF I]
  define s1 where "s1 = (if size_bf (m_pad_blocks s) = 0
    then s\<lparr>m_pad_blocks := resize (length (m_piece_map s) * m_blocks_per_piece s) (m_pad_blocks s)\<rparr> else s)"
  define s2 where "s2 = s1\<lparr>m_pad_blocks := set_bit (x * m_blocks_per_piece s1 + j) (m_pad_blocks s1),
                  m_num_pad_blocks := m_num_pad_blocks s1 + 1,
                  m_pads_in_piece := (m_pads_in_piece s1)(x \<mapsto>
                    (case m_pads_in_piece s1 x of None \<Rightarrow> 1 | Some n \<Rightarrow> n + 1))\<rparr>"
  define s3 where "s3 = (if filtered (pos_of s2 x) then s2\<lparr>m_filtered_pad_blocks := m_filtered_pad_blocks s2 + 1\<rparr> else s2)"
  have R: "mark_as_pad x j s = (if pad_blocks_in_piece s3 x = int (blocks_in_piece s3 x) then we_have x s3 else s3)"
    unfolding s3_def s2_def s1_def mark_as_pad_def Let_def by (rule refl)
  have v: "qview s3 = qview s" by (simp add: s3_def s2_def s1_def)
  have cr: "core s3 = core s" by (simp add: s3_def s2_def s1_def)
  have m: "m_piece_map s3 = m_piece_map s" "num_pieces s3 = num_pieces s" using cr num_pieces_core [OF cr] by (simp_all add: core_def)
  have ok: "picker_ok s3" "dl_map s3 = dl_map s" using qview_ok [OF v P(5)] pieces_inv_core [OF cr] P(4) by auto
  have p1: "pad_blocks_in_piece s3 = (pad_blocks_in_piece s)(x := pad_blocks_in_piece s x + 1)"
    by (auto simp: s3_def s2_def s1_def pad_blocks_in_piece_def fun_eq_iff split: option.splits)
  have T: "total s3 Q w = total s Q w" for Q w by (rule total_cong) (use m in simp_all)
  have U: "total s Q (pad_blocks_in_piece s3) = total s Q (pad_blocks_in_piece s) + (if Q (pos_of s x) then 1 else 0)" for Q
  proof -
    have "total s Q (pad_blocks_in_piece s3) = total s Q (pad_blocks_in_piece s) +
        (if Q (pos_of s x) then pad_blocks_in_piece s3 x else 0) - (if Q (pos_of s x) then pad_blocks_in_piece s x else 0)"
      unfolding total_def by (rule sum_change [OF x]) (simp add: p1)
    then show ?thesis by (simp add: p1)
  qed
  have f: "m_num_have s3 = m_num_have s" "m_num_filtered s3 = m_num_filtered s" "m_num_have_filtered s3 = m_num_have_filtered s"
    "m_num_pad_blocks s3 = m_num_pad_blocks s + 1" "m_have_pad_blocks s3 = m_have_pad_blocks s"
    "m_filtered_pad_blocks s3 = m_filtered_pad_blocks s + (if filtered (pos_of s x) then 1 else 0)"
    "m_have_filtered_pad_blocks s3 = m_have_filtered_pad_blocks s" "m_cursor s3 = m_cursor s" "m_reverse_cursor s3 = m_reverse_cursor s"
    by (simp_all add: s3_def s2_def s1_def)
  have "counts_ok s" "cursors_ok s" using P(2) by (simp_all add: counters_inv_def)
  then have "counters_inv s3"
    unfolding counters_inv_def counts_ok_def T U f cursors_ok_def m using h by auto
  moreover have "had_open s3" using P(3) ok(2) m by (simp add: had_open_def)
  ultimately have I3: "picker_inv s3" using ok by (simp add: picker_inv_def)
  show "picker_inv (mark_as_pad x j s)" "dl_map (mark_as_pad x j s) = dl_map s"
    using R I3 we_have_full [OF I3, of x] x m(2) ok(2) d by (auto simp: fun_upd_idem)
  note hv = we_have_have [OF ok(1), of x]
  have b3: "blocks_in_piece s3 x = blocks_in_piece s x" using m(2) by (simp add: blocks_in_piece_def s3_def s2_def s1_def)
  show "num_pieces (mark_as_pad x j s) = num_pieces s" using R hv x m(2) by simp
  show "piece_priority (pos_of (mark_as_pad x j s) i) = piece_priority (pos_of s i)" if "i < num_pieces s"
    using R hv x m that by simp
  show "have_pos (pos_of (mark_as_pad x j s) i) \<longleftrightarrow> have_pos (pos_of s i) \<or> i = x \<and> pad_blocks_in_piece s x + 1 = int (blocks_in_piece s x)"
    if "i < num_pieces s"
    using R hv x m that p1 b3 by auto
qed

lemma clear_peer_full:
  assumes I: "picker_inv s"
  shows "picker_inv (clear_peer peer s)"
    "dl_map (clear_peer peer s) x = map_option (\<lambda>(bs, fl). (map (\<lambda>b. if bi_peer b = peer then b\<lparr>bi_peer := None\<rparr> else b) bs, fl)) (dl_map s x)"
proof -
  note P = picker_inv_parts [OF I]
  let ?f = "\<lambda>b. if bi_peer b = peer then b\<lparr>bi_peer := None\<rparr> else b" and ?t = "clear_peer peer s"
  have e: "m_piece_map ?t = m_piece_map s" "m_downloads ?t = m_downloads s" "num_pieces ?t = num_pieces s" "dps ?t = dps s"
    "blocks_in_piece ?t i = blocks_in_piece s i" "block_slot ?t dp j = block_slot s dp j" "m_block_info ?t = map ?f (m_block_info s)"
    "slot_ok ?t dp = slot_ok s dp" "pool_ok ?t = pool_ok s" "core ?t = core s" "cview ?t = cview s" for i dp j
    by (simp_all add: clear_peer_def num_pieces_def dps_def blocks_in_piece_def block_slot_def slot_ok_def pool_ok_def core_def cview_def)
  have b: "blocks_for_piece ?t dp = map ?f (blocks_for_piece s dp)" if "dp \<in> dps s" for dp
  proof -
    have "block_slot s dp j < length (m_block_info s)" if "j < blocks_in_piece s (dp_index dp)" for j
      by (rule block_slot_less [OF queuesD(6) [OF P(7)] queuesD(4) [OF P(7) \<open>dp \<in> dps s\<close>] that])
    then show ?thesis by (simp add: list_eq_iff_nth_eq e)
  qed
  have st: "bi_state (?f b) = bi_state b" for b by simp
  have c: "counts ?t dp = counts s dp" if "dp \<in> dps s" for dp
    unfolding counts_def b [OF that] by (simp only: map_map comp_def st)
  have nd: "new_dl_state ?t dp = new_dl_state s dp" for dp by (rule new_dl_state_cong) (simp_all add: e)
  have Q: "queues {} ?t" using P(7) unfolding queues_def e .
  have qi: "queue_inv ?t" using P(5) Q c by (simp add: queue_inv_def entry_ok_def e nd)
  show d: "dl_map ?t x = map_option (\<lambda>(bs, fl). (map ?f bs, fl)) (dl_map s x)" for x
  proof (cases "\<exists>dp \<in> dps s. dp_index dp = x")
    case True
    then obtain dp where "dp \<in> dps s" "dp_index dp = x" by blast
    then show ?thesis using dl_map_Some [OF P(7), of dp x] dl_map_Some [OF Q, of dp x] b by (simp add: e dl_view_def)
  next
    case False
    then show ?thesis using dl_map_None [OF P(7), of x] dl_map_None [OF Q, of x] by (simp add: e)
  qed
  have "had_open ?t" using P(3) d by (simp add: had_open_def e)
  then show "picker_inv ?t"
    using qi pieces_inv_core [OF e(10)] P(4) counters_cview [OF e(11)] P(2) by (simp add: picker_inv_def picker_ok_def)
qed

lemma update_pieces_view: "prio_wf s \<Longrightarrow> same_view s (update_pieces s)"
proof -
  assume w: "prio_wf s"
  have "same_view s (s\<lparr>m_dirty := False\<rparr>)" by simp
  also have "same_view \<dots> (update_pieces s)" by (rule reordered_same_view [OF update_pieces_rebuilds(1) [OF w]])
  finally show ?thesis .
qed

lemma update_pieces_full:
  assumes "picker_inv s"
  shows "picker_inv (update_pieces s)" "dl_map (update_pieces s) = dl_map s" "\<not> m_dirty (update_pieces s)"
proof -
  note P = picker_inv_parts [OF assms]
  note v = update_pieces_view [OF P(6)]
  show "picker_inv (update_pieces s)" by (rule same_view_inv [OF v assms update_pieces_inv [OF P(6)]])
  show "dl_map (update_pieces s) = dl_map s" using v qview_dl_map unfolding same_view_def by blast
  show "\<not> m_dirty (update_pieces s)" by (rule update_pieces_rebuilds(3) [OF P(6)])
qed

section \<open>Blocks\<close>

lemma at_piece_full:
  assumes I: "picker_inv s" and ok: "picker_ok s'" and c: "cview s' = cview s"
    and m: "\<And>y. y \<noteq> x \<Longrightarrow> dl_map s' y = dl_map s y" and h: "dl_map s' x = None \<or> \<not> have_pos (pos_of s x)"
  shows "picker_inv s'"
proof -
  have "had_open s'" by (rule had_openI [OF c _ _ h]) (use I m in \<open>auto simp: picker_inv_def\<close>)
  then show ?thesis using ok counters_cview [OF c] I by (simp add: picker_inv_def)
qed

lemma at_piece_have_full:
  assumes I: "picker_inv s" and x: "x < num_pieces s" and ok: "picker_ok s'" and h: "\<not> have_pos (pos_of s x)"
    and m: "\<And>y. y \<noteq> x \<Longrightarrow> dl_map s' y = dl_map s y"
    and t: "\<exists>t. picker_ok t \<and> cview t = cview s \<and> (s' = t \<and> (dl_map s x \<noteq> None \<longrightarrow> dl_map t x \<noteq> None) \<or> dl_map s x \<noteq> None \<and> s' = we_have x t)"
  shows "picker_inv s'" "num_pieces s' = num_pieces s"
    "i < num_pieces s \<Longrightarrow> have_pos (pos_of s' i) \<longleftrightarrow> have_pos (pos_of s i) \<or> i = x \<and> dl_map s x \<noteq> None \<and> dl_map s' x = None"
    "i < num_pieces s \<Longrightarrow> piece_priority (pos_of s' i) = piece_priority (pos_of s i)"
proof -
  obtain t where t: "picker_ok t" "cview t = cview s"
    and w: "s' = t \<and> (dl_map s x \<noteq> None \<longrightarrow> dl_map t x \<noteq> None) \<or> dl_map s x \<noteq> None \<and> s' = we_have x t" using t by blast
  note r = cview_reads [OF t(2)]
  have x': "x < num_pieces t" using r(1) x by simp
  note hv = we_have_have [OF t(1) x']
  have n: "dl_map s' x = None" if "s' = we_have x t" using we_have_refines(2) [OF t(1) x'] r(12) h x that by simp
  show "picker_inv s'"
  proof (cases "s' = t")
    case True
    then show ?thesis using at_piece_full [OF I ok _ m, of x] t(2) h by blast
  next
    case False
    then have w: "s' = we_have x t" using w by blast
    have "counters_inv s'" unfolding w using we_have_counters [OF t(1) _ x'] counters_cview [OF t(2)] I by (simp add: picker_inv_def)
    moreover have "had_open s'"
      unfolding had_open_def using hv r(1,12) w n m picker_inv_parts(3) [OF I] by (metis had_open_def)
    ultimately show ?thesis using ok by (simp add: picker_inv_def)
  qed
  show "num_pieces s' = num_pieces s" using w hv(1) r(1) by auto
  show "i < num_pieces s \<Longrightarrow> piece_priority (pos_of s' i) = piece_priority (pos_of s i)" using w hv(3) r(1,14) by auto
  show "i < num_pieces s \<Longrightarrow> have_pos (pos_of s' i) \<longleftrightarrow> have_pos (pos_of s i) \<or> i = x \<and> dl_map s x \<noteq> None \<and> dl_map s' x = None"
    using w n hv(2) r(1,12) x h by (metis)
qed

lemma settle_other: "y \<noteq> x \<Longrightarrow> settle x e m y = m y"
  by (simp add: settle_def)

lemma block_op_full:
  assumes I: "picker_inv s" and x: "x < num_pieces s" and j: "j < blocks_in_piece s x"
  shows "picker_inv (mark_as_canceled x j peer s)" "picker_inv (abort_download x j peer s)" "picker_inv (lock_piece x s)"
    "picker_inv (restore_piece x s)"
    "(\<And>e. dl_map s x = Some e \<Longrightarrow> state_at e j = state_writing) \<Longrightarrow> picker_inv (write_failed x j s)"
proof -
  note P = picker_inv_parts(1) [OF I]
  have h: "have_pos (pos_of s x) \<Longrightarrow> dl_map s x = None" using picker_inv_parts(3) [OF I] x by (simp add: had_open_def)
  note c = mark_as_canceled_refines [OF P x j, of peer]
  show "picker_inv (mark_as_canceled x j peer s)"
    by (rule at_piece_full [OF I c(1,3), of x]) (use h in \<open>auto simp: c(2) spec_canceled_def settle_other split: option.splits\<close>)
  note a = abort_download_refines [OF P x j, of peer]
  show "picker_inv (abort_download x j peer s)"
    by (rule at_piece_full [OF I a(1,3), of x]) (use h in \<open>auto simp: a(2) spec_abort_def settle_other split: option.splits\<close>)
  note l = lock_piece_refines [OF P x]
  show "picker_inv (lock_piece x s)"
    by (rule at_piece_full [OF I l(1,3), of x]) (use h in \<open>auto simp: l(2) spec_lock_def split: option.splits\<close>)
  note r = restore_piece_refines [OF P x]
  show "picker_inv (restore_piece x s)"
    by (rule at_piece_full [OF I r(1,3), of x]) (simp_all add: r(2))
  show "picker_inv (write_failed x j s)" if w: "\<And>e. dl_map s x = Some e \<Longrightarrow> state_at e j = state_writing"
  proof -
    note f = write_failed_refines [OF P x j w]
    show ?thesis
      by (rule at_piece_full [OF I f(1,3), of x]) (use h in \<open>auto simp: f(2) spec_write_failed_def settle_other split: option.splits\<close>)
  qed
qed

lemma block_start_full:
  assumes I: "picker_inv s" and x: "x < num_pieces s" and j: "j < blocks_in_piece s x" and h: "\<not> have_pos (pos_of s x)"
  shows "picker_inv (snd (mark_as_downloading x j peer rv aff s))" "picker_inv (snd (mark_as_writing x j peer s))"
    "picker_inv (piece_passed x s)"
    "(\<And>e. dl_map s x = Some e \<Longrightarrow> state_at e j \<noteq> state_requested) \<Longrightarrow> picker_inv (mark_as_finished x j peer s)"
proof -
  note P = picker_inv_parts(1) [OF I]
  obtain rd sd where d: "mark_as_downloading x j peer rv aff s = (rd, sd)" by fastforce
  note D = mark_as_downloading_refines [OF P x j d]
  have "dl_map sd y = dl_map s y" if "y \<noteq> x" for y using D(2) that by (auto simp: spec_downloading_def Let_def split: if_splits)
  then show "picker_inv (snd (mark_as_downloading x j peer rv aff s))" using at_piece_full [OF I D(1,3), of x] h d by simp
  obtain rw sw where w: "mark_as_writing x j peer s = (rw, sw)" by fastforce
  note W = mark_as_writing_refines [OF P x j h w]
  have "dl_map sw y = dl_map s y" if "y \<noteq> x" for y using W(2) that by (auto simp: spec_writing_def Let_def split: if_splits)
  then show "picker_inv (snd (mark_as_writing x j peer s))" using at_piece_full [OF I W(1,3), of x] h w by simp
  note p = piece_passed_refines [OF P x h]
  show "picker_inv (piece_passed x s)"
    by (rule at_piece_have_full [OF I x p(1) h _ p(3)]) (auto simp: p(2) spec_passed_def split: option.splits)
  show "picker_inv (mark_as_finished x j peer s)" if f: "\<And>e. dl_map s x = Some e \<Longrightarrow> state_at e j \<noteq> state_requested"
  proof -
    note F = mark_as_finished_refines [OF P x j h f]
    show ?thesis by (rule at_piece_have_full [OF I x F(1) h _ F(3)]) (auto simp: F(2) spec_finished_def Let_def)
  qed
qed

end
