(* ===== verification/Picker_Machine.thy ===== *)
theory Picker_Machine
  imports Picker_Steps
begin

text \<open>
  The picker against its abstract specification. The abstract state is what the rest of the program
  sees of the picker: the pieces we have, the priority of every piece, the pieces in download with the
  state of their blocks, and the blocks a fresh download starts with. Every operation of the class
  refines an operation on this state, and so does every sequence of them.
\<close>

section \<open>Sequences of operations\<close>

text \<open>The contract of a component with an abstract specification, and what follows for sequences of calls.\<close>

fun legal :: "('op \<Rightarrow> 's \<Rightarrow> bool) \<Rightarrow> ('op \<Rightarrow> 's \<Rightarrow> 's) \<Rightarrow> 'op list \<Rightarrow> 's \<Rightarrow> bool" where
  "legal allowed step [] s = True"
| "legal allowed step (op # ops) s = (allowed op s \<and> legal allowed step ops (step op s))"

locale refined_machine =
  fixes inv :: "'s \<Rightarrow> bool" and abs :: "'s \<Rightarrow> 'a" and step :: "'op \<Rightarrow> 's \<Rightarrow> 's" and allowed :: "'op \<Rightarrow> 's \<Rightarrow> bool"
    and astep :: "'op \<Rightarrow> 'a \<Rightarrow> 'a"
  assumes step_inv: "inv s \<Longrightarrow> allowed op s \<Longrightarrow> inv (step op s)"
    and step_abs: "inv s \<Longrightarrow> allowed op s \<Longrightarrow> abs (step op s) = astep op (abs s)"
begin

lemma run_refines:
  assumes "inv s" "legal allowed step ops s"
  shows "inv (fold step ops s) \<and> abs (fold step ops s) = fold astep ops (abs s)"
  using assms
proof (induction ops arbitrary: s)
  case (Cons op ops)
  then show ?case using step_inv [of s op] step_abs [of s op] by simp
qed simp

lemma run_append:
  "legal allowed step (xs @ ys) s \<longleftrightarrow> legal allowed step xs s \<and> legal allowed step ys (fold step xs s)"
  by (induction xs arbitrary: s) auto

end

section \<open>The geometry of a torrent\<close>

text \<open>The number of blocks per piece and the pad blocks: only \<^verbatim>\<open>mark_as_pad\<close> and \<^verbatim>\<open>resize\<close> change them.\<close>

definition geo :: "piece_picker \<Rightarrow> nat \<times> nat \<times> bitfield \<times> (nat \<Rightarrow> nat option)" where
  "geo s = (m_blocks_per_piece s, m_blocks_in_last_piece s, m_pad_blocks s, m_pads_in_piece s)"

lemma geo_update [simp]:
  "geo (s\<lparr>m_piece_map := x1\<rparr>) = geo s" "geo (s\<lparr>m_recent_extents := x2\<rparr>) = geo s" "geo (s\<lparr>m_num_pad_blocks := x3\<rparr>) = geo s"
  "geo (s\<lparr>m_have_pad_blocks := x4\<rparr>) = geo s" "geo (s\<lparr>m_filtered_pad_blocks := x5\<rparr>) = geo s"
  "geo (s\<lparr>m_have_filtered_pad_blocks := x6\<rparr>) = geo s" "geo (s\<lparr>m_seeds := x7\<rparr>) = geo s" "geo (s\<lparr>m_num_passed := x8\<rparr>) = geo s"
  "geo (s\<lparr>m_pieces := x9\<rparr>) = geo s" "geo (s\<lparr>m_priority_boundaries := y1\<rparr>) = geo s" "geo (s\<lparr>m_downloads := y2\<rparr>) = geo s"
  "geo (s\<lparr>m_block_info := y3\<rparr>) = geo s" "geo (s\<lparr>m_free_block_infos := y4\<rparr>) = geo s" "geo (s\<lparr>m_num_filtered := y5\<rparr>) = geo s"
  "geo (s\<lparr>m_num_have_filtered := y6\<rparr>) = geo s" "geo (s\<lparr>m_cursor := y7\<rparr>) = geo s" "geo (s\<lparr>m_reverse_cursor := y8\<rparr>) = geo s"
  "geo (s\<lparr>m_num_have := y9\<rparr>) = geo s" "geo (s\<lparr>m_dirty := z1\<rparr>) = geo s" "geo (s\<lparr>rng := z2\<rparr>) = geo s"
  by (simp_all add: geo_def)

lemma geo_helpers [simp]:
  "geo (set_pos i f s) = geo s" "geo (set_queue q xs s) = geo s" "geo (set_dp it g s) = geo s" "geo (set_block k h s) = geo s"
  "geo (snd (random n s)) = geo s" "geo (snd (random_slot a b s)) = geo s" "geo (shrink_cursors i s) = geo s" "geo (grow_cursors i s) = geo s"
  "geo (record_downloading_piece i s) = geo s" "geo (erase_download_piece it s) = geo s"
  by (simp_all add: set_pos_def set_queue_def set_dp_def set_block_def random_def random_slot_def shrink_cursors_def grow_cursors_def
      record_downloading_piece_def erase_download_piece_def Let_def split: list.split prod.split)

lemma geo_random: "random n s = (r, s') \<Longrightarrow> geo s' = geo s"
  using geo_helpers(5) [of n s] by simp

lemma geo_list [simp]: "geo (add i s) = geo s" "geo (remove p i s) = geo s" "geo (shuffle p i s) = geo s"
proof -
  show "geo (remove p i s) = geo s" by (simp add: remove_def split: prod.split)
  show "geo (shuffle p i s) = geo s" by (auto simp: shuffle_def Let_def split: prod.split dest: geo_random)
  have "random_slot a b s = (r, s') \<Longrightarrow> geo s' = geo s" for a b r s' using geo_helpers(6) [of a b s] by simp
  then show "geo (add i s) = geo s" by (auto simp: add_def Let_def split: prod.split)
qed

lemma geo_follow [simp]: "geo (update p i s) = geo s" "geo (reposition v x s) = geo s" "geo (refresh v x s) = geo s" "geo (follow v x s) = geo s"
proof -
  show u: "geo (update p i s) = geo s" for p i by (simp add: update_def Let_def split: prod.split)
  show "geo (reposition v x s) = geo s" "geo (refresh v x s) = geo s" "geo (follow v x s) = geo s"
    by (simp_all add: reposition_def refresh_def follow_def u)
qed

lemma geo_entry [simp]: "geo (snd (update_piece_state it s)) = geo s" "geo (snd (alloc_blocks s)) = geo s" "geo (snd (add_download_piece x s)) = geo s"
proof -
  show u: "geo (snd (update_piece_state it s)) = geo s" for it s by (simp add: update_piece_state_def Let_def)
  show a: "geo (snd (alloc_blocks s)) = geo s" by (simp add: alloc_blocks_def)
  have "alloc_blocks s = (k, s') \<Longrightarrow> geo s' = geo s" for k s' using a by simp
  then show "geo (snd (add_download_piece x s)) = geo s" by (simp add: add_download_piece_def Let_def u split: prod.split)
qed

lemma geo_pair: "update_piece_state it s = (it', s') \<Longrightarrow> geo s' = geo s" "add_download_piece x s = (it', s') \<Longrightarrow> geo s' = geo s"
  using geo_entry(1) [of it s] geo_entry(3) [of x s] by simp_all

lemma geo_fold: "(\<And>i s. geo (f i s) = geo s) \<Longrightarrow> geo (fold f is s) = geo s"
  by (induction "is" arbitrary: s) simp_all

lemma geo_shuffle: "geo (snd (random_shuffle a k n ps s)) = geo s" "geo (snd (shuffle_buckets a bs ps s)) = geo s"
proof -
  show r: "geo (snd (random_shuffle a k n ps s)) = geo s" for a k n ps s
    by (induction a k n ps s rule: random_shuffle.induct) (auto simp: Let_def split: prod.split dest: geo_random)
  have "random_shuffle a k n ps s = (ps', s') \<Longrightarrow> geo s' = geo s" for a k n ps s ps' s' using r [of a k n ps s] by simp
  then show "geo (snd (shuffle_buckets a bs ps s)) = geo s"
    by (induction a bs ps s rule: shuffle_buckets.induct) (auto simp: split: prod.split)
qed

lemma geo_refcount [simp]:
  "geo (inc_refcount x s) = geo s" "geo (dec_refcount x s) = geo s" "geo (inc_refcount_all s) = geo s" "geo (dec_refcount_all s) = geo s"
  "geo (inc_refcount_mask bm s) = geo s" "geo (dec_refcount_mask bm s) = geo s" "geo (update_pieces s) = geo s"
proof -
  show a: "geo (inc_refcount_all s) = geo s" "geo (dec_refcount_all s) = geo s"
    by (simp_all add: inc_refcount_all_def dec_refcount_all_def Let_def)
  have b: "geo (break_one_seed s) = geo s" for s by (simp add: break_one_seed_def)
  show "geo (inc_refcount x s) = geo s" "geo (dec_refcount x s) = geo s" by (simp_all add: inc_refcount_def dec_refcount_def Let_def b)
  have d: "geo (dec_peer_count i s) = geo s" for i s by (simp add: dec_peer_count_def Let_def b)
  have o1: "geo (inc_refcount_one i s) = geo s" "geo (dec_refcount_one i s) = geo s" for i s
    by (simp_all add: inc_refcount_one_def dec_refcount_one_def Let_def d)
  show "geo (inc_refcount_mask bm s) = geo s" "geo (dec_refcount_mask bm s) = geo s"
    by (simp_all add: inc_refcount_mask_def dec_refcount_mask_def Let_def a geo_fold o1 d)
  have "shuffle_buckets a bs ps s = (ps', s') \<Longrightarrow> geo s' = geo s" for a bs ps ps' s' using geo_shuffle(2) [of a bs ps s] by simp
  then show "geo (update_pieces s) = geo s" by (simp add: update_pieces_def Let_def split: prod.split)
qed

lemma geo_pieces [simp]:
  "geo (we_have x s) = geo s" "geo (we_dont_have x s) = geo s" "geo (we_have_all s) = geo s" "geo (piece_passed x s) = geo s"
  "geo (snd (set_piece_priority x np s)) = geo s" "geo (restore_piece x s) = geo s" "geo (lock_piece x s) = geo s" "geo (clear_peer peer s) = geo s"
proof -
  show h: "geo (we_have x s) = geo s" for s by (simp add: we_have_def Let_def split: option.split)
  show "geo (piece_passed x s) = geo s" by (simp add: piece_passed_def Let_def h split: option.split)
  show "geo (we_dont_have x s) = geo s" by (simp add: we_dont_have_def Let_def split: option.split)
  show "geo (we_have_all s) = geo s" by (simp add: we_have_all_def)
  have f: "geo (snd (filter_change x np s)) = geo s" by (simp add: filter_change_def Let_def)
  then have "filter_change x np s = (r, s') \<Longrightarrow> geo s' = geo s" for r s' by simp
  then show "geo (snd (set_piece_priority x np s)) = geo s" by (simp add: set_piece_priority_def Let_def split: option.split prod.split)
  show "geo (restore_piece x s) = geo s" "geo (lock_piece x s) = geo s" "geo (clear_peer peer s) = geo s"
    by (simp_all add: restore_piece_def lock_piece_def clear_peer_def Let_def split: option.split)
qed

text \<open>Rules that walk through the body of an operation without unfolding its local definitions.\<close>

lemma geo_let_state: "(\<And>y. geo y = geo x \<Longrightarrow> geo (f y) = g) \<Longrightarrow> geo (Let x f) = g"
  and geo_let_state_snd: "(\<And>y. geo y = geo x \<Longrightarrow> geo (snd (h y)) = g) \<Longrightarrow> geo (snd (Let x h)) = g"
  by simp_all

lemma geo_let_other: "(\<And>y. geo (f y) = g) \<Longrightarrow> geo (Let x f) = g"
  and geo_let_other_snd: "(\<And>y. geo (snd (h y)) = g) \<Longrightarrow> geo (snd (Let x h)) = g"
  by simp_all

lemma geo_let_pair: "(\<And>y t. geo t = geo (snd r) \<Longrightarrow> geo (f y t) = g) \<Longrightarrow> geo (let (y, t) = r in f y t) = g"
  and geo_let_pair_snd: "(\<And>y t. geo t = geo (snd r) \<Longrightarrow> geo (snd (h y t)) = g) \<Longrightarrow> geo (snd (let (y, t) = r in h y t)) = g"
  by (cases r; simp)+

lemma geo_if: "geo a = g \<Longrightarrow> geo b = g \<Longrightarrow> geo (if c then a else b) = g"
  and geo_if_snd: "geo (snd p) = g \<Longrightarrow> geo (snd q) = g \<Longrightarrow> geo (snd (if c then p else q)) = g"
  by simp_all

lemma geo_option: "geo a = g \<Longrightarrow> (\<And>i. geo (f i) = g) \<Longrightarrow> geo (case m of None \<Rightarrow> a | Some i \<Rightarrow> f i) = g"
  and geo_option_snd: "geo (snd p) = g \<Longrightarrow> (\<And>i. geo (snd (h i)) = g) \<Longrightarrow> geo (snd (case m of None \<Rightarrow> p | Some i \<Rightarrow> h i)) = g"
  by (simp_all split: option.split)

lemmas geo_walk = geo_if geo_if_snd geo_option geo_option_snd geo_let_pair geo_let_pair_snd geo_let_state geo_let_state_snd
  geo_let_other geo_let_other_snd

lemma geo_blocks [simp]:
  "geo (snd (mark_as_downloading x j peer rv aff s)) = geo s" "geo (snd (mark_as_writing x j peer s)) = geo s"
  "geo (mark_as_finished x j peer s) = geo s" "geo (mark_as_canceled x j peer s) = geo s" "geo (abort_download x j peer s) = geo s"
  "geo (write_failed x j s) = geo s"
proof -
  have d: "geo (drop_if_idle x r) = geo (snd r)" for r by (simp add: drop_if_idle_def Let_def split: prod.split)
  show "geo (snd (mark_as_downloading x j peer rv aff s)) = geo s"
    unfolding mark_as_downloading_def by (intro geo_walk) simp_all
  show "geo (snd (mark_as_writing x j peer s)) = geo s"
    unfolding mark_as_writing_def by (intro geo_walk) simp_all
  show "geo (mark_as_finished x j peer s) = geo s"
    unfolding mark_as_finished_def by (intro geo_walk) simp_all
  show "geo (mark_as_canceled x j peer s) = geo s" "geo (abort_download x j peer s) = geo s" "geo (write_failed x j s) = geo s"
    unfolding mark_as_canceled_def abort_download_def write_failed_def by (intro geo_walk; simp add: d)+
qed

section \<open>Pad blocks\<close>

definition pads_ok :: "piece_picker \<Rightarrow> bool" where
  "pads_ok s \<longleftrightarrow> bitfield_inv (m_pad_blocks s) \<and> num_pieces s * m_blocks_per_piece s < 2 ^ 31 \<and>
     (size_bf (m_pad_blocks s) = 0 \<or> size_bf (m_pad_blocks s) = num_pieces s * m_blocks_per_piece s) \<and>
     (\<forall>x < num_pieces s. pad_blocks_in_piece s x = int (length (filter (is_pad s x) [0..<blocks_in_piece s x])))"

lemma geo_reads:
  assumes "geo s' = geo s"
  shows "is_pad s' = is_pad s" "m_blocks_per_piece s' = m_blocks_per_piece s" "pad_blocks_in_piece s' = pad_blocks_in_piece s"
    "num_pieces s' = num_pieces s \<Longrightarrow> blocks_in_piece s' = blocks_in_piece s"
    "num_pieces s' = num_pieces s \<Longrightarrow> fresh s' = fresh s" "num_pieces s' = num_pieces s \<Longrightarrow> pads_ok s' = pads_ok s"
proof -
  show 1: "is_pad s' = is_pad s" "m_blocks_per_piece s' = m_blocks_per_piece s" "pad_blocks_in_piece s' = pad_blocks_in_piece s"
    using assms by (auto simp: geo_def is_pad_def pad_blocks_in_piece_def fun_eq_iff)
  assume "num_pieces s' = num_pieces s"
  moreover from this show b: "blocks_in_piece s' = blocks_in_piece s" using assms by (auto simp: geo_def blocks_in_piece_def fun_eq_iff)
  ultimately show "fresh s' = fresh s" "pads_ok s' = pads_ok s"
    using assms unfolding fresh_def pads_ok_def 1 b by (auto simp: geo_def)
qed

lemma slot_inj:
  assumes "k < b" "j < b" "x * b + j = y * b + (k :: nat)"
  shows "x = y \<and> j = k"
proof -
  have "(j + x * b) div b = (k + y * b) div b" using assms(3) by (simp add: add.commute)
  then have "x = y" using assms(1,2) by (simp add: div_mult_self1)
  then show ?thesis using assms(3) by simp
qed

lemma filter_insert_one:
  assumes "distinct xs" "j \<in> set xs" "\<not> P j"
  shows "length (filter (\<lambda>k. P k \<or> k = j) xs) = Suc (length (filter P xs))"
proof -
  have "length (filter (\<lambda>k. P k \<or> k = j) xs) = card {k \<in> set xs. P k \<or> k = j}"
    using assms(1) by (simp add: distinct_card [symmetric])
  also have "{k \<in> set xs. P k \<or> k = j} = insert j {k \<in> set xs. P k}" using assms(2) by auto
  also have "card \<dots> = Suc (card {k \<in> set xs. P k})" using assms(3) by simp
  finally show ?thesis using assms(1) by (simp add: distinct_card [symmetric])
qed

lemma mark_as_pad_bits:
  assumes P: "pads_ok s" and b: "m_blocks_in_last_piece s \<le> m_blocks_per_piece s"
    and x: "x < num_pieces s" and j: "j < blocks_in_piece s x"
  defines "bf \<equiv> (if size_bf (m_pad_blocks s) = 0 then resize (num_pieces s * m_blocks_per_piece s) (m_pad_blocks s) else m_pad_blocks s)"
  defines "i \<equiv> x * m_blocks_per_piece s + j"
  shows "bitfield_inv (Bitfield.set_bit i bf)" "size_bf (Bitfield.set_bit i bf) = num_pieces s * m_blocks_per_piece s"
    "y < num_pieces s \<Longrightarrow> k < blocks_in_piece s y \<Longrightarrow>
       get_bit (Bitfield.set_bit i bf) (y * m_blocks_per_piece s + k) \<longleftrightarrow> is_pad s y k \<or> y = x \<and> k = j"
proof -
  let ?bpp = "m_blocks_per_piece s" and ?n = "num_pieces s"
  have jb: "j < ?bpp" using j b by (simp add: blocks_in_piece_def split: if_splits)
  have less: "y * ?bpp + k < ?n * ?bpp" if "y < ?n" "k < ?bpp" for y k
  proof -
    have "y * ?bpp + k < y * ?bpp + ?bpp" using that by simp
    also have "\<dots> = (y + 1) * ?bpp" by simp
    also have "\<dots> \<le> ?n * ?bpp" using that by (intro mult_right_mono) simp_all
    finally show ?thesis .
  qed
  have bi: "bitfield_inv (m_pad_blocks s)" and lim: "?n * ?bpp < 2 ^ 31" using P by (simp_all add: pads_ok_def)
  note rs = resize_inv [OF bi lim]
  have I: "bitfield_inv bf" unfolding bf_def using bi rs(1) by simp
  have S: "size_bf bf = ?n * ?bpp" unfolding bf_def using P rs(2) by (auto simp: pads_ok_def)
  have G: "get_bit bf (y * ?bpp + k) \<longleftrightarrow> is_pad s y k" if "y < ?n" "k < ?bpp" for y k
    unfolding bf_def using rs(3) [OF less [OF that]] by (auto simp: is_pad_def get_bit_raw)
  have l: "i < size_bf bf" unfolding i_def S by (rule less [OF x jb])
  show inv: "bitfield_inv (Bitfield.set_bit i bf)" and sz: "size_bf (Bitfield.set_bit i bf) = ?n * ?bpp"
    using I l S set_bit_inv by simp_all
  show "get_bit (Bitfield.set_bit i bf) (y * ?bpp + k) \<longleftrightarrow> is_pad s y k \<or> y = x \<and> k = j" if "y < ?n" "k < blocks_in_piece s y"
  proof -
    have kb: "k < ?bpp" using that(2) b by (simp add: blocks_in_piece_def split: if_splits)
    note L = less [OF that(1) kb]
    have "get_bit (Bitfield.set_bit i bf) (y * ?bpp + k) \<longleftrightarrow> bits_of (Bitfield.set_bit i bf) ! (y * ?bpp + k)" using L sz by (simp add: bits_of_def)
    also have "\<dots> \<longleftrightarrow> (bits_of bf)[i := True] ! (y * ?bpp + k)" using bits_of_set_bit [OF I l] by simp
    also have "\<dots> \<longleftrightarrow> y * ?bpp + k = i \<or> get_bit bf (y * ?bpp + k)" using L S by (cases "i = y * ?bpp + k") (simp_all add: bits_of_def)
    also have "\<dots> \<longleftrightarrow> is_pad s y k \<or> y = x \<and> k = j"
      unfolding G [OF that(1) kb] i_def using slot_inj [OF kb jb, of x y] by metis
    finally show ?thesis .
  qed
qed

text \<open>Marking a pad block adds it to the blocks a fresh download starts with.\<close>

lemma mark_as_pad_fresh:
  assumes I: "picker_inv s" and P: "pads_ok s" and x: "x < num_pieces s" and j: "j < blocks_in_piece s x"
    and np: "\<not> is_pad s x j"
  defines "s' \<equiv> mark_as_pad x j s"
  shows "num_pieces s' = num_pieces s \<Longrightarrow> pads_ok s'"
    "num_pieces s' = num_pieces s \<Longrightarrow> y < num_pieces s \<Longrightarrow> fresh s' y = (if y = x then (fresh s x)[j := init_block True] else fresh s y)"
proof -
  let ?bf = "Bitfield.set_bit (x * m_blocks_per_piece s + j)
    (if size_bf (m_pad_blocks s) = 0 then resize (num_pieces s * m_blocks_per_piece s) (m_pad_blocks s) else m_pad_blocks s)"
  have bl: "m_blocks_in_last_piece s \<le> m_blocks_per_piece s" using picker_inv_parts(7) [OF I] by (simp add: queues_def pool_ok_def)
  note B = mark_as_pad_bits [OF P bl x j]
  have g: "geo s' = (m_blocks_per_piece s, m_blocks_in_last_piece s, ?bf, (m_pads_in_piece s)(x \<mapsto> (case m_pads_in_piece s x of None \<Rightarrow> 1 | Some n \<Rightarrow> n + 1)))"
    unfolding s'_def mark_as_pad_def Let_def by (simp add: num_pieces_def) (simp add: geo_def num_pieces_def)
  assume n: "num_pieces s' = num_pieces s"
  have b: "blocks_in_piece s' y = blocks_in_piece s y" for y using g n by (simp add: blocks_in_piece_def geo_def)
  have "0 < m_blocks_per_piece s" using j bl by (simp add: blocks_in_piece_def split: if_splits)
  then have pos: "0 < num_pieces s * m_blocks_per_piece s" using x by simp
  have pad: "is_pad s' y k \<longleftrightarrow> is_pad s y k \<or> y = x \<and> k = j" if "y < num_pieces s" "k < blocks_in_piece s y" for y k
    using B(2) B(3) [OF that] g pos by (simp add: is_pad_def geo_def)
  have cnt: "pad_blocks_in_piece s' y = pad_blocks_in_piece s y + (if y = x then 1 else 0)" for y
    using g by (simp add: pad_blocks_in_piece_def geo_def split: option.split)
  have "pad_blocks_in_piece s' y = int (length (filter (is_pad s' y) [0..<blocks_in_piece s' y]))" if y: "y < num_pieces s" for y
  proof -
    have "filter (is_pad s' y) [0..<blocks_in_piece s' y] = filter (\<lambda>k. is_pad s y k \<or> y = x \<and> k = j) [0..<blocks_in_piece s y]"
      unfolding b by (rule filter_cong [OF refl]) (use pad [OF y] in simp)
    then have "length (filter (is_pad s' y) [0..<blocks_in_piece s' y]) = length (filter (is_pad s y) [0..<blocks_in_piece s y]) + (if y = x then 1 else 0)"
      using filter_insert_one [of "[0..<blocks_in_piece s x]" j "is_pad s x"] j np by simp
    then show ?thesis using P y cnt by (simp add: pads_ok_def)
  qed
  then show "pads_ok s'" using B(1,2) g n P by (simp add: pads_ok_def geo_def)
  show "fresh s' y = (if y = x then (fresh s x)[j := init_block True] else fresh s y)" if "y < num_pieces s"
    by (rule nth_equalityI) (use pad [OF that] j in \<open>auto simp: fresh_def b nth_list_update\<close>)
qed

lemma all_pads_iff:
  assumes "pads_ok s" "x < num_pieces s"
  shows "pad_blocks_in_piece s x = int (blocks_in_piece s x) \<longleftrightarrow> (\<forall>b \<in> set (fresh s x). bi_state b = state_finished)"
proof -
  have "length (filter (is_pad s x) [0..<blocks_in_piece s x]) = length [0..<blocks_in_piece s x] \<longleftrightarrow> (\<forall>k \<in> set [0..<blocks_in_piece s x]. is_pad s x k)"
    using length_filter_less [of _ "[0..<blocks_in_piece s x]" "is_pad s x"] by (metis filter_True less_irrefl)
  then show ?thesis using assms by (simp add: pads_ok_def fresh_def init_block_def)
qed

section \<open>The abstract picker\<close>

record apicker =
  a_pieces :: nat
  a_have :: "nat \<Rightarrow> bool"
  a_prio :: "nat \<Rightarrow> nat"
  a_entries :: "nat \<Rightarrow> dl_entry option"
  a_blank :: "nat \<Rightarrow> block_info list"

definition abs_picker :: "piece_picker \<Rightarrow> apicker" where
  "abs_picker s =
     \<lparr>a_pieces = num_pieces s, a_have = (\<lambda>i. i < num_pieces s \<and> have_pos (pos_of s i)),
      a_prio = (\<lambda>i. if i < num_pieces s then piece_priority (pos_of s i) else 0),
      a_entries = dl_map s, a_blank = (\<lambda>i. if i < num_pieces s then fresh s i else [])\<rparr>"

datatype picker_op = Inc_refcount nat | Dec_refcount nat | Inc_refcount_all | Dec_refcount_all
  | Inc_refcount_mask bitfield | Dec_refcount_mask bitfield | Update_pieces | Set_priority nat nat
  | Downloading nat nat peer bool bool | Writing nat nat peer | Finished nat nat peer
  | Canceled nat nat peer | Abort nat nat peer | Write_failed nat nat
  | Lock nat | Restore nat | Passed nat | We_have nat | We_dont_have nat | We_have_all | Clear_peer peer | Pad nat nat

primrec apply_op :: "picker_op \<Rightarrow> piece_picker \<Rightarrow> piece_picker" where
  "apply_op (Inc_refcount x) s = inc_refcount x s"
| "apply_op (Dec_refcount x) s = dec_refcount x s"
| "apply_op Inc_refcount_all s = inc_refcount_all s"
| "apply_op Dec_refcount_all s = dec_refcount_all s"
| "apply_op (Inc_refcount_mask bm) s = inc_refcount_mask bm s"
| "apply_op (Dec_refcount_mask bm) s = dec_refcount_mask bm s"
| "apply_op Update_pieces s = update_pieces s"
| "apply_op (Set_priority x np) s = snd (set_piece_priority x np s)"
| "apply_op (Downloading x j peer rv aff) s = snd (mark_as_downloading x j peer rv aff s)"
| "apply_op (Writing x j peer) s = snd (mark_as_writing x j peer s)"
| "apply_op (Finished x j peer) s = mark_as_finished x j peer s"
| "apply_op (Canceled x j peer) s = mark_as_canceled x j peer s"
| "apply_op (Abort x j peer) s = abort_download x j peer s"
| "apply_op (Write_failed x j) s = write_failed x j s"
| "apply_op (Lock x) s = lock_piece x s"
| "apply_op (Restore x) s = restore_piece x s"
| "apply_op (Passed x) s = piece_passed x s"
| "apply_op (We_have x) s = we_have x s"
| "apply_op (We_dont_have x) s = we_dont_have x s"
| "apply_op We_have_all s = we_have_all s"
| "apply_op (Clear_peer peer) s = clear_peer peer s"
| "apply_op (Pad x j) s = mark_as_pad x j s"

text \<open>
  What the callers guarantee: the asserted index ranges, a request only for a piece we do not have, a
  block finished or failed only in the states the code asserts, a pad block declared once and before its
  piece is downloaded. \<^verbatim>\<open>we_dont_have\<close> is restricted to pieces without a download in progress and
  \<^verbatim>\<open>we_have_all\<close> to torrents without pad blocks: outside of these the invariant fails, as
  two properties of the theory \<open>Picker_Properties\<close> show.
\<close>

definition block_is :: "(block_state \<Rightarrow> bool) \<Rightarrow> nat \<Rightarrow> nat \<Rightarrow> piece_picker \<Rightarrow> bool" where
  "block_is P x j s = (case dl_map s x of None \<Rightarrow> True | Some e \<Rightarrow> P (state_at e j))"

definition is_block :: "nat \<Rightarrow> nat \<Rightarrow> piece_picker \<Rightarrow> bool" where
  "is_block x j s \<longleftrightarrow> x < num_pieces s \<and> j < blocks_in_piece s x"

primrec allowed :: "picker_op \<Rightarrow> piece_picker \<Rightarrow> bool" where
  "allowed (Inc_refcount x) s = (x < num_pieces s)"
| "allowed (Dec_refcount x) s = (x < num_pieces s)"
| "allowed Inc_refcount_all s = True"
| "allowed Dec_refcount_all s = True"
| "allowed (Inc_refcount_mask bm) s = (size_bf bm \<le> num_pieces s)"
| "allowed (Dec_refcount_mask bm) s = (size_bf bm \<le> num_pieces s)"
| "allowed Update_pieces s = True"
| "allowed (Set_priority x np) s = (x < num_pieces s \<and> np \<le> 7)"
| "allowed (Downloading x j peer rv aff) s = (is_block x j s \<and> \<not> have_pos (pos_of s x))"
| "allowed (Writing x j peer) s = is_block x j s"
| "allowed (Finished x j peer) s = (is_block x j s \<and> block_is (\<lambda>st. st \<noteq> state_requested) x j s)"
| "allowed (Canceled x j peer) s = is_block x j s"
| "allowed (Abort x j peer) s = is_block x j s"
| "allowed (Write_failed x j) s = (is_block x j s \<and> block_is (\<lambda>st. st = state_writing) x j s)"
| "allowed (Lock x) s = (x < num_pieces s)"
| "allowed (Restore x) s = (x < num_pieces s)"
| "allowed (Passed x) s = (x < num_pieces s)"
| "allowed (We_have x) s = (x < num_pieces s)"
| "allowed (We_dont_have x) s = (x < num_pieces s \<and> (have_pos (pos_of s x) \<or> dl_map s x = None))"
| "allowed We_have_all s = (\<forall>i < num_pieces s. pad_blocks_in_piece s i = 0)"
| "allowed (Clear_peer peer) s = True"
| "allowed (Pad x j) s = (is_block x j s \<and> \<not> have_pos (pos_of s x) \<and> dl_map s x = None \<and> \<not> is_pad s x j)"

text \<open>A piece whose entry an operation removes because it is complete and passed the hash check becomes ours.\<close>

definition complete_op :: "nat \<Rightarrow> ((nat \<Rightarrow> dl_entry option) \<Rightarrow> nat \<Rightarrow> dl_entry option) \<Rightarrow> apicker \<Rightarrow> apicker" where
  "complete_op x f a =
     (let m' = f (a_entries a) in
      a\<lparr>a_have := (a_have a)(x := a_have a x \<or> a_entries a x \<noteq> None \<and> m' x = None), a_entries := m'\<rparr>)"

primrec spec_op :: "picker_op \<Rightarrow> apicker \<Rightarrow> apicker" where
  "spec_op (Inc_refcount x) a = a"
| "spec_op (Dec_refcount x) a = a"
| "spec_op Inc_refcount_all a = a"
| "spec_op Dec_refcount_all a = a"
| "spec_op (Inc_refcount_mask bm) a = a"
| "spec_op (Dec_refcount_mask bm) a = a"
| "spec_op Update_pieces a = a"
| "spec_op (Set_priority x np) a = a\<lparr>a_prio := (a_prio a)(x := np)\<rparr>"
| "spec_op (Downloading x j peer rv aff) a = a\<lparr>a_entries := snd (spec_downloading (a_blank a x) x j peer (a_entries a))\<rparr>"
| "spec_op (Writing x j peer) a =
     (if a_have a x then a else a\<lparr>a_entries := snd (spec_writing (a_blank a x) x j peer (a_entries a))\<rparr>)"
| "spec_op (Finished x j peer) a = (if a_have a x then a else complete_op x (spec_finished (a_blank a x) x j peer) a)"
| "spec_op (Canceled x j peer) a = a\<lparr>a_entries := spec_canceled x j peer (a_entries a)\<rparr>"
| "spec_op (Abort x j peer) a = a\<lparr>a_entries := spec_abort x j peer (a_entries a)\<rparr>"
| "spec_op (Write_failed x j) a = a\<lparr>a_entries := spec_write_failed x j (a_entries a)\<rparr>"
| "spec_op (Lock x) a = a\<lparr>a_entries := spec_lock x (a_entries a)\<rparr>"
| "spec_op (Restore x) a = a\<lparr>a_entries := (a_entries a)(x := None)\<rparr>"
| "spec_op (Passed x) a = complete_op x (spec_passed x) a"
| "spec_op (We_have x) a = a\<lparr>a_have := (a_have a)(x := True), a_entries := (a_entries a)(x := None)\<rparr>"
| "spec_op (We_dont_have x) a = a\<lparr>a_have := (a_have a)(x := False)\<rparr>"
| "spec_op We_have_all a = a\<lparr>a_have := (\<lambda>i. i < a_pieces a), a_entries := (\<lambda>_. None)\<rparr>"
| "spec_op (Clear_peer peer) a =
     a\<lparr>a_entries := (\<lambda>x. map_option (\<lambda>(bs, fl). (map (\<lambda>b. if bi_peer b = peer then b\<lparr>bi_peer := None\<rparr> else b) bs, fl)) (a_entries a x))\<rparr>"
| "spec_op (Pad x j) a =
     (let bs = (a_blank a x)[j := init_block True] in
      a\<lparr>a_blank := (a_blank a)(x := bs), a_have := (a_have a)(x := \<forall>b \<in> set bs. bi_state b = state_finished)\<rparr>)"

section \<open>The simulation\<close>

definition machine_inv :: "piece_picker \<Rightarrow> bool" where
  "machine_inv s \<longleftrightarrow> picker_inv s \<and> pads_ok s"

lemma abs_by_view:
  assumes "geo s' = geo s" "cview s' = cview s"
  shows "abs_picker s' = (abs_picker s)\<lparr>a_entries := dl_map s'\<rparr>" "pads_ok s' = pads_ok s"
  using geo_reads [OF assms(1)] cview_reads [OF assms(2)] by (auto simp: abs_picker_def fun_eq_iff)

lemma abs_simps [simp]:
  "a_pieces (abs_picker s) = num_pieces s" "a_entries (abs_picker s) = dl_map s"
  "x < num_pieces s \<Longrightarrow> a_blank (abs_picker s) x = fresh s x" "x < num_pieces s \<Longrightarrow> a_have (abs_picker s) x = have_pos (pos_of s x)"
  by (simp_all add: abs_picker_def)

lemma abs_same: "same_view s s' \<Longrightarrow> geo s' = geo s \<Longrightarrow> abs_picker s' = abs_picker s \<and> pads_ok s' = pads_ok s"
  using abs_by_view [of s' s] qview_dl_map [of s' s] unfolding same_view_def by (metis abs_simps(2) apicker.surjective apicker.update_convs(4))

text \<open>One step, given what it does to the pieces we have and to the priorities.\<close>

lemma abs_by_reads:
  assumes "geo s' = geo s" "num_pieces s' = num_pieces s"
    "\<And>i. i < num_pieces s \<Longrightarrow> have_pos (pos_of s' i) = hv i"
    "\<And>i. i < num_pieces s \<Longrightarrow> piece_priority (pos_of s' i) = pr i"
  shows "abs_picker s' = (abs_picker s)\<lparr>a_have := (\<lambda>i. i < num_pieces s \<and> hv i), a_prio := (\<lambda>i. if i < num_pieces s then pr i else 0),
    a_entries := dl_map s'\<rparr>" "pads_ok s' = pads_ok s"
  using geo_reads [OF assms(1)] assms(2-4) by (auto simp: abs_picker_def fun_eq_iff)

lemma abs_have: "a_have (abs_picker s) = (\<lambda>i. i < num_pieces s \<and> have_pos (pos_of s i))"
  and abs_prio: "a_prio (abs_picker s) = (\<lambda>i. if i < num_pieces s then piece_priority (pos_of s i) else 0)"
  by (simp_all add: abs_picker_def)

lemma step_view:
  assumes M: "machine_inv s" and v: "same_view s s'" "geo s' = geo s" and p: "pieces_inv s'"
  shows "machine_inv s' \<and> abs_picker s' = abs_picker s"
  using same_view_inv [OF v(1) _ p] abs_same [OF v] M by (auto simp: machine_inv_def)

lemma step_entries:
  assumes M: "machine_inv s" and "picker_inv s'" "geo s' = geo s" "cview s' = cview s" "dl_map s' = m"
  shows "machine_inv s' \<and> abs_picker s' = (abs_picker s)\<lparr>a_entries := m\<rparr>"
  using abs_by_view [of s' s] assms by (auto simp: machine_inv_def)

lemma refcount_step:
  assumes M: "machine_inv s"
  shows "x < num_pieces s \<Longrightarrow> machine_inv (inc_refcount x s) \<and> abs_picker (inc_refcount x s) = abs_picker s"
    "x < num_pieces s \<Longrightarrow> machine_inv (dec_refcount x s) \<and> abs_picker (dec_refcount x s) = abs_picker s"
    "machine_inv (inc_refcount_all s) \<and> abs_picker (inc_refcount_all s) = abs_picker s"
    "machine_inv (dec_refcount_all s) \<and> abs_picker (dec_refcount_all s) = abs_picker s"
    "size_bf bm \<le> num_pieces s \<Longrightarrow> machine_inv (inc_refcount_mask bm s) \<and> abs_picker (inc_refcount_mask bm s) = abs_picker s"
    "size_bf bm \<le> num_pieces s \<Longrightarrow> machine_inv (dec_refcount_mask bm s) \<and> abs_picker (dec_refcount_mask bm s) = abs_picker s"
    "machine_inv (update_pieces s) \<and> abs_picker (update_pieces s) = abs_picker s"
proof -
  have I: "picker_inv s" using M by (simp add: machine_inv_def)
  note P = picker_inv_parts [OF I]
  show "x < num_pieces s \<Longrightarrow> machine_inv (inc_refcount x s) \<and> abs_picker (inc_refcount x s) = abs_picker s"
    by (rule step_view [OF M]) (use P(4) inc_refcount_view inc_refcount_inv in auto)
  show "x < num_pieces s \<Longrightarrow> machine_inv (dec_refcount x s) \<and> abs_picker (dec_refcount x s) = abs_picker s"
    by (rule step_view [OF M]) (use P(4) dec_refcount_view dec_refcount_inv in auto)
  show "machine_inv (inc_refcount_all s) \<and> abs_picker (inc_refcount_all s) = abs_picker s"
    "machine_inv (dec_refcount_all s) \<and> abs_picker (dec_refcount_all s) = abs_picker s"
    by (rule step_view [OF M]; use P(4) refcount_all_view refcount_all_inv in simp)+
  show "machine_inv (inc_refcount_mask bm s) \<and> abs_picker (inc_refcount_mask bm s) = abs_picker s"
    "machine_inv (dec_refcount_mask bm s) \<and> abs_picker (dec_refcount_mask bm s) = abs_picker s" if "size_bf bm \<le> num_pieces s"
    by (rule step_view [OF M]; use P(4) that refcount_mask_view refcount_mask_inv in simp)+
  show "machine_inv (update_pieces s) \<and> abs_picker (update_pieces s) = abs_picker s"
    using update_pieces_full [OF I] abs_same [of s "update_pieces s"] update_pieces_view [OF P(6)] M by (simp add: machine_inv_def)
qed

lemma block_is_Some: "block_is P x j s \<Longrightarrow> dl_map s x = Some e \<Longrightarrow> P (state_at e j)"
  by (simp add: block_is_def)

lemma downloading_dl_map: "queue_inv s \<Longrightarrow> x < num_pieces s \<Longrightarrow> dl_map s x = None \<Longrightarrow> download_queue (pos_of s x) = piece_open"
  using find_entry [of "{}" s x] by (fastforce simp: dl_map_def queue_inv_def download_queue_open downloading_def)

lemma block_step:
  assumes M: "machine_inv s" and b: "is_block x j s"
  shows "machine_inv (mark_as_canceled x j peer s) \<and> abs_picker (mark_as_canceled x j peer s) = spec_op (Canceled x j peer) (abs_picker s)"
    "machine_inv (abort_download x j peer s) \<and> abs_picker (abort_download x j peer s) = spec_op (Abort x j peer) (abs_picker s)"
    "block_is (\<lambda>st. st = state_writing) x j s \<Longrightarrow>
       machine_inv (write_failed x j s) \<and> abs_picker (write_failed x j s) = spec_op (Write_failed x j) (abs_picker s)"
proof -
  have I: "picker_inv s" and x: "x < num_pieces s" and j: "j < blocks_in_piece s x"
    using M b by (simp_all add: machine_inv_def is_block_def)
  note P = picker_inv_parts(1) [OF I] and B = block_op_full [OF I x j]
  show "machine_inv (mark_as_canceled x j peer s) \<and> abs_picker (mark_as_canceled x j peer s) = spec_op (Canceled x j peer) (abs_picker s)"
    using step_entries [OF M B(1) _ mark_as_canceled_refines(3,2) [OF P x j]] by simp
  show "machine_inv (abort_download x j peer s) \<and> abs_picker (abort_download x j peer s) = spec_op (Abort x j peer) (abs_picker s)"
    using step_entries [OF M B(2) _ abort_download_refines(3,2) [OF P x j]] by simp
  show "machine_inv (write_failed x j s) \<and> abs_picker (write_failed x j s) = spec_op (Write_failed x j) (abs_picker s)"
    if "block_is (\<lambda>st. st = state_writing) x j s"
  proof -
    have w: "\<And>e. dl_map s x = Some e \<Longrightarrow> state_at e j = state_writing" using block_is_Some [OF that] by simp
    show ?thesis using step_entries [OF M B(5) [OF w] _ write_failed_refines(3,2) [OF P x j w]] by simp
  qed
qed

lemma piece_step:
  assumes M: "machine_inv s" and x: "x < num_pieces s"
  shows "machine_inv (lock_piece x s) \<and> abs_picker (lock_piece x s) = spec_op (Lock x) (abs_picker s)"
    "machine_inv (restore_piece x s) \<and> abs_picker (restore_piece x s) = spec_op (Restore x) (abs_picker s)"
proof -
  have I: "picker_inv s" using M by (simp add: machine_inv_def)
  note P = picker_inv_parts(1) [OF I]
  have h: "have_pos (pos_of s x) \<Longrightarrow> dl_map s x = None" using picker_inv_parts(3) [OF I] x by (simp add: had_open_def)
  note l = lock_piece_refines [OF P x] and r = restore_piece_refines [OF P x]
  have "picker_inv (lock_piece x s)"
    by (rule at_piece_full [OF I l(1,3), of x]) (use h in \<open>auto simp: l(2) spec_lock_def split: option.splits\<close>)
  then show "machine_inv (lock_piece x s) \<and> abs_picker (lock_piece x s) = spec_op (Lock x) (abs_picker s)"
    using step_entries [OF M _ _ l(3,2)] by simp
  have "picker_inv (restore_piece x s)" by (rule at_piece_full [OF I r(1,3), of x]) (simp_all add: r(2))
  then show "machine_inv (restore_piece x s) \<and> abs_picker (restore_piece x s) = spec_op (Restore x) (abs_picker s)"
    using step_entries [OF M _ _ r(3,2)] by simp
qed

lemma request_step:
  assumes M: "machine_inv s" and b: "is_block x j s"
  shows "\<not> have_pos (pos_of s x) \<Longrightarrow> machine_inv (snd (mark_as_downloading x j peer rv aff s)) \<and>
      abs_picker (snd (mark_as_downloading x j peer rv aff s)) = spec_op (Downloading x j peer rv aff) (abs_picker s)"
    "machine_inv (snd (mark_as_writing x j peer s)) \<and> abs_picker (snd (mark_as_writing x j peer s)) = spec_op (Writing x j peer) (abs_picker s)"
proof -
  have I: "picker_inv s" and x: "x < num_pieces s" and j: "j < blocks_in_piece s x"
    using M b by (simp_all add: machine_inv_def is_block_def)
  note P = picker_inv_parts [OF I]
  show "machine_inv (snd (mark_as_downloading x j peer rv aff s)) \<and>
      abs_picker (snd (mark_as_downloading x j peer rv aff s)) = spec_op (Downloading x j peer rv aff) (abs_picker s)" if h: "\<not> have_pos (pos_of s x)"
  proof -
    obtain rd sd where d: "mark_as_downloading x j peer rv aff s = (rd, sd)" by fastforce
    note D = mark_as_downloading_refines [OF P(1) x j d]
    have "picker_inv sd" "geo sd = geo s"
      using block_start_full(1) [OF I x j h, of peer rv aff] geo_blocks(1) [of x j peer rv aff s] d by simp_all
    note step_entries [OF M this D(3)]
    moreover have "dl_map sd = snd (spec_downloading (fresh s x) x j peer (dl_map s))" using D(2) by (metis snd_conv)
    ultimately show ?thesis using d x by simp
  qed
  show "machine_inv (snd (mark_as_writing x j peer s)) \<and> abs_picker (snd (mark_as_writing x j peer s)) = spec_op (Writing x j peer) (abs_picker s)"
  proof (cases "have_pos (pos_of s x)")
    case True
    have "dl_map s x = None" using P(3) True x by (simp add: had_open_def)
    then have "\<not> downloading (pos_of s x)" using downloading_dl_map [OF P(5) x] by (simp add: downloading_def download_queue_open)
    then have "mark_as_writing x j peer s = (False, s)" using True by (simp add: mark_as_writing_def have_piece_def have_pos_def)
    then show ?thesis using M True x by simp
  next
    case h: False
    obtain rd sd where d: "mark_as_writing x j peer s = (rd, sd)" by fastforce
    note D = mark_as_writing_refines [OF P(1) x j h d]
    have "picker_inv sd" "geo sd = geo s"
      using block_start_full(2) [OF I x j h, of peer] geo_blocks(2) [of x j peer s] d by simp_all
    note step_entries [OF M this D(3)]
    moreover have "dl_map sd = snd (spec_writing (fresh s x) x j peer (dl_map s))" using D(2) by (metis snd_conv)
    ultimately show ?thesis using d x h by simp
  qed
qed

text \<open>The two operations that may complete a piece.\<close>

lemma complete_step:
  assumes M: "machine_inv s" and x: "x < num_pieces s" and ok: "picker_ok s'" and h: "\<not> have_pos (pos_of s x)"
    and g: "geo s' = geo s" and m: "dl_map s' = f (dl_map s)" and o: "\<And>y. y \<noteq> x \<Longrightarrow> dl_map s' y = dl_map s y"
    and t: "\<exists>t. picker_ok t \<and> cview t = cview s \<and>
      (s' = t \<and> (dl_map s x \<noteq> None \<longrightarrow> dl_map t x \<noteq> None) \<or> dl_map s x \<noteq> None \<and> s' = we_have x t)"
  shows "machine_inv s' \<and> abs_picker s' = complete_op x f (abs_picker s)"
proof -
  have I: "picker_inv s" using M by (simp add: machine_inv_def)
  note A = at_piece_have_full [OF I x ok h o t]
  note B = abs_by_reads [OF g A(2,3,4)]
  have "(\<lambda>i. i < num_pieces s \<and> (have_pos (pos_of s i) \<or> i = x \<and> dl_map s x \<noteq> None \<and> dl_map s' x = None)) =
      (a_have (abs_picker s))(x := a_have (abs_picker s) x \<or> dl_map s x \<noteq> None \<and> dl_map s' x = None)"
    using x by (auto simp: abs_have fun_eq_iff)
  then show ?thesis using A(1) B M m by (simp add: machine_inv_def complete_op_def Let_def abs_prio [symmetric])
qed

lemma finish_step:
  assumes M: "machine_inv s"
  shows "x < num_pieces s \<Longrightarrow> machine_inv (piece_passed x s) \<and> abs_picker (piece_passed x s) = spec_op (Passed x) (abs_picker s)"
    "is_block x j s \<Longrightarrow> block_is (\<lambda>st. st \<noteq> state_requested) x j s \<Longrightarrow>
       machine_inv (mark_as_finished x j peer s) \<and> abs_picker (mark_as_finished x j peer s) = spec_op (Finished x j peer) (abs_picker s)"
proof -
  have I: "picker_inv s" using M by (simp add: machine_inv_def)
  note P = picker_inv_parts [OF I]
  have q: "download_queue (pos_of s x) = piece_open" "dl_map s x = None" if "have_pos (pos_of s x)" "x < num_pieces s"
    using downloading_dl_map [OF P(5) that(2)] P(3) that by (auto simp: had_open_def)
  show "machine_inv (piece_passed x s) \<and> abs_picker (piece_passed x s) = spec_op (Passed x) (abs_picker s)" if x: "x < num_pieces s"
  proof (cases "have_pos (pos_of s x)")
    case True
    note o = q [OF True x]
    have "piece_passed x s = s" using o(1) by (simp add: piece_passed_def)
    then show ?thesis using M o(2) by (simp add: complete_op_def spec_passed_def)
  next
    case h: False
    note R = piece_passed_refines [OF P(1) x h]
    have "dl_map (piece_passed x s) y = dl_map s y" if "y \<noteq> x" for y
      using that by (auto simp: R(2) spec_passed_def split: option.splits)
    then show ?thesis using complete_step [where f = "spec_passed x", OF M x R(1) h _ R(2) _ R(3)] by simp
  qed
  show "machine_inv (mark_as_finished x j peer s) \<and> abs_picker (mark_as_finished x j peer s) = spec_op (Finished x j peer) (abs_picker s)"
    if b: "is_block x j s" "block_is (\<lambda>st. st \<noteq> state_requested) x j s"
  proof (cases "have_pos (pos_of s x)")
    case True
    have x: "x < num_pieces s" using b by (simp add: is_block_def)
    have "mark_as_finished x j peer s = s" using q(1) [OF True x] True by (simp add: mark_as_finished_def have_piece_def have_pos_def)
    then show ?thesis using M True x by simp
  next
    case h: False
    have x: "x < num_pieces s" and j: "j < blocks_in_piece s x" using b by (simp_all add: is_block_def)
    have w: "\<And>e. dl_map s x = Some e \<Longrightarrow> state_at e j \<noteq> state_requested" using block_is_Some [OF b(2)] by simp
    note R = mark_as_finished_refines [OF P(1) x j h w, of peer]
    have "dl_map (mark_as_finished x j peer s) y = dl_map s y" if "y \<noteq> x" for y
      using that by (auto simp: R(2) spec_finished_def Let_def)
    then show ?thesis using complete_step [where f = "spec_finished (fresh s x) x j peer", OF M x R(1) h _ R(2) _ R(3)] h x by simp
  qed
qed

lemma pieces_step:
  assumes M: "machine_inv s"
  shows "x < num_pieces s \<Longrightarrow> np \<le> 7 \<Longrightarrow> machine_inv (snd (set_piece_priority x np s)) \<and>
      abs_picker (snd (set_piece_priority x np s)) = spec_op (Set_priority x np) (abs_picker s)"
    "x < num_pieces s \<Longrightarrow> machine_inv (we_have x s) \<and> abs_picker (we_have x s) = spec_op (We_have x) (abs_picker s)"
    "allowed (We_dont_have x) s \<Longrightarrow> machine_inv (we_dont_have x s) \<and> abs_picker (we_dont_have x s) = spec_op (We_dont_have x) (abs_picker s)"
    "allowed We_have_all s \<Longrightarrow> machine_inv (we_have_all s) \<and> abs_picker (we_have_all s) = spec_op We_have_all (abs_picker s)"
    "machine_inv (clear_peer peer s) \<and> abs_picker (clear_peer peer s) = spec_op (Clear_peer peer) (abs_picker s)"
proof -
  have I: "picker_inv s" and pd: "pads_ok s" using M by (simp_all add: machine_inv_def)
  note P = picker_inv_parts [OF I]
  show "machine_inv (snd (set_piece_priority x np s)) \<and>
      abs_picker (snd (set_piece_priority x np s)) = spec_op (Set_priority x np) (abs_picker s)" if a: "x < num_pieces s" "np \<le> 7"
  proof -
    note F = set_piece_priority_full [OF I a]
    note B = abs_by_reads [OF geo_pieces(5) F(3,4,5)]
    have "(\<lambda>i. if i < num_pieces s then if i = x then np else piece_priority (pos_of s i) else 0) = (a_prio (abs_picker s))(x := np)"
      using a by (auto simp: abs_prio fun_eq_iff)
    then show ?thesis using F(1,2) B pd by (simp add: machine_inv_def abs_have [symmetric])
  qed
  show "machine_inv (we_have x s) \<and> abs_picker (we_have x s) = spec_op (We_have x) (abs_picker s)" if a: "x < num_pieces s"
  proof -
    note F = we_have_full [OF I a] and H = we_have_have [OF P(1) a]
    note B = abs_by_reads [OF geo_pieces(1) H]
    have "(\<lambda>i. i < num_pieces s \<and> (i = x \<or> have_pos (pos_of s i))) = (a_have (abs_picker s))(x := True)"
      using a by (auto simp: abs_have fun_eq_iff)
    then show ?thesis using F B pd by (simp add: machine_inv_def abs_prio [symmetric])
  qed
  show "machine_inv (we_dont_have x s) \<and> abs_picker (we_dont_have x s) = spec_op (We_dont_have x) (abs_picker s)" if a: "allowed (We_dont_have x) s"
  proof (cases "have_pos (pos_of s x)")
    case True
    have x: "x < num_pieces s" using a by simp
    note F = we_dont_have_full [OF I x True]
    note B = abs_by_reads [OF geo_pieces(2) F(3,4,5)]
    have "(\<lambda>i. i < num_pieces s \<and> (i \<noteq> x \<and> have_pos (pos_of s i))) = (a_have (abs_picker s))(x := False)"
      using x by (auto simp: abs_have fun_eq_iff)
    then show ?thesis using F(1,2) B pd by (simp add: machine_inv_def abs_prio [symmetric])
  next
    case False
    have x: "x < num_pieces s" and m: "dl_map s x = None" using a False by simp_all
    have "we_dont_have x s = s" using False downloading_dl_map [OF P(5) x m] by (simp add: we_dont_have_def)
    then show ?thesis using M False x by (simp add: fun_upd_idem)
  qed
  show "machine_inv (we_have_all s) \<and> abs_picker (we_have_all s) = spec_op We_have_all (abs_picker s)" if a: "allowed We_have_all s"
  proof -
    have "\<And>i. i < num_pieces s \<Longrightarrow> pad_blocks_in_piece s i = 0" using a by simp
    note F = we_have_all_full [OF I this]
    have n: "num_pieces (we_have_all s) = num_pieces s" by (simp add: we_have_all_def num_pieces_def)
    have r: "have_pos (pos_of (we_have_all s) i) = True" "piece_priority (pos_of (we_have_all s) i) = piece_priority (pos_of s i)"
      if "i < num_pieces s" for i using that by (simp_all add: we_have_all_def num_pieces_def have_pos_def)
    note B = abs_by_reads [OF geo_pieces(3) n r]
    then show ?thesis using F pd by (simp add: machine_inv_def abs_prio [symmetric])
  qed
  have c: "cview (clear_peer peer s) = cview s" by (simp add: clear_peer_def cview_def)
  show "machine_inv (clear_peer peer s) \<and> abs_picker (clear_peer peer s) = spec_op (Clear_peer peer) (abs_picker s)"
    using step_entries [OF M clear_peer_full(1) [OF I] geo_pieces(8) c refl] clear_peer_full(2) [OF I, of peer] by (simp add: fun_eq_iff)
qed

lemma pad_step:
  assumes M: "machine_inv s" and a: "allowed (Pad x j) s"
  shows "machine_inv (mark_as_pad x j s) \<and> abs_picker (mark_as_pad x j s) = spec_op (Pad x j) (abs_picker s)"
proof -
  have I: "picker_inv s" and pd: "pads_ok s" and x: "x < num_pieces s" and j: "j < blocks_in_piece s x"
    and h: "\<not> have_pos (pos_of s x)" and d: "dl_map s x = None" and np: "\<not> is_pad s x j"
    using M a by (simp_all add: machine_inv_def is_block_def)
  let ?t = "mark_as_pad x j s" let ?bs = "(fresh s x)[j := init_block True]"
  note F = mark_as_pad_full [where j = j, OF I x h d]
  note G = mark_as_pad_fresh [OF I pd x j np]
  have po: "pads_ok ?t" by (rule G(1) [OF F(3)])
  have bt: "blocks_in_piece ?t x = blocks_in_piece s x" using arg_cong [OF G(2) [OF F(3) x], of length] by (simp add: fresh_def)
  have pt: "pad_blocks_in_piece ?t x = pad_blocks_in_piece s x + 1"
  proof -
    have "geo (if pad_blocks_in_piece s3 x = int (blocks_in_piece s3 x) then we_have x s3 else s3) = geo s3" for s3 by simp
    note g = geo_reads(3) [OF this]
    show ?thesis unfolding mark_as_pad_def Let_def g by (simp add: pad_blocks_in_piece_def split: option.split)
  qed
  have e: "pad_blocks_in_piece s x + 1 = int (blocks_in_piece s x) \<longleftrightarrow> (\<forall>b \<in> set ?bs. bi_state b = state_finished)"
    using all_pads_iff [OF po, of x] F(3) x pt bt G(2) [OF F(3) x] by simp
  have "abs_picker ?t = spec_op (Pad x j) (abs_picker s)"
    using F(2,3,4,5) G(2) [OF F(3)] x h e by (auto simp: abs_picker_def Let_def fun_eq_iff)
  then show ?thesis using F(1) po by (simp add: machine_inv_def)
qed

lemma step_refines:
  assumes M: "machine_inv s" and a: "allowed op s"
  shows "machine_inv (apply_op op s)" "abs_picker (apply_op op s) = spec_op op (abs_picker s)"
proof -
  have "machine_inv (apply_op op s) \<and> abs_picker (apply_op op s) = spec_op op (abs_picker s)"
  proof (cases op)
    case (We_dont_have x)
    then show ?thesis using pieces_step(3) [OF M, of x] a by simp
  next
    case We_have_all
    then show ?thesis using pieces_step(4) [OF M] a by simp
  next
    case (Pad x j)
    then show ?thesis using pad_step [OF M, of x j] a by simp
  next
    case (Clear_peer p)
    then show ?thesis using pieces_step(5) [OF M, of p] by simp
  qed (use a refcount_step [OF M] block_step [OF M] piece_step [OF M] request_step [OF M] finish_step [OF M] pieces_step(1,2) [OF M] in simp_all)
  then show "machine_inv (apply_op op s)" "abs_picker (apply_op op s) = spec_op op (abs_picker s)" by auto
qed

interpretation pm: refined_machine machine_inv abs_picker apply_op allowed spec_op
  by unfold_locales (auto intro: step_refines)

text \<open>The states the program can reach: a new picker and any sequence of allowed calls.\<close>

inductive reachable :: "piece_picker \<Rightarrow> bool" where
  start: "new_picker bpp bil n rs = Some s \<Longrightarrow> 0 < bpp \<Longrightarrow> bil \<le> bpp \<Longrightarrow> n * bpp < 2 ^ 31 \<Longrightarrow> reachable s"
| step: "reachable s \<Longrightarrow> allowed op s \<Longrightarrow> reachable (apply_op op s)"

lemma new_picker_machine:
  assumes "new_picker bpp bil n rs = Some s" "0 < bpp" "bil \<le> bpp" "n * bpp < 2 ^ 31"
  shows "machine_inv s"
proof -
  note F = new_picker_full [OF assms(1-3)]
  have "m_pad_blocks s = \<lparr>m_buf = []\<rparr>" "m_pads_in_piece s = (\<lambda>_. None)" "m_blocks_per_piece s = bpp"
    using assms(1) by (auto simp: new_picker_def resize_picker_def empty_picker_def Let_def split: if_splits)
  then have "pads_ok s" using F(2) assms(4) by (simp add: pads_ok_def is_pad_def pad_blocks_in_piece_def size_bf_def bitfield_inv_def)
  then show ?thesis using F(1) by (simp add: machine_inv_def)
qed

lemma reachable_machine: "reachable s \<Longrightarrow> machine_inv s"
  by (induction rule: reachable.induct) (auto intro: new_picker_machine step_refines)

end
