(* ===== verification/Picker_Pick.thy ===== *)
theory Picker_Pick
  imports Picker_Machine "HOL-Library.Signed_Division"
begin

text \<open>
  Choosing blocks to request: \<^verbatim>\<open>pick_pieces\<close> of \<^verbatim>\<open>piece_picker.cpp\<close> with every phase it goes through, and the
  queries of the class. The statistics counters the picker bumps are not part of the state. The out
  parameters of the call, its remaining number of blocks and the flags it returns are the record
  \<open>pick\<close>. \<^verbatim>\<open>std::sort\<close>, which may order equal elements in any way, is a stable sort.
\<close>

section \<open>Options and results\<close>

record picker_options =
  rarest_first :: bool
  reverse_opt :: bool
  on_parole :: bool
  prioritize_partials :: bool
  sequential :: bool
  time_critical_mode :: bool
  align_expanded_pieces :: bool
  piece_extent_affinity :: bool

datatype picker_flag = flag_partial_ratio | flag_prioritize_partials | flag_rarest_first_partials | flag_rarest_first
  | flag_reverse_rarest_first | flag_suggested_pieces | flag_prio_sequential_pieces | flag_sequential_pieces
  | flag_time_critical | flag_random_pieces | flag_prefer_contiguous | flag_reverse_sequential
  | flag_backup1 | flag_backup2 | flag_end_game | flag_extent_affinity

type_synonym piece_block = "nat \<times> nat"

record pick =
  interesting :: "piece_block list"
  backup :: "piece_block list"
  backup2 :: "piece_block list"
  num_blocks :: int
  flags :: "picker_flag list"
  trapped :: bool \<comment> \<open>an integer was divided by zero\<close>

definition flag :: "picker_flag \<Rightarrow> pick \<Rightarrow> pick" where
  "flag f p = p\<lparr>flags := List.insert f (flags p)\<rparr>"

text \<open>The statement \<^verbatim>\<open>if (num_blocks <= 0) return ret\<close>.\<close>

definition unless_done :: "pick \<Rightarrow> (pick \<Rightarrow> pick) \<Rightarrow> pick" where
  "unless_done p f = (if num_blocks p \<le> 0 then p else f p)"

section \<open>Queries\<close>

definition is_piece_free :: "nat \<Rightarrow> bitfield \<Rightarrow> piece_picker \<Rightarrow> bool" where
  "is_piece_free piece bitmask s \<longleftrightarrow> get_bit bitmask piece \<and> \<not> have_pos (pos_of s piece) \<and> \<not> filtered (pos_of s piece)"

definition can_pick :: "nat \<Rightarrow> bitfield \<Rightarrow> piece_picker \<Rightarrow> bool" where
  "can_pick piece bitmask s \<longleftrightarrow> get_bit bitmask piece \<and> \<not> have_pos (pos_of s piece) \<and> \<not> downloading (pos_of s piece)
     \<and> \<not> filtered (pos_of s piece)"

text \<open>
  The queries that look a piece up in its download queue. The code asserts that the entry is there and
  reads it; a missing entry is \<open>None\<close>.
\<close>

definition lookup_dl :: "nat \<Rightarrow> piece_picker \<Rightarrow> downloading_piece option" where
  "lookup_dl index s = map_option (\<lambda>i. deref i s) (find_dl_piece (download_queue (pos_of s index)) index s)"

definition piece_info :: "nat \<Rightarrow> downloading_piece \<Rightarrow> piece_picker \<Rightarrow> downloading_piece option" where
  "piece_info index st s =
     (if download_queue (pos_of s index) \<noteq> piece_open then lookup_dl index s
      else Some (st\<lparr>info_idx := 0, dp_index := index, writing := 0, requested := 0,
                    finished := (if have_pos (pos_of s index) then blocks_in_piece s index else 0)\<rparr>))"

definition piece_stats :: "nat \<Rightarrow> piece_picker \<Rightarrow> nat \<times> int \<times> bool \<times> bool" where
  "piece_stats index s =
     (let pp = pos_of s index in (peer_count pp + m_seeds s, prio_of s index, have_pos pp, downloading pp))"

definition is_piece_finished :: "nat \<Rightarrow> piece_picker \<Rightarrow> bool option" where
  "is_piece_finished index s =
     (if pp_index (pos_of s index) = we_have_index then Some True
      else if download_queue (pos_of s index) = piece_open then Some False
      else map_option (\<lambda>dp. \<not> finished dp + writing dp < blocks_in_piece s index) (lookup_dl index s))"

definition has_piece_passed :: "nat \<Rightarrow> piece_picker \<Rightarrow> bool option" where
  "has_piece_passed index s =
     (if pp_index (pos_of s index) = we_have_index then Some True
      else if download_queue (pos_of s index) = piece_open then Some False
      else map_option passed_hash_check (lookup_dl index s))"

definition is_requested :: "nat \<Rightarrow> nat \<Rightarrow> piece_picker \<Rightarrow> bool option" where
  "is_requested piece block s =
     (if download_queue (pos_of s piece) = piece_open then Some False
      else map_option (\<lambda>dp. bi_state (blocks_for_piece s dp ! block) = state_requested) (lookup_dl piece s))"

definition is_downloaded :: "nat \<Rightarrow> nat \<Rightarrow> piece_picker \<Rightarrow> bool option" where
  "is_downloaded piece block s =
     (if pp_index (pos_of s piece) = we_have_index then Some True
      else if download_queue (pos_of s piece) = piece_open then Some False
      else map_option (\<lambda>dp. bi_state (blocks_for_piece s dp ! block) = state_finished
                          \<or> bi_state (blocks_for_piece s dp ! block) = state_writing) (lookup_dl piece s))"

definition is_finished :: "nat \<Rightarrow> nat \<Rightarrow> piece_picker \<Rightarrow> bool option" where
  "is_finished piece block s =
     (if pp_index (pos_of s piece) = we_have_index then Some True
      else if download_queue (pos_of s piece) = piece_open then Some False
      else map_option (\<lambda>dp. bi_state (blocks_for_piece s dp ! block) = state_finished) (lookup_dl piece s))"

definition num_peers :: "nat \<Rightarrow> nat \<Rightarrow> piece_picker \<Rightarrow> nat option" where
  "num_peers piece block s =
     (if \<not> downloading (pos_of s piece) then Some 0
      else map_option (\<lambda>dp. bi_num_peers (blocks_for_piece s dp ! block)) (lookup_dl piece s))"

definition get_downloaders :: "nat \<Rightarrow> piece_picker \<Rightarrow> peer list option" where
  "get_downloaders index s =
     (let n = blocks_in_piece s index in
      if download_queue (pos_of s index) = piece_open then Some (replicate n None)
      else map_option (\<lambda>dp. map (\<lambda>j. bi_peer (blocks_for_piece s dp ! j)) [0..<n]) (lookup_dl index s))"

definition get_downloader :: "nat \<Rightarrow> nat \<Rightarrow> piece_picker \<Rightarrow> peer option" where
  "get_downloader piece block s =
     (if download_queue (pos_of s piece) = piece_open then Some None
      else map_option (\<lambda>dp. let info = blocks_for_piece s dp ! block in
                            if bi_state info = state_none then None else bi_peer info) (lookup_dl piece s))"

definition get_download_queue :: "piece_picker \<Rightarrow> downloading_piece list" where
  "get_download_queue s = concat (map (m_downloads s) [piece_downloading, piece_full, piece_finished, piece_zero_prio])"

definition get_download_queue_size :: "piece_picker \<Rightarrow> nat" where
  "get_download_queue_size s =
     foldl (\<lambda>acc q. acc + length (m_downloads s q)) 0 [piece_downloading, piece_full, piece_finished, piece_zero_prio]"

definition get_download_queue_sizes :: "piece_picker \<Rightarrow> nat \<times> nat \<times> nat \<times> nat" where
  "get_download_queue_sizes s = (length (m_downloads s piece_downloading), length (m_downloads s piece_full),
     length (m_downloads s piece_finished), length (m_downloads s piece_zero_prio))"

definition get_availability :: "nat \<Rightarrow> piece_picker \<Rightarrow> nat" where
  "get_availability piece s = peer_count (pos_of s piece) + m_seeds s"

definition get_availability_all :: "piece_picker \<Rightarrow> nat list" where
  "get_availability_all s = map (\<lambda>p. peer_count p + m_seeds s) (m_piece_map s)"

definition piece_priorities :: "piece_picker \<Rightarrow> nat list" where
  "piece_priorities s = map piece_priority (m_piece_map s)"

record piece_count =
  pc_num_pieces :: int
  pc_pad_blocks :: int
  pc_last_piece :: bool

definition want :: "piece_picker \<Rightarrow> piece_count" where
  "want s = \<lparr>pc_num_pieces = int (num_pieces s) - m_num_filtered s - m_num_have_filtered s,
     pc_pad_blocks = m_num_pad_blocks s - m_filtered_pad_blocks s - m_have_filtered_pad_blocks s,
     pc_last_piece = (piece_priority (pos_of s (num_pieces s - 1)) \<noteq> dont_download)\<rparr>"

definition have_want :: "piece_picker \<Rightarrow> piece_count" where
  "have_want s = \<lparr>pc_num_pieces = m_num_have s - m_num_have_filtered s,
     pc_pad_blocks = m_have_pad_blocks s - m_have_filtered_pad_blocks s,
     pc_last_piece = (have_piece s (num_pieces s - 1) \<and> piece_priority (pos_of s (num_pieces s - 1)) \<noteq> dont_download)\<rparr>"

definition have_count :: "piece_picker \<Rightarrow> piece_count" where
  "have_count s = \<lparr>pc_num_pieces = m_num_have s, pc_pad_blocks = m_have_pad_blocks s,
     pc_last_piece = have_piece s (num_pieces s - 1)\<rparr>"

definition all_pieces :: "piece_picker \<Rightarrow> piece_count" where
  "all_pieces s = \<lparr>pc_num_pieces = int (num_pieces s), pc_pad_blocks = m_num_pad_blocks s, pc_last_piece = True\<rparr>"

text \<open>The rarest availability, and how many pieces in a thousand exceed it.\<close>

fun distribution :: "piece_pos list \<Rightarrow> nat \<Rightarrow> nat \<Rightarrow> nat \<Rightarrow> nat \<times> nat \<times> nat" where
  "distribution [] min_availability integer_part fraction_part = (min_availability, integer_part, fraction_part)"
| "distribution (p # ps) min_availability integer_part fraction_part =
     (let count = peer_count p + (if have_pos p then 1 else 0) in
      if min_availability > count then distribution ps count 1 (fraction_part + integer_part)
      else if count = min_availability then distribution ps min_availability (integer_part + 1) fraction_part
      else distribution ps min_availability integer_part (fraction_part + 1))"

definition distributed_copies :: "piece_picker \<Rightarrow> nat \<times> nat" where
  "distributed_copies s =
     (let npieces = num_pieces s in
      if npieces = 0 then (1, 0)
      else let (mn, _, fr) = distribution (m_piece_map s) max_peer_count 0 0 in (mn + m_seeds s, fr * 1000 div npieces))"

section \<open>Blocks of one piece\<close>

text \<open>
  \<^verbatim>\<open>requested_from\<close>: whether all blocks of the piece in progress come from \<open>peer\<close>, whether no other
  active peer is involved, and the length and start of the longest run of free blocks.
\<close>

fun scan_runs :: "peer \<Rightarrow> block_info list \<Rightarrow> nat \<Rightarrow> bool \<times> bool \<times> nat \<times> nat \<times> nat \<Rightarrow> bool \<times> bool \<times> nat \<times> nat \<times> nat" where
  "scan_runs peer [] idx acc = acc"
| "scan_runs peer (info # infos) idx (exclusive, active, run, longest, first) =
     (if bi_state info = state_none then scan_runs peer infos (idx + 1) (exclusive, active, run + 1, longest, first)
      else let (longest', first') = (if run > longest then (run, idx - run) else (longest, first));
               exclusive' = (exclusive \<and> bi_peer info = peer);
               active' = (active \<and> \<not> (bi_peer info \<noteq> peer \<and> bi_state info = state_requested \<and> bi_peer info \<noteq> None))
           in scan_runs peer infos (idx + 1) (exclusive', active', 0, longest', first'))"

definition requested_from :: "block_info list \<Rightarrow> nat \<Rightarrow> peer \<Rightarrow> bool \<times> bool \<times> nat \<times> nat" where
  "requested_from infos num_blocks_in_piece peer =
     (let (exclusive, active, run, longest, first) = scan_runs peer infos 0 (True, True, 0, 0, 0)
      in if run > longest then (exclusive, active, run, num_blocks_in_piece - run)
         else (exclusive, active, longest, first))"

fun take_free :: "nat \<Rightarrow> block_info list \<Rightarrow> nat list \<Rightarrow> int \<Rightarrow> pick \<Rightarrow> pick" where
  "take_free piece binfo [] prefer p = p"
| "take_free piece binfo (j # js) prefer p =
     (if bi_state (binfo ! j) \<noteq> state_none then take_free piece binfo js prefer p
      else let p' = p\<lparr>interesting := interesting p @ [(piece, j)], num_blocks := num_blocks p - 1\<rparr> in
        if prefer > 0 then take_free piece binfo js (prefer - 1) p'
        else if num_blocks p' \<le> 0 then p'
        else take_free piece binfo js prefer p')"

definition add_blocks_downloading :: "downloading_piece \<Rightarrow> bitfield \<Rightarrow> int \<Rightarrow> peer \<Rightarrow> picker_options \<Rightarrow> piece_picker \<Rightarrow> pick \<Rightarrow> pick" where
  "add_blocks_downloading dp pieces prefer peer opts s p =
     (if \<not> get_bit pieces (dp_index dp) then p
      else if locked dp then p
      else let n = blocks_in_piece s (dp_index dp); binfo = blocks_for_piece s dp;
               (exclusive, active, contiguous, first) = requested_from binfo n peer;
               first_block = (if prefer = 0 then 0 else first);
               order = map (\<lambda>j. (j + first_block) mod n) [0..<n] in
        if on_parole opts \<and> \<not> exclusive then p
        else if prefer > int contiguous \<and> \<not> active \<and> \<not> on_parole opts
        then if int (length (backup2 p)) \<ge> num_blocks p then p
             else p\<lparr>backup2 := backup2 p @ map (\<lambda>j. (dp_index dp, j)) (filter (\<lambda>j. bi_state (binfo ! j) = state_none) order)\<rparr>
        else let p' = take_free (dp_index dp) binfo order prefer p
             in if num_blocks p' \<le> 0 then p'\<lparr>num_blocks := 0\<rparr> else p')"

function expand_down :: "bitfield \<Rightarrow> piece_picker \<Rightarrow> nat \<Rightarrow> nat \<Rightarrow> nat" where
  "expand_down have_bits s lower start =
     (if start > lower \<and> can_pick (start - 1) have_bits s then expand_down have_bits s lower (start - 1) else start)"
  by pat_completeness auto
termination by (relation "measure (\<lambda>(_, _, _, start). start)") auto

function expand_up :: "bitfield \<Rightarrow> piece_picker \<Rightarrow> nat \<Rightarrow> nat \<Rightarrow> nat" where
  "expand_up have_bits s upper end_piece =
     (if end_piece < upper \<and> can_pick end_piece have_bits s then expand_up have_bits s upper (end_piece + 1) else end_piece)"
  by pat_completeness auto
termination by (relation "measure (\<lambda>(_, _, upper, e). upper - e)") auto

declare expand_down.simps [simp del] expand_up.simps [simp del]

text \<open>
  The preference the callers pass on may be negative, and the division truncates towards zero. With
  aligned pieces a number of whole pieces of zero is a division by zero: \<open>None\<close>.
\<close>

definition expand_piece :: "nat \<Rightarrow> int \<Rightarrow> bitfield \<Rightarrow> picker_options \<Rightarrow> piece_picker \<Rightarrow> (nat \<times> nat) option" where
  "expand_piece piece contiguous_blocks have_bits opts s =
     (if contiguous_blocks = 0 then Some (piece, piece + 1)
      else let whole_pieces = (contiguous_blocks + int (m_blocks_per_piece s) - 1) sdiv int (m_blocks_per_piece s) in
        if align_expanded_pieces opts \<and> whole_pieces = 0 then None
        else let lower_limit = nat (if align_expanded_pieces opts then int piece - int piece smod whole_pieces
                                    else max 0 (int piece - whole_pieces + 1));
                 start = expand_down have_bits s lower_limit piece;
                 upper = nat (if align_expanded_pieces opts then int lower_limit + whole_pieces else int start + whole_pieces);
                 upper_limit = min upper (size_bf have_bits)
             in Some (start, expand_up have_bits s upper_limit (piece + 1)))"

text \<open>A trap ends the program: nothing is picked any more.\<close>

definition trap :: "pick \<Rightarrow> pick" where
  "trap p = p\<lparr>trapped := True, num_blocks := 0\<rparr>"

text \<open>
  The blocks of a run of free pieces. \<open>enough\<close> is the condition on the remaining preference that lets
  the inner loop stop: \<open>prefer = 0\<close> in \<^verbatim>\<open>add_blocks\<close>, \<open>prefer \<le> 0\<close> in the random mode of \<^verbatim>\<open>pick_pieces\<close>.
\<close>

fun emit_piece :: "(int \<Rightarrow> bool) \<Rightarrow> nat \<Rightarrow> nat list \<Rightarrow> int \<times> pick \<Rightarrow> int \<times> pick" where
  "emit_piece enough k [] st = st"
| "emit_piece enough k (j # js) (prefer, p) =
     (let p' = p\<lparr>interesting := interesting p @ [(k, j)], num_blocks := num_blocks p - 1\<rparr>; prefer' = prefer - 1 in
      if enough prefer' \<and> num_blocks p' \<le> 0 then (prefer', p') else emit_piece enough k js (prefer', p'))"

definition emit_pieces :: "(int \<Rightarrow> bool) \<Rightarrow> nat \<Rightarrow> nat \<Rightarrow> piece_picker \<Rightarrow> int \<times> pick \<Rightarrow> int \<times> pick" where
  "emit_pieces enough start end_piece s st = fold (\<lambda>k. emit_piece enough k [0..<blocks_in_piece s k]) [start..<end_piece] st"

definition add_blocks :: "nat \<Rightarrow> bitfield \<Rightarrow> int \<Rightarrow> peer \<Rightarrow> nat list \<Rightarrow> picker_options \<Rightarrow> piece_picker \<Rightarrow> pick \<Rightarrow> pick" where
  "add_blocks piece pieces prefer peer ignore opts s p =
     (if piece \<in> set ignore then p
      else let state = download_queue (pos_of s piece) in
        if state \<noteq> piece_open \<and> state \<noteq> piece_downloading then p
        else if state = piece_downloading
        then if prioritize_partials opts then p
             else case find_dl_piece piece_downloading piece s of None \<Rightarrow> p
                  | Some i \<Rightarrow> add_blocks_downloading (deref i s) pieces prefer peer opts s p
        else let p' =
               (if prefer = 0
                then let n = min (int (blocks_in_piece s piece)) (num_blocks p)
                     in p\<lparr>interesting := interesting p @ map (\<lambda>j. (piece, j)) [0..<nat n], num_blocks := num_blocks p - n\<rparr>
                else case expand_piece piece prefer pieces opts s of None \<Rightarrow> trap p
                     | Some (start, end_piece) \<Rightarrow> snd (emit_pieces (\<lambda>pr. pr = 0) start end_piece s (prefer, p)))
             in p'\<lparr>num_blocks := max (num_blocks p') 0\<rparr>)"

definition append_backup :: "pick \<Rightarrow> pick" where
  "append_backup p =
     (if backup p = [] then p
      else let to_copy = min (int (length (backup p))) (num_blocks p)
           in p\<lparr>interesting := interesting p @ take (nat to_copy) (backup p), backup := drop (nat to_copy) (backup p),
                num_blocks := num_blocks p - to_copy\<rparr>)"

definition append_backup2 :: "pick \<Rightarrow> pick" where
  "append_backup2 p =
     (if backup2 p = [] then p
      else let to_copy = min (int (length (backup2 p))) (num_blocks p)
           in p\<lparr>interesting := interesting p @ take (nat to_copy) (backup2 p), backup2 := drop (nat to_copy) (backup2 p),
                num_blocks := num_blocks p - to_copy\<rparr>)"

section \<open>The phases of \<^verbatim>\<open>pick_pieces\<close>\<close>

text \<open>A loop over pieces that returns as soon as enough blocks are found.\<close>

fun visit :: "(nat \<Rightarrow> pick \<Rightarrow> pick) \<Rightarrow> nat list \<Rightarrow> pick \<Rightarrow> pick" where
  "visit f [] p = p"
| "visit f (i # is) p = (let p' = f i p in if num_blocks p' \<le> 0 then p' else visit f is p')"

definition partial_compare_rarest_first :: "piece_picker \<Rightarrow> downloading_piece \<Rightarrow> downloading_piece \<Rightarrow> bool" where
  "partial_compare_rarest_first s lhs rhs =
     (let la = peer_count (pos_of s (dp_index lhs)); ra = peer_count (pos_of s (dp_index rhs)) in
      if la \<noteq> ra then la < ra
      else int (m_blocks_per_piece s) - int (finished lhs) - int (writing lhs) - int (requested lhs)
         < int (m_blocks_per_piece s) - int (finished rhs) - int (writing rhs) - int (requested rhs))"

definition sort_partials :: "piece_picker \<Rightarrow> downloading_piece list \<Rightarrow> downloading_piece list" where
  "sort_partials s parts =
     sort_key (\<lambda>dp. peer_count (pos_of s (dp_index dp)))
       (sort_key (\<lambda>dp. int (m_blocks_per_piece s) - int (finished dp) - int (writing dp) - int (requested dp)) parts)"

definition critical_only :: "picker_options \<Rightarrow> nat \<Rightarrow> piece_picker \<Rightarrow> bool" where
  "critical_only opts i s \<longleftrightarrow> time_critical_mode opts \<and> piece_priority (pos_of s i) \<noteq> top_priority"

fun partials_loop :: "bitfield \<Rightarrow> int \<Rightarrow> peer \<Rightarrow> picker_options \<Rightarrow> piece_picker \<Rightarrow> downloading_piece list \<Rightarrow> pick \<Rightarrow> pick" where
  "partials_loop pieces prefer peer opts s [] p = p"
| "partials_loop pieces prefer peer opts s (dp # rest) p =
     (let p' = add_blocks_downloading dp pieces prefer peer opts s (flag flag_prioritize_partials p) in
      if num_blocks p' \<le> 0 then p'
      else if int (length (backup p')) \<ge> num_blocks p' \<and> int (length (backup2 p')) \<ge> num_blocks p' then p'
      else partials_loop pieces prefer peer opts s rest p')"

definition pick_partials :: "bitfield \<Rightarrow> int \<Rightarrow> peer \<Rightarrow> picker_options \<Rightarrow> piece_picker \<Rightarrow> pick \<Rightarrow> pick" where
  "pick_partials pieces prefer peer opts s p =
     (let partials = filter (\<lambda>dp. \<not> critical_only opts (dp_index dp) s \<and> is_piece_free (dp_index dp) pieces s)
                       (m_downloads s piece_downloading);
          (p0, ordered) = (if rarest_first opts then (flag flag_rarest_first_partials p, sort_partials s partials) else (p, partials));
          p1 = partials_loop pieces prefer peer opts s ordered p0
      in unless_done p1 (\<lambda>p1. unless_done (append_backup p1) append_backup2))"

text \<open>The body shared by the loops over pieces: skip what is not free, note the path taken, add blocks.\<close>

definition pick_piece :: "picker_flag \<Rightarrow> bitfield \<Rightarrow> int \<Rightarrow> peer \<Rightarrow> nat list \<Rightarrow> picker_options \<Rightarrow> piece_picker \<Rightarrow> nat \<Rightarrow> pick \<Rightarrow> pick" where
  "pick_piece f pieces prefer peer ignore opts s i p =
     (if \<not> is_piece_free i pieces s then p else add_blocks i pieces prefer peer ignore opts s (flag f p))"

definition pick_suggested :: "bitfield \<Rightarrow> int \<Rightarrow> peer \<Rightarrow> picker_options \<Rightarrow> nat list \<Rightarrow> piece_picker \<Rightarrow> pick \<Rightarrow> pick" where
  "pick_suggested pieces prefer peer opts suggested s p =
     visit (\<lambda>i p. if critical_only opts i s then p else pick_piece flag_suggested_pieces pieces prefer peer [] opts s i p) suggested p"

definition top_pieces :: "piece_picker \<Rightarrow> nat list" where
  "top_pieces s = takeWhile (\<lambda>i. piece_priority (pos_of s i) = top_priority) (m_pieces s)"

definition refreshed :: "piece_picker \<Rightarrow> piece_picker" where
  "refreshed s = (if m_dirty s then update_pieces s else s)"

definition pick_sequential :: "bitfield \<Rightarrow> int \<Rightarrow> peer \<Rightarrow> picker_options \<Rightarrow> nat list \<Rightarrow> piece_picker \<Rightarrow> pick \<Rightarrow> pick" where
  "pick_sequential pieces prefer peer opts suggested s p =
     unless_done (visit (pick_piece flag_prio_sequential_pieces pieces prefer peer suggested opts s) (top_pieces s) p)
       (\<lambda>p. if time_critical_mode opts then p
            else let order = [m_cursor s..<m_reverse_cursor s]; f = (if reverse_opt opts then flag_reverse_sequential else flag_sequential_pieces)
                 in visit (\<lambda>i p. if piece_priority (pos_of s i) = top_priority then p
                                 else pick_piece f pieces prefer peer suggested opts s i p)
                      (if reverse_opt opts then rev order else order) p)"

text \<open>The extents of recently started pieces; an extent whose pieces we all have is forgotten.\<close>

fun extent_loop :: "(nat \<Rightarrow> pick \<Rightarrow> pick) \<Rightarrow> piece_picker \<Rightarrow> nat list \<Rightarrow> nat \<Rightarrow> nat option \<Rightarrow> pick \<Rightarrow> nat option \<times> pick" where
  "extent_loop f s [] idx to_erase p = (to_erase, p)"
| "extent_loop f s (e # es) idx to_erase p =
     (let p' = visit f (extent_range s e) p in
      if num_blocks p' \<le> 0 then (to_erase, p')
      else extent_loop f s es (idx + 1) (if \<forall>i \<in> set (extent_range s e). have_pos (pos_of s i) then Some idx else to_erase) p')"

definition pick_extents :: "bitfield \<Rightarrow> int \<Rightarrow> peer \<Rightarrow> picker_options \<Rightarrow> nat list \<Rightarrow> piece_picker \<Rightarrow> pick \<Rightarrow> pick \<times> piece_picker" where
  "pick_extents pieces prefer peer opts suggested s p =
     (let (to_erase, p') = extent_loop (pick_piece flag_extent_affinity pieces prefer peer suggested opts s) s (m_recent_extents s) 0 None p
      in (p', case to_erase of None \<Rightarrow> s | Some i \<Rightarrow> s\<lparr>m_recent_extents := erase_at i (m_recent_extents s)\<rparr>))"

definition reverse_order :: "piece_picker \<Rightarrow> nat list" where
  "reverse_order s =
     (let bs = m_priority_boundaries s in
      map (\<lambda>j. m_pieces s ! j) (concat (map (\<lambda>i. rev [priority_begin bs i..<priority_end bs i]) (rev [0..<length bs]))))"

definition pick_rarest :: "bitfield \<Rightarrow> int \<Rightarrow> peer \<Rightarrow> picker_options \<Rightarrow> nat list \<Rightarrow> piece_picker \<Rightarrow> pick \<Rightarrow> pick \<times> piece_picker" where
  "pick_rarest pieces prefer peer opts suggested s p =
     (if reverse_opt opts \<and> \<not> time_critical_mode opts
      then (visit (pick_piece flag_reverse_rarest_first pieces prefer peer suggested opts s) (reverse_order s) p, s)
      else let (p1, s1) = (if piece_extent_affinity opts then pick_extents pieces prefer peer opts suggested s p else (p, s))
           in (unless_done p1 (visit (pick_piece flag_rarest_first pieces prefer peer suggested opts s1)
                 (takeWhile (\<lambda>i. \<not> critical_only opts i s1) (m_pieces s1))), s1))"

text \<open>The random mode. The two nested loops advance one cursor and stop when it is back at its start.\<close>

definition wrap_piece :: "nat \<Rightarrow> piece_picker \<Rightarrow> nat" where
  "wrap_piece piece s = (if piece = num_pieces s then 0 else piece)"

fun random_loop :: "nat \<Rightarrow> bitfield \<Rightarrow> peer \<Rightarrow> picker_options \<Rightarrow> nat list \<Rightarrow> piece_picker \<Rightarrow> nat \<Rightarrow> nat \<Rightarrow> int \<Rightarrow> pick \<Rightarrow> pick option" where
  "random_loop 0 pieces peer opts suggested s start_piece piece prefer p = None"
| "random_loop (Suc fuel) pieces peer opts suggested s start_piece piece prefer p =
     (if num_blocks p \<le> 0 then Some p
      else if \<not> is_piece_free piece pieces s \<or> piece \<in> set suggested
      then let piece' = wrap_piece (piece + 1) s in
        if piece' = start_piece then Some p else random_loop fuel pieces peer opts suggested s start_piece piece' prefer p
      else let (piece', prefer', p') =
                 (if prefer > 1 \<and> \<not> downloading (pos_of s piece)
                  then case expand_piece piece prefer pieces opts s of None \<Rightarrow> (piece + 1, prefer, trap p)
                       | Some (start, end_piece) \<Rightarrow>
                           let (prefer', p') = emit_pieces (\<lambda>pr. pr \<le> 0) start end_piece s (prefer, flag flag_random_pieces p)
                           in (end_piece, prefer', p')
                  else (piece + 1, prefer, add_blocks piece pieces prefer peer [] opts s (flag flag_random_pieces p)));
               piece'' = wrap_piece piece' s
           in if piece'' = start_piece then Some p' else random_loop fuel pieces peer opts suggested s start_piece piece'' prefer' p')"

definition random_fuel :: "piece_picker \<Rightarrow> pick \<Rightarrow> nat" where
  "random_fuel s p = Suc (Suc (nat (num_blocks p)) * num_pieces s)"

text \<open>Choosing a block that another peer was already asked for.\<close>

function end_game_loop :: "peer \<Rightarrow> piece_picker \<Rightarrow> downloading_piece list \<Rightarrow> pick \<Rightarrow> pick \<times> piece_picker" where
  "end_game_loop peer s partials p =
     (if partials = [] then (p, s)
      else let (piece, s1) = random (length partials - 1) s; dp = partials ! piece; binfo = blocks_for_piece s1 dp;
               temp = map (\<lambda>j. (dp_index dp, j))
                 (filter (\<lambda>j. bi_state (binfo ! j) = state_requested \<and> bi_peer (binfo ! j) \<noteq> peer) [0..<length binfo]) in
        if temp \<noteq> []
        then let (r, s2) = random (length temp - 1) s1; p' = flag flag_end_game p
             in (p'\<lparr>interesting := interesting p' @ [temp ! r], num_blocks := num_blocks p' - 1\<rparr>, s2)
        else end_game_loop peer s1 (butlast (partials[piece := last partials])) p)"
  by pat_completeness auto
termination by (relation "measure (\<lambda>(_, _, partials, _). length partials)") auto

declare end_game_loop.simps [simp del]

definition pick_end_game :: "bitfield \<Rightarrow> peer \<Rightarrow> picker_options \<Rightarrow> piece_picker \<Rightarrow> pick \<Rightarrow> pick \<times> piece_picker" where
  "pick_end_game pieces peer opts s p =
     (let cap = min 200 (length (m_downloads s piece_downloading) + length (m_downloads s piece_full)) in
      if cap = 0 then (p, s)
      else end_game_loop peer s
             (take cap (filter (\<lambda>dp. get_bit pieces (dp_index dp) \<and> \<not> critical_only opts (dp_index dp) s) (m_downloads s piece_full))) p)"

section \<open>Picking\<close>

text \<open>The phase that depends on the picking mode.\<close>

definition pick_main :: "bitfield \<Rightarrow> int \<Rightarrow> peer \<Rightarrow> picker_options \<Rightarrow> nat list \<Rightarrow> piece_picker \<Rightarrow> pick \<Rightarrow> (pick \<times> piece_picker) option" where
  "pick_main pieces prefer peer opts suggested s p =
     (if sequential opts then let s1 = refreshed s in Some (pick_sequential pieces prefer peer opts suggested s1 p, s1)
      else if rarest_first opts then Some (pick_rarest pieces prefer peer opts suggested (refreshed s) p)
      else if time_critical_mode opts
      then Some (visit (pick_piece flag_time_critical pieces prefer peer suggested opts s) (top_pieces s) p, s)
      else let (start_piece, s1) = random (num_pieces s - 1) s
           in map_option (\<lambda>p'. (p', s1)) (random_loop (random_fuel s1 p) pieces peer opts suggested s1 start_piece start_piece prefer p))"

definition pick_backups :: "bitfield \<Rightarrow> peer \<Rightarrow> picker_options \<Rightarrow> piece_picker \<Rightarrow> pick \<Rightarrow> pick \<times> piece_picker" where
  "pick_backups pieces peer opts s p =
     (if num_blocks p \<le> 0 then (p, s)
      else let p1 = append_backup (flag flag_backup1 p) in
        if num_blocks p1 \<le> 0 then (p1, s)
        else let p2 = append_backup2 (flag flag_backup2 p1) in
          if num_blocks p2 \<le> 0 \<or> on_parole opts then (p2, s) else pick_end_game pieces peer opts s p2)"

definition pick_pieces :: "bitfield \<Rightarrow> piece_block list \<Rightarrow> int \<Rightarrow> int \<Rightarrow> peer \<Rightarrow> picker_options \<Rightarrow> nat list \<Rightarrow> nat \<Rightarrow> piece_picker
    \<Rightarrow> (pick \<times> piece_picker) option" where
  "pick_pieces pieces interesting_blocks num prefer_contiguous peer options suggested n_peers s =
     (let p0 = \<lparr>interesting = interesting_blocks, backup = [], backup2 = [], num_blocks = num, flags = [], trapped = False\<rparr>;
          num_partials = length (m_downloads s piece_downloading);
          (opts, prefer, p1) =
            (if num_partials > n_peers * 3 div 2 \<or> num_partials * m_blocks_per_piece s > 2048
             then (options\<lparr>prioritize_partials := True\<rparr>, 0, flag flag_partial_ratio p0) else (options, prefer_contiguous, p0));
          p2 = (if prefer \<noteq> 0 then flag flag_prefer_contiguous p1 else p1);
          p3 = (if prioritize_partials opts then pick_partials pieces prefer peer opts s p2 else p2) in
      if num_blocks p3 \<le> 0 then Some (p3, s)
      else let p4 = pick_suggested pieces prefer peer opts suggested s p3 in
        if num_blocks p4 \<le> 0 then Some (p4, s)
        else case pick_main pieces prefer peer opts suggested s p4 of None \<Rightarrow> None
             | Some (p5, s5) \<Rightarrow> Some (pick_backups pieces peer opts s5 p5))"

end
