(* ===== verification/Picker_Safe.thy ===== *)
theory Picker_Safe
  imports Picker_Pick
begin

text \<open>
  What \<^verbatim>\<open>pick_pieces\<close> picks: only blocks of pieces the peer has and we want, that are free or, in the
  end game, requested from somebody else; never more blocks than asked for; and its loops end.
\<close>

section \<open>Blocks that may be requested\<close>

definition free_piece :: "bitfield \<Rightarrow> piece_picker \<Rightarrow> nat \<Rightarrow> bool" where
  "free_piece pieces s i \<longleftrightarrow> i < num_pieces s \<and> is_piece_free i pieces s"

text \<open>A block that nobody was asked for, and one that another peer was asked for.\<close>

definition open_block :: "bitfield \<Rightarrow> piece_picker \<Rightarrow> piece_block \<Rightarrow> bool" where
  "open_block pieces s b \<longleftrightarrow> (let (i, j) = b in free_piece pieces s i \<and> j < blocks_in_piece s i \<and>
     (case dl_map s i of None \<Rightarrow> True | Some (bs, _, lk) \<Rightarrow> \<not> lk \<and> bi_state (bs ! j) = state_none))"

definition busy_block :: "bitfield \<Rightarrow> peer \<Rightarrow> piece_picker \<Rightarrow> piece_block \<Rightarrow> bool" where
  "busy_block pieces peer s b \<longleftrightarrow> (let (i, j) = b in free_piece pieces s i \<and> j < blocks_in_piece s i \<and>
     (case dl_map s i of None \<Rightarrow> False | Some (bs, _, _) \<Rightarrow> bi_state (bs ! j) = state_requested \<and> bi_peer (bs ! j) \<noteq> peer))"

definition all_open :: "bitfield \<Rightarrow> piece_picker \<Rightarrow> pick \<Rightarrow> bool" where
  "all_open pieces s p \<longleftrightarrow> (\<forall>b \<in> set (interesting p) \<union> set (backup p) \<union> set (backup2 p). open_block pieces s b)"

lemma all_openI: "all_open pieces s p \<Longrightarrow> set (interesting p') \<subseteq> set (interesting p) \<union> Collect (open_block pieces s) \<Longrightarrow>
   set (backup p') \<subseteq> set (backup p) \<Longrightarrow> set (backup2 p') \<subseteq> set (backup2 p) \<union> Collect (open_block pieces s) \<Longrightarrow> all_open pieces s p'"
  unfolding all_open_def by blast

lemma flag_fields [simp]:
  "interesting (flag f p) = interesting p" "backup (flag f p) = backup p" "backup2 (flag f p) = backup2 p"
  "num_blocks (flag f p) = num_blocks p"
  by (simp_all add: flag_def)

lemma all_open_simps [simp]:
  "all_open pieces s (flag f p) = all_open pieces s p" "all_open pieces s (p\<lparr>num_blocks := n\<rparr>) = all_open pieces s p"
  "all_open pieces s (trap p) = all_open pieces s p"
  by (simp_all add: all_open_def trap_def)

lemma entry_open_block:
  assumes M: "machine_inv s" and dp: "dp \<in> dps s" and f: "is_piece_free (dp_index dp) pieces s" and l: "\<not> locked dp"
    and j: "j < blocks_in_piece s (dp_index dp)" "bi_state (blocks_for_piece s dp ! j) = state_none"
  shows "open_block pieces s (dp_index dp, j)"
proof -
  have Q: "queues {} s" using M picker_inv_parts(7) by (simp add: machine_inv_def)
  have "dp_index dp < num_pieces s" using queues_dps_bound [OF Q dp] by simp
  then show ?thesis using dl_map_Some [OF Q dp refl] f l j by (simp add: open_block_def free_piece_def dl_view_def)
qed

lemma fresh_open_block:
  assumes "i < num_pieces s" "is_piece_free i pieces s" "\<not> downloading (pos_of s i)" "j < blocks_in_piece s i"
  shows "open_block pieces s (i, j)"
  using assms by (simp add: open_block_def free_piece_def dl_map_def)

section \<open>Blocks of one piece\<close>

lemma take_free_spec:
  "\<exists>xs. take_free i binfo js pref p = p\<lparr>interesting := interesting p @ map (Pair i) xs, num_blocks := num_blocks p - int (length xs)\<rparr> \<and>
     set xs \<subseteq> {j \<in> set js. bi_state (binfo ! j) = state_none} \<and> (pref \<le> 0 \<and> 0 < num_blocks p \<longrightarrow> int (length xs) \<le> num_blocks p)"
  (is "\<exists>xs. ?P js pref p xs")
proof (induction js arbitrary: pref p)
  case Nil
  show ?case by (rule exI [of _ "[]"]) simp
next
  case (Cons j js)
  show ?case
  proof (cases "bi_state (binfo ! j) = state_none")
    case False
    obtain xs where "?P js pref p xs" using Cons by blast
    then show ?thesis using False by (intro exI [of _ xs]) auto
  next
    case True
    let ?p = "p\<lparr>interesting := interesting p @ [(i, j)], num_blocks := num_blocks p - 1\<rparr>"
    let ?pref = "if 0 < pref then pref - 1 else pref"
    show ?thesis
    proof (cases "pref \<le> 0 \<and> num_blocks p - 1 \<le> 0")
      case stop: True
      then have "take_free i binfo (j # js) pref p = ?p" using True by simp
      then show ?thesis using True stop by (intro exI [of _ "[j]"]) auto
    next
      case go: False
      obtain xs where xs: "?P js ?pref ?p xs" using Cons by blast
      have "take_free i binfo (j # js) pref p = take_free i binfo js ?pref ?p" using True go by simp
      then show ?thesis using xs True go by (intro exI [of _ "j # xs"]) (auto split: if_splits)
    qed
  qed
qed

lemma add_downloading_open:
  assumes M: "machine_inv s" and dp: "dp \<in> dps s" and f: "is_piece_free (dp_index dp) pieces s" and a: "all_open pieces s p"
  shows "all_open pieces s (add_blocks_downloading dp pieces pref peer opts s p)"
proof (cases "locked dp")
  case True
  then show ?thesis using a by (simp add: add_blocks_downloading_def)
next
  case l: False
  let ?n = "blocks_in_piece s (dp_index dp)" and ?b = "blocks_for_piece s dp"
  obtain exclusive active contiguous first where r: "requested_from ?b ?n peer = (exclusive, active, contiguous, first)" by (metis prod_cases4)
  define order where "order = map (\<lambda>j. (j + (if pref = 0 then 0 else first)) mod ?n) [0..<?n]"
  have o: "j < ?n" if "j \<in> set order" for j using that by (auto simp: order_def)
  have b: "open_block pieces s (dp_index dp, j)" if "j \<in> set order" "bi_state (?b ! j) = state_none" for j
    by (rule entry_open_block [OF M dp f l o [OF that(1)] that(2)])
  have 1: "all_open pieces s (p\<lparr>backup2 := backup2 p @ map (\<lambda>j. (dp_index dp, j)) (filter (\<lambda>j. bi_state (?b ! j) = state_none) order)\<rparr>)"
    by (rule all_openI [OF a]) (use b in auto)
  have 2: "all_open pieces s (take_free (dp_index dp) ?b order pref p)"
    using take_free_spec [of "dp_index dp" ?b order pref p] by (elim exE, intro all_openI [OF a]) (use b in auto)
  have "add_blocks_downloading dp pieces pref peer opts s p \<in> {p, p\<lparr>backup2 := backup2 p @ map (\<lambda>j. (dp_index dp, j))
      (filter (\<lambda>j. bi_state (?b ! j) = state_none) order)\<rparr>, take_free (dp_index dp) ?b order pref p,
      (take_free (dp_index dp) ?b order pref p)\<lparr>num_blocks := 0\<rparr>}"
    using r unfolding add_blocks_downloading_def Let_def order_def by simp
  then show ?thesis using a 1 2 by auto
qed

section \<open>Runs of free pieces\<close>

lemma expand_down_spec: "start \<le> piece \<Longrightarrow> expand_down bits s lower start \<le> start \<and>
   (\<forall>k. expand_down bits s lower start \<le> k \<and> k < start \<longrightarrow> can_pick k bits s)"
proof (induction bits s lower start rule: expand_down.induct)
  case (1 bits s lower start)
  show ?case
  proof (cases "start > lower \<and> can_pick (start - 1) bits s")
    case True
    then have e: "expand_down bits s lower start = expand_down bits s lower (start - 1)" by (subst expand_down.simps) simp
    have "can_pick k bits s" if "k < start" "\<not> k < start - 1" for k using that True by (metis Suc_pred' less_Suc_eq less_nat_zero_code not_gr_zero)
    then show ?thesis using 1 True unfolding e by (meson diff_le_self le_trans)
  next
    case False
    then show ?thesis by (subst (1 2) expand_down.simps) auto
  qed
qed

lemma expand_up_spec: "e \<le> expand_up bits s upper e \<and> (expand_up bits s upper e \<le> upper \<or> expand_up bits s upper e = e) \<and>
   (\<forall>k. e \<le> k \<and> k < expand_up bits s upper e \<longrightarrow> can_pick k bits s)"
proof (induction bits s upper e rule: expand_up.induct)
  case (1 bits s upper e)
  show ?case
  proof (cases "e < upper \<and> can_pick e bits s")
    case True
    then have eq: "expand_up bits s upper e = expand_up bits s upper (e + 1)" by (subst expand_up.simps) simp
    have IH: "e + 1 \<le> expand_up bits s upper (e + 1)" "expand_up bits s upper (e + 1) \<le> upper \<or> expand_up bits s upper (e + 1) = e + 1"
      "\<forall>k. e + 1 \<le> k \<and> k < expand_up bits s upper (e + 1) \<longrightarrow> can_pick k bits s" using 1 True by auto
    have "can_pick k bits s" if "e \<le> k" "k < expand_up bits s upper (e + 1)" for k
      using that IH(3) True by (cases "k = e") auto
    then show ?thesis unfolding eq using IH True by auto
  next
    case False
    then show ?thesis by (subst (1 2 3 4) expand_up.simps) auto
  qed
qed

lemma expand_piece_spec:
  assumes "expand_piece i c bits opts s = Some (a, b)" and "i < size_bf bits"
  shows "a \<le> i" "i < b" "b \<le> size_bf bits" "a \<le> k \<Longrightarrow> k < b \<Longrightarrow> k = i \<or> can_pick k bits s"
proof -
  have "a \<le> i \<and> i < b \<and> b \<le> size_bf bits \<and> (\<forall>k. a \<le> k \<and> k < b \<longrightarrow> k = i \<or> can_pick k bits s)"
  proof (cases "c = 0")
    case True
    then show ?thesis using assms by (auto simp: expand_piece_def)
  next
    case False
    then obtain lower upper where ab: "a = expand_down bits s lower i" "b = expand_up bits s (min upper (size_bf bits)) (i + 1)"
      using assms(1) unfolding expand_piece_def Let_def if_not_P [OF False] by (simp split: if_split_asm; blast)
    have "k = i \<or> can_pick k bits s" if "a \<le> k" "k < b" for k
      using that expand_down_spec [of i i bits s lower] expand_up_spec [of "i + 1" bits s "min upper (size_bf bits)"] ab
      by (metis Suc_eq_plus1 le_refl linorder_neqE_nat not_less_eq linorder_not_less)
    then show ?thesis
      using expand_down_spec [of i i bits s lower] expand_up_spec [of "i + 1" bits s "min upper (size_bf bits)"] ab assms(2) by auto
  qed
  then show "a \<le> i" "i < b" "b \<le> size_bf bits" "a \<le> k \<Longrightarrow> k < b \<Longrightarrow> k = i \<or> can_pick k bits s" by auto
qed

lemma emit_piece_spec:
  "\<exists>xs. snd (emit_piece enough k js st) = (snd st)\<lparr>interesting := interesting (snd st) @ map (Pair k) xs,
       num_blocks := num_blocks (snd st) - int (length xs)\<rparr> \<and> set xs \<subseteq> set js \<and> (js \<noteq> [] \<longrightarrow> xs \<noteq> [])"
proof (induction js arbitrary: st)
  case Nil
  show ?case by (rule exI [of _ "[]"]) simp
next
  case (Cons j js)
  obtain pref p where st: "st = (pref, p)" by (cases st)
  let ?p = "p\<lparr>interesting := interesting p @ [(k, j)], num_blocks := num_blocks p - 1\<rparr>"
  show ?case
  proof (cases "enough (pref - 1) \<and> num_blocks p - 1 \<le> 0")
    case True
    then show ?thesis using st by (intro exI [of _ "[j]"]) (auto simp: Let_def)
  next
    case False
    obtain xs where xs: "snd (emit_piece enough k js (pref - 1, ?p)) = ?p\<lparr>interesting := interesting ?p @ map (Pair k) xs,
       num_blocks := num_blocks ?p - int (length xs)\<rparr>" "set xs \<subseteq> set js" using Cons [of "(pref - 1, ?p)"] by auto
    have "emit_piece enough k (j # js) st = emit_piece enough k js (pref - 1, ?p)" using False st by (auto simp: Let_def)
    then show ?thesis using xs st by (intro exI [of _ "j # xs"]) auto
  qed
qed

lemma emit_pieces_spec:
  "\<exists>xs. snd (emit_pieces enough a b s st) = (snd st)\<lparr>interesting := interesting (snd st) @ xs,
       num_blocks := num_blocks (snd st) - int (length xs)\<rparr> \<and> set xs \<subseteq> {(k, j). a \<le> k \<and> k < b \<and> j < blocks_in_piece s k} \<and>
     (a < b \<and> 0 < blocks_in_piece s a \<longrightarrow> xs \<noteq> [])"
proof -
  have "\<exists>xs. snd (fold (\<lambda>k. emit_piece enough k [0..<blocks_in_piece s k]) ks st) = (snd st)\<lparr>interesting := interesting (snd st) @ xs,
       num_blocks := num_blocks (snd st) - int (length xs)\<rparr> \<and> set xs \<subseteq> {(k, j). k \<in> set ks \<and> j < blocks_in_piece s k} \<and>
     (ks \<noteq> [] \<and> 0 < blocks_in_piece s (hd ks) \<longrightarrow> xs \<noteq> [])" for ks
  proof (induction ks arbitrary: st)
    case Nil
    show ?case by (rule exI [of _ "[]"]) simp
  next
    case (Cons k ks)
    let ?st = "emit_piece enough k [0..<blocks_in_piece s k] st"
    obtain xs where xs: "snd ?st = (snd st)\<lparr>interesting := interesting (snd st) @ map (Pair k) xs, num_blocks := num_blocks (snd st) - int (length xs)\<rparr>"
      "set xs \<subseteq> set [0..<blocks_in_piece s k]" "[0..<blocks_in_piece s k] \<noteq> [] \<longrightarrow> xs \<noteq> []" using emit_piece_spec by blast
    obtain ys where ys: "snd (fold (\<lambda>k. emit_piece enough k [0..<blocks_in_piece s k]) ks ?st) = (snd ?st)\<lparr>interesting := interesting (snd ?st) @ ys,
       num_blocks := num_blocks (snd ?st) - int (length ys)\<rparr>" "set ys \<subseteq> {(k, j). k \<in> set ks \<and> j < blocks_in_piece s k}" using Cons [of ?st] by blast
    show ?case using xs ys by (intro exI [of _ "map (Pair k) xs @ ys"]) auto
  qed
  from this [of "[a..<b]"] show ?thesis unfolding emit_pieces_def by (auto simp: hd_upt)
qed

lemma can_pick_free: "can_pick k pieces s \<Longrightarrow> is_piece_free k pieces s \<and> \<not> downloading (pos_of s k)"
  by (simp add: can_pick_def is_piece_free_def)

text \<open>The blocks of an expanded free piece are open.\<close>

lemma expanded_open:
  assumes sz: "size_bf pieces = num_pieces s" and f: "free_piece pieces s i" and d: "\<not> downloading (pos_of s i)"
    and e: "expand_piece i c pieces opts s = Some (a, b)" and a: "all_open pieces s p"
  shows "all_open pieces s (snd (emit_pieces enough a b s (pref, p)))"
proof -
  have i: "i < size_bf pieces" using f sz by (simp add: free_piece_def)
  note E = expand_piece_spec [OF e i]
  have "open_block pieces s (k, j)" if "a \<le> k" "k < b" "j < blocks_in_piece s k" for k j
  proof (rule fresh_open_block)
    show "k < num_pieces s" using that E(3) sz by simp
    show "is_piece_free k pieces s" "\<not> downloading (pos_of s k)" using E(4) [OF that(1,2)] can_pick_free f d by (auto simp: free_piece_def)
  qed (rule that)
  then show ?thesis using emit_pieces_spec [of enough a b s "(pref, p)"] by (elim exE, intro all_openI [OF a]) auto
qed

lemma find_dl_in_queue: "find_dl_piece q i s = Some it \<Longrightarrow> deref it s \<in> set (m_downloads s q) \<and> dp_index (deref it s) = i"
  using find_dl_piece_Some [of q i s it] by (metis deref_def nth_mem valid_it_def)

lemma add_blocks_open:
  assumes M: "machine_inv s" and sz: "size_bf pieces = num_pieces s" and f: "free_piece pieces s i" and a: "all_open pieces s p"
  shows "all_open pieces s (add_blocks i pieces pref peer ignore opts s p)"
proof -
  have dl: "all_open pieces s (add_blocks_downloading (deref it s) pieces pref peer opts s p)" if "find_dl_piece piece_downloading i s = Some it" for it
    by (rule add_downloading_open [OF M _ _ a]) (use find_dl_in_queue [OF that] f in \<open>auto simp: dps_def free_piece_def\<close>)
  have fresh: "all_open pieces s (snd (emit_pieces (\<lambda>pr. pr = 0) start end_piece s (pref, p)))"
    if "\<not> downloading (pos_of s i)" "expand_piece i pref pieces opts s = Some (start, end_piece)" for start end_piece
    by (rule expanded_open [OF sz f that(1,2) a])
  have one: "all_open pieces s (p\<lparr>interesting := interesting p @ map (\<lambda>j. (i, j)) [0..<nat (min (int (blocks_in_piece s i)) n)], num_blocks := m\<rparr>)"
    if "\<not> downloading (pos_of s i)" for n m
    by (rule all_openI [OF a]) (use fresh_open_block [OF _ _ that] f in \<open>auto simp: free_piece_def\<close>)
  have o: "\<not> downloading (pos_of s i)" if "download_queue (pos_of s i) = piece_open" using that by (simp add: downloading_def download_queue_open)
  show ?thesis unfolding add_blocks_def Let_def
    using a dl fresh [OF o] one [OF o] by (auto split: option.split prod.split)
qed

lemma append_open: "all_open pieces s p \<Longrightarrow> all_open pieces s (append_backup p)" "all_open pieces s p \<Longrightarrow> all_open pieces s (append_backup2 p)"
  unfolding append_backup_def append_backup2_def all_open_def Let_def by (auto dest: in_set_takeD in_set_dropD)

section \<open>The phases\<close>

lemma visit_inv: "(\<And>i p. i \<in> set is \<Longrightarrow> I p \<Longrightarrow> I (f i p)) \<Longrightarrow> I p \<Longrightarrow> I (visit f is p)"
  by (induction "is" arbitrary: p) (simp_all add: Let_def)

lemma unless_done_inv: "I p \<Longrightarrow> (\<And>p. I p \<Longrightarrow> I (f p)) \<Longrightarrow> I (unless_done p f)"
  by (simp add: unless_done_def)

lemma pick_piece_open:
  assumes "machine_inv s" "size_bf pieces = num_pieces s" "i < num_pieces s" "all_open pieces s p"
  shows "all_open pieces s (pick_piece f pieces pref peer ignore opts s i p)"
  using assms add_blocks_open [of s pieces i "flag f p"] by (simp add: pick_piece_def free_piece_def)

lemma partials_loop_open:
  assumes M: "machine_inv s" and d: "\<And>dp. dp \<in> set parts \<Longrightarrow> dp \<in> dps s \<and> is_piece_free (dp_index dp) pieces s" and a: "all_open pieces s p"
  shows "all_open pieces s (partials_loop pieces pref peer opts s parts p)"
  using d a
proof (induction parts arbitrary: p)
  case (Cons dp parts)
  then have "all_open pieces s (add_blocks_downloading dp pieces pref peer opts s (flag flag_prioritize_partials p))"
    using add_downloading_open [OF M] by simp
  then show ?case using Cons by (simp add: Let_def)
qed simp

lemma pick_partials_open:
  assumes M: "machine_inv s" and a: "all_open pieces s p"
  shows "all_open pieces s (pick_partials pieces pref peer opts s p)"
proof -
  define parts where "parts = filter (\<lambda>dp. \<not> critical_only opts (dp_index dp) s \<and> is_piece_free (dp_index dp) pieces s) (m_downloads s piece_downloading)"
  have d: "dp \<in> dps s \<and> is_piece_free (dp_index dp) pieces s" if "dp \<in> set parts" for dp using that by (auto simp: parts_def dps_def)
  have "all_open pieces s (partials_loop pieces pref peer opts s parts p)"
    "all_open pieces s (partials_loop pieces pref peer opts s (sort_partials s parts) (flag flag_rarest_first_partials p))"
    by (rule partials_loop_open [OF M]; use d a in \<open>auto simp: sort_partials_def\<close>)+
  moreover have "all_open pieces s q \<Longrightarrow> all_open pieces s (unless_done q (\<lambda>p1. unless_done (append_backup p1) append_backup2))" for q
    by (simp add: unless_done_def append_open)
  ultimately show ?thesis unfolding pick_partials_def Let_def parts_def [symmetric] by simp
qed

lemma pick_suggested_open:
  assumes "machine_inv s" "size_bf pieces = num_pieces s" "\<forall>i \<in> set suggested. i < num_pieces s" "all_open pieces s p"
  shows "all_open pieces s (pick_suggested pieces pref peer opts suggested s p)"
  unfolding pick_suggested_def by (rule visit_inv [where I = "all_open pieces s"]) (use assms in \<open>auto intro: pick_piece_open\<close>)

lemma ordered_set: "ordered pr n ps bs \<Longrightarrow> i \<in> set ps \<Longrightarrow> i < n"
proof -
  assume "ordered pr n ps bs" "i \<in> set ps"
  then obtain Bs where B: "ps = concat Bs" "bucketed pr n Bs" by (auto simp: ordered_def)
  then obtain B where "B \<in> set Bs" "i \<in> set B" using \<open>i \<in> set ps\<close> by auto
  then obtain k where k: "k < length Bs" "i \<in> set (Bs ! k)" by (metis in_set_conv_nth)
  have "set (Bs ! k) = bsets pr n (length Bs) ! k" using B(2) k(1) by (metis bucketed_def nth_map)
  then show "i < n" using k by (simp add: bsets_nth)
qed

lemma clean_list: "machine_inv s \<Longrightarrow> \<not> m_dirty s \<Longrightarrow> i \<in> set (m_pieces s) \<Longrightarrow> i < num_pieces s"
  using ordered_set [of "prio_of s" "num_pieces s" "m_pieces s" "m_priority_boundaries s" i]
  by (simp add: machine_inv_def picker_inv_def picker_ok_def pieces_inv_def order_inv_def list_ok_for_def)

lemma cursor_bound: "machine_inv s \<Longrightarrow> i < m_reverse_cursor s \<Longrightarrow> i < num_pieces s"
  by (simp add: machine_inv_def picker_inv_def counters_inv_def cursors_ok_def last_open_def)

lemma pick_sequential_open:
  assumes "machine_inv s" "\<not> m_dirty s" "size_bf pieces = num_pieces s" "all_open pieces s p"
  shows "all_open pieces s (pick_sequential pieces pref peer opts suggested s p)"
proof -
  have 1: "all_open pieces s (visit (pick_piece flag_prio_sequential_pieces pieces pref peer suggested opts s) (top_pieces s) p)"
    by (rule visit_inv [where I = "all_open pieces s"])
      (use assms clean_list [OF assms(1,2)] in \<open>auto intro!: pick_piece_open simp: top_pieces_def dest: set_takeWhileD\<close>)
  have "all_open pieces s (visit (\<lambda>i p. if piece_priority (pos_of s i) = top_priority then p else pick_piece f pieces pref peer suggested opts s i p) is q)"
    if "set is \<subseteq> {m_cursor s..<m_reverse_cursor s}" "all_open pieces s q" for f q "is"
    by (rule visit_inv [where I = "all_open pieces s"]) (use assms that cursor_bound [OF assms(1)] in \<open>auto intro!: pick_piece_open\<close>)
  note 2 = this
  show ?thesis unfolding pick_sequential_def
    by (rule unless_done_inv [where I = "all_open pieces s", OF 1]) (auto simp: Let_def intro!: 2)
qed

lemma extent_range_bound: "i \<in> set (extent_range s e) \<Longrightarrow> i < num_pieces s"
  by (auto simp: extent_range_def Let_def)

lemma extent_loop_open:
  assumes f: "\<And>i p. i < num_pieces s \<Longrightarrow> I p \<Longrightarrow> I (f i p)"
  shows "I p \<Longrightarrow> I (snd (extent_loop f s es idx te p))"
proof (induction es arbitrary: idx te p)
  case (Cons e es)
  have "I (visit f (extent_range s e) p)" by (rule visit_inv [where I = I]) (use f extent_range_bound Cons.prems in auto)
  then show ?case using Cons.IH by (simp add: Let_def)
qed simp

lemma reverse_order_set:
  assumes "ordered pr n (m_pieces s) (m_priority_boundaries s)" "i \<in> set (reverse_order s)"
  shows "i \<in> set (m_pieces s)"
proof -
  obtain Bs where B: "m_pieces s = concat Bs" "m_priority_boundaries s = ends 0 Bs" using assms(1) by (auto simp: ordered_def)
  have "length (concat (take k Bs)) \<le> length (concat Bs)" for k by (metis append_take_drop_id concat_append le_add1 length_append)
  then have "k < length Bs \<Longrightarrow> ends 0 Bs ! k \<le> length (concat Bs)" for k using ends_nth [of k Bs 0] by simp
  moreover obtain k j where "k < length (ends 0 Bs)" "j < ends 0 Bs ! k" "i = m_pieces s ! j"
    using assms(2) B unfolding reverse_order_def Let_def priority_end_def by auto
  ultimately show ?thesis using B by (metis length_ends nth_mem order_less_le_trans)
qed

lemma abs_open: "abs_picker s' = abs_picker s \<Longrightarrow> open_block pieces s' = open_block pieces s" "abs_picker s' = abs_picker s \<Longrightarrow> busy_block pieces peer s' = busy_block pieces peer s"
proof -
  assume A: "abs_picker s' = abs_picker s"
  have n: "num_pieces s' = num_pieces s" and d: "dl_map s' = dl_map s" using arg_cong [OF A, of a_pieces] arg_cong [OF A, of a_entries] by simp_all
  have h: "have_pos (pos_of s' i) = have_pos (pos_of s i)" "filtered (pos_of s' i) = filtered (pos_of s i)"
    "blocks_in_piece s' i = blocks_in_piece s i" if "i < num_pieces s" for i
    using fun_cong [OF arg_cong [OF A, of a_have], of i] fun_cong [OF arg_cong [OF A, of a_prio], of i]
      arg_cong [OF fun_cong [OF arg_cong [OF A, of a_blank], of i], of length] that n
    by (simp_all add: abs_picker_def filtered_def fresh_def)
  then have f: "free_piece pieces s' = free_piece pieces s" using n by (auto simp: free_piece_def is_piece_free_def fun_eq_iff)
  show "open_block pieces s' = open_block pieces s" "busy_block pieces peer s' = busy_block pieces peer s"
    using h(3) by (auto simp: open_block_def busy_block_def f d free_piece_def fun_eq_iff split: option.split)
qed

lemma all_open_abs:
  assumes "abs_picker s' = abs_picker s"
  shows "all_open pieces s' p = all_open pieces s p"
  unfolding all_open_def abs_open(1) [OF assms] by (rule refl)

lemma pick_extents_open:
  assumes "machine_inv s" "size_bf pieces = num_pieces s" "all_open pieces s p"
    and "pick_extents pieces pref peer opts suggested s p = (p', s')"
  shows "all_open pieces s p'" "machine_inv s'" "abs_picker s' = abs_picker s" "m_pieces s' = m_pieces s" "m_dirty s' = m_dirty s"
    "num_pieces s' = num_pieces s"
proof -
  let ?f = "pick_piece flag_extent_affinity pieces pref peer suggested opts s"
  obtain te q where q: "extent_loop ?f s (m_recent_extents s) 0 None p = (te, q)" by (metis surj_pair)
  have te: "q = p'" using assms(4) by (simp add: pick_extents_def q)
  have "all_open pieces s (snd (extent_loop ?f s (m_recent_extents s) 0 None p))"
    by (rule extent_loop_open [where I = "all_open pieces s"]) (use pick_piece_open [OF assms(1,2)] assms(3) in auto)
  then show "all_open pieces s p'" using q te by simp
  have "s' = s \<or> (\<exists>xs. s' = s\<lparr>m_recent_extents := xs\<rparr>)" using assms(4) by (cases te) (auto simp: pick_extents_def q)
  then obtain xs where s': "s' = s\<lparr>m_recent_extents := xs\<rparr>" by (metis piece_picker.surjective piece_picker.update_convs(4))
  have v: "same_view s s'" "geo s' = geo s" "core s' = core s" unfolding s' by (simp_all add: same_view_def cview_def core_def)
  have "pieces_inv s'" using pieces_inv_core [OF v(3)] assms(1) picker_inv_parts(4) by (simp add: machine_inv_def)
  then show "machine_inv s'" "abs_picker s' = abs_picker s" using step_view [OF assms(1) v(1,2)] by auto
  show "m_pieces s' = m_pieces s" "m_dirty s' = m_dirty s" "num_pieces s' = num_pieces s" by (simp_all add: s' num_pieces_def)
qed

lemma pick_rarest_open:
  assumes M: "machine_inv s" "\<not> m_dirty s" and sz: "size_bf pieces = num_pieces s" and a: "all_open pieces s p"
    and r: "pick_rarest pieces pref peer opts suggested s p = (p', s')"
  shows "all_open pieces s p' \<and> machine_inv s' \<and> abs_picker s' = abs_picker s"
proof -
  have o: "ordered (prio_of s) (num_pieces s) (m_pieces s) (m_priority_boundaries s)"
    using M by (simp add: machine_inv_def picker_inv_def picker_ok_def pieces_inv_def order_inv_def list_ok_for_def)
  have v: "all_open pieces s (visit (pick_piece f pieces pref peer suggested opts s) is q)"
    if "set is \<subseteq> set (m_pieces s)" "all_open pieces s q" for f "is" q
    by (rule visit_inv [where I = "all_open pieces s"]) (use that M sz clean_list [OF M] in \<open>auto intro!: pick_piece_open\<close>)
  show ?thesis
  proof (cases "reverse_opt opts \<and> \<not> time_critical_mode opts")
    case True
    then show ?thesis using r v [of "reverse_order s" p] reverse_order_set [OF o] a M by (auto simp: pick_rarest_def)
  next
    case False
    obtain p1 s1 where 1: "(if piece_extent_affinity opts then pick_extents pieces pref peer opts suggested s p else (p, s)) = (p1, s1)" by fastforce
    have e: "all_open pieces s p1 \<and> machine_inv s1 \<and> abs_picker s1 = abs_picker s \<and> m_pieces s1 = m_pieces s \<and> m_dirty s1 = m_dirty s \<and> num_pieces s1 = num_pieces s"
      using 1 a M pick_extents_open [OF M(1) sz a, of pref peer opts suggested p1 s1] by (auto split: if_splits)
    have "all_open pieces s1 (visit (pick_piece flag_rarest_first pieces pref peer suggested opts s1) (takeWhile (\<lambda>i. \<not> critical_only opts i s1) (m_pieces s1)) q)"
      if "all_open pieces s1 q" for q
      by (rule visit_inv [where I = "all_open pieces s1"])
        (use that e M sz clean_list [of s1] in \<open>auto intro!: pick_piece_open dest: set_takeWhileD\<close>)
    then have "all_open pieces s1 (unless_done p1 (visit (pick_piece flag_rarest_first pieces pref peer suggested opts s1)
        (takeWhile (\<lambda>i. \<not> critical_only opts i s1) (m_pieces s1))))"
      using e all_open_abs [of s1 s pieces p1] by (simp add: unless_done_def)
    moreover have "p' = unless_done p1 (visit (pick_piece flag_rarest_first pieces pref peer suggested opts s1)
        (takeWhile (\<lambda>i. \<not> critical_only opts i s1) (m_pieces s1)))" "s' = s1"
      using r 1 unfolding pick_rarest_def if_not_P [OF False] by auto
    ultimately show ?thesis using e all_open_abs [of s1 s pieces p'] by simp
  qed
qed

section \<open>The random mode\<close>

text \<open>What the random mode needs of the geometry: every piece has a block.\<close>

definition has_blocks :: "piece_picker \<Rightarrow> bool" where
  "has_blocks s \<longleftrightarrow> 0 < m_blocks_per_piece s \<and> 0 < m_blocks_in_last_piece s"

lemma has_blocks_pos: "has_blocks s \<Longrightarrow> 0 < blocks_in_piece s i"
  by (simp add: has_blocks_def blocks_in_piece_def)

lemma requested_from_cases: "\<exists>e a c f. requested_from bs n peer = (e, a, c, f)"
  by (metis prod_cases4)

lemma add_downloading_num: "num_blocks (add_blocks_downloading dp pieces pref peer opts s p) \<le> max 0 (num_blocks p)"
proof -
  let ?n = "blocks_in_piece s (dp_index dp)" and ?b = "blocks_for_piece s dp"
  obtain e a c f where r: "requested_from ?b ?n peer = (e, a, c, f)" using requested_from_cases by blast
  define order where "order = map (\<lambda>j. (j + (if pref = 0 then 0 else f)) mod ?n) [0..<?n]"
  let ?t = "take_free (dp_index dp) ?b order pref p"
  have t: "num_blocks ?t \<le> num_blocks p" using take_free_spec [of "dp_index dp" ?b order pref p] by auto
  have "num_blocks (add_blocks_downloading dp pieces pref peer opts s p) \<in> {num_blocks p, num_blocks ?t, 0}"
    using r unfolding add_blocks_downloading_def Let_def order_def by simp
  then show ?thesis using t by auto
qed

lemma add_blocks_num: "num_blocks (add_blocks i pieces pref peer ignore opts s p) \<le> max 0 (num_blocks p)"
proof -
  have e: "num_blocks (snd (emit_pieces (\<lambda>pr. pr = 0) a b s (pref, p))) \<le> num_blocks p" for a b
    using emit_pieces_spec [of "\<lambda>pr. pr = 0" a b s "(pref, p)"] by auto
  note d = add_downloading_num [of _ pieces pref peer opts s p]
  show ?thesis
  proof (cases "i \<in> set ignore \<or> download_queue (pos_of s i) \<noteq> piece_open")
    case True
    then show ?thesis using d by (auto simp: add_blocks_def Let_def split: option.split)
  next
    case False
    then show ?thesis using e
      by (auto simp: add_blocks_def Let_def trap_def max.coboundedI2 min_def split: option.split)
  qed
qed

text \<open>The distance from the cursor to the piece the loop started with, going up and around.\<close>

definition distance :: "nat \<Rightarrow> nat \<Rightarrow> nat \<Rightarrow> nat" where
  "distance n start_piece piece = (if piece < start_piece then start_piece - piece else n - piece + start_piece)"

lemma distance_step:
  assumes "piece < num_pieces s" "start_piece < num_pieces s" "wrap_piece (piece + 1) s \<noteq> start_piece"
  shows "distance (num_pieces s) start_piece (wrap_piece (piece + 1) s) < distance (num_pieces s) start_piece piece"
    "wrap_piece (piece + 1) s < num_pieces s"
  using assms by (auto simp: wrap_piece_def distance_def)

lemma distance_le: "piece < n \<Longrightarrow> start_piece < n \<Longrightarrow> distance n start_piece piece \<le> n \<and> 0 < distance n start_piece piece"
  by (auto simp: distance_def)

lemma budget_step:
  fixes n b b' d d' :: nat
  assumes "b' < b" "d' \<le> n" "0 < d"
  shows "b' * n + d' < b * n + d"
proof -
  have "b' * n + n = Suc b' * n" by simp
  also have "\<dots> \<le> b * n" using assms(1) by (intro mult_right_mono) simp_all
  finally show ?thesis using assms(2,3) by simp
qed

text \<open>One round of the loop: it stops, or the budget goes down.\<close>

definition random_step :: "bitfield \<Rightarrow> peer \<Rightarrow> picker_options \<Rightarrow> piece_picker \<Rightarrow> nat \<Rightarrow> int \<Rightarrow> pick \<Rightarrow> nat \<times> int \<times> pick" where
  "random_step pieces peer opts s piece prefer p =
     (if prefer > 1 \<and> \<not> downloading (pos_of s piece)
      then case expand_piece piece prefer pieces opts s of None \<Rightarrow> (piece + 1, prefer, trap p)
           | Some (start, end_piece) \<Rightarrow>
               let (prefer', p') = emit_pieces (\<lambda>pr. pr \<le> 0) start end_piece s (prefer, flag flag_random_pieces p)
               in (end_piece, prefer', p')
      else (piece + 1, prefer, add_blocks piece pieces prefer peer [] opts s (flag flag_random_pieces p)))"

lemma random_loop_step:
  "random_loop (Suc fuel) pieces peer opts suggested s start_piece piece pref p =
     (if num_blocks p \<le> 0 then Some p
      else if \<not> is_piece_free piece pieces s \<or> piece \<in> set suggested
      then let piece' = wrap_piece (piece + 1) s in
        if piece' = start_piece then Some p else random_loop fuel pieces peer opts suggested s start_piece piece' pref p
      else let (piece', pref', p') = random_step pieces peer opts s piece pref p; piece'' = wrap_piece piece' s
           in if piece'' = start_piece then Some p' else random_loop fuel pieces peer opts suggested s start_piece piece'' pref' p')"
  by (simp only: random_loop.simps(2) random_step_def)

declare random_loop.simps(2) [simp del]

lemma random_step_spec:
  assumes sz: "size_bf pieces = num_pieces s" and hb: "has_blocks s" and f: "free_piece pieces s piece" and n: "0 < num_blocks p"
    and r: "random_step pieces peer opts s piece pref p = (piece', pref', p')"
  shows "piece' \<le> num_pieces s" "piece < piece'" "piece' = piece + 1 \<and> num_blocks p' \<le> num_blocks p \<or> num_blocks p' < num_blocks p"
    "machine_inv s \<Longrightarrow> all_open pieces s p \<Longrightarrow> all_open pieces s p'"
proof -
  have i: "piece < num_pieces s" using f by (simp add: free_piece_def)
  have "piece' \<le> num_pieces s \<and> piece < piece' \<and> (piece' = piece + 1 \<and> num_blocks p' \<le> num_blocks p \<or> num_blocks p' < num_blocks p) \<and>
    (machine_inv s \<and> all_open pieces s p \<longrightarrow> all_open pieces s p')"
  proof (cases "pref > 1 \<and> \<not> downloading (pos_of s piece)")
    case run: True
    show ?thesis
    proof (cases "expand_piece piece pref pieces opts s")
      case None
      then show ?thesis using run r i n by (auto simp: random_step_def trap_def all_open_def)
    next
      case (Some ab)
      obtain a b where ab: "expand_piece piece pref pieces opts s = Some (a, b)" using Some by (cases ab) simp
      obtain q where q: "emit_pieces (\<lambda>pr. pr \<le> 0) a b s (pref, flag flag_random_pieces p) = (fst q, snd q)" by (metis prod.collapse)
      have e: "piece' = b" "p' = snd (emit_pieces (\<lambda>pr. pr \<le> 0) a b s (pref, flag flag_random_pieces p))"
        using r run ab q by (auto simp: random_step_def)
      note E = expand_piece_spec [OF ab, unfolded sz, OF i]
      have "num_blocks p' < num_blocks p"
        using emit_pieces_spec [of "\<lambda>pr. pr \<le> 0" a b s "(pref, flag flag_random_pieces p)"] e(2) E(1,2) has_blocks_pos [OF hb, of a] by auto
      then show ?thesis using e E(2,3) expanded_open [OF sz f _ ab, of "flag flag_random_pieces p"] run by auto
    qed
  next
    case False
    then have e: "piece' = piece + 1" "p' = add_blocks piece pieces pref peer [] opts s (flag flag_random_pieces p)"
      using r unfolding random_step_def if_not_P [OF False] by auto
    then show ?thesis using i n add_blocks_num [of piece pieces pref peer "[]" opts s "flag flag_random_pieces p"]
        add_blocks_open [OF _ sz f, of "flag flag_random_pieces p"] by auto
  qed
  then show "piece' \<le> num_pieces s" "piece < piece'" "piece' = piece + 1 \<and> num_blocks p' \<le> num_blocks p \<or> num_blocks p' < num_blocks p"
    "machine_inv s \<Longrightarrow> all_open pieces s p \<Longrightarrow> all_open pieces s p'" by auto
qed

lemma random_loop_spec:
  assumes sz: "size_bf pieces = num_pieces s" and hb: "has_blocks s" and st: "start_piece < num_pieces s"
  shows "piece < num_pieces s \<Longrightarrow> nat (num_blocks p) * num_pieces s + distance (num_pieces s) start_piece piece \<le> fuel \<Longrightarrow>
    \<exists>p'. random_loop fuel pieces peer opts suggested s start_piece piece pref p = Some p' \<and>
      (machine_inv s \<and> all_open pieces s p \<longrightarrow> all_open pieces s p')"
proof (induction fuel arbitrary: piece pref p)
  case 0
  then show ?case using distance_le [OF 0(1) st] by simp
next
  case (Suc fuel)
  let ?n = "num_pieces s" let ?d = "distance ?n start_piece"
  let ?loop = "\<lambda>fuel piece pref p. random_loop fuel pieces peer opts suggested s start_piece piece pref p"
  have next_fuel: "nat (num_blocks p') * ?n + ?d (wrap_piece piece' s) \<le> fuel"
    if "piece < piece'" "piece' \<le> ?n" "wrap_piece piece' s \<noteq> start_piece" "0 < num_blocks p"
      "piece' = piece + 1 \<and> num_blocks p' \<le> num_blocks p \<or> num_blocks p' < num_blocks p" for piece' p'
  proof -
    have w: "wrap_piece piece' s < ?n" using that(1,2) by (auto simp: wrap_piece_def)
    have "nat (num_blocks p') * ?n + ?d (wrap_piece piece' s) < nat (num_blocks p) * ?n + ?d piece"
    proof (cases "num_blocks p' < num_blocks p")
      case True
      then have "nat (num_blocks p') < nat (num_blocks p)" using that(4) by simp
      then show ?thesis using budget_step distance_le [OF w st] distance_le [OF Suc.prems(1) st] by blast
    next
      case False
      then have e: "piece' = piece + 1" "nat (num_blocks p') \<le> nat (num_blocks p)" using that(5) by auto
      have "?d (wrap_piece piece' s) < ?d piece" using distance_step(1) [OF Suc.prems(1) st] that(3) e(1) by simp
      then show ?thesis using add_le_less_mono [OF mult_right_mono [OF e(2)], of ?n] by blast
    qed
    then show ?thesis using Suc.prems(2) by simp
  qed
  show ?case
  proof (cases "num_blocks p \<le> 0")
    case True
    then show ?thesis by (simp add: random_loop_step)
  next
    case False
    then have n: "0 < num_blocks p" by simp
    show ?thesis
    proof (cases "\<not> is_piece_free piece pieces s \<or> piece \<in> set suggested")
      case skip: True
      show ?thesis
      proof (cases "wrap_piece (piece + 1) s = start_piece")
        case True
        then show ?thesis using skip False by (simp add: random_loop_step)
      next
        case go: False
        have "\<exists>p'. ?loop fuel (wrap_piece (piece + 1) s) pref p = Some p' \<and> (machine_inv s \<and> all_open pieces s p \<longrightarrow> all_open pieces s p')"
          by (rule Suc.IH) (use next_fuel [of "piece + 1" p] distance_step(2) [OF Suc.prems(1) st go] go Suc.prems(1) n in auto)
        then show ?thesis using skip False go by (simp add: random_loop_step Let_def)
      qed
    next
      case pick: False
      obtain piece' pref' p' where r: "random_step pieces peer opts s piece pref p = (piece', pref', p')" by (metis prod_cases3)
      have f: "free_piece pieces s piece" using pick Suc.prems(1) by (simp add: free_piece_def)
      note S = random_step_spec [OF sz hb f n r]
      have eq: "?loop (Suc fuel) piece pref p = (if wrap_piece piece' s = start_piece then Some p' else ?loop fuel (wrap_piece piece' s) pref' p')"
        using pick False r by (simp add: random_loop_step Let_def)
      show ?thesis
      proof (cases "wrap_piece piece' s = start_piece")
        case True
        then show ?thesis using eq S(4) by auto
      next
        case go: False
        have "wrap_piece piece' s < ?n" using S(1,2) by (auto simp: wrap_piece_def)
        then have "\<exists>q. ?loop fuel (wrap_piece piece' s) pref' p' = Some q \<and> (machine_inv s \<and> all_open pieces s p' \<longrightarrow> all_open pieces s q)"
          by (rule Suc.IH) (rule next_fuel [OF S(2,1) go n S(3)])
        then show ?thesis using eq go S(4) by auto
      qed
    qed
  qed
qed

lemma random_fuel_enough:
  assumes "size_bf pieces = num_pieces s" "has_blocks s" "start_piece < num_pieces s"
  shows "\<exists>p'. random_loop (random_fuel s p) pieces peer opts suggested s start_piece start_piece pref p = Some p' \<and>
      (machine_inv s \<and> all_open pieces s p \<longrightarrow> all_open pieces s p')"
  by (rule random_loop_spec [OF assms assms(3)]) (use distance_le [OF assms(3,3)] in \<open>simp add: random_fuel_def\<close>)

section \<open>The end game\<close>

lemma random_view: "random n s = (r, s') \<Longrightarrow> same_view s s' \<and> geo s' = geo s \<and> core s' = core s \<and> m_downloads s' = m_downloads s \<and> r \<le> n \<and>
    num_pieces s' = num_pieces s \<and> has_blocks s' = has_blocks s \<and> m_pieces s' = m_pieces s"
  by (auto simp: random_def same_view_def geo_def core_def num_pieces_def has_blocks_def qview_def eview_def cview_def split: list.splits)

lemma random_machine: "machine_inv s \<Longrightarrow> random n s = (r, s') \<Longrightarrow> machine_inv s' \<and> abs_picker s' = abs_picker s"
  using step_view [of s s'] random_view [of n s r s'] pieces_inv_core [of s' s] picker_inv_parts(4) by (auto simp: machine_inv_def)

definition end_ok :: "bitfield \<Rightarrow> peer \<Rightarrow> piece_picker \<Rightarrow> pick \<Rightarrow> bool" where
  "end_ok pieces peer s p \<longleftrightarrow> (\<forall>b \<in> set (interesting p). open_block pieces s b \<or> busy_block pieces peer s b)"

lemma end_ok_abs:
  assumes "abs_picker s' = abs_picker s"
  shows "end_ok pieces peer s' p = end_ok pieces peer s p"
  unfolding end_ok_def abs_open(1) [OF assms] abs_open(2) [OF assms] by (rule refl)

lemma all_open_end_ok: "all_open pieces s p \<Longrightarrow> end_ok pieces peer s p"
  by (simp add: all_open_def end_ok_def)

lemma butlast_swap_set:
  assumes "xs \<noteq> []" "k < length xs"
  shows "set (butlast (xs[k := last xs])) \<subseteq> set xs"
proof -
  have "set (butlast (xs[k := last xs])) \<subseteq> set (xs[k := last xs])" by (auto dest: in_set_butlastD)
  also have "\<dots> \<subseteq> insert (last xs) (set xs)" by (rule set_update_subset_insert)
  finally show ?thesis using assms(1) by (simp add: insert_absorb)
qed

lemma end_game_spec:
  assumes M: "machine_inv s" and e: "end_ok pieces peer s p"
    and d: "\<And>dp. dp \<in> set parts \<Longrightarrow> dp \<in> dps s \<and> is_piece_free (dp_index dp) pieces s"
  shows "end_ok pieces peer s (fst (end_game_loop peer s parts p)) \<and> machine_inv (snd (end_game_loop peer s parts p)) \<and>
    abs_picker (snd (end_game_loop peer s parts p)) = abs_picker s"
  using assms
proof (induction peer s parts p rule: end_game_loop.induct)
  case (1 peer s parts p)
  show ?case
  proof (cases "parts = []")
    case True
    then show ?thesis using 1(2,3) by (subst (1 2 3) end_game_loop.simps) simp
  next
    case ne: False
    obtain k s1 where r: "random (length parts - 1) s = (k, s1)" by fastforce
    note v = random_view [OF r] and m = random_machine [OF 1(2) r]
    define dp where "dp = parts ! k"
    define binfo where "binfo = blocks_for_piece s1 dp"
    define temp where "temp = map (\<lambda>j. (dp_index dp, j)) (filter (\<lambda>j. bi_state (binfo ! j) = state_requested \<and> bi_peer (binfo ! j) \<noteq> peer) [0..<length binfo])"
    have k: "k < length parts" using v ne by (cases parts) auto
    have D: "dp \<in> dps s" "is_piece_free (dp_index dp) pieces s" using 1(4) k by (auto simp: dp_def)
    have eq: "end_game_loop peer s parts p =
      (if temp \<noteq> [] then let (r, s2) = random (length temp - 1) s1; p' = flag flag_end_game p
             in (p'\<lparr>interesting := interesting p' @ [temp ! r], num_blocks := num_blocks p' - 1\<rparr>, s2)
       else end_game_loop peer s1 (butlast (parts[k := last parts])) p)"
      by (subst end_game_loop.simps) (simp add: ne r dp_def binfo_def temp_def Let_def del: One_nat_def)
    show ?thesis
    proof (cases "temp = []")
      case False
      obtain j s2 where r2: "random (length temp - 1) s1 = (j, s2)" by fastforce
      have m2: "machine_inv s2 \<and> abs_picker s2 = abs_picker s1" by (rule random_machine [OF _ r2]) (use m in simp)
      have "j < length temp" using random_view [OF r2] False by (cases temp) auto
      then have "temp ! j \<in> set temp" by simp
      moreover have "busy_block pieces peer s b" if b: "b \<in> set temp" for b
      proof -
        obtain i where i: "b = (dp_index dp, i)" "i < length binfo" "bi_state (binfo ! i) = state_requested" "bi_peer (binfo ! i) \<noteq> peer"
          using b by (auto simp: temp_def)
        have Q: "queues {} s" using 1(2) picker_inv_parts(7) by (simp add: machine_inv_def)
        have "eview s1 = eview s" using v by (simp add: same_view_def qview_def)
        note bf = blocks_for_piece_cong [OF eview_fields(1-4) [OF this]]
        then show ?thesis using i dl_map_Some [OF Q D(1) refl] D(2) queues_dps_bound [OF Q D(1)]
          by (simp add: busy_block_def free_piece_def dl_view_def binfo_def)
      qed
      ultimately have "busy_block pieces peer s (temp ! j)" by blast
      then show ?thesis using eq False r2 m m2 1(3) by (auto simp: end_ok_def)
    next
      case True
      have d': "dp' \<in> dps s1 \<and> is_piece_free (dp_index dp') pieces s1" if "dp' \<in> set (butlast (parts[k := last parts]))" for dp'
      proof -
        have "dp' \<in> set parts" using that butlast_swap_set [OF ne k] by blast
        then show ?thesis using 1(4) v by (simp add: dps_def is_piece_free_def core_def)
      qed
      have "end_ok pieces peer s1 p" using 1(3) end_ok_abs [of s1 s pieces peer p] m by simp
      then have "end_ok pieces peer s1 (fst (end_game_loop peer s1 (butlast (parts[k := last parts])) p)) \<and>
        machine_inv (snd (end_game_loop peer s1 (butlast (parts[k := last parts])) p)) \<and>
        abs_picker (snd (end_game_loop peer s1 (butlast (parts[k := last parts])) p)) = abs_picker s1"
        using 1(1) [OF ne r [symmetric] refl dp_def binfo_def temp_def] True m d' by blast
      moreover from m have "abs_picker s1 = abs_picker s" by simp
      ultimately show ?thesis using eq True end_ok_abs [of s1 s pieces peer] by simp
    qed
  qed
qed

lemma full_not_filtered:
  assumes M: "machine_inv s" and dp: "dp \<in> set (m_downloads s piece_full)" "get_bit pieces (dp_index dp)"
  shows "dp \<in> dps s \<and> is_piece_free (dp_index dp) pieces s"
proof -
  have I: "picker_inv s" using M by (simp add: machine_inv_def)
  note P = picker_inv_parts [OF I]
  have D: "dp \<in> dps s" using dp by (auto simp: dps_def)
  have q: "dp_index dp < num_pieces s" "download_queue (pos_of s (dp_index dp)) = piece_full" using queuesD(2) [OF P(7) dp(1)] by auto
  have "dl_map s (dp_index dp) \<noteq> None" using dl_map_Some [OF P(7) D refl] by simp
  then have "\<not> have_pos (pos_of s (dp_index dp))" using P(3) q(1) by (auto simp: had_open_def)
  moreover have "entry_ok s dp" using P(5) D by (simp add: queue_inv_def)
  then have "\<not> filtered (pos_of s (dp_index dp))" using q(2) by (auto simp: entry_ok_def new_dl_state_def Let_def download_queue_def)
  ultimately show ?thesis using D dp(2) by (simp add: is_piece_free_def)
qed

lemma pick_end_game_spec:
  assumes M: "machine_inv s" and e: "end_ok pieces peer s p" and r: "pick_end_game pieces peer opts s p = (p', s')"
  shows "end_ok pieces peer s p' \<and> machine_inv s' \<and> abs_picker s' = abs_picker s"
proof (cases "length (m_downloads s piece_downloading) + length (m_downloads s piece_full) = 0")
  case True
  then show ?thesis using assms by (simp add: pick_end_game_def)
next
  case False
  define parts where "parts = take (min 200 (length (m_downloads s piece_downloading) + length (m_downloads s piece_full)))
    (filter (\<lambda>dp. get_bit pieces (dp_index dp) \<and> \<not> critical_only opts (dp_index dp) s) (m_downloads s piece_full))"
  have ne: "min 200 (length (m_downloads s piece_downloading) + length (m_downloads s piece_full)) \<noteq> 0" using False by simp
  have "end_game_loop peer s parts p = (p', s')" using r unfolding pick_end_game_def parts_def Let_def if_not_P [OF ne] .
  moreover have "dp \<in> dps s \<and> is_piece_free (dp_index dp) pieces s" if "dp \<in> set parts" for dp
    using full_not_filtered [OF M, of dp pieces] in_set_takeD [OF that [unfolded parts_def]] by simp
  ultimately show ?thesis using end_game_spec [OF M e, of parts] by simp
qed

section \<open>Picking\<close>

lemma refreshed_machine:
  assumes "machine_inv s"
  shows "machine_inv (refreshed s)" "abs_picker (refreshed s) = abs_picker s" "\<not> m_dirty (refreshed s)"
proof -
  have I: "picker_inv s" using assms by (simp add: machine_inv_def)
  show "machine_inv (refreshed s)" "abs_picker (refreshed s) = abs_picker s" "\<not> m_dirty (refreshed s)"
    using assms refcount_step(7) [OF assms] update_pieces_full(3) [OF I] by (simp_all add: refreshed_def)
qed

lemma abs_num: "abs_picker s' = abs_picker s \<Longrightarrow> num_pieces s' = num_pieces s"
  by (metis abs_simps(1))

text \<open>The list is consulted without being brought up to date in one mode only.\<close>

definition list_ready :: "picker_options \<Rightarrow> piece_picker \<Rightarrow> bool" where
  "list_ready opts s \<longleftrightarrow> sequential opts \<or> rarest_first opts \<or> \<not> time_critical_mode opts \<or> \<not> m_dirty s"

lemma pick_main_spec:
  assumes M: "machine_inv s" and hb: "has_blocks s" and n: "0 < num_pieces s" and sz: "size_bf pieces = num_pieces s"
    and a: "all_open pieces s p" and l: "list_ready opts s"
  shows "\<exists>p' s'. pick_main pieces pref peer opts suggested s p = Some (p', s') \<and> all_open pieces s p' \<and> machine_inv s' \<and> abs_picker s' = abs_picker s"
proof -
  note R = refreshed_machine [OF M]
  have sz': "size_bf pieces = num_pieces (refreshed s)" using sz abs_num [OF R(2)] by simp
  have a': "all_open pieces (refreshed s) p" using a all_open_abs [OF R(2)] by simp
  show ?thesis
  proof (cases "sequential opts")
    case True
    then show ?thesis using pick_sequential_open [OF R(1,3) sz' a'] all_open_abs [OF R(2), of pieces] R(1,2) by (simp add: pick_main_def Let_def)
  next
    case ns: False
    show ?thesis
    proof (cases "rarest_first opts")
      case True
      obtain p' s' where r: "pick_rarest pieces pref peer opts suggested (refreshed s) p = (p', s')" by fastforce
      show ?thesis using pick_rarest_open [OF R(1,3) sz' a' r] all_open_abs [OF R(2), of pieces p'] R(2) ns True r by (simp add: pick_main_def)
    next
      case nr: False
      show ?thesis
      proof (cases "time_critical_mode opts")
        case True
        then have nd: "\<not> m_dirty s" using l ns nr by (simp add: list_ready_def)
        have "all_open pieces s (visit (pick_piece flag_time_critical pieces pref peer suggested opts s) (top_pieces s) p)"
          by (rule visit_inv [where I = "all_open pieces s"])
            (use M sz a clean_list [OF M nd] in \<open>auto intro!: pick_piece_open simp: top_pieces_def dest: set_takeWhileD\<close>)
        then show ?thesis using ns nr True M by (simp add: pick_main_def)
      next
        case False
        obtain k s1 where r: "random (num_pieces s - 1) s = (k, s1)" by fastforce
        note v = random_view [OF r] and m = random_machine [OF M r]
        have k: "k < num_pieces s1" using v n by linarith
        have sz1: "size_bf pieces = num_pieces s1" and hb1: "has_blocks s1" using v sz hb by simp_all
        have a1: "all_open pieces s1 p" using a all_open_abs m by blast
        obtain p' where "random_loop (random_fuel s1 p) pieces peer opts suggested s1 k k pref p = Some p'" "all_open pieces s1 p'"
          using random_fuel_enough [OF sz1 hb1 k] m a1 by blast
        then show ?thesis using ns nr False r m all_open_abs [of s1 s pieces p'] by (simp add: pick_main_def del: One_nat_def)
      qed
    qed
  qed
qed

lemma pick_backups_spec:
  assumes M: "machine_inv s" and a: "all_open pieces s p" and r: "pick_backups pieces peer opts s p = (p', s')"
  shows "end_ok pieces peer s p' \<and> machine_inv s' \<and> abs_picker s' = abs_picker s"
proof -
  define p1 where "p1 = append_backup (flag flag_backup1 p)"
  define p2 where "p2 = append_backup2 (flag flag_backup2 p1)"
  have o: "all_open pieces s p1" "all_open pieces s p2" using a by (simp_all add: p1_def p2_def append_open)
  have "(p', s') \<in> {(p, s), (p1, s), (p2, s), pick_end_game pieces peer opts s p2}"
    using r unfolding pick_backups_def Let_def p1_def [symmetric] p2_def [symmetric] by (auto split: if_splits)
  then show ?thesis using M a o all_open_end_ok pick_end_game_spec [OF M, of pieces peer p2 opts p' s'] by auto
qed

text \<open>
  A call always returns, changes nothing the rest of the program sees of the picker, and picks only
  blocks that may be requested.
\<close>

lemma pick_pieces_spec:
  assumes M: "machine_inv s" and hb: "has_blocks s" and n: "0 < num_pieces s" and sz: "size_bf pieces = num_pieces s"
    and sg: "\<forall>i \<in> set suggested. i < num_pieces s" and l: "list_ready opts s"
  shows "\<exists>p s'. pick_pieces pieces [] num pref peer opts suggested n_peers s = Some (p, s') \<and> end_ok pieces peer s p \<and>
     machine_inv s' \<and> abs_picker s' = abs_picker s"
proof -
  define p0 where "p0 = \<lparr>interesting = [], backup = [], backup2 = [], num_blocks = num, flags = [], trapped = False\<rparr>"
  obtain opts' pref' p1 where c: "(if length (m_downloads s piece_downloading) > n_peers * 3 div 2 \<or> length (m_downloads s piece_downloading) * m_blocks_per_piece s > 2048
      then (opts\<lparr>prioritize_partials := True\<rparr>, 0, flag flag_partial_ratio p0) else (opts, pref, p0)) = (opts', pref', p1)" by (metis prod_cases3)
  define p2 where "p2 = (if pref' \<noteq> 0 then flag flag_prefer_contiguous p1 else p1)"
  define p3 where "p3 = (if prioritize_partials opts' then pick_partials pieces pref' peer opts' s p2 else p2)"
  define p4 where "p4 = pick_suggested pieces pref' peer opts' suggested s p3"
  have E: "pick_pieces pieces [] num pref peer opts suggested n_peers s =
     (if num_blocks p3 \<le> 0 then Some (p3, s) else if num_blocks p4 \<le> 0 then Some (p4, s)
      else case pick_main pieces pref' peer opts' suggested s p4 of None \<Rightarrow> None
           | Some (p5, s5) \<Rightarrow> Some (pick_backups pieces peer opts' s5 p5))"
    unfolding pick_pieces_def Let_def p0_def [symmetric] c by (simp add: p4_def p3_def p2_def)
  have "all_open pieces s p0" by (simp add: p0_def all_open_def)
  then have "all_open pieces s p1" "list_ready opts' s" using c l by (auto simp: list_ready_def split: if_splits)
  then have o: "all_open pieces s p3" "list_ready opts' s" using pick_partials_open [OF M] by (simp_all add: p3_def p2_def)
  have o4: "all_open pieces s p4" unfolding p4_def by (rule pick_suggested_open [OF M sz sg o(1)])
  obtain p5 s5 where m: "pick_main pieces pref' peer opts' suggested s p4 = Some (p5, s5)" "all_open pieces s p5" "machine_inv s5" "abs_picker s5 = abs_picker s"
    using pick_main_spec [OF M hb n sz o4 o(2)] by blast
  obtain p6 s6 where b: "pick_backups pieces peer opts' s5 p5 = (p6, s6)" by fastforce
  have "all_open pieces s5 p5" using m(2) all_open_abs [OF m(4)] by simp
  note B = pick_backups_spec [OF m(3) this b]
  have "end_ok pieces peer s p6" using B end_ok_abs [OF m(4), of pieces peer p6] by simp
  then show ?thesis using E m b B M all_open_end_ok o(1) o4 by simp
qed

end
