(* ===== verification/Picker_Queries.thy ===== *)
theory Picker_Queries
  imports Picker_Safe
begin

text \<open>
  What the queries of the picker answer: every one of them reads the abstract state. The counters it
  keeps up to date step by step are the sizes of the sets they stand for.
\<close>

section \<open>Reachable states\<close>

lemma has_blocks_geo: "geo s' = geo s \<Longrightarrow> has_blocks s' = has_blocks s"
  by (simp add: geo_def has_blocks_def)

lemma mark_as_pad_blocks: "has_blocks (mark_as_pad x j s) = has_blocks s"
proof -
  have e: "has_blocks (if b then we_have x t else t) = has_blocks t" for b t using has_blocks_geo [of "we_have x t" t] by simp
  show ?thesis unfolding mark_as_pad_def Let_def e by (simp add: has_blocks_def)
qed

lemma step_blocks: "has_blocks (apply_op op s) = has_blocks s"
proof (cases "\<exists>x j. op = Pad x j")
  case True
  then show ?thesis using mark_as_pad_blocks by auto
next
  case False
  then have "geo (apply_op op s) = geo s" by (cases op) simp_all
  then show ?thesis by (rule has_blocks_geo)
qed

lemma new_picker_blocks: "new_picker bpp bil n rs = Some s \<Longrightarrow> 0 < bpp \<Longrightarrow> has_blocks s"
  by (auto simp: new_picker_def resize_picker_def has_blocks_def Let_def split: if_splits)

lemma reachable_blocks: "reachable s \<Longrightarrow> has_blocks s"
  by (induction rule: reachable.induct) (auto simp: new_picker_blocks step_blocks)

lemma reachable_inv: "reachable s \<Longrightarrow> picker_inv s"
  using reachable_machine by (simp add: machine_inv_def)

section \<open>Looking a piece up\<close>

lemma lookup_dl_open:
  assumes I: "picker_inv s" and x: "x < num_pieces s" and o: "download_queue (pos_of s x) = piece_open"
  shows "dl_map s x = None" "\<not> downloading (pos_of s x)"
  using o by (simp_all add: dl_map_def downloading_def download_queue_open)

lemma lookup_dl_Some:
  assumes I: "picker_inv s" and x: "x < num_pieces s" and o: "download_queue (pos_of s x) \<noteq> piece_open"
  obtains dp where "lookup_dl x s = Some dp" "dp_index dp = x" "dl_map s x = Some (blocks_for_piece s dp, passed_hash_check dp, locked dp)"
    "counts s dp" "downloading (pos_of s x)" "\<not> have_pos (pos_of s x)" "length (blocks_for_piece s dp) = blocks_in_piece s x"
proof -
  note P = picker_inv_parts [OF I]
  have d: "downloading (pos_of s x)" using o by (simp add: downloading_def download_queue_open)
  obtain it where it: "find_dl_piece (download_queue (pos_of s x)) x s = Some it" "dp_index (deref it s) = x" "deref it s \<in> dps s"
    using find_entry [OF P(7) x d] by blast
  have m: "dl_map s x = Some (blocks_for_piece s (deref it s), passed_hash_check (deref it s), locked (deref it s))"
    using dl_map_Some [OF P(7) it(3,2)] by (simp add: dl_view_def)
  then have "\<not> have_pos (pos_of s x)" using P(3) x by (auto simp: had_open_def)
  moreover have "counts s (deref it s)" using queue_inv_counts [OF P(5) it(3)] by simp
  ultimately show thesis using that [of "deref it s"] it(1,2) m d by (simp add: lookup_dl_def)
qed

definition entry_state :: "piece_picker \<Rightarrow> nat \<Rightarrow> nat \<Rightarrow> block_state" where
  "entry_state s x j = (case dl_map s x of None \<Rightarrow> state_none | Some e \<Rightarrow> state_at e j)"

lemma block_queries:
  assumes I: "picker_inv s" and x: "x < num_pieces s"
  shows "is_requested x j s = Some (entry_state s x j = state_requested)"
    "is_downloaded x j s = Some (have_pos (pos_of s x) \<or> entry_state s x j = state_finished \<or> entry_state s x j = state_writing)"
    "is_finished x j s = Some (have_pos (pos_of s x) \<or> entry_state s x j = state_finished)"
    "num_peers x j s = Some (case dl_map s x of None \<Rightarrow> 0 | Some e \<Rightarrow> bi_num_peers (fst e ! j))"
    "has_piece_passed x s = Some (have_pos (pos_of s x) \<or> (case dl_map s x of None \<Rightarrow> False | Some (_, passed, _) \<Rightarrow> passed))"
proof -
  have "is_requested x j s = Some (entry_state s x j = state_requested) \<and>
    is_downloaded x j s = Some (have_pos (pos_of s x) \<or> entry_state s x j = state_finished \<or> entry_state s x j = state_writing) \<and>
    is_finished x j s = Some (have_pos (pos_of s x) \<or> entry_state s x j = state_finished) \<and>
    num_peers x j s = Some (case dl_map s x of None \<Rightarrow> 0 | Some e \<Rightarrow> bi_num_peers (fst e ! j)) \<and>
    has_piece_passed x s = Some (have_pos (pos_of s x) \<or> (case dl_map s x of None \<Rightarrow> False | Some (_, passed, _) \<Rightarrow> passed))"
  proof (cases "download_queue (pos_of s x) = piece_open")
    case True
    then show ?thesis using lookup_dl_open [OF I x True]
      by (simp add: is_requested_def is_downloaded_def is_finished_def num_peers_def has_piece_passed_def entry_state_def have_pos_def)
  next
    case False
    then obtain dp where "lookup_dl x s = Some dp" "dl_map s x = Some (blocks_for_piece s dp, passed_hash_check dp, locked dp)"
      "downloading (pos_of s x)" "\<not> have_pos (pos_of s x)" using lookup_dl_Some [OF I x False] by metis
    then show ?thesis using False
      by (simp add: is_requested_def is_downloaded_def is_finished_def num_peers_def has_piece_passed_def entry_state_def have_pos_def state_at_def)
  qed
  then show "is_requested x j s = Some (entry_state s x j = state_requested)"
    "is_downloaded x j s = Some (have_pos (pos_of s x) \<or> entry_state s x j = state_finished \<or> entry_state s x j = state_writing)"
    "is_finished x j s = Some (have_pos (pos_of s x) \<or> entry_state s x j = state_finished)"
    "num_peers x j s = Some (case dl_map s x of None \<Rightarrow> 0 | Some e \<Rightarrow> bi_num_peers (fst e ! j))"
    "has_piece_passed x s = Some (have_pos (pos_of s x) \<or> (case dl_map s x of None \<Rightarrow> False | Some (_, passed, _) \<Rightarrow> passed))"
    by auto
qed

text \<open>A piece counts as finished when every block of it was received.\<close>

lemma count_two:
  "distinct [a, b] \<Longrightarrow> count_list xs a + count_list xs b = length xs \<longleftrightarrow> (\<forall>x \<in> set xs. x = a \<or> x = b)"
proof (induction xs)
  case (Cons x xs)
  have "count_list xs a + count_list xs b \<le> length xs" using Cons.prems by (induction xs) auto
  then show ?case using Cons by auto
qed simp

lemma finished_query:
  assumes I: "picker_inv s" and x: "x < num_pieces s"
  shows "is_piece_finished x s = Some (have_pos (pos_of s x) \<or>
     (case dl_map s x of None \<Rightarrow> False | Some (bs, _) \<Rightarrow> \<forall>b \<in> set bs. bi_state b = state_finished \<or> bi_state b = state_writing))"
proof (cases "download_queue (pos_of s x) = piece_open")
  case True
  then show ?thesis using lookup_dl_open [OF I x True] by (simp add: is_piece_finished_def have_pos_def)
next
  case False
  then obtain dp where dp: "lookup_dl x s = Some dp" "dl_map s x = Some (blocks_for_piece s dp, passed_hash_check dp, locked dp)"
    "counts s dp" "\<not> have_pos (pos_of s x)" "length (blocks_for_piece s dp) = blocks_in_piece s x" using lookup_dl_Some [OF I x False] by metis
  let ?bs = "map bi_state (blocks_for_piece s dp)"
  have c: "finished dp = count_list ?bs state_finished" "writing dp = count_list ?bs state_writing" using dp(3) by (simp_all add: counts_def Let_def)
  have le: "count_list ys state_finished + count_list ys state_writing \<le> length ys" for ys by (induction ys) auto
  have "\<not> finished dp + writing dp < blocks_in_piece s x \<longleftrightarrow> finished dp + writing dp = length ?bs" using le [of ?bs] c dp(5) by auto
  also have "\<dots> \<longleftrightarrow> (\<forall>b \<in> set (blocks_for_piece s dp). bi_state b = state_finished \<or> bi_state b = state_writing)"
    using count_two [of state_finished state_writing ?bs] c by simp
  finally show ?thesis using False dp by (simp add: is_piece_finished_def have_pos_def)
qed

section \<open>The counters\<close>

lemma total_card: "total s P (\<lambda>_. 1) = int (card {i. i < num_pieces s \<and> P (pos_of s i)})"
proof -
  have "total s P (\<lambda>_. 1) = (\<Sum>i \<in> {i \<in> {..<num_pieces s}. P (pos_of s i)}. 1)"
    unfolding total_def by (rule sum.inter_filter [symmetric]) simp
  then show ?thesis by (simp add: Collect_conj_eq lessThan_def)
qed

lemma total_sum: "total s P w = (\<Sum>i \<in> {i. i < num_pieces s \<and> P (pos_of s i)}. w i)"
proof -
  have "total s P w = (\<Sum>i \<in> {i \<in> {..<num_pieces s}. P (pos_of s i)}. w i)"
    unfolding total_def by (rule sum.inter_filter [symmetric]) simp
  then show ?thesis by (simp add: Collect_conj_eq lessThan_def)
qed

lemma total_split: "total s P w = total s (\<lambda>p. P p \<and> Q p) w + total s (\<lambda>p. P p \<and> \<not> Q p) w"
  unfolding total_def sum.distrib [symmetric] by (rule sum.cong) auto

definition pieces_where :: "piece_picker \<Rightarrow> (piece_pos \<Rightarrow> bool) \<Rightarrow> piece_count" where
  "pieces_where s P = \<lparr>pc_num_pieces = int (card {i. i < num_pieces s \<and> P (pos_of s i)}),
     pc_pad_blocks = (\<Sum>i \<in> {i. i < num_pieces s \<and> P (pos_of s i)}. pad_blocks_in_piece s i),
     pc_last_piece = P (pos_of s (num_pieces s - 1))\<rparr>"

lemma counter_queries:
  assumes I: "picker_inv s" and n: "0 < num_pieces s"
  shows "want s = pieces_where s (\<lambda>p. \<not> filtered p)" "have_want s = pieces_where s (\<lambda>p. have_pos p \<and> \<not> filtered p)"
    "have_count s = pieces_where s have_pos" "all_pieces s = pieces_where s (\<lambda>_. True)"
proof -
  have c: "counts_ok s" using I by (simp add: picker_inv_def counters_inv_def)
  have f: "total s (\<lambda>p. \<not> filtered p) w = total s (\<lambda>_. True) w - total s missing w - total s unwanted w" for w
    using total_split [of s "\<lambda>_. True" w filtered] total_split [of s filtered w "\<lambda>p. \<not> have_pos p"] by simp
  have h: "total s (\<lambda>p. have_pos p \<and> \<not> filtered p) w = total s have_pos w - total s unwanted w" for w
    using total_split [of s have_pos w filtered] by (simp add: conj_commute)
  have all: "total s (\<lambda>_. True) (\<lambda>_. 1) = int (num_pieces s)" by (simp add: total_def)
  have p: "pieces_where s P = \<lparr>pc_num_pieces = total s P (\<lambda>_. 1), pc_pad_blocks = total s P (pad_blocks_in_piece s),
     pc_last_piece = P (pos_of s (num_pieces s - 1))\<rparr>" for P by (simp add: pieces_where_def total_card total_sum)
  show "want s = pieces_where s (\<lambda>p. \<not> filtered p)"
    unfolding p f using c all by (simp add: want_def counts_ok_def filtered_def dont_download_def filter_priority_def)
  show "have_want s = pieces_where s (\<lambda>p. have_pos p \<and> \<not> filtered p)"
    unfolding p h using c by (simp add: have_want_def counts_ok_def filtered_def dont_download_def filter_priority_def have_piece_def have_pos_def)
  show "have_count s = pieces_where s have_pos" unfolding p using c by (simp add: have_count_def counts_ok_def have_piece_def have_pos_def)
  show "all_pieces s = pieces_where s (\<lambda>_. True)" unfolding p using c all by (simp add: all_pieces_def counts_ok_def)
qed

section \<open>Availability\<close>

definition copies :: "piece_pos \<Rightarrow> nat" where
  "copies p = peer_count p + (if have_pos p then 1 else 0)"

lemma fold_min_le: "fold min xs m \<le> (m :: nat)"
  by (induction xs arbitrary: m) (simp, metis fold_simps(2) min.bounded_iff)

lemma distribution_spec:
  "distribution ps m i f = (let m' = fold min (map copies ps) m in
     (m', (if m' = m then i else 0) + length (filter (\<lambda>p. copies p = m') ps),
      f + (if m' = m then 0 else i) + length (filter (\<lambda>p. m' < copies p) ps)))"
proof (induction ps arbitrary: m i f)
  case (Cons p ps)
  have le: "fold min (map copies ps) (min (copies p) m) \<le> min (copies p) m" by (rule fold_min_le)
  consider "copies p < m" | "copies p = m" | "m < copies p" by linarith
  then show ?case
    using le by cases (auto simp: Cons copies_def [symmetric] Let_def min_absorb1 min_absorb2)
qed (simp add: Let_def)

lemma distributed_copies_spec:
  assumes n: "0 < num_pieces s"
  defines "m \<equiv> Min (insert max_peer_count (copies ` set (m_piece_map s)))"
  shows "distributed_copies s = (m + m_seeds s, card {i. i < num_pieces s \<and> m < copies (pos_of s i)} * 1000 div num_pieces s)"
proof -
  have m: "m = fold min (map copies (m_piece_map s)) max_peer_count"
    unfolding m_def using Min.set_eq_fold [of max_peer_count "map copies (m_piece_map s)"] by simp
  have "distribution (m_piece_map s) max_peer_count 0 0 =
     (m, length (filter (\<lambda>p. copies p = m) (m_piece_map s)), length (filter (\<lambda>p. m < copies p) (m_piece_map s)))"
    unfolding distribution_spec m [symmetric] by (simp add: Let_def)
  then show ?thesis using n by (simp add: distributed_copies_def num_pieces_def length_filter_conv_card Let_def)
qed

end
