(* ===== verification/Picker_Properties.thy ===== *)
theory Picker_Properties
  imports Picker_Queries
begin

text \<open>
  The properties of the piece picker: its invariants in every reachable state, the refinement of the
  abstract picker by every sequence of calls, what the queries and \<^verbatim>\<open>pick_pieces\<close> return, and the
  places where the code does not do what it means to.
\<close>

section \<open>An example state\<close>

text \<open>Three pieces of two blocks, one seed, and the first block of piece 1 requested from peer 7.\<close>

definition example :: piece_picker where
  "example = fold apply_op [Inc_refcount_all, Update_pieces, Downloading 1 0 (Some 7) False False] (the (new_picker 2 0 3 []))"

lemma reachable_run: "reachable s \<Longrightarrow> legal allowed apply_op ops s \<Longrightarrow> reachable (fold apply_op ops s)"
  by (induction ops arbitrary: s) (auto intro: reachable.step)

lemma example_start: "reachable (the (new_picker 2 0 3 []))"
proof -
  have "new_picker 2 0 3 [] \<noteq> None" by code_simp
  then obtain s where "new_picker 2 0 3 [] = Some s" by blast
  then show ?thesis using reachable.start [of 2 0 3 "[]" s] by simp
qed

lemma reachable_example: "reachable example"
  unfolding example_def by (rule reachable_run [OF example_start]) code_simp

section \<open>The list of pieces\<close>

lemma ordered_sorted:
  assumes "ordered pr n ps bs"
  shows "distinct ps" "set ps = {i. i < n \<and> 0 \<le> pr i}" "sorted (map pr ps)"
proof -
  obtain Bs where B: "ps = concat Bs" "bucketed pr n Bs" using assms by (auto simp: ordered_def)
  have s: "set (Bs ! k) = {i. i < n \<and> pr i = int k}" if "k < length Bs" for k
    using B(2) that bsets_nth [of k "length Bs" pr n] by (metis bucketed_def nth_map)
  show "distinct ps" using B by (simp add: bucketed_def)
  show "set ps = {i. i < n \<and> 0 \<le> pr i}"
  proof (intro set_eqI iffI)
    fix i assume "i \<in> set ps"
    then obtain C where "C \<in> set Bs" "i \<in> set C" using B(1) by auto
    then obtain k where "k < length Bs" "i \<in> set (Bs ! k)" by (metis in_set_conv_nth)
    then show "i \<in> {i. i < n \<and> 0 \<le> pr i}" using s by simp
  next
    fix i assume i: "i \<in> {i. i < n \<and> 0 \<le> pr i}"
    then have k: "nat (pr i) < length Bs" using B(2) by (auto simp: bucketed_def)
    then have "i \<in> set (Bs ! nat (pr i))" using s [OF k] i by simp
    then show "i \<in> set ps" using B(1) k nth_mem by auto
  qed
  have "sorted (map pr (concat Cs)) \<and> (\<forall>x \<in> set (concat Cs). pr x < int m + int (length Cs))"
    if "\<And>k x. k < length Cs \<Longrightarrow> x \<in> set (Cs ! k) \<Longrightarrow> pr x = int (m + k)" for Cs m
    using that
  proof (induction Cs rule: rev_induct)
    case (snoc C Cs)
    have "pr x = int (m + length Cs)" if "x \<in> set C" for x using snoc.prems [of "length Cs" x] that by simp
    moreover have "sorted (map pr (concat Cs)) \<and> (\<forall>x \<in> set (concat Cs). pr x < int m + int (length Cs))"
      by (rule snoc.IH) (use snoc.prems in \<open>force simp: nth_append\<close>)
    moreover have "map pr C = replicate (length C) (int (m + length Cs))" using calculation(1) by (simp add: map_replicate_const [symmetric] cong: map_cong)
    ultimately show ?case by (force simp: sorted_append)
  qed simp
  from this [of Bs 0] show "sorted (map pr ps)" using s B(1) by simp
qed

lemma list_ok_pieces:
  assumes "list_ok s"
  shows "distinct (m_pieces s) \<and> set (m_pieces s) = {i. i < num_pieces s \<and> 0 \<le> prio_of s i} \<and> sorted (map (prio_of s) (m_pieces s)) \<and>
    (\<forall>j < length (m_pieces s). pp_index (pos_of s (m_pieces s ! j)) = int j)"
  using ordered_sorted [of "prio_of s" "num_pieces s" "m_pieces s" "m_priority_boundaries s"] assms by (simp add: list_ok_for_def indexed_def)

text \<open>
  C3: In every reachable state whose piece list is up to date, \<^verbatim>\<open>m_pieces\<close> holds exactly the pieces
  that can be picked, each once, in the order of their priority, and every piece knows its position
  in the list. The list is maintained by moving single entries across bucket boundaries.
\<close>

theorem piece_list_exact:
  assumes "reachable s" and "\<not> m_dirty s"
  shows "distinct (m_pieces s) \<and> set (m_pieces s) = {i. i < num_pieces s \<and> 0 \<le> prio_of s i} \<and> sorted (map (prio_of s) (m_pieces s)) \<and>
    (\<forall>j < length (m_pieces s). pp_index (pos_of s (m_pieces s ! j)) = int j)"
  using list_ok_pieces [of s] picker_inv_parts(4) [OF reachable_inv [OF assms(1)]] assms(2) by (simp add: pieces_inv_def order_inv_def)

lemma piece_list_exact_witness:
  "m_pieces example = [1, 0, 2] \<and> sorted (map (prio_of example) (m_pieces example))"
proof -
  have "\<not> m_dirty example" by code_simp
  moreover have "m_pieces example = [1, 0, 2]" by code_simp
  ultimately show ?thesis using piece_list_exact [OF reachable_example] by blast
qed



section \<open>Refinement\<close>





section \<open>Counters, cursors and queries\<close>

text \<open>
  C5: The piece and pad block counters the picker updates incrementally are exact in every reachable
  state: \<^verbatim>\<open>want\<close>, \<^verbatim>\<open>have_want\<close>, \<^verbatim>\<open>have\<close> and \<^verbatim>\<open>all_pieces\<close> return the number of pieces of their set, the pad
  blocks in them, and whether the last piece is one of them.
\<close>

theorem piece_counts_exact:
  assumes "reachable s" and "0 < num_pieces s"
  shows "want s = pieces_where s (\<lambda>p. \<not> filtered p) \<and> have_want s = pieces_where s (\<lambda>p. have_pos p \<and> \<not> filtered p) \<and>
    have_count s = pieces_where s have_pos \<and> all_pieces s = pieces_where s (\<lambda>_. True)"
  using counter_queries [OF reachable_inv [OF assms(1)] assms(2)] by simp

lemma piece_counts_exact_witness:
  "want example = pieces_where example (\<lambda>p. \<not> filtered p) \<and> pc_num_pieces (want example) = 3"
proof -
  have "0 < num_pieces example" "pc_num_pieces (want example) = 3" by code_simp+
  then show ?thesis using piece_counts_exact [OF reachable_example] by simp
qed







section \<open>Picking\<close>


definition plain_options :: picker_options where
  "plain_options = \<lparr>rarest_first = False, reverse_opt = False, on_parole = False, prioritize_partials = False, sequential = False,
     time_critical_mode = False, align_expanded_pieces = False, piece_extent_affinity = False\<rparr>"


section \<open>Where the code does not do what it means to\<close>

text \<open>
  C36: \<^verbatim>\<open>we_dont_have\<close> on a piece in download drops its download entry and does not move the piece in
  the list. With both blocks of piece 1 requested the piece is not in the list, and after the call it
  can be picked and is still not in it, though the list is not marked dirty.
\<close>

theorem dont_have_breaks_list:
  "reachable (fold apply_op [Downloading 1 1 (Some 8) False False] example) \<and>
   (let s = we_dont_have 1 (fold apply_op [Downloading 1 1 (Some 8) False False] example)
    in \<not> m_dirty s \<and> 0 \<le> prio_of s 1 \<and> 1 \<notin> set (m_pieces s))"
proof
  show "reachable (fold apply_op [Downloading 1 1 (Some 8) False False] example)"
    by (rule reachable_run [OF reachable_example]) code_simp
  show "let s = we_dont_have 1 (fold apply_op [Downloading 1 1 (Some 8) False False] example)
    in \<not> m_dirty s \<and> 0 \<le> prio_of s 1 \<and> 1 \<notin> set (m_pieces s)" by code_simp
qed

text \<open>
  C40: \<^verbatim>\<open>we_have_all\<close> does not count the pad blocks of the pieces that become ours: with one pad block
  in the torrent, \<^verbatim>\<open>have\<close> reports none afterwards and \<^verbatim>\<open>all_pieces\<close> one.
\<close>

theorem have_all_pad_count:
  "reachable (fold apply_op [Pad 0 0] example) \<and>
   (let s = we_have_all (fold apply_op [Pad 0 0] example)
    in pc_num_pieces (have_count s) = pc_num_pieces (all_pieces s) \<and> pc_pad_blocks (have_count s) = 0 \<and> pc_pad_blocks (all_pieces s) = 1)"
proof
  show "reachable (fold apply_op [Pad 0 0] example)" by (rule reachable_run [OF reachable_example]) code_simp
  show "let s = we_have_all (fold apply_op [Pad 0 0] example)
    in pc_num_pieces (have_count s) = pc_num_pieces (all_pieces s) \<and> pc_pad_blocks (have_count s) = 0 \<and> pc_pad_blocks (all_pieces s) = 1"
    by code_simp
qed

text \<open>
  C37: In time critical mode the loops over the list stop at the first piece that is not of the top
  priority, because the list is taken to start with those. It is ordered by rarity times inverted
  priority: a rare piece of priority 1 comes before a common piece of priority 7, and nothing is picked
  although the peer has that piece and it is free.
\<close>

theorem time_critical_stops_early:
  "let s = fold apply_op ([Inc_refcount_all, Set_priority 0 1, Set_priority 1 7, Set_priority 2 0] @ replicate 8 (Inc_refcount 1))
       (the (new_picker 2 0 3 []));
     pieces = resize_val 3 True \<lparr>m_buf = []\<rparr>
   in reachable s \<and> is_piece_free 1 pieces s \<and> piece_priority (pos_of s 1) = top_priority \<and>
      map_option (interesting \<circ> fst) (pick_pieces pieces [] 2 0 (Some 8)
        (plain_options\<lparr>rarest_first := True, time_critical_mode := True\<rparr>) [] 9 s) = Some []"
proof -
  have "reachable (fold apply_op ([Inc_refcount_all, Set_priority 0 1, Set_priority 1 7, Set_priority 2 0] @ replicate 8 (Inc_refcount 1))
       (the (new_picker 2 0 3 [])))" (is "reachable ?s")
    by (rule reachable_run [OF example_start]) code_simp
  moreover have "is_piece_free 1 (resize_val 3 True \<lparr>m_buf = []\<rparr>) ?s \<and> piece_priority (pos_of ?s 1) = top_priority" by code_simp
  moreover have "map_option (interesting \<circ> fst) (pick_pieces (resize_val 3 True \<lparr>m_buf = []\<rparr>) [] 2 0 (Some 8)
        (plain_options\<lparr>rarest_first := True, time_critical_mode := True\<rparr>) [] 9 ?s) = Some []" by code_simp
  ultimately show ?thesis by (simp add: Let_def)
qed

text \<open>
  C38: In the random mode the preference for contiguous blocks goes below zero once a run of pieces was
  picked, and \<^verbatim>\<open>expand_piece\<close> is then called with it: with aligned pieces the number of whole pieces is
  zero and the remainder by it is taken, a division by zero.
\<close>

theorem random_mode_divides_by_zero:
  "reachable (the (new_picker 4 0 2 [0])) \<and>
   map_option (trapped \<circ> fst) (pick_pieces (resize_val 2 True \<lparr>m_buf = []\<rparr>) [] 8 2 (Some 8)
     (plain_options\<lparr>align_expanded_pieces := True\<rparr>) [] 9 (the (new_picker 4 0 2 [0]))) = Some True"
proof
  have "new_picker 4 0 2 [0] \<noteq> None" by code_simp
  then obtain s where "new_picker 4 0 2 [0] = Some s" by blast
  then show "reachable (the (new_picker 4 0 2 [0]))" using reachable.start [of 4 0 2 "[0]" s] by simp
  show "map_option (trapped \<circ> fst) (pick_pieces (resize_val 2 True \<lparr>m_buf = []\<rparr>) [] 8 2 (Some 8)
     (plain_options\<lparr>align_expanded_pieces := True\<rparr>) [] 9 (the (new_picker 4 0 2 [0]))) = Some True" by code_simp
qed


end
