(* ===== verification/Simulation.thy ===== *)
theory Simulation
  imports Prelude
begin

text \<open>
  Runs of a component and of its specification. A component is a partial step function on
  concrete states; its specification is a total step function on abstract states with the
  condition under which the callers may make a call. The locale \<open>simulation\<close> is the contract
  between the two: a call the specification allows succeeds and leads to related states. Its
  lemmas lift the contract to sequences of calls.
\<close>

fun run :: "('op \<Rightarrow> 's \<Rightarrow> 's option) \<Rightarrow> 'op list \<Rightarrow> 's \<Rightarrow> 's option" where
  "run step [] s = Some s"
| "run step (x # xs) s = Option.bind (step x s) (run step xs)"

fun permitted :: "('op \<Rightarrow> 'a \<Rightarrow> bool) \<Rightarrow> ('op \<Rightarrow> 'a \<Rightarrow> 'a) \<Rightarrow> 'op list \<Rightarrow> 'a \<Rightarrow> bool" where
  "permitted ok astep [] a \<longleftrightarrow> True"
| "permitted ok astep (x # xs) a \<longleftrightarrow> ok x a \<and> permitted ok astep xs (astep x a)"

lemma run_steps_append: "run step (xs @ ys) s = Option.bind (run step xs s) (run step ys)"
  by (induction xs arbitrary: s) (simp_all split: bind_split)

lemma permitted_append:
  "permitted ok astep (xs @ ys) a \<longleftrightarrow> permitted ok astep xs a \<and> permitted ok astep ys (fold astep xs a)"
  by (induction xs arbitrary: a) auto

lemma run_invariant:
  assumes "run step xs s = Some s'" "P s" "\<And>x t t'. step x t = Some t' \<Longrightarrow> P t \<Longrightarrow> P t'"
  shows "P s'"
  using assms(1,2)
proof (induction xs arbitrary: s)
  case (Cons x xs)
  then obtain t where "step x s = Some t" "run step xs t = Some s'" by (auto split: bind_splits)
  with Cons assms(3) show ?case by blast
qed simp

locale simulation =
  fixes rel :: "'s \<Rightarrow> 'a \<Rightarrow> bool" and step :: "'op \<Rightarrow> 's \<Rightarrow> 's option"
    and ok :: "'op \<Rightarrow> 'a \<Rightarrow> bool" and astep :: "'op \<Rightarrow> 'a \<Rightarrow> 'a"
  assumes step_sim: "rel s a \<Longrightarrow> ok x a \<Longrightarrow> \<exists>s'. step x s = Some s' \<and> rel s' (astep x a)"
begin

lemma run_sim:
  assumes "rel s a" "permitted ok astep xs a"
  shows "\<exists>s'. run step xs s = Some s' \<and> rel s' (fold astep xs a)"
  using assms
proof (induction xs arbitrary: s a)
  case (Cons x xs)
  obtain t where "step x s = Some t" "rel t (astep x a)" using step_sim [of s a x] Cons.prems by auto
  with Cons.IH [of t "astep x a"] Cons.prems(2) show ?case by auto
qed simp

lemma run_total: "rel s a \<Longrightarrow> permitted ok astep xs a \<Longrightarrow> run step xs s \<noteq> None"
  using run_sim by fastforce

end

end
