(* ===== verification/Tailqueue.thy ===== *)
theory Tailqueue
  imports Simulation "HOL-Library.Monad_Syntax"
begin

text \<open>
  The intrusive singly linked queue of \<^verbatim>\<open>tailqueue.hpp\<close>, over an explicit store of
  the \<^verbatim>\<open>next\<close> pointers. An address is a natural number, a null pointer is \<open>None\<close>, and
  an operation that reads through a null pointer is \<open>None\<close>. \<open>tq h q xs\<close> says that the queue
  \<open>q\<close> holds the nodes \<open>xs\<close> in the store \<open>h\<close>; the lemmas show that every operation is the
  list operation of its name and leaves the nodes outside its queues alone.
\<close>

section \<open>The queue\<close>

type_synonym links = "nat \<Rightarrow> nat option"

record tailqueue =
  tq_first :: "nat option"
  tq_last :: "nat option"
  tq_size :: int

definition tq_new :: tailqueue where
  "tq_new = \<lparr>tq_first = None, tq_last = None, tq_size = 0\<rparr>"

definition tq_is_empty :: "tailqueue \<Rightarrow> bool" where
  "tq_is_empty q \<longleftrightarrow> tq_size q = 0"

definition tq_swap :: "tailqueue \<Rightarrow> tailqueue \<Rightarrow> tailqueue \<times> tailqueue" where
  "tq_swap q r = (r, q)"

definition tq_pop_front :: "links \<Rightarrow> tailqueue \<Rightarrow> (nat \<times> links \<times> tailqueue) option" where
  "tq_pop_front h q = do {
     e \<leftarrow> tq_first q;
     let q = q\<lparr>tq_first := h e\<rparr>;
     let q = (if Some e = tq_last q then q\<lparr>tq_last := None\<rparr> else q);
     let h = h(e := None);
     Some (e, h, q\<lparr>tq_size := tq_size q - 1\<rparr>)
   }"

definition tq_push_front :: "nat \<Rightarrow> links \<Rightarrow> tailqueue \<Rightarrow> links \<times> tailqueue" where
  "tq_push_front e h q =
     (let h = h(e := tq_first q);
          q = q\<lparr>tq_first := Some e\<rparr>;
          q = (if tq_last q = None then q\<lparr>tq_last := Some e\<rparr> else q)
      in (h, q\<lparr>tq_size := tq_size q + 1\<rparr>))"

definition tq_push_back :: "nat \<Rightarrow> links \<Rightarrow> tailqueue \<Rightarrow> links \<times> tailqueue" where
  "tq_push_back e h q =
     (let (h, q) = (case tq_last q of Some l \<Rightarrow> (h(l := Some e), q) | None \<Rightarrow> (h, q\<lparr>tq_first := Some e\<rparr>));
          q = q\<lparr>tq_last := Some e\<rparr>;
          h = h(e := None)
      in (h, q\<lparr>tq_size := tq_size q + 1\<rparr>))"

definition tq_append :: "links \<Rightarrow> tailqueue \<Rightarrow> tailqueue \<Rightarrow> (links \<times> tailqueue \<times> tailqueue) option" where
  "tq_append h q r =
     (if tq_first r = None then Some (h, q, r)
      else if tq_first q = None then (let (q, r) = tq_swap q r in Some (h, q, r))
      else do {
        l \<leftarrow> tq_last q;
        Some (h(l := tq_first r), q\<lparr>tq_last := tq_last r, tq_size := tq_size q + tq_size r\<rparr>,
              r\<lparr>tq_first := None, tq_last := None, tq_size := 0\<rparr>)
      })"

definition tq_prepend :: "links \<Rightarrow> tailqueue \<Rightarrow> tailqueue \<Rightarrow> (links \<times> tailqueue \<times> tailqueue) option" where
  "tq_prepend h q r =
     (if tq_first r = None then Some (h, q, r)
      else if tq_first q = None then (let (q, r) = tq_swap q r in Some (h, q, r))
      else (let (q, r) = tq_swap q r in tq_append h q r))"

definition tq_get_all :: "tailqueue \<Rightarrow> nat option \<times> tailqueue" where
  "tq_get_all q = (tq_first q, q\<lparr>tq_first := None, tq_last := None, tq_size := 0\<rparr>)"

section \<open>The nodes of a queue\<close>

fun path :: "links \<Rightarrow> nat option \<Rightarrow> nat list \<Rightarrow> bool" where
  "path h p [] \<longleftrightarrow> p = None"
| "path h p (x # xs) \<longleftrightarrow> p = Some x \<and> path h (h x) xs"

definition tq :: "links \<Rightarrow> tailqueue \<Rightarrow> nat list \<Rightarrow> bool" where
  "tq h q xs \<longleftrightarrow> path h (tq_first q) xs \<and> distinct xs \<and>
     tq_last q = (if xs = [] then None else Some (last xs)) \<and> tq_size q = int (length xs)"

lemma path_other [simp]: "a \<notin> set xs \<Longrightarrow> path (h(a := y)) p xs \<longleftrightarrow> path h p xs"
  by (induction xs arbitrary: p) auto

lemma path_cong: "(\<And>x. x \<in> set xs \<Longrightarrow> h' x = h x) \<Longrightarrow> path h' p xs \<longleftrightarrow> path h p xs"
  by (induction xs arbitrary: p) auto

lemma path_last: "path h p xs \<Longrightarrow> xs \<noteq> [] \<Longrightarrow> h (last xs) = None"
  by (induction xs arbitrary: p) auto

lemma path_join:
  assumes "path h p xs" "xs \<noteq> []" "distinct xs" "path h r ys" "last xs \<notin> set ys"
  shows "path (h(last xs := r)) p (xs @ ys)"
  using assms
proof (induction xs arbitrary: p)
  case (Cons x xs)
  show ?case
  proof (cases "xs = []")
    case False
    moreover have "path (h(last xs := r)) (h x) (xs @ ys)"
      by (rule Cons.IH) (use Cons.prems False in auto)
    moreover have "x \<noteq> last xs" using Cons.prems(3) False by auto
    ultimately show ?thesis using Cons.prems(1) by (simp add: fun_upd_def)
  qed (use Cons.prems path_other [of x ys h r r] in \<open>simp add: fun_upd_def\<close>)
qed simp

lemma tq_new_tq [simp]: "tq h tq_new []"
  by (simp add: tq_def tq_new_def)

lemma tq_empty_iff: "tq h q xs \<Longrightarrow> tq_is_empty q \<longleftrightarrow> xs = []"
  by (simp add: tq_def tq_is_empty_def)

lemma tq_length: "tq h q xs \<Longrightarrow> tq_size q = int (length xs)"
  by (simp add: tq_def)

lemma tq_frame: "tq h q xs \<Longrightarrow> (\<And>x. x \<in> set xs \<Longrightarrow> h' x = h x) \<Longrightarrow> tq h' q xs"
  unfolding tq_def using path_cong [of xs h' h "tq_first q"] by simp

lemma tq_determined: "tq h q xs \<Longrightarrow> tq h q ys \<Longrightarrow> xs = ys"
proof -
  have "path h p xs \<Longrightarrow> path h p ys \<Longrightarrow> xs = ys" for p
  proof (induction xs arbitrary: p ys)
    case Nil
    then show ?case by (cases ys) auto
  next
    case (Cons x xs)
    then show ?case by (cases ys) auto
  qed
  then show "tq h q xs \<Longrightarrow> tq h q ys \<Longrightarrow> xs = ys" by (auto simp: tq_def)
qed

section \<open>The operations are the list operations\<close>

lemma tq_pop_front_spec:
  assumes "tq h q (x # xs)"
  shows "\<exists>q'. tq_pop_front h q = Some (x, h(x := None), q') \<and> tq (h(x := None)) q' xs"
proof -
  have "x = last xs \<Longrightarrow> xs = []" using assms by (cases xs rule: rev_cases) (auto simp: tq_def)
  with assms show ?thesis by (auto simp: tq_pop_front_def tq_def Let_def)
qed

lemma tq_pop_front_null: "tq h q [] \<Longrightarrow> tq_pop_front h q = None"
  by (simp add: tq_pop_front_def tq_def)

lemma tq_push_front_spec:
  assumes "tq h q xs" "x \<notin> set xs" "tq_push_front x h q = (h', q')"
  shows "tq h' q' (x # xs) \<and> h' = h(x := tq_first q)"
  using assms by (auto simp: tq_push_front_def tq_def Let_def split: if_splits)

lemma tq_push_back_spec:
  assumes "tq h q xs" "x \<notin> set xs" "tq_push_back x h q = (h', q')"
  shows "tq h' q' (xs @ [x]) \<and> (\<forall>y. y \<noteq> x \<longrightarrow> y \<notin> set xs \<longrightarrow> h' y = h y)"
proof (cases "xs = []")
  case True
  with assms show ?thesis by (auto simp: tq_push_back_def tq_def Let_def)
next
  case False
  have p: "path h (tq_first q) xs" "distinct xs" using assms(1) by (auto simp: tq_def)
  have h': "h' = h(x := None, last xs := Some x)" and q': "q' = q\<lparr>tq_last := Some x, tq_size := tq_size q + 1\<rparr>"
    using assms False fun_upd_twist [of "last xs" x h] by (auto simp: tq_push_back_def tq_def Let_def dest: last_in_set)
  have "path h' (tq_first q) (xs @ [x])" unfolding h'
    by (rule path_join) (use p False assms(2) in \<open>auto dest: last_in_set\<close>)
  then show ?thesis using assms(1,2) False p(2) by (auto simp: tq_def h' q' dest: last_in_set)
qed

lemma tq_append_spec:
  assumes "tq h q xs" "tq h r ys" "set xs \<inter> set ys = {}"
  shows "\<exists>h' q' r'. tq_append h q r = Some (h', q', r') \<and> tq h' q' (xs @ ys) \<and> tq h' r' [] \<and>
           (\<forall>y. y \<notin> set xs \<union> set ys \<longrightarrow> h' y = h y)"
proof (cases "xs = [] \<or> ys = []")
  case True
  then consider "ys = []" | "ys \<noteq> []" "xs = []" by blast
  then show ?thesis
  proof cases
    case 2
    then obtain y ys' where "ys = y # ys'" by (cases ys) auto
    with 2 assms show ?thesis by (auto simp: tq_append_def tq_def tq_swap_def)
  qed (use assms in \<open>auto simp: tq_append_def tq_def\<close>)
next
  case False
  then obtain x xs' y ys' where ne: "xs = x # xs'" "ys = y # ys'" by (cases xs; cases ys) auto
  have l: "last xs \<notin> set ys" "xs \<noteq> []" "ys \<noteq> []" "last xs \<in> set xs" using assms(3) False by (auto dest: last_in_set)
  have p: "path h (tq_first q) xs" "path h (tq_first r) ys" "distinct xs" "distinct ys" using assms by (auto simp: tq_def)
  have f: "tq_first r = Some y" "tq_first q = Some x" "tq_last q = Some (last xs)" using assms ne by (auto simp: tq_def)
  let ?h = "h(last xs := tq_first r)"
  have "path ?h (tq_first q) (xs @ ys)" using path_join [OF p(1) l(2) p(3) p(2) l(1)] .
  then have "tq ?h (q\<lparr>tq_last := tq_last r, tq_size := tq_size q + tq_size r\<rparr>) (xs @ ys)"
    using assms l by (auto simp: tq_def)
  moreover have "tq ?h (r\<lparr>tq_first := None, tq_last := None, tq_size := 0\<rparr>) []" by (simp add: tq_def)
  moreover have "tq_append h q r = Some (?h, q\<lparr>tq_last := tq_last r, tq_size := tq_size q + tq_size r\<rparr>,
      r\<lparr>tq_first := None, tq_last := None, tq_size := 0\<rparr>)" using f by (simp add: tq_append_def)
  ultimately show ?thesis using l(4) by (intro exI conjI) (assumption | auto)+
qed

lemma tq_prepend_spec:
  assumes "tq h q xs" "tq h r ys" "set xs \<inter> set ys = {}"
  shows "\<exists>h' q' r'. tq_prepend h q r = Some (h', q', r') \<and> tq h' q' (ys @ xs) \<and> tq h' r' [] \<and>
           (\<forall>y. y \<notin> set xs \<union> set ys \<longrightarrow> h' y = h y)"
proof (cases "xs = [] \<or> ys = []")
  case True
  then consider "ys = []" | "ys \<noteq> []" "xs = []" by blast
  then show ?thesis
  proof cases
    case 2
    then obtain y ys' where "ys = y # ys'" by (cases ys) auto
    with 2 assms show ?thesis by (auto simp: tq_prepend_def tq_def tq_swap_def)
  qed (use assms in \<open>auto simp: tq_prepend_def tq_def\<close>)
next
  case False
  then obtain x xs' y ys' where ne: "xs = x # xs'" "ys = y # ys'" by (cases xs; cases ys) auto
  have "tq_first r = Some y" "tq_first q = Some x" using assms ne by (auto simp: tq_def)
  then have "tq_prepend h q r = tq_append h r q" by (simp add: tq_prepend_def tq_swap_def)
  with tq_append_spec [OF assms(2,1)] assms(3) show ?thesis by (simp add: Int_commute Un_commute)
qed

lemma tq_get_all_spec: "tq h q xs \<Longrightarrow> tq_get_all q = (p, q') \<Longrightarrow> path h p xs \<and> tq h q' []"
  by (auto simp: tq_get_all_def tq_def)

section \<open>Two queues under any sequence of operations\<close>

datatype tq_call = Push_front nat | Push_back nat | Pop_front | Swap | Append | Prepend | Get_all

type_synonym two_queues = "links \<times> tailqueue \<times> tailqueue"

fun tq_step :: "tq_call \<Rightarrow> two_queues \<Rightarrow> two_queues option" where
  "tq_step (Push_front x) (h, q, r) = (let (h, q) = tq_push_front x h q in Some (h, q, r))"
| "tq_step (Push_back x) (h, q, r) = (let (h, q) = tq_push_back x h q in Some (h, q, r))"
| "tq_step Pop_front (h, q, r) = do { (_, h, q) \<leftarrow> tq_pop_front h q; Some (h, q, r) }"
| "tq_step Swap (h, q, r) = (let (q, r) = tq_swap q r in Some (h, q, r))"
| "tq_step Append (h, q, r) = tq_append h q r"
| "tq_step Prepend (h, q, r) = tq_prepend h q r"
| "tq_step Get_all (h, q, r) = (let (_, q) = tq_get_all q in Some (h, q, r))"

fun lists_step :: "tq_call \<Rightarrow> nat list \<times> nat list \<Rightarrow> nat list \<times> nat list" where
  "lists_step (Push_front x) (xs, ys) = (x # xs, ys)"
| "lists_step (Push_back x) (xs, ys) = (xs @ [x], ys)"
| "lists_step Pop_front (xs, ys) = (List.tl xs, ys)"
| "lists_step Swap (xs, ys) = (ys, xs)"
| "lists_step Append (xs, ys) = (xs @ ys, [])"
| "lists_step Prepend (xs, ys) = (ys @ xs, [])"
| "lists_step Get_all (xs, ys) = ([], ys)"

fun tq_call_ok :: "tq_call \<Rightarrow> nat list \<times> nat list \<Rightarrow> bool" where
  "tq_call_ok (Push_front x) (xs, ys) \<longleftrightarrow> x \<notin> set xs \<and> x \<notin> set ys"
| "tq_call_ok (Push_back x) (xs, ys) \<longleftrightarrow> x \<notin> set xs \<and> x \<notin> set ys"
| "tq_call_ok Pop_front (xs, ys) \<longleftrightarrow> xs \<noteq> []"
| "tq_call_ok _ (xs, ys) \<longleftrightarrow> True"

definition tq_rel :: "two_queues \<Rightarrow> nat list \<times> nat list \<Rightarrow> bool" where
  "tq_rel s l \<longleftrightarrow> (case s of (h, q, r) \<Rightarrow> case l of (xs, ys) \<Rightarrow> tq h q xs \<and> tq h r ys \<and> set xs \<inter> set ys = {})"

lemma tq_step_sim:
  assumes "tq_rel s l" "tq_call_ok c l"
  shows "\<exists>s'. tq_step c s = Some s' \<and> tq_rel s' (lists_step c l)"
proof -
  obtain h q r xs ys where sl: "s = (h, q, r)" "l = (xs, ys)" by (cases s; cases l)
  have t: "tq h q xs" "tq h r ys" "set xs \<inter> set ys = {}" using assms(1) by (auto simp: sl tq_rel_def)
  have keep: "tq h' r ys" if "\<forall>y. y \<notin> A \<longrightarrow> h' y = h y" "set ys \<inter> A = {}" for h' A
    by (rule tq_frame [OF t(2)]) (use that in blast)
  show ?thesis
  proof (cases c)
    case (Push_front x)
    obtain h' q' where p: "tq_push_front x h q = (h', q')" by fastforce
    then have "tq h' q' (x # xs)" "h' = h(x := tq_first q)" using tq_push_front_spec [OF t(1) _ p] assms(2) by (auto simp: sl Push_front)
    then show ?thesis using p assms(2) t(3) keep [of "{x}" h'] by (auto simp: sl Push_front tq_rel_def)
  next
    case (Push_back x)
    obtain h' q' where p: "tq_push_back x h q = (h', q')" by fastforce
    have b: "tq h' q' (xs @ [x]) \<and> (\<forall>y. y \<noteq> x \<longrightarrow> y \<notin> set xs \<longrightarrow> h' y = h y)"
      using tq_push_back_spec [OF t(1) _ p] assms(2) by (simp add: sl Push_back)
    then show ?thesis using p assms(2) t(3) keep [of "insert x (set xs)" h'] by (auto simp: sl Push_back tq_rel_def)
  next
    case Pop_front
    then obtain x xs' where x: "xs = x # xs'" using assms(2) by (cases xs) (auto simp: sl)
    from tq_pop_front_spec [of h q x xs'] t(1) obtain q' where
      "tq_pop_front h q = Some (x, h(x := None), q')" "tq (h(x := None)) q' xs'" unfolding x by blast
    then show ?thesis using t(3) keep [of "{x}" "h(x := None)"] x by (auto simp: sl Pop_front tq_rel_def)
  next
    case Append
    then show ?thesis using tq_append_spec [OF t] by (auto simp: sl tq_rel_def)
  next
    case Prepend
    then show ?thesis using tq_prepend_spec [OF t] by (auto simp: sl tq_rel_def)
  qed (use t in \<open>auto simp: sl tq_rel_def tq_swap_def tq_get_all_def tq_def split: prod.split\<close>)
qed

interpretation tqs: simulation tq_rel tq_step tq_call_ok lists_step
  by unfold_locales (rule tq_step_sim)

text \<open>
  C28: Two tail queues that share their nodes' store behave, under every sequence of pushes of
  fresh nodes, pops of a queue that is not empty, swaps, appends, prepends and \<open>get_all\<close>, as two lists:
  no operation reads through a null pointer, and the nodes, the last pointer and the count are those of the lists.
\<close>

theorem tailqueue_refines_lists:
  assumes "permitted tq_call_ok lists_step cs ([], [])"
  shows "\<exists>h' q r. run tq_step cs (h, tq_new, tq_new) = Some (h', q, r) \<and>
     tq h' q (fst (fold lists_step cs ([], []))) \<and> tq h' r (snd (fold lists_step cs ([], [])))"
proof -
  have "tq_rel (h, tq_new, tq_new) ([], [])" by (simp add: tq_rel_def)
  from tqs.run_sim [OF this assms] show ?thesis 
    by (cases "fold lists_step cs ([], [])") (auto simp: tq_rel_def)
qed

theorem tailqueue_refines_lists_witness:
  "\<exists>h' q r. run tq_step [Push_back 3, Push_front 5, Swap, Push_back 7, Push_back 8, Prepend, Pop_front] (\<lambda>_. None, tq_new, tq_new) =
     Some (h', q, r) \<and> tq h' q [3, 7, 8] \<and> tq h' r []"
  using tailqueue_refines_lists [of "[Push_back 3, Push_front 5, Swap, Push_back 7, Push_back 8, Prepend, Pop_front]" "\<lambda>_. None"] by simp

end
