(* ===== verification/Job_Fence.thy ===== *)
theory Job_Fence
  imports Tailqueue
begin

text \<open>
  \<^verbatim>\<open>disk_job_fence.cpp\<close>: the barrier in front of a storage. A disk job that needs the
  storage for itself raises the fence; later jobs wait in \<open>m_blocked_jobs\<close> until the jobs in
  flight are done, the fence job has run, and no other fence stands before them. The jobs are
  addresses in a store of their \<^verbatim>\<open>next\<close> pointers and flags; the queues are the intrusive
  ones of \<^verbatim>\<open>tailqueue.hpp\<close>.

  The specification is a barrier: the jobs running and the jobs waiting, in order of arrival,
  where the waiting jobs start as soon as the rules of the fence let the first of them start.
\<close>

section \<open>The state and the operations\<close>

record disk_io_jobs =
  job_next :: links
  is_fence :: "nat \<Rightarrow> bool"
  in_progress :: "nat \<Rightarrow> bool"

record disk_job_fence =
  m_has_fence :: int
  m_blocked_jobs :: tailqueue
  m_outstanding_jobs :: int

definition new_fence :: disk_job_fence where
  "new_fence = \<lparr>m_has_fence = 0, m_blocked_jobs = tq_new, m_outstanding_jobs = 0\<rparr>"

datatype fence_post = fence_post_fence | fence_post_flush | fence_post_none

definition has_fence :: "disk_job_fence \<Rightarrow> bool" where
  "has_fence f \<longleftrightarrow> m_has_fence f \<noteq> 0"

definition num_blocked :: "disk_job_fence \<Rightarrow> int" where
  "num_blocked f = tq_size (m_blocked_jobs f)"

definition num_outstanding_jobs :: "disk_job_fence \<Rightarrow> int" where
  "num_outstanding_jobs f = m_outstanding_jobs f"

text \<open>The flag and the count of a job that starts; a queue operation within the store.\<close>

definition start_job :: "nat \<Rightarrow> disk_io_jobs \<Rightarrow> disk_job_fence \<Rightarrow> disk_io_jobs \<times> disk_job_fence" where
  "start_job j s f = (s\<lparr>in_progress := (in_progress s)(j := True)\<rparr>, f\<lparr>m_outstanding_jobs := m_outstanding_jobs f + 1\<rparr>)"

definition queue_back :: "nat \<Rightarrow> disk_io_jobs \<Rightarrow> tailqueue \<Rightarrow> disk_io_jobs \<times> tailqueue" where
  "queue_back j s q = (let (h, q) = tq_push_back j (job_next s) q in (s\<lparr>job_next := h\<rparr>, q))"

definition queue_front :: "nat \<Rightarrow> disk_io_jobs \<Rightarrow> tailqueue \<Rightarrow> disk_io_jobs \<times> tailqueue" where
  "queue_front j s q = (let (h, q) = tq_push_front j (job_next s) q in (s\<lparr>job_next := h\<rparr>, q))"

definition queue_pop :: "disk_io_jobs \<Rightarrow> tailqueue \<Rightarrow> (nat \<times> disk_io_jobs \<times> tailqueue) option" where
  "queue_pop s q = do { (j, h, q) \<leftarrow> tq_pop_front (job_next s) q; Some (j, s\<lparr>job_next := h\<rparr>, q) }"

text \<open>The loop of \<open>job_complete\<close> that posts the jobs behind a lowered fence.\<close>

partial_function (option) post_blocked ::
    "int \<Rightarrow> disk_io_jobs \<Rightarrow> disk_job_fence \<Rightarrow> tailqueue \<Rightarrow> (int \<times> disk_io_jobs \<times> disk_job_fence \<times> tailqueue) option" where
  "post_blocked ret s f jobs =
     (if tq_is_empty (m_blocked_jobs f) then Some (ret, s, f, jobs)
      else Option.bind (queue_pop s (m_blocked_jobs f)) (\<lambda>(bj, s, q).
        let f = f\<lparr>m_blocked_jobs := q\<rparr> in
        if is_fence s bj then
          if m_outstanding_jobs f = 0 \<and> tq_is_empty jobs then
            let (s, f) = start_job bj s f; (s, jobs) = queue_back bj s jobs in Some (ret + 1, s, f, jobs)
          else
            let (s, q) = queue_front bj s (m_blocked_jobs f) in Some (ret, s, f\<lparr>m_blocked_jobs := q\<rparr>, jobs)
        else
          let (s, f) = start_job bj s f; (s, jobs) = queue_back bj s jobs in post_blocked (ret + 1) s f jobs))"

declare post_blocked.simps [code]

definition job_complete ::
    "nat \<Rightarrow> disk_io_jobs \<Rightarrow> disk_job_fence \<Rightarrow> tailqueue \<Rightarrow> (int \<times> disk_io_jobs \<times> disk_job_fence \<times> tailqueue) option" where
  "job_complete j s f jobs =
     (let s = s\<lparr>in_progress := (in_progress s)(j := False)\<rparr>;
          f = f\<lparr>m_outstanding_jobs := m_outstanding_jobs f - 1\<rparr>
      in if is_fence s j then post_blocked 0 s (f\<lparr>m_has_fence := m_has_fence f - 1\<rparr>) jobs
         else if m_outstanding_jobs f > 0 \<or> m_has_fence f = 0 then Some (0, s, f, jobs)
         else do {
           (bj, s, q) \<leftarrow> queue_pop s (m_blocked_jobs f);
           let f = f\<lparr>m_blocked_jobs := q\<rparr>;
           let (s, f) = start_job bj s f;
           let (s, jobs) = queue_front bj s jobs;
           Some (1, s, f, jobs)
         })"

definition is_blocked :: "nat \<Rightarrow> disk_io_jobs \<Rightarrow> disk_job_fence \<Rightarrow> bool \<times> disk_io_jobs \<times> disk_job_fence" where
  "is_blocked j s f =
     (if m_has_fence f = 0 then let (s, f) = start_job j s f in (False, s, f)
      else let (s, q) = queue_back j s (m_blocked_jobs f) in (True, s, f\<lparr>m_blocked_jobs := q\<rparr>))"

definition raise_fence ::
    "nat \<Rightarrow> nat \<Rightarrow> int \<Rightarrow> disk_io_jobs \<Rightarrow> disk_job_fence \<Rightarrow> fence_post \<times> int \<times> disk_io_jobs \<times> disk_job_fence" where
  "raise_fence j fj blocked_disk_jobs s f =
     (let s = s\<lparr>is_fence := (is_fence s)(j := True)\<rparr> in
      if m_has_fence f = 0 \<and> m_outstanding_jobs f = 0 then
        let f = f\<lparr>m_has_fence := m_has_fence f + 1\<rparr>; (s, f) = start_job j s f
        in (fence_post_fence, blocked_disk_jobs, s, f)
      else
        let f = f\<lparr>m_has_fence := m_has_fence f + 1\<rparr>;
            (n, s, f) =
              (if m_has_fence f > 1 then let (s, q) = queue_back fj s (m_blocked_jobs f)
                                         in (blocked_disk_jobs + 1, s, f\<lparr>m_blocked_jobs := q\<rparr>)
               else let (s, f) = start_job fj s f in (blocked_disk_jobs, s, f));
            (s, q) = queue_back j s (m_blocked_jobs f);
            f = f\<lparr>m_blocked_jobs := q\<rparr>
        in (if m_has_fence f > 1 then fence_post_none else fence_post_flush, n + 1, s, f))"

section \<open>The barrier\<close>

text \<open>Jobs with their fence flag: those running and those waiting.\<close>

type_synonym job = "nat \<times> bool"

fun settle :: "job list \<Rightarrow> job list \<Rightarrow> job list \<times> job list" where
  "settle R [] = (R, [])"
| "settle R (w # W) =
     (if (\<exists>r\<in>set R. snd r) \<or> snd w \<and> R \<noteq> [] then (R, w # W) else settle (R @ [w]) W)"

definition settled :: "job list \<Rightarrow> job list \<Rightarrow> bool" where
  "settled R W \<longleftrightarrow> (\<exists>r\<in>set R. snd r) \<or> W = [] \<or> snd (hd W) \<and> R \<noteq> []"

definition apart :: "job list \<Rightarrow> bool" where
  "apart W \<longleftrightarrow> successively (\<lambda>p q. \<not> (snd p \<and> snd q)) W"

definition barrier_inv :: "job list \<Rightarrow> job list \<Rightarrow> bool" where
  "barrier_inv R W \<longleftrightarrow> settled R W \<and> apart (R @ W) \<and> ((\<exists>r\<in>set R. snd r) \<longrightarrow> length R = 1) \<and> distinct (map fst (R @ W))"

lemma settle_append: "settle R W = (R', W') \<Longrightarrow> R' @ W' = R @ W"
  by (induction R W rule: settle.induct) (auto split: if_splits)

lemma settle_settled: "settle R W = (R', W') \<Longrightarrow> settled R' W'"
  by (induction R W rule: settle.induct) (auto simp: settled_def split: if_splits)

lemma settled_settle: "settled R W \<Longrightarrow> settle R W = (R, W)"
  by (cases W) (auto simp: settled_def)

lemma settle_alone:
  "settle R W = (R', W') \<Longrightarrow> (\<exists>r\<in>set R. snd r) \<longrightarrow> length R = 1 \<Longrightarrow> (\<exists>r\<in>set R'. snd r) \<longrightarrow> length R' = 1"
proof (induction R W rule: settle.induct)
  case (2 R w W)
  show ?case
  proof (cases "(\<exists>r\<in>set R. snd r) \<or> snd w \<and> R \<noteq> []")
    case False
    with "2.prems"(1) have *: "settle (R @ [w]) W = (R', W')" by simp
    have "(\<exists>r\<in>set (R @ [w]). snd r) \<longrightarrow> length (R @ [w]) = 1" using False by auto
    with "2.IH" [OF False *] show ?thesis by blast
  qed (use "2.prems" in auto)
qed simp

lemma settle_inv:
  assumes "settle R W = (R', W')" "apart (R @ W)" "(\<exists>r\<in>set R. snd r) \<longrightarrow> length R = 1" "distinct (map fst (R @ W))"
  shows "barrier_inv R' W'"
  unfolding barrier_inv_def using settle_append [OF assms(1)] settle_settled [OF assms(1)] settle_alone [OF assms(1,3)] assms(2,4)
  by metis

section \<open>Two queues in one store\<close>

lemma queue_back_two:
  assumes "queue_back x s q = (s', q')" "tq (job_next s) q xs" "tq (job_next s) r ys" "x \<notin> set xs" "x \<notin> set ys"
    "set xs \<inter> set ys = {}"
  shows "tq (job_next s') q' (xs @ [x]) \<and> tq (job_next s') r ys \<and> is_fence s' = is_fence s \<and> in_progress s' = in_progress s"
proof -
  obtain h where p: "tq_push_back x (job_next s) q = (h, q')" "s' = s\<lparr>job_next := h\<rparr>"
    using assms(1) by (auto simp: queue_back_def split: prod.splits)
  note b = tq_push_back_spec [OF assms(2,4) p(1)]
  have "h y = job_next s y" if "y \<in> set ys" for y
    using conjunct2 [OF b, rule_format, of y] that assms(5,6) by auto
  then have "tq h r ys" by (rule tq_frame [OF assms(3)])
  with conjunct1 [OF b] show ?thesis by (simp add: p(2))
qed

lemma queue_front_two:
  assumes "queue_front x s q = (s', q')" "tq (job_next s) q xs" "tq (job_next s) r ys" "x \<notin> set xs" "x \<notin> set ys"
  shows "tq (job_next s') q' (x # xs) \<and> tq (job_next s') r ys \<and> is_fence s' = is_fence s \<and> in_progress s' = in_progress s"
proof -
  obtain h where p: "tq_push_front x (job_next s) q = (h, q')" "s' = s\<lparr>job_next := h\<rparr>"
    using assms(1) by (auto simp: queue_front_def split: prod.splits)
  note b = tq_push_front_spec [OF assms(2,4) p(1)]
  have "tq h r ys" by (rule tq_frame [OF assms(3)]) (use b assms(5) in auto)
  with conjunct1 [OF b] show ?thesis by (simp add: p(2))
qed

lemma queue_pop_two:
  assumes "tq (job_next s) q (x # xs)" "tq (job_next s) r ys" "x \<notin> set ys"
  shows "\<exists>s' q'. queue_pop s q = Some (x, s', q') \<and> tq (job_next s') q' xs \<and> tq (job_next s') r ys \<and>
           is_fence s' = is_fence s \<and> in_progress s' = in_progress s"
proof -
  obtain q' where p: "tq_pop_front (job_next s) q = Some (x, (job_next s)(x := None), q')" "tq ((job_next s)(x := None)) q' xs"
    using tq_pop_front_spec [OF assms(1)] by blast
  have "tq ((job_next s)(x := None)) r ys" by (rule tq_frame [OF assms(2)]) (use assms(3) in auto)
  then show ?thesis using p by (intro exI [of _ "s\<lparr>job_next := (job_next s)(x := None)\<rparr>"] exI [of _ q']) (simp add: queue_pop_def)
qed

lemma start_job_fields [simp]:
  "start_job j s f = (s', f') \<Longrightarrow> job_next s' = job_next s \<and> is_fence s' = is_fence s \<and> in_progress s' = (in_progress s)(j := True) \<and>
     m_has_fence f' = m_has_fence f \<and> m_blocked_jobs f' = m_blocked_jobs f \<and> m_outstanding_jobs f' = m_outstanding_jobs f + 1"
  by (auto simp: start_job_def)

section \<open>The loop behind a lowered fence\<close>

fun unblock :: "(nat \<Rightarrow> bool) \<Rightarrow> bool \<Rightarrow> nat list \<Rightarrow> nat list \<times> nat list" where
  "unblock fence idle [] = ([], [])"
| "unblock fence idle (w # ws) =
     (if fence w then if idle then ([w], ws) else ([], w # ws)
      else let (a, b) = unblock fence False ws in (w # a, b))"

lemma unblock_append: "unblock fence idle ws = (a, b) \<Longrightarrow> a @ b = ws"
  by (induction fence idle ws arbitrary: a b rule: unblock.induct) (auto split: if_splits prod.splits)

lemma post_blocked_spec:
  assumes "tq (job_next s) (m_blocked_jobs f) ws" "tq (job_next s) jobs ys" "set ws \<inter> set ys = {}"
    "0 \<le> m_outstanding_jobs f" "unblock (is_fence s) (m_outstanding_jobs f = 0 \<and> ys = []) ws = (a, b)"
  shows "\<exists>s' f' jobs'. post_blocked n s f jobs = Some (n + int (length a), s', f', jobs') \<and>
           tq (job_next s') (m_blocked_jobs f') b \<and> tq (job_next s') jobs' (ys @ a) \<and> is_fence s' = is_fence s \<and>
           in_progress s' = (\<lambda>j. j \<in> set a \<or> in_progress s j) \<and> m_has_fence f' = m_has_fence f \<and>
           m_outstanding_jobs f' = m_outstanding_jobs f + int (length a)"
  using assms
proof (induction ws arbitrary: n s f jobs ys a b)
  case Nil
  then have "tq_is_empty (m_blocked_jobs f)" by (simp add: tq_empty_iff)
  then have "post_blocked n s f jobs = Some (n, s, f, jobs)" by (simp add: post_blocked.simps)
  with Nil.prems show ?case by simp
next
  case (Cons w ws)
  have ne: "\<not> tq_is_empty (m_blocked_jobs f)" using Cons.prems(1) by (simp add: tq_empty_iff)
  have dw: "distinct (w # ws)" using Cons.prems(1) by (simp add: tq_def)
  have w: "w \<notin> set ys" "w \<notin> set ws" "set ws \<inter> set ys = {}" using Cons.prems(3) dw by auto
  obtain s1 q1 where pop: "queue_pop s (m_blocked_jobs f) = Some (w, s1, q1)" "tq (job_next s1) q1 ws"
      "tq (job_next s1) jobs ys" "is_fence s1 = is_fence s" "in_progress s1 = in_progress s"
    using queue_pop_two [OF Cons.prems(1,2) w(1)] by blast
  let ?f = "f\<lparr>m_blocked_jobs := q1\<rparr>"
  have e: "tq_is_empty jobs \<longleftrightarrow> ys = []" by (rule tq_empty_iff [OF Cons.prems(2)])
  obtain s2 f2 where st: "start_job w s1 ?f = (s2, f2)" by fastforce
  note S = start_job_fields [OF st]
  obtain s3 q3 where bk: "queue_back w s2 jobs = (s3, q3)" by fastforce
  have B: "tq (job_next s3) q3 (ys @ [w])" "tq (job_next s3) q1 ws" "is_fence s3 = is_fence s"
      "in_progress s3 = (in_progress s)(w := True)"
    using queue_back_two [OF bk, of ys q1 ws] pop S w by auto
  show ?case
  proof (cases "is_fence s w")
    case True
    show ?thesis
    proof (cases "m_outstanding_jobs f = 0 \<and> ys = []")
      case idle: True
      then have "a = [w]" "b = ws" using Cons.prems(5) True by auto
      moreover have "post_blocked n s f jobs = Some (n + 1, s3, f2, q3)"
        using idle True ne pop e st bk by (subst post_blocked.simps) simp
      ultimately show ?thesis using B S by (simp add: fun_eq_iff)
    next
      case False
      then have ab: "a = []" "b = w # ws" using Cons.prems(5) True by auto
      obtain s4 q4 where fr: "queue_front w s1 q1 = (s4, q4)" by fastforce
      note F = queue_front_two [OF fr pop(2,3) w(2,1)]
      have "post_blocked n s f jobs = Some (n, s4, f\<lparr>m_blocked_jobs := q4\<rparr>, jobs)"
        using False True ne pop e fr by (subst post_blocked.simps) auto
      with ab F pop show ?thesis by simp
    qed
  next
    case False
    obtain a' where a: "a = w # a'" "unblock (is_fence s) False ws = (a', b)"
      using Cons.prems(5) False by (auto split: prod.splits)
    have "m_outstanding_jobs f2 = m_outstanding_jobs f + 1" "m_blocked_jobs f2 = q1" "m_has_fence f2 = m_has_fence f"
      using S by auto
    then have "\<exists>s' f' jobs'. post_blocked (n + 1) s3 f2 q3 = Some (n + 1 + int (length a'), s', f', jobs') \<and>
           tq (job_next s') (m_blocked_jobs f') b \<and> tq (job_next s') jobs' ((ys @ [w]) @ a') \<and> is_fence s' = is_fence s3 \<and>
           in_progress s' = (\<lambda>j. j \<in> set a' \<or> in_progress s3 j) \<and> m_has_fence f' = m_has_fence f2 \<and>
           m_outstanding_jobs f' = m_outstanding_jobs f2 + int (length a')"
      by (intro Cons.IH) (use B w Cons.prems(4) a(2) in auto)
    moreover have "post_blocked n s f jobs = post_blocked (n + 1) s3 f2 q3"
      using False ne pop st bk by (subst post_blocked.simps) simp
    ultimately show ?thesis using B a(1) \<open>m_outstanding_jobs f2 = _\<close> \<open>m_has_fence f2 = _\<close>
      by (auto simp: algebra_simps fun_eq_iff)
  qed
qed

section \<open>The fence and its callers\<close>

text \<open>
  The calls of the disk thread on a storage: \<open>add_job\<close> and the cache front ends call
  \<open>is_blocked\<close> with a new job and count it as blocked when it is; \<open>add_fence_job\<close> raises
  the fence with a new job and a new flush job; \<open>add_completed_jobs_impl\<close> completes a job that
  ran and adds the jobs this starts to \<open>new_jobs\<close>, a queue it shares among all storages. The
  last two calls are other users of that queue: a job of another storage is added to it, or its
  first job is taken from it.
\<close>

datatype fence_call = Submit nat | Raise nat nat | Complete nat | Give nat | Take

type_synonym fence_state = "disk_io_jobs \<times> disk_job_fence \<times> tailqueue \<times> int"

definition allocate_job :: "nat \<Rightarrow> disk_io_jobs \<Rightarrow> disk_io_jobs" where
  "allocate_job j s = s\<lparr>job_next := (job_next s)(j := None), is_fence := (is_fence s)(j := False),
     in_progress := (in_progress s)(j := False)\<rparr>"

fun fence_step :: "fence_call \<Rightarrow> fence_state \<Rightarrow> fence_state option" where
  "fence_step (Submit j) (s, f, jobs, blocked_disk_jobs) =
     (let (b, s, f) = is_blocked j (allocate_job j s) f
      in Some (s, f, jobs, if b then blocked_disk_jobs + 1 else blocked_disk_jobs))"
| "fence_step (Raise j fj) (s, f, jobs, blocked_disk_jobs) =
     (let (_, n, s, f) = raise_fence j fj blocked_disk_jobs (allocate_job fj (allocate_job j s)) f
      in Some (s, f, jobs, n))"
| "fence_step (Complete j) (s, f, jobs, blocked_disk_jobs) =
     do { (ret, s, f, jobs) \<leftarrow> job_complete j s f jobs; Some (s, f, jobs, blocked_disk_jobs - ret) }"
| "fence_step (Give j) (s, f, jobs, blocked_disk_jobs) =
     (let (s, jobs) = queue_back j s jobs in Some (s, f, jobs, blocked_disk_jobs))"
| "fence_step Take (s, f, jobs, blocked_disk_jobs) =
     do { (_, s, jobs) \<leftarrow> queue_pop s jobs; Some (s, f, jobs, blocked_disk_jobs) }"

section \<open>The barrier the fence implements\<close>

record barrier =
  running :: "job list"
  waiting :: "job list"
  posted :: "nat list"

definition new_barrier :: barrier where
  "new_barrier = \<lparr>running = [], waiting = [], posted = []\<rparr>"

definition resume :: "job list \<Rightarrow> job list \<Rightarrow> barrier \<Rightarrow> barrier" where
  "resume R W B = B\<lparr>running := fst (settle R W), waiting := snd (settle R W)\<rparr>"

fun barrier_step :: "fence_call \<Rightarrow> barrier \<Rightarrow> barrier" where
  "barrier_step (Submit j) B = resume (running B) (waiting B @ [(j, False)]) B"
| "barrier_step (Raise j fj) B =
     (if running B = [] then B\<lparr>running := [(j, True)]\<rparr>
      else resume (running B) (waiting B @ [(fj, False), (j, True)]) B)"
| "barrier_step (Complete j) B =
     (let B' = resume (filter (\<lambda>r. fst r \<noteq> j) (running B)) (waiting B) B;
          started = map fst (drop (length (running B) - 1) (running B'))
      in B'\<lparr>posted := (if (j, True) \<in> set (running B) then posted B @ started else started @ posted B)\<rparr>)"
| "barrier_step (Give j) B = B\<lparr>posted := posted B @ [j]\<rparr>"
| "barrier_step Take B = B\<lparr>posted := tl (posted B)\<rparr>"

definition unused :: "nat \<Rightarrow> barrier \<Rightarrow> bool" where
  "unused j B \<longleftrightarrow> j \<notin> fst ` set (running B) \<and> j \<notin> fst ` set (waiting B) \<and> j \<notin> set (posted B)"

fun call_ok :: "fence_call \<Rightarrow> barrier \<Rightarrow> bool" where
  "call_ok (Submit j) B \<longleftrightarrow> unused j B"
| "call_ok (Raise j fj) B \<longleftrightarrow> unused j B \<and> unused fj B \<and> j \<noteq> fj"
| "call_ok (Complete j) B \<longleftrightarrow> j \<in> fst ` set (running B) \<and> j \<notin> set (posted B)"
| "call_ok (Give j) B \<longleftrightarrow> unused j B"
| "call_ok Take B \<longleftrightarrow> posted B \<noteq> []"

definition fences :: "job list \<Rightarrow> int" where
  "fences W = int (length (filter snd W))"

definition fence_rel :: "fence_state \<Rightarrow> barrier \<Rightarrow> bool" where
  "fence_rel st B \<longleftrightarrow> (case st of (s, f, jobs, n) \<Rightarrow>
     tq (job_next s) (m_blocked_jobs f) (map fst (waiting B)) \<and> tq (job_next s) jobs (posted B) \<and>
     fst ` set (waiting B) \<inter> set (posted B) = {} \<and>
     (\<forall>r\<in>set (running B). is_fence s (fst r) = snd r \<and> in_progress s (fst r)) \<and>
     (\<forall>w\<in>set (waiting B). is_fence s (fst w) = snd w \<and> \<not> in_progress s (fst w)) \<and>
     m_outstanding_jobs f = int (length (running B)) \<and>
     m_has_fence f = fences (running B) + fences (waiting B) \<and> n = int (length (waiting B)) \<and>
     barrier_inv (running B) (waiting B))"

lemma fence_relI:
  assumes "tq (job_next s) (m_blocked_jobs f) (map fst (waiting B))" "tq (job_next s) jobs (posted B)"
    "fst ` set (waiting B) \<inter> set (posted B) = {}"
    "\<And>j b. (j, b) \<in> set (running B) \<Longrightarrow> is_fence s j = b \<and> in_progress s j"
    "\<And>j b. (j, b) \<in> set (waiting B) \<Longrightarrow> is_fence s j = b \<and> \<not> in_progress s j"
    "m_outstanding_jobs f = int (length (running B))"
    "m_has_fence f = fences (running B) + fences (waiting B)" "n = int (length (waiting B))"
    "barrier_inv (running B) (waiting B)"
  shows "fence_rel (s, f, jobs, n) B"
  using assms unfolding fence_rel_def by auto

lemma fence_relD:
  assumes "fence_rel (s, f, jobs, n) B"
  shows "tq (job_next s) (m_blocked_jobs f) (map fst (waiting B))" "tq (job_next s) jobs (posted B)"
    "fst ` set (waiting B) \<inter> set (posted B) = {}"
    "(j, b) \<in> set (running B) \<Longrightarrow> is_fence s j = b \<and> in_progress s j"
    "(j, b) \<in> set (waiting B) \<Longrightarrow> is_fence s j = b \<and> \<not> in_progress s j"
    "m_outstanding_jobs f = int (length (running B))"
    "m_has_fence f = fences (running B) + fences (waiting B)" "n = int (length (waiting B))"
    "barrier_inv (running B) (waiting B)"
  using assms unfolding fence_rel_def by auto

lemma fences_simps [simp]:
  "fences [] = 0" "fences (w # W) = (if snd w then 1 else 0) + fences W" "fences (V @ W) = fences V + fences W"
  by (simp_all add: fences_def)

lemma fences_0: "fences W = 0 \<longleftrightarrow> (\<forall>w\<in>set W. \<not> snd w)"
  by (simp add: fences_def filter_empty_conv)

lemma fences_nonneg [simp]: "0 \<le> fences W"
  by (simp add: fences_def)

lemma barrier_no_fence:
  assumes "barrier_inv R W" "fences R + fences W = 0"
  shows "W = []"
proof -
  have "fences R = 0" "fences W = 0" using assms(2) fences_nonneg [of R] fences_nonneg [of W] by linarith+
  then have "\<not> (\<exists>r\<in>set R. snd r)" "\<forall>w\<in>set W. \<not> snd w" by (auto simp: fences_0)
  with assms(1) show ?thesis by (cases W) (auto simp: barrier_inv_def settled_def)
qed

lemma barrier_blocked:
  assumes "barrier_inv R W" "fences R + fences W \<noteq> 0"
  shows "settled R (W @ V)" "R \<noteq> []"
proof -
  have "(\<exists>r\<in>set R. snd r) \<or> W \<noteq> []" using assms(2) by (cases "W = []") (auto simp: fences_0)
  with assms(1) show "settled R (W @ V)" "R \<noteq> []" by (auto simp: barrier_inv_def settled_def)
qed

lemma apart_append: "apart (V @ W) \<longleftrightarrow> apart V \<and> apart W \<and> (V = [] \<or> W = [] \<or> \<not> (snd (last V) \<and> snd (hd W)))"
  by (auto simp: apart_def successively_append_iff)

lemma apart_plain: "\<forall>w\<in>set W. \<not> snd w \<Longrightarrow> apart W"
  by (induction W) (auto simp: apart_def successively_Cons)

lemma apart_snoc: "apart V \<Longrightarrow> \<not> snd w \<Longrightarrow> apart (V @ [w])"
  by (simp add: apart_append) (simp add: apart_def)

lemma settle_takeWhile:
  assumes "\<forall>r\<in>set R. \<not> snd r" "R \<noteq> [] \<or> W = [] \<or> \<not> snd (hd W)"
  shows "settle R W = (R @ takeWhile (\<lambda>w. \<not> snd w) W, dropWhile (\<lambda>w. \<not> snd w) W)"
  using assms
proof (induction W arbitrary: R)
  case (Cons w W)
  show ?case
  proof (cases "snd w")
    case False
    then have "settle (R @ [w]) W = ((R @ [w]) @ takeWhile (\<lambda>w. \<not> snd w) W, dropWhile (\<lambda>w. \<not> snd w) W)"
      using Cons.prems by (intro Cons.IH) auto
    with False Cons.prems show ?thesis by auto
  qed (use Cons.prems in auto)
qed simp

lemma unblock_takeWhile:
  "\<not> idle \<or> ws = [] \<or> \<not> fence (hd ws) \<Longrightarrow>
   unblock fence idle ws = (takeWhile (\<lambda>w. \<not> fence w) ws, dropWhile (\<lambda>w. \<not> fence w) ws)"
  by (induction fence idle ws rule: unblock.induct) auto

lemma allocate_tq: "tq (job_next s) q xs \<Longrightarrow> j \<notin> set xs \<Longrightarrow> tq (job_next (allocate_job j s)) q xs"
  by (erule tq_frame) (auto simp: allocate_job_def)

lemma allocate_fields [simp]:
  "is_fence (allocate_job j s) k = (k \<noteq> j \<and> is_fence s k)" "in_progress (allocate_job j s) k = (k \<noteq> j \<and> in_progress s k)"
  by (auto simp: allocate_job_def)

lemma unused_not_in: "unused j B \<Longrightarrow> (j, b) \<notin> set (running B)" "unused j B \<Longrightarrow> (j, b) \<notin> set (waiting B)"
  by (force simp: unused_def)+

lemma resume_same: "settled R W \<Longrightarrow> resume R W B = B\<lparr>running := R, waiting := W\<rparr>"
  by (simp add: resume_def settled_settle)

lemma settle_single: "\<forall>r\<in>set R. \<not> snd r \<Longrightarrow> settle R [(j, False)] = (R @ [(j, False)], [])"
  by (simp add: settle_takeWhile)

lemma fence_step_submit:
  assumes "fence_rel (s, f, jobs, n) B" "unused j B"
  shows "\<exists>st. fence_step (Submit j) (s, f, jobs, n) = Some st \<and> fence_rel st (barrier_step (Submit j) B)"
proof -
  note D = fence_relD [OF assms(1)]
  let ?s = "allocate_job j s"
  have q: "tq (job_next ?s) (m_blocked_jobs f) (map fst (waiting B))" "tq (job_next ?s) jobs (posted B)"
    using D(1,2) assms(2) by (auto intro!: allocate_tq simp: unused_def)
  note U = unused_not_in [OF assms(2)]
  show ?thesis
  proof (cases "m_has_fence f = 0")
    case True
    then have W: "waiting B = []" using barrier_no_fence [OF D(9)] D(7) by simp
    then have nf: "\<forall>r\<in>set (running B). \<not> snd r" using True D(7) fences_0 by auto
    obtain s2 f2 where st: "start_job j ?s f = (s2, f2)" by fastforce
    note S = start_job_fields [OF st]
    have inv: "barrier_inv (running B @ [(j, False)]) []"
      using nf assms(2) D(9) by (auto simp: barrier_inv_def settled_def unused_def W intro!: apart_plain)
    have "fence_rel (s2, f2, jobs, n) (B\<lparr>running := running B @ [(j, False)], waiting := []\<rparr>)"
      by (rule fence_relI) (use D q S W U inv assms(2) in \<open>auto simp: unused_def\<close>)
    moreover have "barrier_step (Submit j) B = B\<lparr>running := running B @ [(j, False)], waiting := []\<rparr>"
      using W nf by (simp add: resume_def settle_single)
    ultimately show ?thesis using True st by (simp add: is_blocked_def)
  next
    case False
    note blocked = barrier_blocked [OF D(9)]
    have S: "settled (running B) (waiting B @ [(j, False)])" using False D(7) blocked by simp
    obtain s2 q2 where bk: "queue_back j ?s (m_blocked_jobs f) = (s2, q2)" by fastforce
    have B: "tq (job_next s2) q2 (map fst (waiting B) @ [j])" "tq (job_next s2) jobs (posted B)"
        "is_fence s2 = is_fence ?s" "in_progress s2 = in_progress ?s"
      using queue_back_two [OF bk q(1,2)] assms(2) D(3) by (auto simp: unused_def)
    have "apart ((running B @ waiting B) @ [(j, False)])"
      by (rule apart_snoc) (use D(9) in \<open>simp_all add: barrier_inv_def\<close>)
    then have inv: "barrier_inv (running B) (waiting B @ [(j, False)])"
      using D(9) S assms(2) by (auto simp: barrier_inv_def unused_def)
    have "fence_rel (s2, f\<lparr>m_blocked_jobs := q2\<rparr>, jobs, n + 1) (B\<lparr>running := running B, waiting := waiting B @ [(j, False)]\<rparr>)"
      by (rule fence_relI) (use D B U inv assms(2) in \<open>auto simp: unused_def\<close>)
    then show ?thesis using False bk S by (simp add: is_blocked_def resume_same)
  qed
qed

lemma fence_step_raise:
  assumes "fence_rel (s, f, jobs, n) B" "unused j B" "unused fj B" "j \<noteq> fj"
  shows "\<exists>st. fence_step (Raise j fj) (s, f, jobs, n) = Some st \<and> fence_rel st (barrier_step (Raise j fj) B)"
proof -
  note D = fence_relD [OF assms(1)]
  let ?a = "allocate_job fj (allocate_job j s)"
  let ?s = "?a\<lparr>is_fence := (is_fence ?a)(j := True)\<rparr>"
  let ?f = "f\<lparr>m_has_fence := m_has_fence f + 1\<rparr>"
  have q: "tq (job_next ?s) (m_blocked_jobs f) (map fst (waiting B))" "tq (job_next ?s) jobs (posted B)"
    using D(1,2) assms(2,3) by (auto intro!: allocate_tq simp: unused_def)
  have flags: "is_fence ?s k = (k = j \<or> k \<noteq> fj \<and> is_fence s k)" "in_progress ?s k = (k \<noteq> j \<and> k \<noteq> fj \<and> in_progress s k)" for k
    using assms(4) by auto
  note U = unused_not_in [OF assms(2)] unused_not_in [OF assms(3)]
  consider "running B = []" | "running B \<noteq> []" "m_has_fence f = 0" | "running B \<noteq> []" "m_has_fence f \<noteq> 0" by blast
  then show ?thesis
  proof cases
    case 1
    then have W: "waiting B = []" using D(9) by (auto simp: barrier_inv_def settled_def)
    obtain s2 f2 where st: "start_job j ?s ?f = (s2, f2)" by fastforce
    note S = start_job_fields [OF st]
    have "fence_rel (s2, f2, jobs, n) (B\<lparr>running := [(j, True)]\<rparr>)"
      by (rule fence_relI) (use D q S W 1 in \<open>auto simp: barrier_inv_def settled_def apart_def\<close>)
    moreover have "fence_step (Raise j fj) (s, f, jobs, n) = Some (s2, f2, jobs, n)"
      using st 1 W D(6,7) by (simp add: raise_fence_def)
    ultimately show ?thesis using 1 by simp
  next
    case 2
    then have W: "waiting B = []" using barrier_no_fence [OF D(9)] D(7) by simp
    then have nf: "\<forall>r\<in>set (running B). \<not> snd r" using 2 D(7) fences_0 by auto
    obtain s2 f2 where st: "start_job fj ?s ?f = (s2, f2)" by fastforce
    note S = start_job_fields [OF st]
    obtain s3 q3 where bk: "queue_back j s2 (m_blocked_jobs f) = (s3, q3)" by fastforce
    have B: "tq (job_next s3) q3 [j]" "tq (job_next s3) jobs (posted B)" "is_fence s3 = is_fence s2" "in_progress s3 = in_progress s2"
      using queue_back_two [OF bk, of "[]" jobs "posted B"] q S W assms(2) by (auto simp: unused_def)
    have inv: "barrier_inv (running B @ [(fj, False)]) [(j, True)]"
      using nf assms(2,3,4) D(9)
      by (auto simp: barrier_inv_def settled_def unused_def W apart_append apart_plain) (simp_all add: apart_def)
    have "fence_rel (s3, f2\<lparr>m_blocked_jobs := q3\<rparr>, jobs, n + 1)
        (B\<lparr>running := running B @ [(fj, False)], waiting := [(j, True)]\<rparr>)"
      by (rule fence_relI) (use D B S W U inv flags assms(2-4) 2 in \<open>auto simp: unused_def\<close>)
    moreover have "fence_step (Raise j fj) (s, f, jobs, n) = Some (s3, f2\<lparr>m_blocked_jobs := q3\<rparr>, jobs, n + 1)"
      using st bk 2 S D(6) by (simp add: raise_fence_def)
    moreover have "settle (running B) [(fj, False), (j, True)] = (running B @ [(fj, False)], [(j, True)])"
      using nf by (subst settle_takeWhile) auto
    ultimately show ?thesis using 2 W by (simp add: resume_def)
  next
    case 3
    note blocked = barrier_blocked [OF D(9)]
    have S: "settled (running B) (waiting B @ [(fj, False), (j, True)])" using 3 D(7) blocked by simp
    obtain s2 q2 where b2: "queue_back fj ?s (m_blocked_jobs f) = (s2, q2)" by fastforce
    have B2: "tq (job_next s2) q2 (map fst (waiting B) @ [fj])" "tq (job_next s2) jobs (posted B)"
        "is_fence s2 = is_fence ?s" "in_progress s2 = in_progress ?s"
      using queue_back_two [OF b2 q(1,2)] assms(3) D(3) by (auto simp: unused_def)
    obtain s3 q3 where b3: "queue_back j s2 q2 = (s3, q3)" by fastforce
    have B3: "tq (job_next s3) q3 (map fst (waiting B) @ [fj, j])" "tq (job_next s3) jobs (posted B)"
        "is_fence s3 = is_fence ?s" "in_progress s3 = in_progress ?s"
      using queue_back_two [OF b3 B2(1,2)] B2(3,4) assms(2-4) D(3) by (auto simp: unused_def)
    have "apart (((running B @ waiting B) @ [(fj, False)]) @ [(j, True)])"
      using apart_snoc [of "running B @ waiting B" "(fj, False)"] D(9)
      by (simp only: apart_append [of "(running B @ waiting B) @ [(fj, False)]"]) (simp add: barrier_inv_def apart_def)
    then have inv: "barrier_inv (running B) (waiting B @ [(fj, False), (j, True)])"
      using D(9) S assms(2-4) by (auto simp: barrier_inv_def unused_def)
    have "fence_rel (s3, f\<lparr>m_has_fence := m_has_fence f + 1, m_blocked_jobs := q3\<rparr>, jobs, n + 2)
        (B\<lparr>running := running B, waiting := waiting B @ [(fj, False), (j, True)]\<rparr>)"
      by (rule fence_relI) (use D B3 U inv flags assms(2-4) in \<open>auto simp: unused_def\<close>)
    moreover have "m_has_fence f > 0" using 3 D(7) fences_nonneg [of "running B"] fences_nonneg [of "waiting B"] by linarith
    then have "fence_step (Raise j fj) (s, f, jobs, n) = Some (s3, f\<lparr>m_has_fence := m_has_fence f + 1, m_blocked_jobs := q3\<rparr>, jobs, n + 2)"
      using b2 b3 3 by (simp add: raise_fence_def)
    ultimately show ?thesis using 3 S by (simp add: resume_same)
  qed
qed

lemma drop_settle_length:
  "settle R W = (R', W') \<Longrightarrow> R' = R @ drop (length R) R'"
proof (induction R W rule: settle.induct)
  case (2 R w W)
  show ?case
  proof (cases "(\<exists>r\<in>set R. snd r) \<or> snd w \<and> R \<noteq> []")
    case False
    with "2.prems" have *: "settle (R @ [w]) W = (R', W')" by simp
    from "2.IH" [OF False *] have "take (length R) R' = take (length R) ((R @ [w]) @ drop (length (R @ [w])) R')" by simp
    then have "take (length R) R' = R" by simp
    then show ?thesis by (metis append_take_drop_id)
  qed (use "2.prems" in auto)
qed simp

lemma filter_one:
  assumes "distinct (map fst R)" "j \<in> fst ` set R"
  shows "length (filter (\<lambda>r. fst r \<noteq> j) R) = length R - 1"
proof -
  obtain A b C where R: "R = A @ (j, b) # C" using assms(2) by (force dest: split_list)
  with assms(1) have "filter (\<lambda>r. fst r \<noteq> j) A = A" "filter (\<lambda>r. fst r \<noteq> j) C = C" by (auto simp: filter_id_conv)
  with R show ?thesis by simp
qed

lemma fences_filter:
  assumes "distinct (map fst R)" "(j, b) \<in> set R"
  shows "fences (filter (\<lambda>r. fst r \<noteq> j) R) = fences R - (if b then 1 else 0)"
proof -
  obtain A C where R: "R = A @ (j, b) # C" using assms(2) by (force dest: split_list)
  with assms(1) have "filter (\<lambda>r. fst r \<noteq> j) A = A" "filter (\<lambda>r. fst r \<noteq> j) C = C" by (auto simp: filter_id_conv)
  with R show ?thesis by simp
qed

lemma takeWhile_tag:
  assumes "\<forall>w\<in>set W. F (fst w) = snd w"
  shows "takeWhile (\<lambda>w. \<not> F w) (map fst W) = map fst (takeWhile (\<lambda>w. \<not> snd w) W)"
    "dropWhile (\<lambda>w. \<not> F w) (map fst W) = map fst (dropWhile (\<lambda>w. \<not> snd w) W)"
  using assms by (induction W) auto

lemma fence_step_complete_fence:
  assumes "fence_rel (s, f, jobs, n) B" "(j, True) \<in> set (running B)" "j \<notin> set (posted B)"
  shows "\<exists>st. fence_step (Complete j) (s, f, jobs, n) = Some st \<and> fence_rel st (barrier_step (Complete j) B)"
proof -
  note D = fence_relD [OF assms(1)]
  have one: "length (running B) = 1" using D(9) assms(2) by (force simp: barrier_inv_def)
  then have R: "running B = [(j, True)]" using assms(2) by (cases "running B") auto
  let ?s = "s\<lparr>in_progress := (in_progress s)(j := False)\<rparr>"
  let ?f = "f\<lparr>m_outstanding_jobs := m_outstanding_jobs f - 1, m_has_fence := m_has_fence f - 1\<rparr>"
  let ?W = "waiting B" and ?N = "\<lambda>w::job. \<not> snd w"
  have inv0: "apart ([(j, True)] @ ?W)" "distinct (map fst ([(j, True)] @ ?W))"
    using D(9) unfolding barrier_inv_def R by blast+
  then have nh: "?W = [] \<or> \<not> snd (hd ?W)" and ap: "apart ?W" unfolding apart_append by auto
  have tags: "\<forall>w\<in>set ?W. is_fence ?s (fst w) = snd w" using D(5) by auto
  have "?W = [] \<or> \<not> is_fence ?s (hd (map fst ?W))" using nh tags by (cases ?W) auto
  then have u: "unblock (is_fence ?s) (m_outstanding_jobs ?f = 0 \<and> posted B = []) (map fst ?W) =
      (map fst (takeWhile ?N ?W), map fst (dropWhile ?N ?W))"
    using unblock_takeWhile [of _ "map fst ?W" "is_fence ?s"] takeWhile_tag [OF tags] by auto
  obtain s' f' jobs' where P: "post_blocked 0 ?s ?f jobs = Some (0 + int (length (map fst (takeWhile ?N ?W))), s', f', jobs')"
      "tq (job_next s') (m_blocked_jobs f') (map fst (dropWhile ?N ?W))"
      "tq (job_next s') jobs' (posted B @ map fst (takeWhile ?N ?W))" "is_fence s' = is_fence ?s"
      "in_progress s' = (\<lambda>k. k \<in> set (map fst (takeWhile ?N ?W)) \<or> in_progress ?s k)" "m_has_fence f' = m_has_fence ?f"
      "m_outstanding_jobs f' = m_outstanding_jobs ?f + int (length (map fst (takeWhile ?N ?W)))"
    using post_blocked_spec [of ?s ?f "map fst ?W" jobs "posted B" "map fst (takeWhile ?N ?W)" "map fst (dropWhile ?N ?W)" 0, OF _ _ _ _ u]
      D(1-3,6) one by auto
  have st: "settle [] ?W = (takeWhile ?N ?W, dropWhile ?N ?W)" using settle_takeWhile [of "[]" ?W] nh by simp
  have dist: "distinct (map fst ?W)" "apart ?W" "j \<notin> fst ` set ?W"
    using inv0 ap by auto
  have inv: "barrier_inv (takeWhile ?N ?W) (dropWhile ?N ?W)"
    by (rule settle_inv [OF st]) (use dist in auto)
  have F: "fences (takeWhile ?N ?W) + fences (dropWhile ?N ?W) = fences ?W" 
    using fences_simps(3) [of "takeWhile ?N ?W" "dropWhile ?N ?W"] by (simp del: fences_simps)
  have dw: "distinct (map fst (takeWhile ?N ?W) @ map fst (dropWhile ?N ?W))"
    using dist(1) by (metis map_append takeWhile_dropWhile_id)
  have L: "length (takeWhile ?N ?W) + length (dropWhile ?N ?W) = length ?W" by (metis length_append takeWhile_dropWhile_id)
  have "fence_rel (s', f', jobs', n - int (length (takeWhile ?N ?W)))
      (B\<lparr>running := takeWhile ?N ?W, waiting := dropWhile ?N ?W, posted := posted B @ map fst (takeWhile ?N ?W)\<rparr>)"
  proof (rule fence_relI)
    fix k b assume "(k, b) \<in> set (running (B\<lparr>running := takeWhile ?N ?W, waiting := dropWhile ?N ?W, posted := posted B @ map fst (takeWhile ?N ?W)\<rparr>))"
    then show "is_fence s' k = b \<and> in_progress s' k" using tags P(4,5) by (force dest: set_takeWhileD)
  next
    fix k b assume "(k, b) \<in> set (waiting (B\<lparr>running := takeWhile ?N ?W, waiting := dropWhile ?N ?W, posted := posted B @ map fst (takeWhile ?N ?W)\<rparr>))"
    then have k: "(k, b) \<in> set (dropWhile ?N ?W)" "(k, b) \<in> set ?W" by (auto dest: set_dropWhileD)
    then have "k \<notin> set (map fst (takeWhile ?N ?W))" using dw by force
    then show "is_fence s' k = b \<and> \<not> in_progress s' k" using tags k D(5) P(4,5) by auto
  next
    have "fst ` set (dropWhile ?N ?W) \<inter> set (posted B) = {}" using D(3) set_dropWhileD by fastforce
    with dw show "fst ` set (waiting (B\<lparr>running := takeWhile ?N ?W, waiting := dropWhile ?N ?W, posted := posted B @ map fst (takeWhile ?N ?W)\<rparr>)) \<inter>
        set (posted (B\<lparr>running := takeWhile ?N ?W, waiting := dropWhile ?N ?W, posted := posted B @ map fst (takeWhile ?N ?W)\<rparr>)) = {}"
      by auto
  qed (use P D(6-8) one R F L inv in auto)
  moreover have "barrier_step (Complete j) B =
      B\<lparr>running := takeWhile ?N ?W, waiting := dropWhile ?N ?W, posted := posted B @ map fst (takeWhile ?N ?W)\<rparr>"
    by (simp add: R resume_def st)
  moreover have "is_fence s j" using D(4) assms(2) by blast
  ultimately show ?thesis using P(1) by (simp add: job_complete_def)
qed

lemma fence_step_complete_plain:
  assumes "fence_rel (s, f, jobs, n) B" "(j, False) \<in> set (running B)" "j \<notin> set (posted B)"
  shows "\<exists>st. fence_step (Complete j) (s, f, jobs, n) = Some st \<and> fence_rel st (barrier_step (Complete j) B)"
proof -
  note D = fence_relD [OF assms(1)]
  let ?R = "filter (\<lambda>r. fst r \<noteq> j) (running B)" and ?W = "waiting B"
  let ?s = "s\<lparr>in_progress := (in_progress s)(j := False)\<rparr>" and ?f = "f\<lparr>m_outstanding_jobs := m_outstanding_jobs f - 1\<rparr>"
  have dist: "distinct (map fst (running B))" "distinct (map fst (running B @ ?W))" using D(9) by (auto simp: barrier_inv_def)
  have nf: "\<forall>r\<in>set (running B). \<not> snd r"
  proof (rule ccontr)
    assume ex: "\<not> (\<forall>r\<in>set (running B). \<not> snd r)"
    then have "length (running B) = 1" using D(9) by (auto simp: barrier_inv_def)
    with assms(2) have "running B = [(j, False)]" by (cases "running B") auto
    with ex show False by simp
  qed
  have jin: "j \<in> fst ` set (running B)" using assms(2) by force
  have len: "length ?R = length (running B) - 1" using filter_one [OF dist(1) jin] .
  have ne: "running B \<noteq> []" using assms(2) by auto
  have out: "m_outstanding_jobs ?f = int (length ?R)" using D(6) len ne by (cases "running B") auto
  have hF: "m_has_fence f = fences ?R + fences ?W" using fences_filter [OF dist(1) assms(2)] D(7) by simp
  have ap: "apart ?W" using D(9) by (simp add: barrier_inv_def apart_append)
  have nf': "\<forall>r\<in>set ?R. \<not> snd r" using nf by auto
  have ap0: "apart (?R @ ?W)" using apart_plain [OF nf'] ap nf' unfolding apart_append by (metis last_in_set)
  have d0: "distinct (map fst (?R @ ?W))" using dist(2) by (auto simp: distinct_map_filter)
  have sB: "?W = [] \<or> snd (hd ?W)" using D(9) nf by (auto simp: barrier_inv_def settled_def)
  have jf: "\<not> is_fence s j" using D(4) [OF assms(2)] by simp
  have jW: "j \<notin> fst ` set ?W" using jin dist(2) by auto
  show ?thesis
  proof (cases "0 < m_outstanding_jobs ?f \<or> m_has_fence f = 0")
    case True
    have "?W = []" if "m_has_fence f = 0" using barrier_no_fence [OF D(9)] D(7) that by simp
    then have S: "settled ?R ?W" using True sB out by (auto simp: settled_def)
    have inv: "barrier_inv ?R ?W" using S ap0 d0 nf' by (auto simp: barrier_inv_def)
    have "fence_rel (?s, ?f, jobs, n) (B\<lparr>running := ?R, waiting := ?W\<rparr>)"
      by (rule fence_relI) (use D inv out hF jW in auto)
    moreover have "barrier_step (Complete j) B = B\<lparr>running := ?R, waiting := ?W\<rparr>"
      using S len by (simp add: resume_same)
    ultimately show ?thesis using True jf by (auto simp: job_complete_def)
  next
    case False
    then have R0: "?R = []" using out by auto
    have "fences ?W \<noteq> 0" using False hF R0 by simp
    then have Wne: "?W \<noteq> []" by auto
    then obtain w W where w: "?W = (w, True) # W" using sB by (cases ?W) auto
    have wp: "w \<notin> set (posted B)" using D(3) w by auto
    obtain s1 q1 where pop: "queue_pop ?s (m_blocked_jobs f) = Some (w, s1, q1)" "tq (job_next s1) q1 (map fst W)"
        "tq (job_next s1) jobs (posted B)" "is_fence s1 = is_fence s" "in_progress s1 = in_progress ?s"
      using queue_pop_two [of ?s "m_blocked_jobs f" w "map fst W" jobs "posted B"] D(1,2) w wp by auto
    obtain s2 f2 where st: "start_job w s1 (?f\<lparr>m_blocked_jobs := q1\<rparr>) = (s2, f2)" by fastforce
    note S = start_job_fields [OF st]
    obtain s3 q3 where fr: "queue_front w s2 jobs = (s3, q3)" by fastforce
    have dW: "distinct (w # map fst W)" using d0 w by simp
    have B: "tq (job_next s3) q3 (w # posted B)" "tq (job_next s3) q1 (map fst W)" "is_fence s3 = is_fence s"
        "in_progress s3 = (in_progress ?s)(w := True)"
      using queue_front_two [OF fr, of "posted B" q1 "map fst W"] pop S wp dW by auto
    have se: "settle [] ?W = ([(w, True)], W)" using w by (cases W) auto
    have inv: "barrier_inv [(w, True)] W" by (rule settle_inv [OF se]) (use ap0 d0 R0 in auto)
    have "fence_rel (s3, f2, q3, n - 1) (B\<lparr>running := [(w, True)], waiting := W, posted := w # posted B\<rparr>)"
    proof (rule fence_relI)
      fix k b assume "(k, b) \<in> set (waiting (B\<lparr>running := [(w, True)], waiting := W, posted := w # posted B\<rparr>))"
      then have k: "(k, b) \<in> set ?W" "k \<noteq> w" using w dW by force+
      then show "is_fence s3 k = b \<and> \<not> in_progress s3 k" using B D(5) by auto
    next
      show "fst ` set (waiting (B\<lparr>running := [(w, True)], waiting := W, posted := w # posted B\<rparr>)) \<inter>
          set (posted (B\<lparr>running := [(w, True)], waiting := W, posted := w # posted B\<rparr>)) = {}"
        using D(3) w dW by auto
    qed (use B S D(5,8) inv out hF R0 w in auto)
    moreover have "1 = length (running B)" using len R0 ne by (cases "running B") auto
    then have "barrier_step (Complete j) B = B\<lparr>running := [(w, True)], waiting := W, posted := w # posted B\<rparr>"
      using R0 se assms(2) nf by (auto simp: resume_def Let_def)
    moreover have "fence_step (Complete j) (s, f, jobs, n) = Some (s3, f2, q3, n - 1)"
      using False jf pop st fr by (auto simp: job_complete_def)
    ultimately show ?thesis by simp
  qed
qed

lemma fence_step_give:
  assumes "fence_rel (s, f, jobs, n) B" "unused j B"
  shows "\<exists>st. fence_step (Give j) (s, f, jobs, n) = Some st \<and> fence_rel st (barrier_step (Give j) B)"
proof -
  note D = fence_relD [OF assms(1)]
  obtain s2 q2 where bk: "queue_back j s jobs = (s2, q2)" by fastforce
  have B: "tq (job_next s2) q2 (posted B @ [j])" "tq (job_next s2) (m_blocked_jobs f) (map fst (waiting B))"
      "is_fence s2 = is_fence s" "in_progress s2 = in_progress s"
    using queue_back_two [OF bk D(2,1)] assms(2) D(3) by (auto simp: unused_def)
  have "fence_rel (s2, f, q2, n) (B\<lparr>posted := posted B @ [j]\<rparr>)"
    by (rule fence_relI) (use D B assms(2) in \<open>auto simp: unused_def\<close>)
  with bk show ?thesis by simp
qed

lemma fence_step_take:
  assumes "fence_rel (s, f, jobs, n) B" "posted B \<noteq> []"
  shows "\<exists>st. fence_step Take (s, f, jobs, n) = Some st \<and> fence_rel st (barrier_step Take B)"
proof -
  note D = fence_relD [OF assms(1)]
  obtain p ps where p: "posted B = p # ps" using assms(2) by (cases "posted B") auto
  obtain s2 q2 where pop: "queue_pop s jobs = Some (p, s2, q2)" "tq (job_next s2) q2 ps"
      "tq (job_next s2) (m_blocked_jobs f) (map fst (waiting B))" "is_fence s2 = is_fence s" "in_progress s2 = in_progress s"
    using queue_pop_two [of s jobs p ps "m_blocked_jobs f" "map fst (waiting B)"] D(1-3) p by auto
  have "fence_rel (s2, f, q2, n) (B\<lparr>posted := ps\<rparr>)"
    by (rule fence_relI) (use D pop p in auto)
  with pop(1) p show ?thesis by simp
qed

lemma fence_step_sim:
  assumes "fence_rel st B" "call_ok c B"
  shows "\<exists>st'. fence_step c st = Some st' \<and> fence_rel st' (barrier_step c B)"
proof -
  obtain s f jobs n where st: "st = (s, f, jobs, n)" by (cases st)
  note a = assms [unfolded st]
  show ?thesis unfolding st
  proof (cases c)
    case (Complete j)
    then have "\<exists>b. (j, b) \<in> set (running B)" using a(2) by force
    then consider "(j, True) \<in> set (running B)" | "(j, False) \<in> set (running B)" by (metis (full_types))
    then show "\<exists>st'. fence_step c (s, f, jobs, n) = Some st' \<and> fence_rel st' (barrier_step c B)"
      using a fence_step_complete_fence fence_step_complete_plain unfolding Complete by cases fastforce+
  qed (use a fence_step_submit fence_step_raise fence_step_give fence_step_take in \<open>simp_all del: fence_step.simps barrier_step.simps\<close>)
qed

interpretation jf: simulation fence_rel fence_step call_ok barrier_step
  by unfold_locales (rule fence_step_sim)

section \<open>The running jobs are the front of the queue\<close>

text \<open>
  The jobs of the storage that are not complete, in order of arrival. A flush job arrives just
  before the fence job it is issued for, and only when the storage is busy.
\<close>

fun arrival_step :: "fence_call \<Rightarrow> job list \<Rightarrow> job list" where
  "arrival_step (Submit j) L = L @ [(j, False)]"
| "arrival_step (Raise j fj) L = (if L = [] then [(j, True)] else L @ [(fj, False), (j, True)])"
| "arrival_step (Complete j) L = filter (\<lambda>r. fst r \<noteq> j) L"
| "arrival_step (Give j) L = L"
| "arrival_step Take L = L"

text \<open>A fence job at the front runs alone; otherwise the jobs up to the next fence run.\<close>

definition front :: "job list \<Rightarrow> job list" where
  "front L = (case L of [] \<Rightarrow> [] | x # _ \<Rightarrow> if snd x then [x] else takeWhile (\<lambda>w. \<not> snd w) L)"

lemma barrier_front:
  assumes "barrier_inv R W"
  shows "front (R @ W) = R"
proof (cases "\<exists>r\<in>set R. snd r")
  case True
  then obtain r where "R = [r]" "snd r" using assms by (auto simp: barrier_inv_def length_Suc_conv)
  then show ?thesis by (simp add: front_def)
next
  case False
  then have W: "W = [] \<or> snd (hd W) \<and> R \<noteq> []" using assms by (auto simp: barrier_inv_def settled_def)
  have R: "takeWhile (\<lambda>w. \<not> snd w) (R @ W) = R"
    using False W by (cases W) (auto simp: takeWhile_append)
  show ?thesis
  proof (cases R)
    case (Cons r R')
    then have "\<not> snd r" using False by auto
    with R Cons show ?thesis by (simp add: front_def)
  qed (use W in \<open>simp add: front_def\<close>)
qed

lemma resume_arrivals: "running (resume R W B) @ waiting (resume R W B) = R @ W"
  using settle_append [of R W] by (cases "settle R W") (simp add: resume_def)

lemma barrier_arrivals:
  assumes "barrier_inv (running B) (waiting B)" "call_ok c B"
  shows "running (barrier_step c B) @ waiting (barrier_step c B) = arrival_step c (running B @ waiting B)"
proof (cases c)
  case (Complete j)
  have "distinct (map fst (running B @ waiting B))" using assms(1) by (simp add: barrier_inv_def)
  then have "filter (\<lambda>r. fst r \<noteq> j) (waiting B) = waiting B" using Complete assms(2) by (auto simp: filter_id_conv)
  then show ?thesis using Complete by (simp add: Let_def resume_arrivals)
next
  case (Raise j fj)
  have "running B = [] \<Longrightarrow> waiting B = []" using assms(1) by (auto simp: barrier_inv_def settled_def)
  then show ?thesis using Raise by (auto simp: resume_arrivals)
qed (simp_all add: resume_arrivals)

lemma fence_rel_new: "fence_rel (s, new_fence, tq_new, 0) new_barrier"
  by (rule fence_relI) (simp_all add: new_fence_def new_barrier_def barrier_inv_def settled_def apart_def tq_def tq_new_def)

lemma fence_rel_inv: "fence_rel st B \<Longrightarrow> barrier_inv (running B) (waiting B)"
  by (cases st) (auto dest: fence_relD)

lemma run_arrivals:
  assumes "fence_rel st B" "permitted call_ok barrier_step cs B"
  shows "running (fold barrier_step cs B) @ waiting (fold barrier_step cs B) = fold arrival_step cs (running B @ waiting B)"
  using assms
proof (induction cs arbitrary: st B)
  case (Cons c cs)
  obtain st' where "fence_rel st' (barrier_step c B)" using fence_step_sim Cons.prems by fastforce
  with Cons show ?case using barrier_arrivals [OF fence_rel_inv] by fastforce
qed simp

text \<open>What a run of permitted calls from a new fence gives, for every initial store of jobs.\<close>

lemma fence_run:
  assumes "permitted call_ok barrier_step cs new_barrier" "L = fold arrival_step cs []"
  shows "\<exists>s' f jobs n. run fence_step cs (s, new_fence, tq_new, 0) = Some (s', f, jobs, n) \<and>
     fence_rel (s', f, jobs, n) (fold barrier_step cs new_barrier) \<and> running (fold barrier_step cs new_barrier) = front L \<and>
     waiting (fold barrier_step cs new_barrier) = drop (length (front L)) L"
proof -
  let ?B = "fold barrier_step cs new_barrier"
  obtain s' f jobs n where r: "run fence_step cs (s, new_fence, tq_new, 0) = Some (s', f, jobs, n)" "fence_rel (s', f, jobs, n) ?B"
    using jf.run_sim [OF fence_rel_new assms(1)] by fastforce
  have L: "running ?B @ waiting ?B = L"
    using run_arrivals [OF fence_rel_new assms(1)] assms(2) by (simp add: new_barrier_def)
  have "running ?B = front L" using barrier_front [OF fence_rel_inv [OF r(2)]] L by simp
  moreover from L this have "waiting ?B = drop (length (front L)) L" by (metis append_eq_conv_conj)
  ultimately show ?thesis using r by blast
qed

lemma front_nonempty: "L \<noteq> [] \<Longrightarrow> front L \<noteq> []"
  by (cases L) (auto simp: front_def)

lemma front_fence: "r \<in> set (front L) \<Longrightarrow> snd r \<Longrightarrow> front L = [r]"
  by (cases L) (auto simp: front_def split: if_splits dest: set_takeWhileD)

fun is_complete :: "fence_call \<Rightarrow> bool" where
  "is_complete (Complete j) = True"
| "is_complete _ = False"

fun drains :: "fence_call \<Rightarrow> bool" where
  "drains (Complete j) = True"
| "drains Take = True"
| "drains _ = False"

lemma drain_length:
  assumes "fence_rel st B" "permitted call_ok barrier_step ds B" "list_all drains ds"
  shows "length (fold arrival_step ds (running B @ waiting B)) + length (filter is_complete ds) = length (running B @ waiting B)"
  using assms
proof (induction ds arbitrary: st B)
  case (Cons c ds)
  let ?L = "running B @ waiting B"
  have inv: "barrier_inv (running B) (waiting B)" using fence_rel_inv Cons.prems(1) by blast
  obtain st' where "fence_rel st' (barrier_step c B)" using fence_step_sim Cons.prems by fastforce
  moreover have e: "running (barrier_step c B) @ waiting (barrier_step c B) = arrival_step c ?L"
    using barrier_arrivals [OF inv] Cons.prems(2) by simp
  ultimately have "length (fold arrival_step ds (arrival_step c ?L)) + length (filter is_complete ds) = length (arrival_step c ?L)"
    using Cons.IH [of st' "barrier_step c B"] Cons.prems by (simp add: e del: length_append)
  moreover have "length (arrival_step c ?L) + (if is_complete c then 1 else 0) = length ?L"
  proof (cases c)
    case (Complete j)
    then have j: "j \<in> fst ` set ?L" using Cons.prems(2) by auto
    moreover have "distinct (map fst ?L)" using inv by (simp add: barrier_inv_def)
    moreover have "?L \<noteq> []" using j by auto
    ultimately show ?thesis using filter_one [of ?L j] Complete by (cases ?L) (simp_all del: filter_append length_append)
  qed (use Cons.prems(3) in auto)
  ultimately show ?case by (simp split: if_splits)
qed simp

section \<open>Properties of the fence\<close>

definition fence_start :: "fence_state" where
  "fence_start = (\<lparr>job_next = (\<lambda>_. None), is_fence = (\<lambda>_. False), in_progress = (\<lambda>_. False)\<rparr>, new_fence, tq_new, 0)"

definition fence_example :: "fence_call list" where
  "fence_example = [Submit 1, Submit 2, Raise 4 3, Submit 5, Raise 7 6, Complete 2, Give 9, Complete 1, Complete 3]"

text \<open>
  C10: Every sequence of permitted calls on a new fence runs without reading a null pointer, and
  the fence then is a queue: with \<open>L\<close> the incomplete jobs in order of arrival, the jobs counted
  as outstanding are the front of \<open>L\<close> (a fence job alone, or the jobs up to the next fence),
  \<open>m_blocked_jobs\<close> holds exactly the others in their order, \<open>m_has_fence\<close> counts the fence
  jobs of \<open>L\<close> and the counter \<open>blocked_disk_jobs\<close> is the number of jobs that wait.
\<close>

theorem fence_is_fifo:
  assumes "permitted call_ok barrier_step cs new_barrier" "L = fold arrival_step cs []"
  shows "\<exists>s' f jobs n. run fence_step cs (s, new_fence, tq_new, 0) = Some (s', f, jobs, n) \<and>
     tq (job_next s') (m_blocked_jobs f) (map fst (drop (length (front L)) L)) \<and>
     num_outstanding_jobs f = int (length (front L)) \<and> m_has_fence f = fences L \<and>
     n = int (length L) - int (length (front L))"
proof -
  let ?B = "fold barrier_step cs new_barrier"
  obtain s' f jobs n where r: "run fence_step cs (s, new_fence, tq_new, 0) = Some (s', f, jobs, n)" "fence_rel (s', f, jobs, n) ?B"
      "running ?B = front L" "waiting ?B = drop (length (front L)) L"
    using fence_run [OF assms] by blast
  note D = fence_relD [OF r(2)]
  have L: "front L @ drop (length (front L)) L = L"
    using run_arrivals [OF fence_rel_new assms(1)] assms(2) r(3,4) by (simp add: new_barrier_def)
  then have "fences L = fences (front L) + fences (drop (length (front L)) L)" "length (front L) \<le> length L"
    by (metis fences_simps(3), metis length_append le_add1)
  then show ?thesis using r D by (intro exI [of _ s'] exI [of _ f] exI [of _ jobs] exI [of _ n]) (simp add: num_outstanding_jobs_def)
qed

theorem fence_is_fifo_witness:
  "\<exists>s' f jobs n. run fence_step fence_example fence_start = Some (s', f, jobs, n) \<and>
     tq (job_next s') (m_blocked_jobs f) [5, 6, 7] \<and> num_outstanding_jobs f = 1 \<and> m_has_fence f = 2 \<and> n = 3"
proof -
  have p: "permitted call_ok barrier_step fence_example new_barrier" by code_simp
  have L: "[(4, True), (5, False), (6, False), (7, True)] = fold arrival_step fence_example []" by code_simp
  show ?thesis using fence_is_fifo [OF p L] by (simp add: fence_start_def front_def)
qed

text \<open>
  C11: Exclusion. After permitted calls, a fence job that is in progress is the only job of the
  storage in progress and the only one outstanding, which is what the disk thread asserts before
  it moves, deletes or releases files.
\<close>

theorem fence_exclusive:
  assumes "permitted call_ok barrier_step cs new_barrier" "run fence_step cs (s, new_fence, tq_new, 0) = Some (s', f, jobs, n)"
    "L = fold arrival_step cs []" "(j, True) \<in> set L" "in_progress s' j"
  shows "filter (in_progress s') (map fst L) = [j] \<and> num_outstanding_jobs f = 1"
proof -
  let ?B = "fold barrier_step cs new_barrier" and ?rest = "drop (length (front L)) L"
  have r: "fence_rel (s', f, jobs, n) ?B" "running ?B = front L" "waiting ?B = ?rest"
    using fence_run [OF assms(1,3), of s] assms(2) by auto
  note D = fence_relD [OF r(1)]
  have L: "L = front L @ ?rest" using run_arrivals [OF fence_rel_new assms(1)] assms(3) r(2,3) by (simp add: new_barrier_def)
  have "(j, True) \<notin> set ?rest" using D(5) [of j True] r(3) assms(5) by auto
  with L assms(4) have "(j, True) \<in> set (front L)" by (metis Un_iff set_append)
  then have F: "front L = [(j, True)]" by (rule front_fence) simp
  have "filter (in_progress s') (map fst ?rest) = []" using D(5) r(3) by (auto simp: filter_empty_conv)
  moreover have "map fst L = j # map fst ?rest" using arg_cong [OF L, of "map fst"] F by simp
  ultimately show ?thesis using assms(5) D(6) r(2) F by (simp add: num_outstanding_jobs_def)
qed

theorem fence_exclusive_witness:
  "\<exists>s' f jobs n. run fence_step fence_example fence_start = Some (s', f, jobs, n) \<and>
     filter (in_progress s') [4, 5, 6, 7] = [4] \<and> num_outstanding_jobs f = 1"
proof -
  have p: "permitted call_ok barrier_step fence_example new_barrier" by code_simp
  have L: "[(4, True), (5, False), (6, False), (7, True)] = fold arrival_step fence_example []" by code_simp
  obtain s' f jobs n where r: "run fence_step fence_example fence_start = Some (s', f, jobs, n)"
      "fence_rel (s', f, jobs, n) (fold barrier_step fence_example new_barrier)"
    using fence_run [OF p L] unfolding fence_start_def by blast
  have "running (fold barrier_step fence_example new_barrier) = [(4, True)]" by code_simp
  then have "in_progress s' 4" using fence_relD(4) [OF r(2), of 4 True] by simp
  with fence_exclusive [OF p r(1) [unfolded fence_start_def] L, of 4] r(1) show ?thesis by auto
qed

text \<open>
  C13: No lost wake-up. After permitted calls, jobs wait only while some job of the storage is
  outstanding, whatever the queue shared with other storages holds.
\<close>

theorem fence_no_deadlock:
  assumes "permitted call_ok barrier_step cs new_barrier" "run fence_step cs (s, new_fence, tq_new, 0) = Some (s', f, jobs, n)"
    "num_blocked f > 0"
  shows "num_outstanding_jobs f > 0"
proof -
  let ?B = "fold barrier_step cs new_barrier" and ?L = "fold arrival_step cs []"
  have r: "fence_rel (s', f, jobs, n) ?B" "running ?B = front ?L" "waiting ?B = drop (length (front ?L)) ?L"
    using fence_run [OF assms(1) refl, of s] assms(2) by auto
  note D = fence_relD [OF r(1)]
  have "?L \<noteq> []" using tq_length [OF D(1)] assms(3) r(3) by (auto simp: num_blocked_def)
  then have "front ?L \<noteq> []" by (rule front_nonempty)
  then show ?thesis using D(6) r(2) by (simp add: num_outstanding_jobs_def)
qed

theorem fence_no_deadlock_witness:
  "\<exists>s' f jobs n. run fence_step fence_example fence_start = Some (s', f, jobs, n) \<and> num_outstanding_jobs f > 0"
proof -
  have p: "permitted call_ok barrier_step fence_example new_barrier" by code_simp
  obtain s' f jobs n where r: "run fence_step fence_example fence_start = Some (s', f, jobs, n)"
      "fence_rel (s', f, jobs, n) (fold barrier_step fence_example new_barrier)"
    using fence_run [OF p refl] unfolding fence_start_def by blast
  have "waiting (fold barrier_step fence_example new_barrier) = [(5, False), (6, False), (7, True)]" by code_simp
  then have "num_blocked f > 0" using tq_length [OF fence_relD(1) [OF r(2)]] by (simp add: num_blocked_def)
  then show ?thesis using fence_no_deadlock [OF p r(1) [unfolded fence_start_def]] r(1) by auto
qed

text \<open>
  C12: The backlog drains. Once no more jobs are submitted, as many completions as there are
  incomplete jobs, in any permitted order and with the caller taking jobs from the shared queue
  in between, leave the fence lowered with nothing waiting, nothing outstanding and a blocked
  counter of zero.
\<close>

theorem fence_drains:
  assumes "permitted call_ok barrier_step (cs @ ds) new_barrier" "list_all drains ds"
    "length (filter is_complete ds) = length (fold arrival_step cs [])"
  shows "\<exists>s' f jobs. run fence_step (cs @ ds) (s, new_fence, tq_new, 0) = Some (s', f, jobs, 0) \<and>
     num_blocked f = 0 \<and> num_outstanding_jobs f = 0 \<and> \<not> has_fence f"
proof -
  let ?L = "fold arrival_step (cs @ ds) []" and ?B = "fold barrier_step (cs @ ds) new_barrier"
  have p: "permitted call_ok barrier_step cs new_barrier" "permitted call_ok barrier_step ds (fold barrier_step cs new_barrier)"
    using assms(1) by (simp_all add: permitted_append)
  obtain st where "fence_rel st (fold barrier_step cs new_barrier)" using fence_run [OF p(1) refl] by blast
  note d = drain_length [OF this p(2) assms(2)]
  have e: "running (fold barrier_step cs new_barrier) @ waiting (fold barrier_step cs new_barrier) = fold arrival_step cs []"
    using run_arrivals [OF fence_rel_new p(1)] by (simp add: new_barrier_def)
  have "?L = []" using d [unfolded e] assms(3) by simp
  then obtain s' f jobs n where r: "run fence_step (cs @ ds) (s, new_fence, tq_new, 0) = Some (s', f, jobs, n)"
      "fence_rel (s', f, jobs, n) ?B" "running ?B = []" "waiting ?B = []"
    using fence_run [OF assms(1) refl, of s] by (auto simp: front_def)
  note D = fence_relD [OF r(2)]
  show ?thesis using r(1) D(6-8) tq_length [OF D(1)] r(3,4)
    by (simp add: num_blocked_def num_outstanding_jobs_def has_fence_def)
qed

theorem fence_drains_witness:
  "\<exists>s' f jobs. run fence_step (fence_example @ [Take, Complete 4, Take, Take, Take, Complete 5, Complete 6, Take, Complete 7]) fence_start =
     Some (s', f, jobs, 0) \<and> num_blocked f = 0 \<and> num_outstanding_jobs f = 0 \<and> \<not> has_fence f"
  unfolding fence_start_def by (rule fence_drains) code_simp+

end
