(* ===== verification/Packet_Buffer.thy ===== *)
theory Packet_Buffer
  imports Prelude "HOL-Library.Monad_Syntax"
begin

text \<open>
  \<^verbatim>\<open>packet_buffer.cpp\<close>: the growing ring buffer in which a uTP socket keeps the packets in
  flight and the packets received out of order, indexed by 16-bit sequence numbers that wrap.
  Indices and sizes are integers: every difference the code takes on \<^verbatim>\<open>uint32_t\<close> is masked
  before it is used, and the one shift that can wrap is written with \<open>take_bit 32\<close>. A slot
  outside the array is \<open>None\<close>, an empty slot \<open>Some None\<close>.

  The specification is a partial map on the sequence numbers. The operations implement it as
  long as the index does not lie behind the wrap of the sequence numbers while the window ends
  in front of it; the last section shows what they do otherwise.
\<close>

section \<open>The buffer and its operations\<close>

record 'p packet_buffer =
  m_storage :: "'p option list"
  m_capacity :: int
  m_size :: int
  m_first :: int
  m_last :: int

definition new_buffer :: "'p packet_buffer" where
  "new_buffer = \<lparr>m_storage = [], m_capacity = 0, m_size = 0, m_first = 0, m_last = 0\<rparr>"

definition compare_less_wrap :: "int \<Rightarrow> int \<Rightarrow> int \<Rightarrow> bool" where
  "compare_less_wrap lhs rhs msk =
     (let dist_down = (lhs - rhs) AND msk; dist_up = (rhs - lhs) AND msk in dist_up < dist_down)"

definition slot :: "'p packet_buffer \<Rightarrow> int \<Rightarrow> 'p option option" where
  "slot b i = (if 0 \<le> i \<and> i < int (length (m_storage b)) then Some (m_storage b ! nat i) else None)"

definition span :: "'p packet_buffer \<Rightarrow> int" where
  "span b = (m_last b - m_first b) AND 0xffff"

text \<open>The loop \<^verbatim>\<open>while (new_size < size) new_size <<= 1\<close> and the copy into the new array.\<close>

partial_function (option) grow :: "int \<Rightarrow> int \<Rightarrow> int option" where
  "grow new_size sz = (if new_size < sz then grow (take_bit 32 (2 * new_size)) sz else Some new_size)"

declare grow.simps [code]

definition copy_slot :: "'p packet_buffer \<Rightarrow> int \<Rightarrow> int \<Rightarrow> 'p option list \<Rightarrow> 'p option list" where
  "copy_slot b new_size i st = st[nat (i AND (new_size - 1)) := m_storage b ! nat (i AND (m_capacity b - 1))]"

definition reserve :: "int \<Rightarrow> 'p packet_buffer \<Rightarrow> 'p packet_buffer option" where
  "reserve sz b = do {
     new_size \<leftarrow> grow (if m_capacity b = 0 then 16 else m_capacity b) sz;
     let new_storage = fold (copy_slot b new_size) [m_first b .. m_first b + m_capacity b - 1] (replicate (nat new_size) None);
     Some (b\<lparr>m_storage := new_storage, m_capacity := new_size\<rparr>)
   }"

fun free_loop :: "nat \<Rightarrow> 'p packet_buffer \<Rightarrow> int \<Rightarrow> int \<Rightarrow> int option" where
  "free_loop 0 b i free_space = None"
| "free_loop (Suc n) b i free_space =
     (if i = (m_first b AND (m_capacity b - 1)) then Some free_space
      else do {
        x \<leftarrow> slot b (i AND (m_capacity b - 1));
        if x \<noteq> None then Some free_space else free_loop n b ((i - 1) AND (m_capacity b - 1)) (free_space + 1)
      })"

definition make_room :: "int \<Rightarrow> 'p packet_buffer \<Rightarrow> 'p packet_buffer option" where
  "make_room idx b =
     (let first = m_first b; cap = m_capacity b in
      if compare_less_wrap idx first 0xffff then do {
        free_space \<leftarrow> free_loop (nat cap) b ((first - 1) AND (cap - 1)) 0;
        b \<leftarrow> (if ((first - idx) AND 0xffff) > free_space then reserve (((first - idx) AND 0xffff) + cap - free_space) b else Some b);
        Some (b\<lparr>m_first := idx\<rparr>)
      }
      else if idx \<ge> first + cap then reserve (idx - first + 1) b
      else if idx < first then
        (if idx \<ge> ((first + cap) AND 0xffff) \<and> cap < 0xffff then reserve (cap + (idx + 1 - ((first + cap) AND 0xffff))) b else Some b)
      else Some b)"

fun skip_up :: "nat \<Rightarrow> 'p packet_buffer \<Rightarrow> int \<Rightarrow> int option" where
  "skip_up 0 b i = Some i"
| "skip_up (Suc n) b i = do { x \<leftarrow> slot b (i AND (m_capacity b - 1)); if x \<noteq> None then Some i else skip_up n b (i + 1) }"

fun skip_down :: "nat \<Rightarrow> 'p packet_buffer \<Rightarrow> int \<Rightarrow> int option" where
  "skip_down 0 b i = Some i"
| "skip_down (Suc n) b i = do { x \<leftarrow> slot b (i AND (m_capacity b - 1)); if x \<noteq> None then Some i else skip_down n b (i - 1) }"

definition remove_at :: "int \<Rightarrow> 'p packet_buffer \<Rightarrow> ('p option \<times> 'p packet_buffer) option" where
  "remove_at idx b =
     (if idx \<ge> m_first b + m_capacity b then Some (None, b)
      else if compare_less_wrap idx (m_first b) 0xffff then Some (None, b)
      else do {
        let k = idx AND (m_capacity b - 1);
        old_value \<leftarrow> slot b k;
        let b = b\<lparr>m_storage := (m_storage b)[nat k := None]\<rparr>;
        let b = (if old_value \<noteq> None then
                   let b = b\<lparr>m_size := m_size b - 1\<rparr> in if m_size b = 0 then b\<lparr>m_last := m_first b\<rparr> else b
                 else b);
        b \<leftarrow> (if idx = m_first b \<and> m_size b \<noteq> 0 then do {
                 f \<leftarrow> skip_up (nat (m_capacity b)) b (m_first b + 1); Some (b\<lparr>m_first := f AND 0xffff\<rparr>) }
              else Some b);
        b \<leftarrow> (if (idx + 1) AND 0xffff = m_last b \<and> m_size b \<noteq> 0 then do {
                 l \<leftarrow> skip_down (nat (m_capacity b)) b (m_last b - 1); Some (b\<lparr>m_last := (l + 1) AND 0xffff\<rparr>) }
              else Some b);
        Some (old_value, b)
      })"

definition insert_at :: "int \<Rightarrow> 'p option \<Rightarrow> 'p packet_buffer \<Rightarrow> ('p option \<times> 'p packet_buffer) option" where
  "insert_at idx val b =
     (if val = None then remove_at idx b
      else do {
        b \<leftarrow> (if m_size b \<noteq> 0 then do {
                 b \<leftarrow> make_room idx b;
                 Some (if compare_less_wrap (m_last b) ((idx + 1) AND 0xffff) 0xffff then b\<lparr>m_last := (idx + 1) AND 0xffff\<rparr> else b) }
              else Some (b\<lparr>m_first := idx, m_last := (idx + 1) AND 0xffff\<rparr>));
        b \<leftarrow> (if m_capacity b = 0 then reserve 16 b else Some b);
        let k = idx AND (m_capacity b - 1);
        old_value \<leftarrow> slot b k;
        let b = b\<lparr>m_storage := (m_storage b)[nat k := val]\<rparr>;
        let b = (if m_size b = 0 then b\<lparr>m_first := idx\<rparr> else b);
        let b = (if old_value = None then b\<lparr>m_size := m_size b + 1\<rparr> else b);
        Some (old_value, b)
      })"

definition at_index :: "int \<Rightarrow> 'p packet_buffer \<Rightarrow> 'p option option" where
  "at_index idx b =
     (if idx \<ge> m_first b + m_capacity b then Some None
      else if compare_less_wrap idx (m_first b) 0xffff then Some None
      else slot b (idx AND (m_capacity b - 1)))"

section \<open>Sequence numbers and their distance\<close>

definition dist :: "int \<Rightarrow> int \<Rightarrow> int" where
  "dist a b = (b - a) mod 65536"

lemma and_ffff [simp]: "x AND 65535 = x mod 65536" for x :: int
  using take_bit_eq_mask [of 16 x] by (simp add: take_bit_eq_mod mask_eq_exp_minus_1)

lemma and_cap: "x AND (2 ^ k - 1) = x mod 2 ^ k" for x :: int
  using take_bit_eq_mask [of k x] by (simp add: take_bit_eq_mod mask_eq_exp_minus_1)

lemma dist_range [simp]: "0 \<le> dist a b" "dist a b < 65536"
  by (simp_all add: dist_def)

lemma less_wrap_iff:
  assumes "0 \<le> a" "a < 65536" "0 \<le> b" "b < 65536"
  shows "compare_less_wrap a b 65535 \<longleftrightarrow> dist b a > 32768"
proof (cases "a = b")
  case False
  have "(a - b) mod 65536 = (if a < b then a - b + 65536 else a - b)" "(b - a) mod 65536 = (if b < a then b - a + 65536 else b - a)"
    using assms by (auto simp: mod_pos_pos_trivial intro: mod_pos_pos_trivial [of "_ + 65536" 65536, simplified])
  then show ?thesis using False by (auto simp: compare_less_wrap_def dist_def)
qed (simp add: compare_less_wrap_def dist_def)

lemma cap_dvd: "k \<le> 16 \<Longrightarrow> (2::int) ^ k dvd 65536"
  using le_imp_power_dvd [of k 16 "2::int"] by simp

lemma dist_slot: "k \<le> 16 \<Longrightarrow> (a + dist a i) mod 2 ^ k = i mod 2 ^ k"
  unfolding dist_def using mod_mod_cancel [OF cap_dvd, of k "i - a"] by (metis add.commute diff_add_cancel mod_add_left_eq)

lemma dist_add: "0 \<le> a \<Longrightarrow> a < 65536 \<Longrightarrow> 0 \<le> d \<Longrightarrow> d < 65536 \<Longrightarrow> dist a ((a + d) mod 65536) = d"
  unfolding dist_def by (simp add: mod_diff_left_eq)

lemma add_dist: "0 \<le> i \<Longrightarrow> i < 65536 \<Longrightarrow> (a + dist a i) mod 65536 = i"
  unfolding dist_def by (simp add: mod_add_right_eq)

lemma dist_inj: "0 \<le> i \<Longrightarrow> i < 65536 \<Longrightarrow> 0 \<le> j \<Longrightarrow> j < 65536 \<Longrightarrow> dist a i = dist a j \<longleftrightarrow> i = j"
  using add_dist [of i a] add_dist [of j a] by metis

lemma dist_self [simp]: "dist a a = 0"
  by (simp add: dist_def)

lemma dist_cases:
  assumes "0 \<le> a" "a < 65536" "0 \<le> b" "b < 65536"
  shows "dist a b = (if a \<le> b then b - a else b - a + 65536)"
  unfolding dist_def using assms by (auto intro: mod_pos_pos_trivial [of "_ + 65536" 65536, simplified])

section \<open>The map a buffer holds\<close>

definition pb_map :: "'p packet_buffer \<Rightarrow> int \<Rightarrow> 'p option" where
  "pb_map b i = (if 0 \<le> i \<and> i < 65536 \<and> dist (m_first b) i < m_capacity b then m_storage b ! nat (i mod m_capacity b) else None)"

definition shaped :: "nat \<Rightarrow> 'p packet_buffer \<Rightarrow> bool" where
  "shaped k b \<longleftrightarrow> k \<le> 15 \<and> m_capacity b = 2 ^ k \<and> length (m_storage b) = 2 ^ k \<and> 0 \<le> m_first b \<and> m_first b < 65536"

lemma pb_fields [simp]:
  "pb_map (b\<lparr>m_size := x\<rparr>) = pb_map b" "pb_map (b\<lparr>m_last := y\<rparr>) = pb_map b"
  "shaped k (b\<lparr>m_size := x\<rparr>) = shaped k b" "shaped k (b\<lparr>m_last := y\<rparr>) = shaped k b"
  by (simp_all add: pb_map_def shaped_def fun_eq_iff)

lemma shapedD:
  assumes "shaped k b"
  shows "k \<le> 15" "k \<le> 16" "m_capacity b = 2 ^ k" "length (m_storage b) = 2 ^ k" "0 \<le> m_first b" "m_first b < 65536"
    "0 < m_capacity b" "(2::int) ^ k \<le> 32768"
proof -
  have "(2::int) ^ k \<le> 2 ^ 15" using assms by (intro power_increasing) (auto simp: shaped_def)
  then show "(2::int) ^ k \<le> 32768" by simp
qed (use assms in \<open>auto simp: shaped_def\<close>)

lemma slot_and:
  assumes "shaped k b"
  shows "slot b (i AND (m_capacity b - 1)) = Some (m_storage b ! nat (i mod m_capacity b))"
proof -
  have "0 \<le> i mod 2 ^ k" "i mod 2 ^ k < (2::int) ^ k" by simp_all
  then show ?thesis using shapedD [OF assms] by (simp add: slot_def and_cap)
qed

lemma pb_map_dist:
  assumes "shaped k b" "0 \<le> d" "d < m_capacity b"
  shows "pb_map b ((m_first b + d) mod 65536) = m_storage b ! nat ((m_first b + d) mod m_capacity b)"
proof -
  note S = shapedD [OF assms(1)]
  have d: "d < 65536" using assms(3) S by linarith
  have "(m_first b + d) mod 65536 mod 2 ^ k = (m_first b + d) mod 2 ^ k" using cap_dvd [OF S(2)] by (rule mod_mod_cancel)
  then show ?thesis using dist_add [OF S(5,6) assms(2) d] assms(3) S by (simp add: pb_map_def)
qed

lemma pb_map_slot:
  assumes "shaped k b" "0 \<le> i" "i < 65536" "dist (m_first b) i < m_capacity b"
  shows "pb_map b i = m_storage b ! nat (i mod m_capacity b)"
  using assms by (simp add: pb_map_def)

lemma slots_differ:
  assumes "k \<le> 16" "dist a i < 2 ^ k" "dist a j < 2 ^ k" "i mod 2 ^ k = j mod 2 ^ k" "0 \<le> i" "i < 65536" "0 \<le> j" "j < 65536"
  shows "i = j"
proof -
  have "(i - a) mod 65536 mod 2 ^ k = (i - a) mod 2 ^ k" "(j - a) mod 65536 mod 2 ^ k = (j - a) mod 2 ^ k"
    using cap_dvd [OF assms(1)] by (simp_all add: mod_mod_cancel)
  moreover have "dist a i mod 2 ^ k = dist a i" "dist a j mod 2 ^ k = dist a j" using assms(2,3) by simp_all
  ultimately have "dist a i = dist a j" using assms(4) unfolding dist_def by (metis mod_diff_left_eq)
  then show ?thesis using dist_inj assms(5-) by blast
qed

lemma nat_mod_less: "nat (x mod 2 ^ k) < 2 ^ k"
proof -
  have "nat (x mod 2 ^ k) < nat (2 ^ k)" by (subst nat_mono_iff) auto
  then show ?thesis by (simp add: nat_power_eq)
qed

lemma nat_mod_eq: "nat (x mod 2 ^ k) = nat (y mod 2 ^ k) \<longleftrightarrow> x mod 2 ^ k = y mod (2::int) ^ k"
  by (metis pos_mod_sign eq_nat_nat_iff zero_less_numeral zero_less_power)

lemma grow_spec:
  assumes "k \<le> 15" "sz \<le> 32768"
  shows "\<exists>k'. k \<le> k' \<and> k' \<le> 15 \<and> grow (2 ^ k) sz = Some (2 ^ k') \<and> sz \<le> 2 ^ k'"
  using assms
proof (induction "15 - k" arbitrary: k)
  case 0
  then have "k = 15" by simp
  then show ?case using assms(2) by (intro exI [of _ 15]) (simp add: grow.simps)
next
  case (Suc n)
  show ?case
  proof (cases "2 ^ k < sz")
    case True
    have "(2::int) ^ Suc k < 2 ^ 32" using Suc.hyps(2) by (intro power_strict_increasing) auto
    then have t: "take_bit 32 (2 * (2::int) ^ k) = 2 ^ Suc k" by (simp add: take_bit_eq_mod)
    have "n = 15 - Suc k" "Suc k \<le> 15" using Suc.hyps(2) by auto
    from Suc.hyps(1) [OF this assms(2)]
    obtain k' where "Suc k \<le> k'" "k' \<le> 15" "grow (2 ^ Suc k) sz = Some (2 ^ k')" "sz \<le> 2 ^ k'" by blast
    then show ?thesis using True t by (intro exI [of _ k']) (simp add: grow.simps [of "2 ^ k"])
  next
    case False
    then show ?thesis using Suc.prems by (intro exI [of _ k]) (simp add: grow.simps [of "2 ^ k"])
  qed
qed

lemma copy_all:
  assumes "length st = 2 ^ n" "inj_on (\<lambda>i. i mod 2 ^ n) (set is)" "m_capacity b = 2 ^ k"
  shows "length (fold (copy_slot b (2 ^ n)) is st) = 2 ^ n \<and>
    (\<forall>i\<in>set is. fold (copy_slot b (2 ^ n)) is st ! nat (i mod 2 ^ n) = m_storage b ! nat (i mod 2 ^ k)) \<and>
    (\<forall>p. (\<forall>i\<in>set is. nat (i mod 2 ^ n) \<noteq> p) \<longrightarrow> fold (copy_slot b (2 ^ n)) is st ! p = st ! p)"
  using assms
proof (induction "is" arbitrary: st)
  case (Cons i "is")
  let ?st = "copy_slot b (2 ^ n) i st"
  have st: "?st = st[nat (i mod 2 ^ n) := m_storage b ! nat (i mod 2 ^ k)]" by (simp add: copy_slot_def and_cap Cons.prems(3))
  have "length ?st = 2 ^ n" using Cons.prems(1) by (simp add: st)
  note IH = Cons.IH [OF this _ Cons.prems(3)]
  show ?case
  proof (cases "i \<in> set is")
    case False
    then have "\<forall>j\<in>set is. nat (j mod 2 ^ n) \<noteq> nat (i mod 2 ^ n)" using Cons.prems(2) by (auto simp: nat_mod_eq inj_on_def)
    then show ?thesis using IH Cons.prems(1,2) nat_mod_less [of i n] by (auto simp: st nth_list_update)
  next
    case True
    then show ?thesis using IH Cons.prems(2) by (auto simp: st insert_absorb nth_list_update)
  qed
qed simp

lemma reserve_empty:
  assumes "m_capacity b = 0" "0 \<le> m_first b" "m_first b < 65536" "sz \<le> 16"
  shows "reserve sz b = Some (b\<lparr>m_storage := replicate 16 None, m_capacity := 16\<rparr>)"
  using assms by (simp add: reserve_def grow.simps)

lemma reserve_spec:
  assumes "shaped k b" "sz \<le> 32768"
  shows "\<exists>st n. reserve sz b = Some (b\<lparr>m_storage := st, m_capacity := 2 ^ n\<rparr>) \<and> k \<le> n \<and> sz \<le> 2 ^ n \<and>
     shaped n (b\<lparr>m_storage := st, m_capacity := 2 ^ n\<rparr>) \<and> pb_map (b\<lparr>m_storage := st, m_capacity := 2 ^ n\<rparr>) = pb_map b"
proof -
  note S = shapedD [OF assms(1)]
  obtain n where n: "k \<le> n" "n \<le> 15" "grow (2 ^ k) sz = Some (2 ^ n)" "sz \<le> 2 ^ n" using grow_spec [OF S(1) assms(2)] by blast
  let ?is = "[m_first b .. m_first b + m_capacity b - 1]"
  let ?st = "fold (copy_slot b (2 ^ n)) ?is (replicate (2 ^ n) None)"
  let ?b = "b\<lparr>m_storage := ?st, m_capacity := 2 ^ n\<rparr>"
  have kn: "(2::int) ^ k \<le> 2 ^ n" using n(1) by (simp add: power_increasing)
  have bn: "(2::int) ^ n \<le> 32768" using power_increasing [OF n(2), of "2::int"] by simp
  have inj: "inj_on (\<lambda>i. i mod 2 ^ n) (set ?is)"
  proof (rule inj_onI)
    fix i j assume ij: "i \<in> set ?is" "j \<in> set ?is" "i mod 2 ^ n = j mod 2 ^ n"
    then have "2 ^ n dvd i - j" by (simp add: mod_eq_dvd_iff)
    moreover have "m_first b \<le> i" "i < m_first b + 2 ^ k" "m_first b \<le> j" "j < m_first b + 2 ^ k" using ij(1,2) S by auto
    then have "\<bar>i - j\<bar> < 2 ^ n" using kn by linarith
    ultimately show "i = j" using dvd_imp_le_int [of "i - j" "2 ^ n"] by auto
  qed
  note C = copy_all [OF length_replicate inj S(3), of None]
  have sh: "shaped n ?b" using C S n by (simp add: shaped_def)
  have e: "pb_map ?b i = pb_map b i" for i
  proof (cases "0 \<le> i \<and> i < 65536 \<and> dist (m_first b) i < 2 ^ n")
    case True
    let ?d = "dist (m_first b) i"
    have m: "i mod 2 ^ n = (m_first b + ?d) mod 2 ^ n" "i mod 2 ^ k = (m_first b + ?d) mod 2 ^ k"
      using dist_slot [of n "m_first b" i] dist_slot [of k "m_first b" i] S n by auto
    show ?thesis
    proof (cases "?d < 2 ^ k")
      case in_b: True
      then have "m_first b + ?d \<in> set ?is" using S by auto
      then have "?st ! nat ((m_first b + ?d) mod 2 ^ n) = m_storage b ! nat ((m_first b + ?d) mod 2 ^ k)" using C by blast
      then show ?thesis using True in_b S m by (simp add: pb_map_def)
    next
      case False
      have "nat (j mod 2 ^ n) \<noteq> nat (i mod 2 ^ n)" if j: "j \<in> set ?is" for j
      proof
        assume "nat (j mod 2 ^ n) = nat (i mod 2 ^ n)"
        then have mm: "j mod 2 ^ n = (m_first b + ?d) mod 2 ^ n" using m nat_mod_eq [of j n i] by simp
        let ?j = "j mod 65536"
        have dj: "dist (m_first b) ?j = j - m_first b"
          using dist_add [of "m_first b" "j - m_first b"] j S by auto
        have "j mod 65536 mod 2 ^ n = i mod 2 ^ n" using mm m cap_dvd [of n] n by (simp add: mod_mod_cancel)
        moreover have "m_first b \<le> j" "j < m_first b + 2 ^ k" using j S by auto
        then have "j - m_first b < 2 ^ n" using kn by linarith
        ultimately have "?j = i" using slots_differ [of n "m_first b" ?j i] True dj j n S kn by auto
        with dj j False S show False by auto
      qed
      then have "?st ! nat (i mod 2 ^ n) = None" using C nat_mod_less [of i n] by auto
      then show ?thesis using True False S by (simp add: pb_map_def)
    qed
  next
    case False
    moreover have "dist (m_first b) i < 2 ^ k \<Longrightarrow> dist (m_first b) i < 2 ^ n" using kn by linarith
    ultimately show ?thesis using S by (auto simp: pb_map_def)
  qed
  have "reserve sz b = Some ?b" using n S by (simp add: reserve_def nat_power_eq)
  then show ?thesis using n sh e by (intro exI [of _ ?st] exI [of _ n]) auto
qed

section \<open>Changing a slot and moving the window\<close>

lemma pb_map_update:
  assumes "shaped k b" "0 \<le> i" "i < 65536" "dist (m_first b) i < m_capacity b"
  shows "pb_map (b\<lparr>m_storage := (m_storage b)[nat (i mod m_capacity b) := v]\<rparr>) = (pb_map b)(i := v)"
proof
  fix j
  note S = shapedD [OF assms(1)]
  show "pb_map (b\<lparr>m_storage := (m_storage b)[nat (i mod m_capacity b) := v]\<rparr>) j = ((pb_map b)(i := v)) j"
  proof (cases "j = i \<or> nat (j mod 2 ^ k) = nat (i mod 2 ^ k)")
    case True
    show ?thesis
    proof (cases "j = i")
      case False
      with True have "j mod 2 ^ k = i mod 2 ^ k" using nat_mod_eq by blast
      then have "\<not> (0 \<le> j \<and> j < 65536 \<and> dist (m_first b) j < 2 ^ k)"
        using slots_differ [OF S(2), of "m_first b" j i] assms S False by auto
      then show ?thesis using False S by (auto simp: pb_map_def)
    qed (use assms S nat_mod_less [of i k] in \<open>simp add: pb_map_def\<close>)
  qed (use S in \<open>auto simp: pb_map_def\<close>)
qed

lemma shaped_update: "shaped k b \<Longrightarrow> shaped k (b\<lparr>m_storage := (m_storage b)[p := v]\<rparr>)"
  by (simp add: shaped_def)

lemma pb_map_move:
  assumes "shaped k b" "0 \<le> a" "a < 65536" "\<And>j. pb_map b j \<noteq> None \<Longrightarrow> dist a j < m_capacity b"
  shows "pb_map (b\<lparr>m_first := a\<rparr>) = pb_map b"
proof
  fix i
  note S = shapedD [OF assms(1)]
  show "pb_map (b\<lparr>m_first := a\<rparr>) i = pb_map b i"
  proof (cases "0 \<le> i \<and> i < 65536 \<and> dist a i < 2 ^ k \<and> \<not> dist (m_first b) i < 2 ^ k")
    case True
    let ?d = "(i - m_first b) mod 2 ^ k" let ?j = "(m_first b + ?d) mod 65536"
    have d: "0 \<le> ?d" "?d < 2 ^ k" by simp_all
    have dj: "dist (m_first b) ?j = ?d" using dist_add [OF S(5,6) d(1)] d S by auto
    have "(m_first b + ?d) mod 2 ^ k = i mod 2 ^ k" by (simp add: mod_add_right_eq)
    then have ji: "?j mod 2 ^ k = i mod 2 ^ k" using cap_dvd [OF S(2)] by (simp add: mod_mod_cancel)
    have e: "pb_map b ?j = m_storage b ! nat (i mod 2 ^ k)" using pb_map_slot [OF assms(1), of ?j] dj d S ji by simp
    have "pb_map b ?j = None"
    proof (rule ccontr)
      assume "pb_map b ?j \<noteq> None"
      then have "dist a ?j < 2 ^ k" using assms(4) S by auto
      then have "?j = i" using slots_differ [OF S(2), of a ?j i] True ji by auto
      with dj d True show False by auto
    qed
    then show ?thesis using True e S by (simp add: pb_map_def)
  next
    case False
    show ?thesis
    proof (cases "0 \<le> i \<and> i < 65536 \<and> dist (m_first b) i < 2 ^ k")
      case True
      show ?thesis
      proof (cases "pb_map b i = None")
        case empty: True
        then show ?thesis using True S(3) by (simp add: pb_map_def)
      next
        case full: False
        then have "dist a i < m_capacity b" by (rule assms(4))
        then show ?thesis using True S(3) by (simp add: pb_map_def)
      qed
    qed (use False S(3) in \<open>auto simp: pb_map_def\<close>)
  qed
qed

lemma dist_split: "dist a b \<le> dist a c \<Longrightarrow> dist b c = dist a c - dist a b"
proof -
  assume "dist a b \<le> dist a c"
  moreover have "(c - b) mod 65536 = (dist a c - dist a b) mod 65536"
    unfolding dist_def by (metis diff_diff_eq2 add_diff_cancel_right' mod_diff_eq diff_add_cancel)
  moreover have "dist a c < 65536" "0 \<le> dist a b" by simp_all
  ultimately show ?thesis unfolding dist_def by (metis dist_def diff_ge_0_iff_ge le_less_trans diff_left_mono diff_zero mod_pos_pos_trivial)
qed

section \<open>The relation between a buffer and its map\<close>

definition top_of :: "int \<Rightarrow> (int \<Rightarrow> 'p option) \<Rightarrow> int \<Rightarrow> bool" where
  "top_of a m e \<longleftrightarrow> e \<in> dom m \<and> (\<forall>i\<in>dom m. dist a i \<le> dist a e)"

definition pb_rel :: "'p packet_buffer \<Rightarrow> (int \<Rightarrow> 'p option) \<Rightarrow> bool" where
  "pb_rel b m \<longleftrightarrow>
     ((\<exists>k. shaped k b) \<or> m_capacity b = 0 \<and> m_storage b = []) \<and> 0 \<le> m_first b \<and> m_first b < 65536 \<and>
     m = pb_map b \<and> m_size b = int (card (dom m)) \<and>
     (if dom m = {} then m_last b = m_first b
      else m_first b \<in> dom m \<and> (\<exists>e. top_of (m_first b) m e \<and> m_last b = (e + 1) mod 65536))"

lemma pb_rel_new: "pb_rel new_buffer Map.empty"
  by (auto simp: pb_rel_def new_buffer_def pb_map_def dist_def fun_eq_iff)

lemma pb_map_range: "i \<in> dom (pb_map b) \<Longrightarrow> 0 \<le> i \<and> i < 65536 \<and> dist (m_first b) i < m_capacity b"
  by (auto simp: pb_map_def split: if_splits)

lemma finite_pb_map [simp]: "finite (dom (pb_map b))"
proof (rule finite_subset)
  show "dom (pb_map b) \<subseteq> {0..<65536}" using pb_map_range [of _ b] by (intro subsetI) simp
qed simp

lemma pb_rel_size: "pb_rel b m \<Longrightarrow> m_size b = 0 \<longleftrightarrow> dom m = {}"
  unfolding pb_rel_def by (metis card_eq_0_iff finite_pb_map of_nat_eq_0_iff)

lemma pb_rel_shaped: "pb_rel b m \<Longrightarrow> dom m \<noteq> {} \<Longrightarrow> \<exists>k. shaped k b"
proof -
  assume r: "pb_rel b m" "dom m \<noteq> {}"
  then obtain i where "i \<in> dom (pb_map b)" by (auto simp: pb_rel_def)
  then have "m_capacity b \<noteq> 0" using pb_map_range [of i b] dist_range(1) [of "m_first b" i] by linarith
  then show ?thesis using r(1) by (auto simp: pb_rel_def)
qed

text \<open>The least occupied distance from \<open>a\<close> on, and the greatest up to it.\<close>

lemma skip_up_spec:
  assumes "shaped k b" "d - o' < int n" "0 \<le> o'" "o' \<le> d" "d < m_capacity b" "(m_first b + d) mod 65536 \<in> dom (pb_map b)"
  shows "\<exists>c. o' \<le> c \<and> c \<le> d \<and> skip_up n b (m_first b + o') = Some (m_first b + c) \<and> (m_first b + c) mod 65536 \<in> dom (pb_map b) \<and>
    (\<forall>j. o' \<le> j \<longrightarrow> j < c \<longrightarrow> (m_first b + j) mod 65536 \<notin> dom (pb_map b))"
  using assms
proof (induction n arbitrary: o')
  case (Suc n)
  have o': "pb_map b ((m_first b + o') mod 65536) = m_storage b ! nat ((m_first b + o') mod m_capacity b)"
    using pb_map_dist [OF Suc.prems(1,3)] Suc.prems(4,5) by simp
  show ?case
  proof (cases "pb_map b ((m_first b + o') mod 65536) = None")
    case True
    then have "o' \<noteq> d" using Suc.prems(6) by auto
    then obtain c where c: "o' + 1 \<le> c" "c \<le> d" "skip_up n b (m_first b + (o' + 1)) = Some (m_first b + c)"
        "(m_first b + c) mod 65536 \<in> dom (pb_map b)"
        "\<forall>j. o' + 1 \<le> j \<longrightarrow> j < c \<longrightarrow> (m_first b + j) mod 65536 \<notin> dom (pb_map b)"
      using Suc.IH [of "o' + 1"] Suc.prems by auto
    have "(m_first b + j) mod 65536 \<notin> dom (pb_map b)" if "o' \<le> j" "j < c" for j
      using c(5) [rule_format, of j] that True by (cases "j = o'") auto
    then show ?thesis using c True o' slot_and [OF Suc.prems(1)] by (intro exI [of _ c]) (auto simp: algebra_simps)
  next
    case False
    then show ?thesis using o' slot_and [OF Suc.prems(1)] Suc.prems(3,4) by (intro exI [of _ o']) auto
  qed
qed simp

lemma skip_down_spec:
  assumes "shaped k b" "o' - d < int n" "0 \<le> d" "d \<le> o'" "o' < m_capacity b" "(m_first b + d) mod 65536 \<in> dom (pb_map b)"
    "l mod 65536 = (m_first b + o') mod 65536"
  shows "\<exists>c l'. d \<le> c \<and> c \<le> o' \<and> skip_down n b l = Some l' \<and> l' mod 65536 = (m_first b + c) mod 65536 \<and>
    (m_first b + c) mod 65536 \<in> dom (pb_map b) \<and> (\<forall>j. c < j \<longrightarrow> j \<le> o' \<longrightarrow> (m_first b + j) mod 65536 \<notin> dom (pb_map b))"
  using assms
proof (induction n arbitrary: o' l)
  case (Suc n)
  note S = shapedD [OF Suc.prems(1)]
  have "l mod 2 ^ k = (m_first b + o') mod 2 ^ k" 
    using Suc.prems(7) mod_mod_cancel [OF cap_dvd [OF S(2)], of l] mod_mod_cancel [OF cap_dvd [OF S(2)], of "m_first b + o'"] by simp
  then have o': "pb_map b ((m_first b + o') mod 65536) = m_storage b ! nat (l mod m_capacity b)"
    using pb_map_dist [OF Suc.prems(1), of o'] Suc.prems(3-5) S by simp
  show ?case
  proof (cases "pb_map b ((m_first b + o') mod 65536) = None")
    case True
    then have "o' \<noteq> d" using Suc.prems(6) by auto
    moreover have "(l - 1) mod 65536 = (m_first b + (o' - 1)) mod 65536"
      using Suc.prems(7) by (metis mod_diff_left_eq add_diff_eq)
    ultimately obtain c l' where c: "d \<le> c" "c \<le> o' - 1" "skip_down n b (l - 1) = Some l'" "l' mod 65536 = (m_first b + c) mod 65536"
        "(m_first b + c) mod 65536 \<in> dom (pb_map b)"
        "\<forall>j. c < j \<longrightarrow> j \<le> o' - 1 \<longrightarrow> (m_first b + j) mod 65536 \<notin> dom (pb_map b)"
      using Suc.IH [of "o' - 1" "l - 1"] Suc.prems by auto
    have "(m_first b + j) mod 65536 \<notin> dom (pb_map b)" if "c < j" "j \<le> o'" for j
      using c(6) [rule_format, of j] that True by (cases "j = o'") auto
    then show ?thesis using c True o' slot_and [OF Suc.prems(1)] by (intro exI [of _ c] exI [of _ l']) auto
  next
    case False
    then show ?thesis using o' slot_and [OF Suc.prems(1)] Suc.prems(4,7) by (intro exI [of _ o'] exI [of _ l]) auto
  qed
qed simp

section \<open>The operations implement the map\<close>

text \<open>
  An index may be read or removed unless it lies past the wrap of the sequence numbers and
  beyond the window; it may be inserted when it lies within half the sequence space of the
  packets held and, past the wrap, when the window reaches the wrap.
\<close>

definition access_ok :: "int \<Rightarrow> 'p packet_buffer \<Rightarrow> bool" where
  "access_ok i b \<longleftrightarrow> 0 \<le> i \<and> i < 65536 \<and> (m_first b \<le> i \<or> dist (m_first b) i > 32768 \<or> dist (m_first b) i < m_capacity b)"

definition insert_ok :: "int \<Rightarrow> 'p packet_buffer \<Rightarrow> bool" where
  "insert_ok i b \<longleftrightarrow> 0 \<le> i \<and> i < 65536 \<and>
     (m_size b = 0 \<or>
      (if dist (m_first b) i > 32768 then dist i (m_last b) \<le> 32768
       else dist (m_first b) i < 32768 \<and> (m_first b \<le> i \<or> 65536 \<le> m_first b + m_capacity b)))"

lemma pb_relD:
  assumes "pb_rel b m"
  shows "0 \<le> m_first b" "m_first b < 65536" "m = pb_map b" "m_size b = int (card (dom m))"
    "dom m = {} \<Longrightarrow> m_last b = m_first b" "dom m \<noteq> {} \<Longrightarrow> m_first b \<in> dom m"
    "dom m \<noteq> {} \<Longrightarrow> \<exists>e. top_of (m_first b) m e \<and> m_last b = (e + 1) mod 65536"
  using assms by (auto simp: pb_rel_def)

lemma window_test:
  assumes "pb_rel b m" "access_ok i b"
  shows "(i \<ge> m_first b + m_capacity b \<or> compare_less_wrap i (m_first b) 65535) \<and> m i = None \<or>
    \<not> (i \<ge> m_first b + m_capacity b) \<and> \<not> compare_less_wrap i (m_first b) 65535 \<and> dist (m_first b) i < m_capacity b \<and> (\<exists>k. shaped k b)"
proof -
  note D = pb_relD [OF assms(1)]
  have i: "0 \<le> i" "i < 65536" using assms(2) by (auto simp: access_ok_def)
  have lw: "compare_less_wrap i (m_first b) 65535 \<longleftrightarrow> dist (m_first b) i > 32768" using less_wrap_iff [OF i D(1,2)] .
  have c: "m_capacity b \<le> 32768" "m_capacity b = 0 \<or> (\<exists>k. shaped k b)"
    using assms(1) shapedD(3,8) [of _ b] by (auto simp: pb_rel_def)
  have d: "dist (m_first b) i = (if m_first b \<le> i then i - m_first b else i - m_first b + 65536)" by (rule dist_cases [OF D(1,2) i])
  show ?thesis
  proof (cases "dist (m_first b) i < m_capacity b")
    case True
    moreover have "\<exists>k. shaped k b" using True c(2) dist_range(1) [of "m_first b" i] by auto
    moreover have "\<not> i \<ge> m_first b + m_capacity b" using True d by (auto split: if_splits)
    ultimately show ?thesis using lw c(1) by auto
  next
    case False
    then have "m i = None" using D(3) by (simp add: pb_map_def)
    moreover have "i \<ge> m_first b + m_capacity b \<or> dist (m_first b) i > 32768"
      using False assms(2) d by (auto simp: access_ok_def split: if_splits)
    ultimately show ?thesis using lw by blast
  qed
qed

lemma at_index_spec:
  assumes "pb_rel b m" "access_ok i b"
  shows "at_index i b = Some (m i)"
  using window_test [OF assms]
proof (elim disjE conjE exE)
  fix k assume a: "shaped k b" "\<not> i \<ge> m_first b + m_capacity b" "\<not> compare_less_wrap i (m_first b) 65535" "dist (m_first b) i < m_capacity b"
  have "m i = m_storage b ! nat (i mod m_capacity b)"
    using pb_map_slot [OF a(1) _ _ a(4)] assms(2) pb_relD(3) [OF assms(1)] by (simp add: access_ok_def)
  then show ?thesis using a slot_and [OF a(1), of i] by (simp add: at_index_def)
qed (simp_all add: at_index_def)

lemma card_dom_delete: "finite (dom m) \<Longrightarrow> i \<in> dom m \<Longrightarrow> int (card (dom (m(i := None)))) = int (card (dom m)) - 1"
  by (simp add: card_Diff_singleton) (metis card_gt_0_iff empty_iff Suc_pred' int_Suc add_diff_cancel_right' One_nat_def of_nat_Suc add.commute)

lemma card_dom_insert: "finite (dom m) \<Longrightarrow> int (card (dom (m(i \<mapsto> x)))) = int (card (dom m)) + (if i \<in> dom m then 0 else 1)"
  by (simp add: card_insert_if insert_absorb)

lemma top_dist: "top_of a m e \<Longrightarrow> i \<in> dom m \<Longrightarrow> dist a i \<le> dist a e"
  by (simp add: top_of_def)

text \<open>Removing the first packet of the window, or the last, moves the window to the next one.\<close>

lemma first_moves:
  assumes "shaped k b" "pb_map b = m" "m_first b \<notin> dom m" "e \<in> dom m" "\<forall>i\<in>dom m. dist (m_first b) i \<le> dist (m_first b) e"
  shows "\<exists>f. skip_up (nat (m_capacity b)) b (m_first b + 1) = Some f \<and> pb_map (b\<lparr>m_first := f mod 65536\<rparr>) = m \<and>
    f mod 65536 \<in> dom m \<and> top_of (f mod 65536) m e"
proof -
  note S = shapedD [OF assms(1)]
  let ?a = "m_first b"
  have rng: "i \<in> dom m \<Longrightarrow> 0 \<le> i \<and> i < 65536 \<and> dist ?a i < m_capacity b" for i using pb_map_range [of i b] assms(2) by simp
  have pos: "1 \<le> dist ?a i" if "i \<in> dom m" for i
  proof -
    have "dist ?a i \<noteq> 0" using rng [OF that] add_dist [of i ?a] assms(3) that S by auto
    then show ?thesis using dist_range(1) [of ?a i] by linarith
  qed
  have e: "(?a + dist ?a e) mod 65536 = e" using rng [OF assms(4)] add_dist by simp
  obtain c where c: "1 \<le> c" "c \<le> dist ?a e" "skip_up (nat (m_capacity b)) b (?a + 1) = Some (?a + c)" "(?a + c) mod 65536 \<in> dom m"
      "\<forall>j. 1 \<le> j \<longrightarrow> j < c \<longrightarrow> (?a + j) mod 65536 \<notin> dom m"
    using skip_up_spec [OF assms(1), of "dist ?a e" 1 "nat (m_capacity b)"] rng [OF assms(4)] pos [OF assms(4)] e assms(2,4) by auto
  let ?f = "(?a + c) mod 65536"
  have f: "0 \<le> ?f" "?f < 65536" "dist ?a ?f = c" using dist_add [OF S(5,6), of c] c rng [OF assms(4)] S by auto
  have le: "c \<le> dist ?a i" if "i \<in> dom m" for i
  proof (rule ccontr)
    assume "\<not> c \<le> dist ?a i"
    then have "(?a + dist ?a i) mod 65536 \<notin> dom m" using c(5) [rule_format, of "dist ?a i"] pos [OF that] by auto
    with add_dist rng [OF that] that show False by simp
  qed
  have df: "dist ?f i = dist ?a i - c" if "i \<in> dom m" for i
    using dist_split [of ?a ?f i] f(3) le [OF that] by simp
  have "pb_map (b\<lparr>m_first := ?f\<rparr>) = m"
  proof (subst pb_map_move [OF assms(1) f(1,2)])
    fix j assume "pb_map b j \<noteq> None"
    then have "j \<in> dom m" using assms(2) by auto
    then show "dist ?f j < m_capacity b" using df rng c(1) by fastforce
  qed (rule assms(2))
  moreover have "top_of ?f m e" using assms(4,5) df by (simp add: top_of_def)
  ultimately show ?thesis using c(3,4) by blast
qed

lemma last_moves:
  assumes "shaped k b" "pb_map b = m" "m_first b \<in> dom m" "\<forall>i\<in>dom m. dist (m_first b) i \<le> dist (m_first b) e"
    "m_last b = (e + 1) mod 65536" "dist (m_first b) e < m_capacity b"
  shows "\<exists>l e'. skip_down (nat (m_capacity b)) b (m_last b - 1) = Some l \<and> (l + 1) mod 65536 = (e' + 1) mod 65536 \<and> top_of (m_first b) m e'"
proof -
  note S = shapedD [OF assms(1)]
  let ?a = "m_first b"
  have "(m_last b - 1) mod 65536 = (?a + dist ?a e) mod 65536"
    unfolding assms(5) dist_def by (simp add: mod_diff_left_eq mod_add_right_eq)
  then obtain c l where c: "0 \<le> c" "c \<le> dist ?a e" "skip_down (nat (m_capacity b)) b (m_last b - 1) = Some l"
      "l mod 65536 = (?a + c) mod 65536" "(?a + c) mod 65536 \<in> dom m"
      "\<forall>j. c < j \<longrightarrow> j \<le> dist ?a e \<longrightarrow> (?a + j) mod 65536 \<notin> dom m"
    using skip_down_spec [OF assms(1), of "dist ?a e" 0 "nat (m_capacity b)" "m_last b - 1"] assms(2,3,6) S by auto
  let ?e = "(?a + c) mod 65536"
  have de: "dist ?a ?e = c" using dist_add [OF S(5,6), of c] c(1,2) dist_range(2) [of ?a e] by linarith
  have "dist ?a i \<le> c" if "i \<in> dom m" for i
  proof (rule ccontr)
    assume "\<not> dist ?a i \<le> c"
    then have "(?a + dist ?a i) mod 65536 \<notin> dom m" using c(6) [rule_format, of "dist ?a i"] assms(4) that by auto
    with add_dist [of i ?a] pb_map_range [of i b] assms(2) that show False by simp
  qed
  then have "top_of ?a m ?e" using c(5) de by (simp add: top_of_def)
  moreover have "(l + 1) mod 65536 = (?e + 1) mod 65536" using c(4) by (metis mod_add_left_eq)
  ultimately show ?thesis using c(3) by blast
qed

lemma remove_at_spec:
  assumes "pb_rel b m" "access_ok i b"
  shows "\<exists>b'. remove_at i b = Some (m i, b') \<and> pb_rel b' (m(i := None))"
  using window_test [OF assms]
proof (elim disjE conjE exE)
  fix k assume a: "shaped k b" "\<not> i \<ge> m_first b + m_capacity b" "\<not> compare_less_wrap i (m_first b) 65535" "dist (m_first b) i < m_capacity b"
  note D = pb_relD [OF assms(1)]
  have i: "0 \<le> i" "i < 65536" using assms(2) by (auto simp: access_ok_def)
  let ?p = "nat (i mod m_capacity b)" and ?m = "m(i := None)"
  let ?st = "(m_storage b)[?p := None]"
  have old: "m i = m_storage b ! ?p" using pb_map_slot [OF a(1) i a(4)] D(3) by simp
  have fin: "finite (dom m)" using D(3) by simp
  have sl: "slot b (i AND (m_capacity b - 1)) = Some (m i)" "nat (i AND (m_capacity b - 1)) = ?p"
    using slot_and [OF a(1), of i] old and_cap [of i k] shapedD(3) [OF a(1)] by simp_all
  let ?c = "b\<lparr>m_storage := ?st\<rparr>"
  have M: "pb_map ?c = ?m" using pb_map_update [OF a(1) i a(4), of None] D(3) by simp
  show ?thesis
  proof (cases "m i = None")
    case True
    then have same: "?c = b" using old by (metis list_update_id packet_buffer.surjective packet_buffer.update_convs(1))
    have "\<not> (i = m_first b \<and> m_size b \<noteq> 0)" using True D(6) pb_rel_size [OF assms(1)] by auto
    moreover have "\<not> ((i + 1) mod 65536 = m_last b \<and> m_size b \<noteq> 0)"
    proof
      assume l: "(i + 1) mod 65536 = m_last b \<and> m_size b \<noteq> 0"
      then obtain e where e: "e \<in> dom m" "(i + 1) mod 65536 = (e + 1) mod 65536"
        using D(7) pb_rel_size [OF assms(1)] by (auto simp: top_of_def)
      then have "i mod 65536 = e mod 65536" by (metis add_diff_cancel_right' mod_diff_left_eq)
      then have "i = e" using i pb_map_range [of e b] e(1) D(3) by simp
      with True e(1) show False by auto
    qed
    ultimately have "remove_at i b = Some (None, b)"
      using a(2,3) sl True same by (cases "m_size b = 0") (simp_all add: remove_at_def Let_def)
    moreover have "?m = m" using True by auto
    ultimately show ?thesis using assms(1) True by auto
  next
    case False
    then have dm: "i \<in> dom m" by auto
    then have n: "m_size b - 1 = int (card (dom ?m))" using card_dom_delete [OF fin] D(4) by simp
    obtain e where e: "top_of (m_first b) m e" "m_last b = (e + 1) mod 65536" using D(7) dm by auto
    have er: "0 \<le> e" "e < 65536" "dist (m_first b) e < m_capacity b" using e(1) pb_map_range [of e b] D(3) by (auto simp: top_of_def)
    have fd: "m_first b \<in> dom m" using D(6) dm by auto
    have ie: "(i + 1) mod 65536 = m_last b \<longleftrightarrow> i = e"
      using e(2) i er by (metis add_diff_cancel_right' mod_diff_left_eq mod_pos_pos_trivial)
    let ?d = "?c\<lparr>m_size := m_size b - 1\<rparr>"
    have Sd: "shaped k ?d" "pb_map ?d = ?m" using shaped_update [OF a(1)] M by simp_all
    consider "dom ?m = {}" | "dom ?m \<noteq> {}" "i = m_first b" | "dom ?m \<noteq> {}" "i \<noteq> m_first b" "i = e" | "dom ?m \<noteq> {}" "i \<noteq> m_first b" "i \<noteq> e"
      by blast
    then show ?thesis
    proof cases
      case 1
      have s0: "m_size b - 1 = 0" using n unfolding 1 by simp
      then have "remove_at i b = Some (m i, ?d\<lparr>m_last := m_first b\<rparr>)"
        using a sl False by (simp add: remove_at_def Let_def)
      moreover have "pb_rel (?d\<lparr>m_last := m_first b\<rparr>) ?m"
        unfolding pb_rel_def using 1 n D(1,2) Sd by auto
      ultimately show ?thesis by blast
    next
      case 2
      have ne: "m_size b - 1 \<noteq> 0" using n 2(1) fin by auto
      have ei: "e \<noteq> i"
      proof
        assume "e = i"
        then have "dist i j \<le> 0" if "j \<in> dom m" for j using top_dist [OF e(1) that] 2(2) by simp
        then have "dist i j = 0" if "j \<in> dom m" for j using that dist_range(1) [of i j] by (meson order_antisym)
        then have "j = i" if "j \<in> dom m" for j using that dist_inj [of j i i] i pb_map_range [of j b] D(3) by simp
        then show False using 2(1) by auto
      qed
      have mv: "m_first ?d \<notin> dom ?m" "e \<in> dom ?m" "\<forall>j\<in>dom ?m. dist (m_first ?d) j \<le> dist (m_first ?d) e"
        using top_dist [OF e(1)] 2(2) e(1) ei by (auto simp: top_of_def)
      obtain f where f: "skip_up (nat (m_capacity ?d)) ?d (m_first ?d + 1) = Some f"
          "pb_map (?d\<lparr>m_first := f mod 65536\<rparr>) = ?m" "f mod 65536 \<in> dom ?m" "top_of (f mod 65536) ?m e"
        using first_moves [OF Sd mv] by blast
      have "remove_at i b = Some (m i, ?d\<lparr>m_first := f mod 65536\<rparr>)"
        using a sl False ne 2(2) f(1) ie ei by (simp add: remove_at_def Let_def)
      moreover have "pb_rel (?d\<lparr>m_first := f mod 65536\<rparr>) ?m"
        unfolding pb_rel_def using 2(1) n f Sd(1) e(2) by (auto simp: shaped_def)
      ultimately show ?thesis by blast
    next
      case 3
      have ne: "m_size b - 1 \<noteq> 0" using n 3(1) fin by auto
      have mv: "m_first ?d \<in> dom ?m" "\<forall>j\<in>dom ?m. dist (m_first ?d) j \<le> dist (m_first ?d) e"
          "m_last ?d = (e + 1) mod 65536" "dist (m_first ?d) e < m_capacity ?d"
        using top_dist [OF e(1)] 3(2) fd e(2) er(3) by auto
      obtain l e' where l: "skip_down (nat (m_capacity ?d)) ?d (m_last ?d - 1) = Some l" "(l + 1) mod 65536 = (e' + 1) mod 65536"
          "top_of (m_first ?d) ?m e'"
        using last_moves [OF Sd mv] by blast
      have "remove_at i b = Some (m i, ?d\<lparr>m_last := (l + 1) mod 65536\<rparr>)"
        using a sl False ne 3(2,3) l(1) ie by (simp add: remove_at_def Let_def)
      moreover have "pb_rel (?d\<lparr>m_last := (l + 1) mod 65536\<rparr>) ?m"
        unfolding pb_rel_def using 3(1,2) n l(2,3) Sd fd D(1,2) by auto
      ultimately show ?thesis by blast
    next
      case 4
      have ne: "m_size b - 1 \<noteq> 0" using n 4(1) fin by auto
      have "remove_at i b = Some (m i, ?d)"
        using a sl False ne 4(2,3) ie by (simp add: remove_at_def Let_def)
      moreover have "top_of (m_first b) ?m e" using e(1) 4(3) by (auto simp: top_of_def)
      then have "pb_rel ?d ?m"
        unfolding pb_rel_def using 4(1,2) n Sd fd D(1,2) e(2) by auto
      ultimately show ?thesis by blast
    qed
  qed
qed (use assms(1) in \<open>auto simp: remove_at_def fun_upd_idem\<close>)

lemma free_loop_spec:
  assumes "shaped k b" "o' < int n" "0 \<le> o'" "o' < m_capacity b" "m_first b \<in> dom (pb_map b)"
    "i = (m_first b + o') mod m_capacity b"
  shows "\<exists>c. 0 \<le> c \<and> c \<le> o' \<and> free_loop n b i fs = Some (fs + (o' - c)) \<and> (m_first b + c) mod 65536 \<in> dom (pb_map b) \<and>
    (\<forall>j. c < j \<longrightarrow> j \<le> o' \<longrightarrow> (m_first b + j) mod 65536 \<notin> dom (pb_map b))"
  using assms
proof (induction n arbitrary: o' i fs)
  case (Suc n)
  note S = shapedD [OF Suc.prems(1)]
  have o': "pb_map b ((m_first b + o') mod 65536) = m_storage b ! nat ((m_first b + o') mod m_capacity b)"
    using pb_map_dist [OF Suc.prems(1,3,4)] .
  have im: "i AND (m_capacity b - 1) = i" using Suc.prems(6) S by (simp add: and_cap)
  have sl: "slot b (i AND (m_capacity b - 1)) = Some (pb_map b ((m_first b + o') mod 65536))"
    using slot_and [OF Suc.prems(1), of i] Suc.prems(6) o' S by simp
  have z: "i = (m_first b AND (m_capacity b - 1)) \<longleftrightarrow> o' = 0"
  proof
    assume "i = (m_first b AND (m_capacity b - 1))"
    then have "(m_first b + o') mod 2 ^ k = m_first b mod 2 ^ k" using Suc.prems(6) S by (simp add: and_cap)
    then have "o' mod 2 ^ k = 0" by (metis add_diff_cancel_left' mod_diff_cong diff_self mod_0)
    then show "o' = 0" using Suc.prems(3,4) S by simp
  qed (use Suc.prems(6) S in \<open>simp add: and_cap\<close>)
  show ?case
  proof (cases "o' = 0")
    case True
    then show ?thesis using z S Suc.prems(5) by (intro exI [of _ 0]) simp
  next
    case False
    show ?thesis
    proof (cases "pb_map b ((m_first b + o') mod 65536) = None")
      case empty: True
      have "(i - 1) AND (m_capacity b - 1) = (m_first b + (o' - 1)) mod m_capacity b"
        using Suc.prems(6) S by (simp add: and_cap mod_diff_left_eq add_diff_eq)
      moreover have p: "o' - 1 < int n" "0 \<le> o' - 1" "o' - 1 < m_capacity b" using Suc.prems(2-4) False by auto
      ultimately obtain c where c: "0 \<le> c" "c \<le> o' - 1"
          "free_loop n b ((i - 1) AND (m_capacity b - 1)) (fs + 1) = Some (fs + 1 + (o' - 1 - c))" "(m_first b + c) mod 65536 \<in> dom (pb_map b)"
          "\<forall>j. c < j \<longrightarrow> j \<le> o' - 1 \<longrightarrow> (m_first b + j) mod 65536 \<notin> dom (pb_map b)"
        using Suc.IH [OF Suc.prems(1) p Suc.prems(5), of "(i - 1) AND (m_capacity b - 1)" "fs + 1"] by blast
      have "(m_first b + j) mod 65536 \<notin> dom (pb_map b)" if "c < j" "j \<le> o'" for j
        using c(5) [rule_format, of j] that empty by (cases "j = o'") auto
      then show ?thesis using c False z sl empty by (intro exI [of _ c]) auto
    next
      case full: False
      then show ?thesis using False z sl Suc.prems(3) by (intro exI [of _ o']) auto
    qed
  qed
qed simp

lemma dist_join: "dist a b + dist b c < 65536 \<Longrightarrow> dist a c = dist a b + dist b c"
proof -
  assume "dist a b + dist b c < 65536"
  moreover have "dist a c = (dist a b + dist b c) mod 65536" unfolding dist_def by (metis add.commute diff_add_cancel mod_add_eq add_diff_eq)
  ultimately show ?thesis using dist_range(1) [of a b] dist_range(1) [of b c] by simp
qed

lemma dist_back: "0 < dist a b \<Longrightarrow> dist b a = 65536 - dist a b"
proof -
  assume p: "0 < dist a b"
  have "dist b a = (65536 - dist a b) mod 65536" unfolding dist_def by (metis minus_diff_eq mod_minus_eq mod_diff_right_eq mod_self diff_0 mod_diff_left_eq)
  also have "\<dots> = 65536 - dist a b" using p dist_range(2) [of a b] by (intro mod_pos_pos_trivial) linarith+
  finally show ?thesis .
qed

text \<open>\<open>make_room\<close> keeps the map and brings the new index into the window.\<close>

lemma make_room_before:
  assumes "pb_rel b m" "dom m \<noteq> {}" "0 \<le> i" "i < 65536" "dist (m_first b) i > 32768" "dist i (m_last b) \<le> 32768"
    "top_of (m_first b) m e" "m_last b = (e + 1) mod 65536"
  shows "\<exists>st n. let c = b\<lparr>m_storage := st, m_capacity := 2 ^ n, m_first := i\<rparr> in
     make_room i b = Some c \<and> shaped n c \<and> pb_map c = m \<and> top_of i m e \<and> dist i (m_last b) > 0"
proof -
  note D = pb_relD [OF assms(1)]
  obtain k where k: "shaped k b" using pb_rel_shaped [OF assms(1,2)] ..
  note S = shapedD [OF k]
  let ?a = "m_first b" let ?d = "dist i ?a" and ?x = "dist ?a e"
  have d: "?d = 65536 - dist ?a i" "1 \<le> ?d" "?d < 32768" using dist_back [of ?a i] assms(5) dist_range(2) [of ?a i] by linarith+
  have er: "0 \<le> e" "e < 65536" "?x < m_capacity b" "e \<in> dom m" using assms(7) pb_map_range [of e b] D(3) by (auto simp: top_of_def)
  have xle: "?x \<le> 32767" using er S by simp
  have de: "dist i e = ?d + ?x" using dist_join [of i ?a e] d xle by simp
  have "dist e (m_last b) = 1" unfolding dist_def assms(8) by (simp add: mod_diff_left_eq)
  then have dl: "dist i (m_last b) = ?d + ?x + 1" using dist_join [of i e "m_last b"] de d xle by simp
  have pos: "dist i (m_last b) > 0" using dl d(2) dist_range(1) [of ?a e] by linarith
  have lw: "compare_less_wrap i ?a 65535" using less_wrap_iff [OF assms(3,4) D(1,2)] assms(5) by simp
  have fi: "((?a - 1) AND (m_capacity b - 1)) = (?a + (m_capacity b - 1)) mod m_capacity b"
    using S by (simp add: and_cap) (metis add_diff_eq mod_add_self2 add.commute diff_add_eq)
  have fd: "?a \<in> dom m" using D(6) assms(2) by simp
  obtain c where c: "0 \<le> c" "c \<le> m_capacity b - 1"
      "free_loop (nat (m_capacity b)) b ((?a - 1) AND (m_capacity b - 1)) 0 = Some (0 + (m_capacity b - 1 - c))"
      "(?a + c) mod 65536 \<in> dom m" "\<forall>j. c < j \<longrightarrow> j \<le> m_capacity b - 1 \<longrightarrow> (?a + j) mod 65536 \<notin> dom m"
    using free_loop_spec [OF k, of "m_capacity b - 1" "nat (m_capacity b)" "(?a - 1) AND (m_capacity b - 1)" 0] fi S(7) fd D(3) by auto
  have "dist ?a ((?a + c) mod 65536) = c" using dist_add [OF S(5,6) c(1)] c(2) S by simp
  then have "c \<le> ?x" using top_dist [OF assms(7) c(4)] by simp
  moreover have "\<not> c < ?x" using c(5) [rule_format, of ?x] er add_dist [of e ?a] by auto
  ultimately have cx: "c = ?x" by simp
  have fs: "free_loop (nat (m_capacity b)) b ((?a - 1) AND (m_capacity b - 1)) 0 = Some (m_capacity b - 1 - ?x)" using c(3) cx by simp
  have dm: "((?a - i) AND 0xffff) = ?d" by (simp add: dist_def)
  have tb: "top_of i m e"
  proof -
    have "dist i j \<le> dist i e" if "j \<in> dom m" for j
      using top_dist [OF assms(7) that] dist_join [of i ?a j] de d xle by simp
    then show ?thesis using er(4) by (simp add: top_of_def)
  qed
  have final: "shaped n (c\<lparr>m_first := i\<rparr>) \<and> pb_map (c\<lparr>m_first := i\<rparr>) = m"
    if "shaped n c" "pb_map c = m" "?d + ?x < m_capacity c" for n and c :: "'a packet_buffer"
  proof
    show "shaped n (c\<lparr>m_first := i\<rparr>)" using that(1) assms(3,4) by (simp add: shaped_def)
    show "pb_map (c\<lparr>m_first := i\<rparr>) = m"
    proof (subst pb_map_move [OF that(1) assms(3,4)])
      fix j assume "pb_map c j \<noteq> None"
      then have "j \<in> dom m" using that(2) by auto
      then have "dist i j \<le> dist i e" using tb top_dist by blast
      then show "dist i j < m_capacity c" using de that(3) by simp
    qed (rule that(2))
  qed
  show ?thesis
  proof (cases "?d > m_capacity b - 1 - ?x")
    case True
    have sz: "?d + m_capacity b - (m_capacity b - 1 - ?x) \<le> 32768" using dl assms(6) by simp
    obtain st n where r: "reserve (?d + m_capacity b - (m_capacity b - 1 - ?x)) b = Some (b\<lparr>m_storage := st, m_capacity := 2 ^ n\<rparr>)"
        "?d + m_capacity b - (m_capacity b - 1 - ?x) \<le> 2 ^ n" "shaped n (b\<lparr>m_storage := st, m_capacity := 2 ^ n\<rparr>)"
        "pb_map (b\<lparr>m_storage := st, m_capacity := 2 ^ n\<rparr>) = pb_map b"
      using reserve_spec [OF k sz] by blast
    have "make_room i b = Some (b\<lparr>m_storage := st, m_capacity := 2 ^ n, m_first := i\<rparr>)"
      using lw fs dm True r(1) by (simp add: make_room_def)
    then show ?thesis using final [OF r(3)] r D(3) tb pos by (intro exI [of _ st] exI [of _ n]) (simp add: Let_def)
  next
    case False
    have "make_room i b = Some (b\<lparr>m_first := i\<rparr>)" using lw fs dm False by (simp add: make_room_def)
    moreover have "b\<lparr>m_first := i\<rparr> = b\<lparr>m_storage := m_storage b, m_capacity := 2 ^ k, m_first := i\<rparr>" using S by simp
    moreover have "shaped k (b\<lparr>m_first := i\<rparr>) \<and> pb_map (b\<lparr>m_first := i\<rparr>) = m"
      by (rule final [OF k]) (use D(3) False in auto)
    ultimately show ?thesis using tb pos by (intro exI [of _ "m_storage b"] exI [of _ k]) (simp add: Let_def)
  qed
qed

lemma make_room_after:
  assumes "pb_rel b m" "dom m \<noteq> {}" "0 \<le> i" "i < 65536" "dist (m_first b) i < 32768"
    "m_first b \<le> i \<or> 65536 \<le> m_first b + m_capacity b"
  shows "\<exists>st n. let c = b\<lparr>m_storage := st, m_capacity := 2 ^ n\<rparr> in
     make_room i b = Some c \<and> shaped n c \<and> pb_map c = m \<and> dist (m_first b) i < 2 ^ n"
proof -
  note D = pb_relD [OF assms(1)]
  obtain k where k: "shaped k b" using pb_rel_shaped [OF assms(1,2)] ..
  note S = shapedD [OF k]
  let ?a = "m_first b"
  have lw: "\<not> compare_less_wrap i ?a 65535" using less_wrap_iff [OF assms(3,4) D(1,2)] assms(5) by simp
  have d: "dist ?a i = (if ?a \<le> i then i - ?a else i - ?a + 65536)" by (rule dist_cases [OF D(1,2) assms(3,4)])
  have grown: ?thesis if "make_room i b = reserve sz b" "sz = dist ?a i + 1" for sz
  proof -
    have sz: "sz \<le> 32768" using that(2) assms(5) by simp
    obtain st n where r: "reserve sz b = Some (b\<lparr>m_storage := st, m_capacity := 2 ^ n\<rparr>)"
        "sz \<le> 2 ^ n" "shaped n (b\<lparr>m_storage := st, m_capacity := 2 ^ n\<rparr>)"
        "pb_map (b\<lparr>m_storage := st, m_capacity := 2 ^ n\<rparr>) = pb_map b"
      using reserve_spec [OF k sz] by blast
    then show ?thesis using that D(3) by (intro exI [of _ st] exI [of _ n]) (simp add: Let_def)
  qed
  have same: ?thesis if "make_room i b = Some b" "dist ?a i < m_capacity b"
  proof -
    have "b\<lparr>m_storage := m_storage b, m_capacity := 2 ^ k\<rparr> = b" unfolding S(3) [symmetric] by simp
    then show ?thesis using that k D(3) unfolding Let_def S(3) by (intro exI [of _ "m_storage b"] exI [of _ k]) simp
  qed
  show ?thesis
  proof (cases "?a \<le> i")
    case True
    show ?thesis
    proof (cases "i \<ge> ?a + m_capacity b")
      case far: True
      then have "make_room i b = reserve (i - ?a + 1) b" using lw by (simp add: make_room_def)
      then show ?thesis by (rule grown) (use True d in simp)
    next
      case False
      then show ?thesis by (intro same) (use lw True d in \<open>simp_all add: make_room_def\<close>)
    qed
  next
    case False
    have w: "(?a + m_capacity b) mod 65536 = ?a + m_capacity b - 65536"

  proof -
    have "(?a + m_capacity b - 65536) mod 65536 = ?a + m_capacity b - 65536"
      using False assms(6) S by (intro mod_pos_pos_trivial) simp_all
    then show ?thesis by (simp only: minus_mod_self2)
  qed
    show ?thesis
    proof (cases "i \<ge> ?a + m_capacity b - 65536")
      case True
      then have "make_room i b = reserve (m_capacity b + (i + 1 - (?a + m_capacity b - 65536))) b"
        using lw False assms(6,4) S w by (simp add: make_room_def)
      then show ?thesis by (rule grown) (use False d in simp)
    next
      case near: False
      then show ?thesis by (intro same) (use lw False d w assms(4,6) in \<open>simp_all add: make_room_def\<close>)
    qed
  qed
qed

text \<open>The last step of an insertion: the slot is in the window and \<open>m_last\<close> is up to date.\<close>

definition put :: "int \<Rightarrow> 'p \<Rightarrow> 'p packet_buffer \<Rightarrow> ('p option \<times> 'p packet_buffer) option" where
  "put idx p b = do {
     let k = idx AND (m_capacity b - 1);
     old_value \<leftarrow> slot b k;
     let b = b\<lparr>m_storage := (m_storage b)[nat k := Some p]\<rparr>;
     let b = (if m_size b = 0 then b\<lparr>m_first := idx\<rparr> else b);
     let b = (if old_value = None then b\<lparr>m_size := m_size b + 1\<rparr> else b);
     Some (old_value, b)
   }"

lemma put_spec:
  assumes "shaped k b" "pb_map b = m" "m_size b = int (card (dom m))" "0 \<le> i" "i < 65536" "dist (m_first b) i < m_capacity b"
    "dom m = {} \<or> m_first b = i \<or> m_first b \<in> dom m" "dom m = {} \<longrightarrow> m_first b = i"
    "top_of (m_first b) (m(i \<mapsto> p)) e" "m_last b = (e + 1) mod 65536"
  shows "\<exists>b'. put i p b = Some (m i, b') \<and> pb_rel b' (m(i \<mapsto> p))"
proof -
  note S = shapedD [OF assms(1)]
  let ?p = "nat (i mod m_capacity b)" and ?m = "m(i \<mapsto> p)"
  let ?c = "b\<lparr>m_storage := (m_storage b)[?p := Some p]\<rparr>"
  have old: "m i = m_storage b ! ?p" using pb_map_slot [OF assms(1,4,5,6)] assms(2) by simp
  have sl: "slot b (i AND (m_capacity b - 1)) = Some (m i)" "nat (i AND (m_capacity b - 1)) = ?p"
    using slot_and [OF assms(1), of i] old and_cap [of i k] S(3) by simp_all
  have fin: "finite (dom m)" using assms(2) by auto
  have z: "m_size b = 0 \<longleftrightarrow> dom m = {}" using assms(3) fin by simp
  have M: "pb_map ?c = ?m" using pb_map_update [OF assms(1,4,5,6), of "Some p"] assms(2) by simp
  let ?n = "m_size b + (if m i = None then 1 else 0)"
  have n: "?n = int (card (dom ?m))" using card_dom_insert [OF fin, of i p] assms(3) by auto
  let ?d = "?c\<lparr>m_size := ?n\<rparr>"
  have Sd: "shaped k ?d" "pb_map ?d = ?m" using shaped_update [OF assms(1)] M by simp_all
  have first0: "m_size b = 0 \<Longrightarrow> ?c\<lparr>m_first := i\<rparr> = ?c" using z assms(8) by simp
  have "put i p b = Some (m i, ?d)"
    using sl first0 by (cases "m_size b = 0"; cases "m i = None") (simp_all add: put_def Let_def)
  moreover have "pb_rel ?d ?m"
    unfolding pb_rel_def using Sd n S(5,6) assms(7-10) by auto
  ultimately show ?thesis by blast
qed

lemma insert_at_put:
  "insert_at i (Some p) b = Option.bind
     (if m_size b \<noteq> 0 then Option.bind (make_room i b) (\<lambda>b.
        Some (if compare_less_wrap (m_last b) ((i + 1) AND 0xffff) 0xffff then b\<lparr>m_last := (i + 1) AND 0xffff\<rparr> else b))
      else Some (b\<lparr>m_first := i, m_last := (i + 1) AND 0xffff\<rparr>))
     (\<lambda>b. Option.bind (if m_capacity b = 0 then reserve 16 b else Some b) (put i p))"
  unfolding insert_at_def put_def by simp

lemma insert_at_spec:
  assumes "pb_rel b m" "insert_ok i b"
  shows "\<exists>b'. insert_at i (Some p) b = Some (m i, b') \<and> pb_rel b' (m(i \<mapsto> p))"
proof (cases "dom m = {}")
  case True
  note D = pb_relD [OF assms(1)]
  have i: "0 \<le> i" "i < 65536" using assms(2) by (auto simp: insert_ok_def)
  have z: "m_size b = 0" using pb_rel_size [OF assms(1)] True by simp
  let ?b = "b\<lparr>m_first := i, m_last := (i + 1) mod 65536\<rparr>"
  have m: "m = Map.empty" using True by simp
  have top: "top_of i (m(i \<mapsto> p)) i" using m by (simp add: top_of_def)
  show ?thesis
  proof (cases "m_capacity b = 0")
    case cap: True
    let ?c = "?b\<lparr>m_storage := replicate 16 None, m_capacity := 16\<rparr>"
    have r: "reserve 16 ?b = Some ?c" by (rule reserve_empty) (use cap i in auto)
    have "nat (j mod 16) < 16" for j :: int by simp
    then have c: "shaped 4 ?c" "pb_map ?c = m" using i m by (auto simp: shaped_def pb_map_def fun_eq_iff)
    have "\<exists>b'. put i p ?c = Some (m i, b') \<and> pb_rel b' (m(i \<mapsto> p))"
      by (rule put_spec [OF c]) (use z True i m top in auto)
    then show ?thesis using z r cap by (simp add: insert_at_put)
  next
    case False
    then obtain k where k: "shaped k b" using assms(1) by (auto simp: pb_rel_def)
    have "pb_map (b\<lparr>m_first := i\<rparr>) = m"
      using pb_map_move [OF k i] D(3) m by (metis option.distinct(1))
    then have c: "shaped k ?b" "pb_map ?b = m" using k i by (simp_all add: shaped_def)
    have "\<exists>b'. put i p ?b = Some (m i, b') \<and> pb_rel b' (m(i \<mapsto> p))"
      by (rule put_spec [OF c]) (use z True i m top shapedD(7) [OF k] in auto)
    then show ?thesis using z False by (simp add: insert_at_put)
  qed
next
  case False
  note D = pb_relD [OF assms(1)]
  let ?a = "m_first b"
  have i: "0 \<le> i" "i < 65536" using assms(2) by (auto simp: insert_ok_def)
  have z: "m_size b \<noteq> 0" using pb_rel_size [OF assms(1)] False by simp
  obtain e where e: "top_of ?a m e" "m_last b = (e + 1) mod 65536" using D(7) False by blast
  have er: "0 \<le> e" "e < 65536" "dist ?a e < m_capacity b" "e \<in> dom m" using e(1) pb_map_range [of e b] D(3) by (auto simp: top_of_def)
  have l: "0 \<le> m_last b" "m_last b < 65536" using e(2) by auto
  have lw: "compare_less_wrap (m_last b) ((i + 1) mod 65536) 65535 \<longleftrightarrow> dist i e > 32768"
  proof -
    have "dist ((i + 1) mod 65536) (m_last b) = dist i e"
      unfolding dist_def e(2) by (metis add_diff_cancel_right mod_diff_eq)
    then show ?thesis using less_wrap_iff [OF l, of "(i + 1) mod 65536"] by simp
  qed
  show ?thesis
  proof (cases "dist ?a i > 32768")
    case True
    then have lo: "dist i (m_last b) \<le> 32768" using assms(2) z by (simp add: insert_ok_def)
    obtain st n where r: "make_room i b = Some (b\<lparr>m_storage := st, m_capacity := 2 ^ n, m_first := i\<rparr>)"
        "shaped n (b\<lparr>m_storage := st, m_capacity := 2 ^ n, m_first := i\<rparr>)"
        "pb_map (b\<lparr>m_storage := st, m_capacity := 2 ^ n, m_first := i\<rparr>) = m" "top_of i m e" "dist i (m_last b) > 0"
      using make_room_before [OF assms(1) False i True lo e] by (auto simp: Let_def)
    let ?c = "b\<lparr>m_storage := st, m_capacity := 2 ^ n, m_first := i\<rparr>"
    have "dist i e = dist i (m_last b) - 1"
    proof -
      have "dist e (m_last b) = 1" unfolding dist_def e(2) by (simp add: mod_diff_left_eq)
      have "(e - i) mod 65536 = (dist i (m_last b) - 1) mod 65536" unfolding dist_def e(2)
        by (simp add: mod_diff_left_eq)
      then show ?thesis using r(5) lo by (simp add: dist_def [of i e])
    qed
    then have nl: "\<not> compare_less_wrap (m_last ?c) ((i + 1) AND 0xffff) 0xffff" using lw lo by simp
    have top: "top_of i (m(i \<mapsto> p)) e" using r(4) by (auto simp: top_of_def)
    have "\<exists>b'. put i p ?c = Some (m i, b') \<and> pb_rel b' (m(i \<mapsto> p))"
      by (rule put_spec [OF r(2,3)]) (use i D(4) top e(2) False in auto)
    then show ?thesis using z r(1) nl by (simp add: insert_at_put)
  next
    case after: False
    then have ok: "dist ?a i < 32768" "?a \<le> i \<or> 65536 \<le> ?a + m_capacity b" using assms(2) z by (auto simp: insert_ok_def)
    obtain st n where r: "make_room i b = Some (b\<lparr>m_storage := st, m_capacity := 2 ^ n\<rparr>)"
        "shaped n (b\<lparr>m_storage := st, m_capacity := 2 ^ n\<rparr>)"
        "pb_map (b\<lparr>m_storage := st, m_capacity := 2 ^ n\<rparr>) = m" "dist ?a i < 2 ^ n"
      using make_room_after [OF assms(1) False i ok] by (auto simp: Let_def)
    let ?c = "b\<lparr>m_storage := st, m_capacity := 2 ^ n\<rparr>"
    have fd: "?a \<in> dom m" using D(6) False by simp
    have xle: "dist ?a e \<le> 32767"
    proof -
      obtain k where k: "shaped k b" using pb_rel_shaped [OF assms(1) False] ..
      show ?thesis using er(3) shapedD(3,8) [OF k] by linarith
    qed
    show ?thesis
    proof (cases "dist ?a i \<le> dist ?a e")
      case True
      have "dist i e = dist ?a e - dist ?a i" by (rule dist_split [OF True])
      then have "dist i e \<le> 32768" using xle dist_range(1) [of ?a i] by linarith
      then have nl: "\<not> compare_less_wrap (m_last ?c) ((i + 1) AND 0xffff) 0xffff" using lw by simp
      have top: "top_of ?a (m(i \<mapsto> p)) e" using e(1) True by (auto simp: top_of_def)
      have "\<exists>b'. put i p ?c = Some (m i, b') \<and> pb_rel b' (m(i \<mapsto> p))"
        by (rule put_spec [OF r(2,3)]) (use i D(4) top e(2) False r(4) fd in auto)
      then show ?thesis using z r(1,4) nl by (simp add: insert_at_put)
    next
      case beyond: False
      have "dist e i = dist ?a i - dist ?a e" using dist_split [of ?a e i] beyond by simp
      moreover from this have "dist i e = 65536 - dist e i" using dist_back [of e i] beyond by simp
      ultimately have "dist i e > 32768" using ok(1) dist_range(1) [of ?a e] by linarith
      then have nl: "compare_less_wrap (m_last ?c) ((i + 1) AND 0xffff) 0xffff" using lw by simp
      let ?d = "?c\<lparr>m_last := (i + 1) mod 65536\<rparr>"
      have d: "shaped n ?d" "pb_map ?d = m" using r(2,3) by simp_all
      have "dist ?a j \<le> dist ?a i" if "j \<in> dom m" for j using top_dist [OF e(1) that] beyond by linarith
      then have top: "top_of ?a (m(i \<mapsto> p)) i" by (simp add: top_of_def)
      have "\<exists>b'. put i p ?d = Some (m i, b') \<and> pb_rel b' (m(i \<mapsto> p))"
        by (rule put_spec [OF d]) (use i D(4) top False r(4) fd in auto)
      then show ?thesis using z r(1,4) nl by (simp add: insert_at_put)
    qed
  qed
qed

section \<open>Properties of the buffer\<close>

text \<open>The buffers a caller that respects the guards can build, with the packets they hold.\<close>

inductive pb_reach :: "'p packet_buffer \<Rightarrow> (int \<Rightarrow> 'p option) \<Rightarrow> bool" where
  new: "pb_reach new_buffer Map.empty"
| ins: "pb_reach b m \<Longrightarrow> insert_ok i b \<Longrightarrow> insert_at i (Some p) b = Some (old, b') \<Longrightarrow> pb_reach b' (m(i \<mapsto> p))"
| rem: "pb_reach b m \<Longrightarrow> access_ok i b \<Longrightarrow> remove_at i b = Some (old, b') \<Longrightarrow> pb_reach b' (m(i := None))"

lemma pb_reach_rel: "pb_reach b m \<Longrightarrow> pb_rel b m"
proof (induction rule: pb_reach.induct)
  case (ins b m i p old b')
  then show ?case using insert_at_spec [OF ins.IH ins.hyps(2), of p] by (auto simp del: fun_upd_apply)
next
  case (rem b m i old b')
  then show ?case using remove_at_spec [OF rem.IH rem.hyps(2)] by (auto simp del: fun_upd_apply)
qed (rule pb_rel_new)

text \<open>Guarded sequences of insertions (an index and a packet) and removals (an index alone).\<close>

fun pb_calls :: "(int \<times> 'p option) list \<Rightarrow> 'p packet_buffer \<Rightarrow> 'p packet_buffer option" where
  "pb_calls [] b = Some b"
| "pb_calls ((i, Some p) # cs) b = (if insert_ok i b then do { (_, b) \<leftarrow> insert_at i (Some p) b; pb_calls cs b } else None)"
| "pb_calls ((i, None) # cs) b = (if access_ok i b then do { (_, b) \<leftarrow> remove_at i b; pb_calls cs b } else None)"

lemma pb_calls_reach:
  "pb_calls cs b = Some b' \<Longrightarrow> pb_reach b m \<Longrightarrow> pb_reach b' (fold (\<lambda>(i, x) m. m(i := x)) cs m)"
proof (induction cs arbitrary: b m)
  case (Cons x cs)
  obtain i v where x: "x = (i, v)" by (cases x)
  show ?case
  proof (cases v)
    case (Some p)
    then obtain old c where c: "insert_ok i b" "insert_at i (Some p) b = Some (old, c)" "pb_calls cs c = Some b'"
      using Cons.prems(1) x by (auto split: if_splits bind_splits)
    show ?thesis using Cons.IH [OF c(3) pb_reach.ins [OF Cons.prems(2) c(1,2)]] x Some by simp
  next
    case None
    then obtain old c where c: "access_ok i b" "remove_at i b = Some (old, c)" "pb_calls cs c = Some b'"
      using Cons.prems(1) x by (auto split: if_splits bind_splits)
    show ?thesis using Cons.IH [OF c(3) pb_reach.rem [OF Cons.prems(2) c(1,2)]] x None by simp
  qed
qed simp

definition pb_example :: "(int \<times> nat option) list" where
  "pb_example = [(65533, Some 10), (2, Some 11), (65530, Some 12), (20, Some 13), (2, None)]"

definition pb_example_buffer :: "nat packet_buffer" where
  "pb_example_buffer = the (pb_calls pb_example new_buffer)"

lemma pb_example_reach: "pb_reach pb_example_buffer [65533 \<mapsto> 10, 65530 \<mapsto> 12, 20 \<mapsto> 13]"
proof -
  have "pb_calls pb_example new_buffer \<noteq> None" by code_simp
  then have "pb_calls pb_example new_buffer = Some pb_example_buffer" by (auto simp: pb_example_buffer_def)
  from pb_calls_reach [OF this pb_reach.new] show ?thesis by (simp add: pb_example_def fun_upd_twist)
qed

text \<open>
  C14: Lookup and removal. For every buffer built by guarded calls, \<open>at\<close> returns the packet last
  inserted under the index and not removed since, or null, and \<open>remove\<close> returns that packet and
  leaves a buffer without it; neither reads outside the array. The guard excludes only an index
  that has wrapped past zero and lies beyond the window.
\<close>

theorem packet_buffer_lookup:
  assumes "pb_reach b m" "access_ok i b"
  shows "at_index i b = Some (m i) \<and> (\<exists>b'. remove_at i b = Some (m i, b') \<and> pb_reach b' (m(i := None)))"
  using at_index_spec [OF pb_reach_rel [OF assms(1)] assms(2)] remove_at_spec [OF pb_reach_rel [OF assms(1)] assms(2)]
    pb_reach.rem [OF assms] by blast

theorem packet_buffer_lookup_witness:
  "at_index 65530 pb_example_buffer = Some (Some 12) \<and>
   (\<exists>b'. remove_at 65530 pb_example_buffer = Some (Some 12, b') \<and> pb_reach b' [65533 \<mapsto> 10, 20 \<mapsto> 13])"
proof -
  have "access_ok 65530 pb_example_buffer" by code_simp
  from packet_buffer_lookup [OF pb_example_reach this] show ?thesis by (simp add: fun_upd_twist)
qed

text \<open>
  C15: Insertion. A packet inserted within half the sequence space of the packets held (before,
  between or after them, across the wrap when the window reaches it) is stored, the packets
  held stay under their indices however much the array has to grow or the window has to move
  back, and the packet replaced is returned.
\<close>

theorem packet_buffer_insert:
  assumes "pb_reach b m" "insert_ok i b"
  shows "\<exists>b'. insert_at i (Some p) b = Some (m i, b') \<and> pb_reach b' (m(i \<mapsto> p))"
  using insert_at_spec [OF pb_reach_rel [OF assms(1)] assms(2)] pb_reach.ins [OF assms] by blast

theorem packet_buffer_insert_witness:
  "\<exists>b'. insert_at 65500 (Some 14) pb_example_buffer = Some (None, b') \<and>
     pb_reach b' ([65533 \<mapsto> 10, 65530 \<mapsto> 12, 20 \<mapsto> 13](65500 \<mapsto> 14))"
proof -
  have "insert_ok 65500 pb_example_buffer" by code_simp
  from packet_buffer_insert [OF pb_example_reach this, of 14] show ?thesis by simp
qed

text \<open>
  C16: The fields. In every buffer built by guarded calls, \<open>size\<close> is the number of packets held,
  the capacity is zero or a power of two of at most 32768 that the array really has, the cursor
  is the first packet, and \<open>span\<close> is the distance from it to the last packet plus one (zero when
  there is none), so the selective ack covers every packet held.
\<close>

theorem packet_buffer_fields:
  assumes "pb_reach b m"
  shows "m_size b = int (card (dom m)) \<and> int (length (m_storage b)) = m_capacity b \<and> m_capacity b \<in> insert 0 ((^) 2 ` {..15}) \<and>
     (if dom m = {} then span b = 0 else m_first b \<in> dom m \<and> span b = Max (dist (m_first b) ` dom m) + 1)"
proof -
  note R = pb_reach_rel [OF assms]
  note D = pb_relD [OF R]
  have cap: "int (length (m_storage b)) = m_capacity b \<and> m_capacity b \<in> insert 0 ((^) 2 ` {..15})"
    using R by (auto simp: pb_rel_def shaped_def)
  show ?thesis
  proof (cases "dom m = {}")
    case True
    then show ?thesis using cap D(4,5) by (simp add: span_def)
  next
    case False
    then obtain e where e: "top_of (m_first b) m e" "m_last b = (e + 1) mod 65536" using D(7) by blast
    obtain k where k: "shaped k b" using pb_rel_shaped [OF R False] ..
    have "dist (m_first b) e < m_capacity b" using e(1) pb_map_range [of e b] D(3) by (simp add: top_of_def)
    then have le: "dist (m_first b) e < 32768" using shapedD(3,8) [OF k] by linarith
    have M: "Max (dist (m_first b) ` dom m) = dist (m_first b) e"
      using e(1) D(3) by (intro Max_eqI) (auto simp: top_of_def)
    have "dist e (m_last b) = 1" unfolding dist_def e(2) by (simp add: mod_diff_left_eq)
    then have "dist (m_first b) (m_last b) = dist (m_first b) e + 1" using dist_join [of "m_first b" e "m_last b"] le by simp
    then have "span b = dist (m_first b) e + 1" by (simp add: span_def dist_def)
    then show ?thesis using cap D(4,6) False M by simp
  qed
qed

theorem packet_buffer_fields_witness:
  "m_size pb_example_buffer = 3 \<and> span pb_example_buffer = 27"
proof -
  have d: "dom [65533 \<mapsto> 10 :: nat, 65530 \<mapsto> 12, 20 \<mapsto> 13] = {65533, 65530, 20 :: int}" by auto
  have "m_first pb_example_buffer = 65530" by code_simp
  with packet_buffer_fields [OF pb_example_reach] show ?thesis unfolding d by (simp add: dist_def)
qed


end
