(* ===== verification/Ip_Filter.thy ===== *)
theory Ip_Filter
  imports Prelude
begin

text \<open>
  \<^verbatim>\<open>ip_filter.hpp\<close> and \<^verbatim>\<open>ip_filter.cpp\<close>: the filter that maps every IPv4 and IPv6 address and every
  port to flags. \<open>filter_impl\<close> is a template over the address type; here its operations take
  the operations of the address type as a record, the locale \<open>addresses\<close> states what they must
  satisfy, and it is interpreted for the big-endian byte arrays of the two IP versions and for
  16-bit ports. A \<^verbatim>\<open>std::set\<close> of ranges is the list of its elements in order and an iterator is a
  position in it; inserting before an iterator moves its position.
\<close>

section \<open>Address types\<close>

record 'a addr_ops =
  addr_less :: "'a \<Rightarrow> 'a \<Rightarrow> bool"
  plus_one :: "'a \<Rightarrow> 'a"
  minus_one :: "'a \<Rightarrow> 'a"
  zero_addr :: 'a
  max_addr :: 'a

text \<open>
  Byte arrays: the loops run from the last byte to the first, that is, along the reversed list.
  \<^verbatim>\<open>std::array\<close> compares lexicographically.
\<close>

fun carry_up :: "bytes \<Rightarrow> bytes" where
  "carry_up [] = []"
| "carry_up (t # ts) = (if t < 255 then (t + 1) # ts else 0 # carry_up ts)"

fun carry_down :: "bytes \<Rightarrow> bytes" where
  "carry_down [] = []"
| "carry_down (t # ts) = (if t > 0 then (t - 1) # ts else 255 # carry_down ts)"

definition plus_one_bytes :: "bytes \<Rightarrow> bytes" where
  "plus_one_bytes a = rev (carry_up (rev a))"

definition minus_one_bytes :: "bytes \<Rightarrow> bytes" where
  "minus_one_bytes a = rev (carry_down (rev a))"

fun bytes_less :: "bytes \<Rightarrow> bytes \<Rightarrow> bool" where
  "bytes_less (x # xs) (y # ys) \<longleftrightarrow> x < y \<or> x = y \<and> bytes_less xs ys"
| "bytes_less [] (y # ys) \<longleftrightarrow> True"
| "bytes_less xs [] \<longleftrightarrow> False"

definition bytes_ops :: "nat \<Rightarrow> bytes addr_ops" where
  "bytes_ops n = \<lparr>addr_less = bytes_less, plus_one = plus_one_bytes, minus_one = minus_one_bytes,
     zero_addr = replicate n 0, max_addr = replicate n 255\<rparr>"

definition port_ops :: "u16 addr_ops" where
  "port_ops = \<lparr>addr_less = (<), plus_one = (\<lambda>val. val + 1), minus_one = (\<lambda>val. val - 1), zero_addr = 0, max_addr = 0xFFFF\<rparr>"

section \<open>The filter of one address type\<close>

type_synonym 'a ranges = "('a \<times> u32) list"

definition new_filter :: "'a addr_ops \<Rightarrow> 'a ranges" where
  "new_filter A = [(zero_addr A, 0)]"

definition upper_bound :: "'a addr_ops \<Rightarrow> 'a \<Rightarrow> 'a ranges \<Rightarrow> nat" where
  "upper_bound A x L = length (takeWhile (\<lambda>r. \<not> addr_less A x (fst r)) L)"

definition set_insert :: "'a addr_ops \<Rightarrow> 'a \<times> u32 \<Rightarrow> 'a ranges \<Rightarrow> nat \<times> 'a ranges" where
  "set_insert A r L =
     (let k = length (takeWhile (\<lambda>q. addr_less A (fst q) (fst r)) L)
      in if k < length L \<and> \<not> addr_less A (fst r) (fst (L ! k)) then (k, L) else (k, take k L @ r # drop k L))"

definition set_erase :: "nat \<Rightarrow> nat \<Rightarrow> 'a ranges \<Rightarrow> 'a ranges" where
  "set_erase a b L = take a L @ drop b L"

text \<open>The two halves of \<open>filter_impl::add_rule\<close>: the lower end of the new range and its upper end.\<close>

definition rule_first :: "'a addr_ops \<Rightarrow> 'a \<Rightarrow> u32 \<Rightarrow> nat \<Rightarrow> nat \<Rightarrow> 'a ranges \<Rightarrow> nat \<times> 'a ranges" where
  "rule_first A lo fl i j L =
     (let first_access = snd (L ! i);
          (i, j, first_access, L) =
            (if fst (L ! i) \<noteq> lo \<and> first_access \<noteq> fl then
               let (i', L') = set_insert A (lo, fl) L
               in (i', if length L' > length L \<and> i' \<le> j then j + 1 else j, first_access, L')
             else if i \<noteq> 0 \<and> snd (L ! (i - 1)) = fl then (i - 1, j, snd (L ! (i - 1)), L)
             else (i, j, first_access, L));
          (j, L) = (if i \<noteq> j then (i + 1, set_erase (i + 1) j L) else (j, L))
      in if fst (L ! i) = lo then (j, L[i := (lo, fl)])
         else if first_access \<noteq> fl then
           let (i', L') = set_insert A (lo, fl) L in (if length L' > length L \<and> i' \<le> j then j + 1 else j, L')
         else (j, L))"

definition rule_last :: "'a addr_ops \<Rightarrow> 'a \<Rightarrow> u32 \<Rightarrow> u32 \<Rightarrow> nat \<Rightarrow> 'a ranges \<Rightarrow> 'a ranges" where
  "rule_last A hi fl last_access j L =
     (let (j, L) =
        (if (j < length L \<and> minus_one A (fst (L ! j)) \<noteq> hi) \<or> (j = length L \<and> hi \<noteq> max_addr A) then
           if last_access \<noteq> fl then set_insert A (plus_one A hi, last_access) L else (j, L)
         else (j, L))
      in if j < length L \<and> snd (L ! j) = fl then set_erase j (j + 1) L else L)"

definition add_range :: "'a addr_ops \<Rightarrow> 'a \<Rightarrow> 'a \<Rightarrow> u32 \<Rightarrow> 'a ranges \<Rightarrow> 'a ranges" where
  "add_range A lo hi fl L =
     (let i = upper_bound A lo L; j = upper_bound A hi L;
          i = (if i \<noteq> 0 then i - 1 else i);
          last_access = snd (L ! (j - 1));
          (j, L) = rule_first A lo fl i j L
      in rule_last A hi fl last_access j L)"

definition filter_access :: "'a addr_ops \<Rightarrow> 'a \<Rightarrow> 'a ranges \<Rightarrow> u32" where
  "filter_access A x L = (let i = upper_bound A x L; i = (if i \<noteq> 0 then i - 1 else i) in snd (L ! i))"

fun export_ranges :: "'a addr_ops \<Rightarrow> 'a ranges \<Rightarrow> ('a \<times> 'a \<times> u32) list" where
  "export_ranges A [] = []"
| "export_ranges A [(s, a)] = [(s, max_addr A, a)]"
| "export_ranges A ((s, a) # (s', a') # L) = (s, minus_one A s', a) # export_ranges A ((s', a') # L)"

section \<open>The filters\<close>

text \<open>An address with its bytes, as \<^verbatim>\<open>to_bytes\<close> gives them.\<close>

datatype address = V4 bytes | V6 bytes

record ip_filter =
  m_filter4 :: "bytes ranges"
  m_filter6 :: "bytes ranges"

definition new_ip_filter :: ip_filter where
  "new_ip_filter = \<lparr>m_filter4 = new_filter (bytes_ops 4), m_filter6 = new_filter (bytes_ops 16)\<rparr>"

text \<open>Converting an address to the other version throws: \<open>None\<close>.\<close>

fun ip_add_rule :: "address \<Rightarrow> address \<Rightarrow> u32 \<Rightarrow> ip_filter \<Rightarrow> ip_filter option" where
  "ip_add_rule (V4 a) (V4 b) fl F = Some (F\<lparr>m_filter4 := add_range (bytes_ops 4) a b fl (m_filter4 F)\<rparr>)"
| "ip_add_rule (V6 a) (V6 b) fl F = Some (F\<lparr>m_filter6 := add_range (bytes_ops 16) a b fl (m_filter6 F)\<rparr>)"
| "ip_add_rule _ _ fl F = None"

fun ip_access :: "address \<Rightarrow> ip_filter \<Rightarrow> u32" where
  "ip_access (V4 a) F = filter_access (bytes_ops 4) a (m_filter4 F)"
| "ip_access (V6 a) F = filter_access (bytes_ops 16) a (m_filter6 F)"

definition export_filter :: "ip_filter \<Rightarrow> (bytes \<times> bytes \<times> u32) list \<times> (bytes \<times> bytes \<times> u32) list" where
  "export_filter F = (export_ranges (bytes_ops 4) (m_filter4 F), export_ranges (bytes_ops 16) (m_filter6 F))"

definition port_add_rule :: "u16 \<Rightarrow> u16 \<Rightarrow> u32 \<Rightarrow> u16 ranges \<Rightarrow> u16 ranges" where
  "port_add_rule = add_range port_ops"

definition port_access :: "u16 \<Rightarrow> u16 ranges \<Rightarrow> u32" where
  "port_access = filter_access port_ops"

section \<open>What an address type must satisfy\<close>

locale addresses =
  fixes A :: "'a addr_ops" and valid :: "'a \<Rightarrow> bool" and val :: "'a \<Rightarrow> nat" and top :: nat
  assumes val_inj: "valid a \<Longrightarrow> valid b \<Longrightarrow> val a = val b \<Longrightarrow> a = b"
    and less_val: "valid a \<Longrightarrow> valid b \<Longrightarrow> addr_less A a b \<longleftrightarrow> val a < val b"
    and zero: "valid (zero_addr A)" "val (zero_addr A) = 0"
    and maximum: "valid (max_addr A)" "val (max_addr A) = top"
    and val_top: "valid a \<Longrightarrow> val a \<le> top"
    and plus: "valid a \<Longrightarrow> val a < top \<Longrightarrow> valid (plus_one A a) \<and> val (plus_one A a) = val a + 1"
    and minus: "valid a \<Longrightarrow> 0 < val a \<Longrightarrow> valid (minus_one A a) \<and> val (minus_one A a) = val a - 1"
begin

definition ordered :: "'a ranges \<Rightarrow> bool" where
  "ordered L \<longleftrightarrow> sorted_wrt (\<lambda>p q. val (fst p) < val (fst q)) L \<and> (\<forall>r\<in>set L. valid (fst r))"

definition well_formed :: "'a ranges \<Rightarrow> bool" where
  "well_formed L \<longleftrightarrow> ordered L \<and> L \<noteq> [] \<and> fst (hd L) = zero_addr A \<and> successively (\<lambda>p q. snd p \<noteq> snd q) L"

lemma ordered_append: "ordered (P @ S) \<longleftrightarrow> ordered P \<and> ordered S \<and> (\<forall>p\<in>set P. \<forall>s\<in>set S. val (fst p) < val (fst s))"
  by (auto simp: ordered_def sorted_wrt_append)

lemma ordered_Cons: "ordered (p # S) \<longleftrightarrow> valid (fst p) \<and> ordered S \<and> (\<forall>s\<in>set S. val (fst p) < val (fst s))"
  by (auto simp: ordered_def)

lemma ordered_Nil [simp]: "ordered []"
  by (simp add: ordered_def)

lemma upper_bound_split:
  assumes "ordered (P @ S)" "valid x" "\<And>p. p \<in> set P \<Longrightarrow> val (fst p) \<le> val x" "S = [] \<or> val x < val (fst (hd S))"
  shows "upper_bound A x (P @ S) = length P"
proof -
  have v: "\<And>p. p \<in> set (P @ S) \<Longrightarrow> valid (fst p)" using assms(1) by (auto simp: ordered_def)
  have "takeWhile (\<lambda>r. \<not> addr_less A x (fst r)) (P @ S) = P @ takeWhile (\<lambda>r. \<not> addr_less A x (fst r)) S"
    using assms(2,3) v by (intro takeWhile_append2) (auto simp: less_val linorder_not_less)
  moreover have "takeWhile (\<lambda>r. \<not> addr_less A x (fst r)) S = []"
    using assms(2,4) v less_val by (cases S) auto
  ultimately show ?thesis by (simp add: upper_bound_def)
qed

lemma access_split:
  assumes "ordered (P @ S)" "P \<noteq> []" "valid x" "\<And>p. p \<in> set P \<Longrightarrow> val (fst p) \<le> val x" "S = [] \<or> val x < val (fst (hd S))"
  shows "filter_access A x (P @ S) = snd (last P)"
  using upper_bound_split [OF assms(1,3,4,5)] assms(2)
  by (simp add: filter_access_def nth_append last_conv_nth)

lemma insert_split:
  assumes "ordered (P @ S)" "valid (fst r)" "\<And>p. p \<in> set P \<Longrightarrow> val (fst p) < val (fst r)" "S = [] \<or> val (fst r) < val (fst (hd S))"
  shows "set_insert A r (P @ S) = (length P, P @ r # S)"
proof -
  have v: "\<And>p. p \<in> set (P @ S) \<Longrightarrow> valid (fst p)" using assms(1) by (auto simp: ordered_def)
  have "takeWhile (\<lambda>q. addr_less A (fst q) (fst r)) (P @ S) = P @ takeWhile (\<lambda>q. addr_less A (fst q) (fst r)) S"
    using assms(2,3) v by (intro takeWhile_append2) (auto simp: less_val)
  moreover have "takeWhile (\<lambda>q. addr_less A (fst q) (fst r)) S = []"
    using assms(2,4) v less_val by (cases S) auto
  ultimately have k: "length (takeWhile (\<lambda>q. addr_less A (fst q) (fst r)) (P @ S)) = length P" by simp
  have "S = [] \<or> addr_less A (fst r) (fst (hd S))" using assms(2,4) v less_val by (cases S) auto
  then have "\<not> (length P < length (P @ S) \<and> \<not> addr_less A (fst r) (fst ((P @ S) ! length P)))" by (cases S) auto
  then show ?thesis unfolding set_insert_def k Let_def by simp
qed

text \<open>The ranges below, around and above a new range.\<close>

lemma split_at:
  assumes "ordered L" "valid x"
  obtains P S where "L = P @ S" "\<And>p. p \<in> set P \<Longrightarrow> val (fst p) \<le> val x" "\<And>s. s \<in> set S \<Longrightarrow> val x < val (fst s)"
proof
  let ?Q = "\<lambda>p. val (fst p) \<le> val x"
  show "L = takeWhile ?Q L @ dropWhile ?Q L" by simp
  show "p \<in> set (takeWhile ?Q L) \<Longrightarrow> ?Q p" for p using set_takeWhileD by fastforce
  show "s \<in> set (dropWhile ?Q L) \<Longrightarrow> val x < val (fst s)" for s
  proof -
    assume s: "s \<in> set (dropWhile ?Q L)"
    then obtain h T where h: "dropWhile ?Q L = h # T" by (cases "dropWhile ?Q L") auto
    then have "val x < val (fst h)" using hd_dropWhile [of ?Q L] by simp
    moreover have "ordered (h # T)" using assms(1) h by (metis ordered_append takeWhile_dropWhile_id)
    ultimately show ?thesis using s h by (auto simp: ordered_Cons)
  qed
qed

end

section \<open>What a rule does to the list of ranges\<close>

definition lower_part :: "'a ranges \<Rightarrow> 'a \<times> u32 \<Rightarrow> 'a \<Rightarrow> u32 \<Rightarrow> 'a ranges" where
  "lower_part P r lo fl =
     (if fst r \<noteq> lo \<and> snd r \<noteq> fl then P @ [r, (lo, fl)]
      else if P \<noteq> [] \<and> snd (last P) = fl then P
      else if fst r = lo then P @ [(lo, fl)] else P @ [r])"

definition upper_part :: "'a addr_ops \<Rightarrow> 'a \<Rightarrow> u32 \<Rightarrow> u32 \<Rightarrow> 'a ranges \<Rightarrow> 'a ranges" where
  "upper_part A hi fl la S =
     (if ((S \<noteq> [] \<and> minus_one A (fst (hd S)) \<noteq> hi) \<or> (S = [] \<and> hi \<noteq> max_addr A)) \<and> la \<noteq> fl then (plus_one A hi, la) # S
      else if S \<noteq> [] \<and> snd (hd S) = fl then List.tl S else S)"

context addresses begin

lemma rule_first_eq:
  assumes "ordered (P @ r # M @ S)" "valid lo" "val (fst r) \<le> val lo" "\<And>p. p \<in> set (M @ S) \<Longrightarrow> val lo < val (fst p)"
  shows "rule_first A lo fl (length P) (length P + 1 + length M) (P @ r # M @ S) =
    (length (lower_part P r lo fl), lower_part P r lo fl @ S)"
proof -
  let ?L = "P @ r # M @ S" and ?j = "length P + 1 + length M"
  have er: "set_erase (length P + 1) ?j ?L = P @ r # S" by (simp add: set_erase_def)
  have vr: "valid (fst r)" using assms(1) by (simp add: ordered_append ordered_Cons)
  have pr: "p \<in> set P \<Longrightarrow> val (fst p) < val (fst r)" for p using assms(1) by (simp add: ordered_append ordered_Cons)
  consider "fst r \<noteq> lo" "snd r \<noteq> fl" | "\<not> (fst r \<noteq> lo \<and> snd r \<noteq> fl)" "P \<noteq> []" "snd (last P) = fl"
    | "\<not> (fst r \<noteq> lo \<and> snd r \<noteq> fl)" "P = [] \<or> snd (last P) \<noteq> fl" by blast
  then show ?thesis
  proof cases
    case 1
    have "val (fst r) < val lo" using 1(1) assms(2,3) vr val_inj le_neq_implies_less by blast
    then have lt: "val (fst p) < val lo" if "p \<in> set (P @ [r])" for p using that pr by fastforce
    have "M @ S = [] \<or> val lo < val (fst (hd (M @ S)))" by (metis assms(4) hd_in_set)
    then have "set_insert A (lo, fl) ((P @ [r]) @ M @ S) = (length (P @ [r]), (P @ [r]) @ (lo, fl) # M @ S)"
      by (intro insert_split) (use assms(1,2) lt in auto)
    then have ins: "set_insert A (lo, fl) ?L = (length P + 1, P @ r # (lo, fl) # M @ S)" by simp
    have "set_erase (length P + 1 + 1) (?j + 1) (P @ r # (lo, fl) # M @ S) = P @ r # (lo, fl) # S" by (simp add: set_erase_def)
    then show ?thesis using 1 ins by (simp add: rule_first_def lower_part_def nth_append list_update_append)
  next
    case 2
    have "last P \<in> set P" using 2(2) by simp
    then have lp: "val (fst (last P)) < val lo" using pr assms(3) by fastforce
    then have ne: "fst (last P) \<noteq> lo" by auto
    obtain P' q where P: "P = P' @ [q]" using 2(2) by (cases P rule: rev_cases) auto
    have "set_erase (length P) ?j ?L = P @ S" by (simp add: set_erase_def)
    then show ?thesis using 2 ne P by (cases "fst r = lo") (simp_all add: rule_first_def lower_part_def nth_append)
  next
    case 3
    have nq: "\<not> (length P \<noteq> 0 \<and> snd (?L ! (length P - 1)) = fl)"
      using 3(2) by (cases P rule: rev_cases) (auto simp: nth_append)
    show ?thesis
    proof (cases "fst r = lo")
      case True
      then show ?thesis using 3 nq er by (auto simp: rule_first_def lower_part_def nth_append list_update_append)
    next
      case False
      then have "snd r = fl" using 3(1) by blast
      with False show ?thesis using 3 nq er by (auto simp: rule_first_def lower_part_def nth_append)
    qed
  qed
qed

lemma gap_plus:
  assumes "ordered S" "valid hi" "\<And>p. p \<in> set S \<Longrightarrow> val hi < val (fst p)"
    "(S \<noteq> [] \<and> minus_one A (fst (hd S)) \<noteq> hi) \<or> (S = [] \<and> hi \<noteq> max_addr A)"
  shows "valid (plus_one A hi)" "val (plus_one A hi) = val hi + 1" "S = [] \<or> val hi + 1 < val (fst (hd S))"
proof -
  have vt: "val hi < top \<and> (S = [] \<or> val hi + 1 < val (fst (hd S)))"
  proof (cases S)
    case Nil
    then have "val hi \<noteq> val (max_addr A)" using assms(4) val_inj [OF assms(2) maximum(1)] by auto
    then show ?thesis using maximum(2) val_top [OF assms(2)] Nil by simp
  next
    case (Cons s T)
    then have s: "valid (fst s)" "val hi < val (fst s)" using assms(1,3) by (auto simp: ordered_Cons)
    have "val (minus_one A (fst s)) \<noteq> val hi" using assms(4) Cons minus [OF s(1)] s(2) val_inj [OF _ assms(2)] by auto
    then show ?thesis using minus [OF s(1)] s val_top [OF s(1)] Cons by auto
  qed
  then show "valid (plus_one A hi)" "val (plus_one A hi) = val hi + 1" "S = [] \<or> val hi + 1 < val (fst (hd S))"
    using plus [OF assms(2)] by auto
qed

lemma rule_last_eq:
  assumes "ordered (F @ S)" "valid hi" "\<And>p. p \<in> set F \<Longrightarrow> val (fst p) \<le> val hi" "\<And>p. p \<in> set S \<Longrightarrow> val hi < val (fst p)"
  shows "rule_last A hi fl la (length F) (F @ S) = F @ upper_part A hi fl la S"
proof (cases "((S \<noteq> [] \<and> minus_one A (fst (hd S)) \<noteq> hi) \<or> (S = [] \<and> hi \<noteq> max_addr A)) \<and> la \<noteq> fl")
  case True
  have "ordered S" using assms(1) by (simp add: ordered_append)
  note p = gap_plus [OF this assms(2,4) conjunct1 [OF True]]
  have "set_insert A (plus_one A hi, la) (F @ S) = (length F, F @ (plus_one A hi, la) # S)"
    using assms(1,3) p by (intro insert_split) (auto simp: le_less_trans less_Suc_eq_le)
  then show ?thesis using True by (cases S) (auto simp: rule_last_def upper_part_def nth_append)
next
  case False
  then show ?thesis by (cases S) (auto simp: rule_last_def upper_part_def nth_append set_erase_def)
qed

lemma lower_part_ordered:
  assumes "ordered (P @ r # M @ S)" "valid lo" "val (fst r) \<le> val lo" "\<And>p. p \<in> set S \<Longrightarrow> val lo < val (fst p)"
  shows "ordered (lower_part P r lo fl @ S)" "p \<in> set (lower_part P r lo fl) \<Longrightarrow> val (fst p) \<le> val lo"
proof -
  have r: "valid (fst r)" "fst r \<noteq> lo \<Longrightarrow> val (fst r) < val lo"
    using assms(1-3) val_inj [of "fst r" lo] by (auto simp: ordered_append ordered_Cons)
  have P: "q \<in> set P \<Longrightarrow> val (fst q) < val (fst r)" for q using assms(1) by (simp add: ordered_append ordered_Cons)
  then have Pl: "q \<in> set P \<Longrightarrow> val (fst q) < val lo" for q using assms(3) by fastforce
  show "ordered (lower_part P r lo fl @ S)"
    using assms r P Pl unfolding lower_part_def by (auto simp: ordered_append ordered_Cons)
  show "p \<in> set (lower_part P r lo fl) \<Longrightarrow> val (fst p) \<le> val lo"
    using assms(3) Pl [of p] unfolding lower_part_def by (auto split: if_splits)
qed

lemma add_range_eq:
  assumes "well_formed L" "valid lo" "valid hi" "val lo \<le> val hi"
  obtains P r M S where "L = P @ r # M @ S" "val (fst r) \<le> val lo" "\<And>p. p \<in> set M \<Longrightarrow> val lo < val (fst p) \<and> val (fst p) \<le> val hi"
    "\<And>p. p \<in> set S \<Longrightarrow> val hi < val (fst p)"
    "add_range A lo hi fl L = lower_part P r lo fl @ upper_part A hi fl (snd (last (r # M))) S"
proof -
  have o: "ordered L" using assms(1) by (simp add: well_formed_def)
  obtain Q U where Q: "L = Q @ U" "\<And>p. p \<in> set Q \<Longrightarrow> val (fst p) \<le> val lo" "\<And>s. s \<in> set U \<Longrightarrow> val lo < val (fst s)"
    using split_at [OF o assms(2)] by blast
  have "Q \<noteq> []"
  proof
    assume "Q = []"
    then have "hd L \<in> set U" using Q(1) assms(1) by (simp add: well_formed_def)
    then show False using Q(3) [of "hd L"] assms(1) zero by (simp add: well_formed_def)
  qed
  then obtain P r where Qr: "Q = P @ [r]" by (cases Q rule: rev_cases) auto
  have oU: "ordered U" using o Q(1) by (simp add: ordered_append)
  obtain M S where M: "U = M @ S" "\<And>p. p \<in> set M \<Longrightarrow> val (fst p) \<le> val hi" "\<And>s. s \<in> set S \<Longrightarrow> val hi < val (fst s)"
    using split_at [OF oU assms(3)] by blast
  have L: "L = P @ r # M @ S" using Q(1) Qr M(1) by simp
  have ui: "upper_bound A lo L = length P + 1"
    using upper_bound_split [of Q U lo] o Q Qr assms(2) by (cases U) auto
  have oq: "ordered ((Q @ M) @ S)" using o Q(1) M(1) by simp
  have uj: "upper_bound A hi L = length P + 1 + length M"
    using upper_bound_split [OF oq assms(3)] Q(1,2) M Qr assms(4) by (cases S) fastforce+
  have la: "snd (L ! (length P + 1 + length M - 1)) = snd (last (r # M))"
    by (simp add: L nth_append last_conv_nth nth_Cons split: nat.split)
  have f: "rule_first A lo fl (length P) (length P + 1 + length M) L = (length (lower_part P r lo fl), lower_part P r lo fl @ S)"
    unfolding L by (rule rule_first_eq) (use o L Q Qr M assms(2) in auto)
  have r: "val (fst r) \<le> val lo" using Q(2) Qr by simp
  have Sl: "\<And>p. p \<in> set S \<Longrightarrow> val lo < val (fst p)" using M(3) assms(4) by fastforce
  have oF: "ordered (lower_part P r lo fl @ S)" "\<And>p. p \<in> set (lower_part P r lo fl) \<Longrightarrow> val (fst p) \<le> val hi"
    using lower_part_ordered [OF o [unfolded L] assms(2) r Sl] assms(4) by (blast, fastforce)
  have "rule_last A hi fl (snd (last (r # M))) (length (lower_part P r lo fl)) (lower_part P r lo fl @ S) =
      lower_part P r lo fl @ upper_part A hi fl (snd (last (r # M))) S"
    by (rule rule_last_eq [OF oF(1) assms(3) oF(2) M(3)])
  then have "add_range A lo hi fl L = lower_part P r lo fl @ upper_part A hi fl (snd (last (r # M))) S"
    using ui uj la f by (simp add: add_range_def)
  then show thesis using that [OF L] Q(2,3) Qr M by auto
qed

lemma access_filter:
  assumes "ordered L" "valid x" "filter (\<lambda>p. val (fst p) \<le> val x) L \<noteq> []"
  shows "filter_access A x L = snd (last (filter (\<lambda>p. val (fst p) \<le> val x) L))"
proof -
  obtain P S where L: "L = P @ S" "\<And>p. p \<in> set P \<Longrightarrow> val (fst p) \<le> val x" "\<And>s. s \<in> set S \<Longrightarrow> val x < val (fst s)"
    using split_at [OF assms(1,2)] by blast
  have "filter (\<lambda>p. val (fst p) \<le> val x) P = P" using L(2) by simp
  moreover have "filter (\<lambda>p. val (fst p) \<le> val x) S = []" using L(3) by (fastforce simp: filter_empty_conv)
  ultimately have f: "filter (\<lambda>p. val (fst p) \<le> val x) L = P" by (simp add: L(1))
  show ?thesis using access_split [OF assms(1) [unfolded L(1)] _ assms(2) L(2)] assms(3) L f by (cases S) auto
qed

lemma zero_in_filter: "well_formed L \<Longrightarrow> filter (\<lambda>p. val (fst p) \<le> val x) L \<noteq> []"
proof -
  assume "well_formed L"
  then have "hd L \<in> set L" "val (fst (hd L)) \<le> val x" using zero by (auto simp: well_formed_def)
  then show ?thesis by (auto simp: filter_empty_conv)
qed

lemma lower_part_last: "lower_part P r lo fl \<noteq> []" "snd (last (lower_part P r lo fl)) = fl"
  by (auto simp: lower_part_def)

lemma lower_part_head: "P = [] \<Longrightarrow> fst r = zero_addr A \<Longrightarrow> fst (hd (lower_part P r lo fl)) = zero_addr A"
  by (auto simp: lower_part_def)

lemma lower_part_prefix: "P \<noteq> [] \<Longrightarrow> hd (lower_part P r lo fl) = hd P"
  by (auto simp: lower_part_def)

lemma lower_part_differ:
  assumes "successively (\<lambda>p q. snd p \<noteq> snd q) (P @ [r])"
  shows "successively (\<lambda>p q. snd p \<noteq> snd q) (lower_part P r lo fl)"
  using assms by (auto simp: lower_part_def successively_append_iff successively_Cons)

lemma upper_part_differ:
  assumes "successively (\<lambda>p q. snd p \<noteq> snd q) S" "S = [] \<or> snd (hd S) \<noteq> la"
  shows "successively (\<lambda>p q. snd p \<noteq> snd q) (upper_part A hi fl la S)"
    "upper_part A hi fl la S = [] \<or> snd (hd (upper_part A hi fl la S)) \<noteq> fl"
  using assms by (cases S; auto simp: upper_part_def successively_Cons neq_Nil_conv)+

lemma add_range_well_formed:
  assumes "well_formed L" "valid lo" "valid hi" "val lo \<le> val hi"
  shows "well_formed (add_range A lo hi fl L)"
proof -
  obtain P r M S where L: "L = P @ r # M @ S" and r: "val (fst r) \<le> val lo"
    and M: "\<And>p. p \<in> set M \<Longrightarrow> val lo < val (fst p) \<and> val (fst p) \<le> val hi" and S: "\<And>p. p \<in> set S \<Longrightarrow> val hi < val (fst p)"
    and R: "add_range A lo hi fl L = lower_part P r lo fl @ upper_part A hi fl (snd (last (r # M))) S"
    using add_range_eq [OF assms(1-4)] by blast
  define la where "la = snd (last (r # M))"
  note R = R [folded la_def]
  let ?F = "lower_part P r lo fl" and ?la = la
  let ?U = "upper_part A hi fl ?la S"
  have o: "ordered (P @ r # M @ S)" and oS: "ordered S" using assms(1) L by (simp_all add: well_formed_def ordered_append ordered_Cons)
  have S': "\<And>p. p \<in> set S \<Longrightarrow> val lo < val (fst p)" using S assms(4) by fastforce
  have F: "ordered (?F @ S)" "\<And>p. p \<in> set ?F \<Longrightarrow> val (fst p) \<le> val lo"
    using lower_part_ordered [OF o assms(2) r S'] by blast+
  have diff: "successively (\<lambda>p q. snd p \<noteq> snd q) ((P @ r # M) @ S)" using assms(1) L by (simp add: well_formed_def)
  have dS: "successively (\<lambda>p q. snd p \<noteq> snd q) S" "S = [] \<or> snd (hd S) \<noteq> ?la"
    using diff unfolding successively_append_iff la_def by (auto split: if_splits)
  have "successively (\<lambda>p q. snd p \<noteq> snd q) ((P @ [r]) @ M @ S)" using diff by simp
  then have dP: "successively (\<lambda>p q. snd p \<noteq> snd q) (P @ [r])" unfolding successively_append_iff by blast
  have "successively (\<lambda>p q. snd p \<noteq> snd q) (?F @ ?U)"
    unfolding successively_append_iff
    using lower_part_differ [OF dP, of lo fl] upper_part_differ [OF dS, where hi = hi and fl = fl] lower_part_last(2) [of P r lo fl] by metis
  moreover have "ordered (?F @ ?U)"
  proof (cases "((S \<noteq> [] \<and> minus_one A (fst (hd S)) \<noteq> hi) \<or> (S = [] \<and> hi \<noteq> max_addr A)) \<and> ?la \<noteq> fl")
    case True
    note g = gap_plus [OF oS assms(3) S conjunct1 [OF True]]
    have "val (fst p) < val hi + 1" if "p \<in> set ?F" for p using F(2) [OF that] assms(4) by simp
    moreover have "val hi + 1 < val (fst p)" if "p \<in> set S" for p
      using that g(3) oS by (cases S) (auto simp: ordered_Cons)
    ultimately show ?thesis using F(1) g True by (auto simp: upper_part_def ordered_append ordered_Cons)
  next
    case False
    have "ordered (List.tl S)" "set (List.tl S) \<subseteq> set S" using oS by (cases S; auto simp: ordered_Cons)+
    then show ?thesis using F(1) False by (auto simp: upper_part_def ordered_append)
  qed
  moreover have "fst (hd ?F) = zero_addr A"
    using assms(1) L lower_part_head [of P r lo fl] lower_part_prefix [of P r lo fl] by (cases "P = []") (auto simp: well_formed_def)
  ultimately show ?thesis unfolding R well_formed_def using lower_part_last(1) [of P r lo fl] by simp
qed

lemma upper_part_above:
  assumes "ordered S" "valid hi" "\<And>p. p \<in> set S \<Longrightarrow> val hi < val (fst p)" "p \<in> set (upper_part A hi fl la S)"
  shows "val hi < val (fst p)"
proof (cases "((S \<noteq> [] \<and> minus_one A (fst (hd S)) \<noteq> hi) \<or> (S = [] \<and> hi \<noteq> max_addr A)) \<and> la \<noteq> fl")
  case True
  then have "p = (plus_one A hi, la) \<or> p \<in> set S" using assms(4) by (simp add: upper_part_def)
  then show ?thesis using gap_plus(2) [OF assms(1-3) conjunct1 [OF True]] assms(3) [of p] by (elim disjE) simp_all
next
  case False
  then have "p \<in> set S" using assms(4) by (auto simp: upper_part_def dest: list.set_sel(2) split: if_splits)
  then show ?thesis by (rule assms(3))
qed

lemma lower_part_filter:
  assumes "ordered (P @ [r])" "successively (\<lambda>p q. snd p \<noteq> snd q) (P @ [r])" "val x < val lo" "valid lo" "valid x" "val (fst r) \<le> val lo"
  shows "filter (\<lambda>p. val (fst p) \<le> val x) (lower_part P r lo fl) = filter (\<lambda>p. val (fst p) \<le> val x) (P @ [r])"
  using assms by (auto simp: lower_part_def successively_append_iff)

lemma upper_part_access:
  assumes "ordered S" "valid hi" "\<And>p. p \<in> set S \<Longrightarrow> val hi < val (fst p)" "valid x" "val hi < val x"
  shows "(let u = filter (\<lambda>p. val (fst p) \<le> val x) (upper_part A hi fl la S); s = filter (\<lambda>p. val (fst p) \<le> val x) S in
     (if u = [] then fl else snd (last u)) = (if s = [] then la else snd (last s)))"
proof (cases "((S \<noteq> [] \<and> minus_one A (fst (hd S)) \<noteq> hi) \<or> (S = [] \<and> hi \<noteq> max_addr A)) \<and> la \<noteq> fl")
  case True
  note g = gap_plus [OF assms(1-3) conjunct1 [OF True]]
  show ?thesis using True g(2) assms(5) by (simp add: upper_part_def Let_def)
next
  case False
  have same: ?thesis if "la = fl"
    using that False by (cases S) (auto simp: upper_part_def Let_def)
  show ?thesis
  proof (cases "la = fl")
    case ne: False
    show ?thesis
    proof (cases S)
      case Nil
      then show ?thesis using False ne assms(5) maximum val_top [OF assms(4)] by auto
    next
      case (Cons s T)
      then have s: "valid (fst s)" "val hi < val (fst s)" using assms(1,3) by (auto simp: ordered_Cons)
      have "val (fst s) = val hi + 1" using False ne Cons minus [OF s(1)] s(2) by auto
      then show ?thesis using False ne Cons assms(5) by (auto simp: upper_part_def Let_def)
    qed
  qed (rule same)
qed

lemma add_range_access:
  assumes "well_formed L" "valid lo" "valid hi" "val lo \<le> val hi" "valid x"
  shows "filter_access A x (add_range A lo hi fl L) = (if val lo \<le> val x \<and> val x \<le> val hi then fl else filter_access A x L)"
proof -
  obtain P r M S where L: "L = P @ r # M @ S" and r: "val (fst r) \<le> val lo"
    and M: "\<And>p. p \<in> set M \<Longrightarrow> val lo < val (fst p) \<and> val (fst p) \<le> val hi" and S: "\<And>p. p \<in> set S \<Longrightarrow> val hi < val (fst p)"
    and R: "add_range A lo hi fl L = lower_part P r lo fl @ upper_part A hi fl (snd (last (r # M))) S"
    using add_range_eq [OF assms(1-4)] by blast
  define la where "la = snd (last (r # M))"
  note R = R [folded la_def]
  let ?Q = "\<lambda>p. val (fst p) \<le> val x"
  let ?F = "lower_part P r lo fl" and ?la = la
  let ?U = "upper_part A hi fl ?la S"
  have o: "ordered (P @ r # M @ S)" and oS: "ordered S" "ordered (P @ [r])"
    using assms(1) L by (simp_all add: well_formed_def ordered_append ordered_Cons)
  have S': "\<And>p. p \<in> set S \<Longrightarrow> val lo < val (fst p)" using S assms(4) by fastforce
  have dP: "successively (\<lambda>p q. snd p \<noteq> snd q) (P @ [r])"
    using assms(1) L by (simp add: well_formed_def successively_append_iff successively_Cons)
  have wf: "well_formed (?F @ ?U)" using add_range_well_formed [OF assms(1-4), of fl] unfolding R .
  have acc: "filter_access A x (?F @ ?U) = snd (last (filter ?Q (?F @ ?U)))" "filter_access A x L = snd (last (filter ?Q L))"
    using access_filter [OF _ assms(5) zero_in_filter] wf assms(1) by (simp_all add: well_formed_def)
  have U0: "filter ?Q ?U = []" if "val x \<le> val hi"
    unfolding filter_empty_conv using that upper_part_above [OF oS(1) assms(3) S, where la = ?la and fl = fl] by fastforce
  consider "val x < val lo" | "val lo \<le> val x" "val x \<le> val hi" | "val hi < val x" by linarith
  then show ?thesis unfolding R acc
  proof cases
    case 1
    have "filter ?Q (M @ S) = []" using 1 M S' by (fastforce simp: filter_empty_conv)
    then have "filter ?Q L = filter ?Q (P @ [r])" by (simp add: L)
    then show "snd (last (filter ?Q (?F @ ?U))) = (if val lo \<le> val x \<and> val x \<le> val hi then fl else snd (last (filter ?Q L)))"
      using lower_part_filter [OF oS(2) dP 1 assms(2,5) r] U0 1 assms(4) by simp
  next
    case 2
    have "filter ?Q ?F = ?F" using lower_part_ordered(2) [OF o assms(2) r S'] 2(1) by (fastforce simp: filter_id_conv)
    then show "snd (last (filter ?Q (?F @ ?U))) = (if val lo \<le> val x \<and> val x \<le> val hi then fl else snd (last (filter ?Q L)))"
      using U0 2 lower_part_last by simp
  next
    case 3
    have F: "filter ?Q ?F = ?F" using lower_part_ordered(2) [OF o assms(2) r S'] 3 assms(4) by (fastforce simp: filter_id_conv)
    have rM: "filter ?Q (r # M) = r # M" using 3 M r assms(4) by (fastforce simp: filter_id_conv)
    have "snd (last (filter ?Q (?F @ ?U))) = (if filter ?Q ?U = [] then fl else snd (last (filter ?Q ?U)))"
      using F lower_part_last(2) [of P r lo fl] lower_part_last(1) [of P r lo fl] by simp
    moreover have "filter ?Q L = filter ?Q P @ (r # M) @ filter ?Q S" unfolding L by (metis rM append_Cons filter_append)
    then have "snd (last (filter ?Q L)) = (if filter ?Q S = [] then ?la else snd (last (filter ?Q S)))" by (simp add: la_def)
    ultimately show "snd (last (filter ?Q (?F @ ?U))) = (if val lo \<le> val x \<and> val x \<le> val hi then fl else snd (last (filter ?Q L)))"
      using upper_part_access [OF oS(1) assms(3) S assms(5) 3, where la = ?la and fl = fl] 3 by (simp add: Let_def)
  qed
qed

end

section \<open>Exported ranges\<close>

text \<open>Ranges that cover the addresses from zero to the maximum without gap or overlap, neighbours with different flags.\<close>

definition tiling :: "'a addr_ops \<Rightarrow> ('a \<times> 'a \<times> u32) list \<Rightarrow> bool" where
  "tiling A rs \<longleftrightarrow> rs \<noteq> [] \<and> fst (hd rs) = zero_addr A \<and> fst (snd (last rs)) = max_addr A \<and>
     list_all (\<lambda>r. \<not> addr_less A (fst (snd r)) (fst r)) rs \<and>
     successively (\<lambda>p q. plus_one A (fst (snd p)) = fst q \<and> snd (snd p) \<noteq> snd (snd q)) rs"

context addresses begin

lemma export_not_Nil: "L \<noteq> [] \<Longrightarrow> export_ranges A L \<noteq> [] \<and> fst (hd (export_ranges A L)) = fst (hd L) \<and>
    snd (snd (hd (export_ranges A L))) = snd (hd L)"
  by (cases "(A, L)" rule: export_ranges.cases) auto

lemma export_max: "L \<noteq> [] \<Longrightarrow> fst (snd (last (export_ranges A L))) = max_addr A"
proof (induction L rule: induct_list012)
  case (3 p q L)
  then show ?case using export_not_Nil [of "q # L"] by (cases p; cases q) auto
qed auto

lemma export_steps:
  assumes "ordered L" "successively (\<lambda>p q. snd p \<noteq> snd q) L"
  shows "list_all (\<lambda>r. \<not> addr_less A (fst (snd r)) (fst r)) (export_ranges A L) \<and>
    successively (\<lambda>p q. plus_one A (fst (snd p)) = fst q \<and> snd (snd p) \<noteq> snd (snd q)) (export_ranges A L)"
  using assms
proof (induction L rule: induct_list012)
  case (2 r)
  then have "\<not> addr_less A (max_addr A) (fst r)"
    using less_val [OF maximum(1), of "fst r"] val_top [of "fst r"] maximum(2) by (simp add: ordered_def)
  then show ?case by (cases r) simp
next
  case (3 r r' L)
  have v: "valid (fst r)" "valid (fst r')" "val (fst r) < val (fst r')" using "3.prems"(1) by (simp_all add: ordered_Cons)
  have m: "valid (minus_one A (fst r'))" "val (minus_one A (fst r')) = val (fst r') - 1" using minus [OF v(2)] v(3) by auto
  have "val (minus_one A (fst r')) < top" using m(2) v val_top [OF v(2)] by linarith
  then have p: "plus_one A (minus_one A (fst r')) = fst r'"
    using plus [OF m(1)] m(2) v by (intro val_inj) auto
  have "ordered (r' # L)" "successively (\<lambda>p q. snd p \<noteq> snd q) (r' # L)" "snd r \<noteq> snd r'"
    using "3.prems" by (simp_all add: ordered_Cons)
  with "3.IH"(2) have IH: "list_all (\<lambda>r. \<not> addr_less A (fst (snd r)) (fst r)) (export_ranges A (r' # L)) \<and>
    successively (\<lambda>p q. plus_one A (fst (snd p)) = fst q \<and> snd (snd p) \<noteq> snd (snd q)) (export_ranges A (r' # L))" "snd r \<noteq> snd r'"
    by simp_all
  have "\<not> addr_less A (minus_one A (fst r')) (fst r)" using less_val [OF m(1) v(1)] m(2) v(3) by linarith
  then show ?case using IH p export_not_Nil [of "r' # L"]
    by (cases r; cases r') (auto simp: successively_Cons)
qed simp

lemma export_valid: "ordered L \<Longrightarrow> r \<in> set (export_ranges A L) \<Longrightarrow> valid (fst r) \<and> valid (fst (snd r))"
proof (induction L rule: induct_list012)
  case (3 p q L)
  then have "valid (fst p)" "valid (fst q)" "val (fst p) < val (fst q)" "ordered (q # L)" by (simp_all add: ordered_Cons)
  then show ?case using 3 minus [of "fst q"] by (cases p; cases q) auto
qed (auto simp: ordered_def maximum)

lemma export_tiling: "well_formed L \<Longrightarrow> tiling A (export_ranges A L)"
  using export_steps [of L] export_not_Nil [of L] export_max [of L] by (simp add: well_formed_def tiling_def)

lemma export_access:
  assumes "ordered (K @ L)" "r \<in> set (export_ranges A L)" "valid x" "val (fst r) \<le> val x" "val x \<le> val (fst (snd r))"
  shows "filter_access A x (K @ L) = snd (snd r)"
  using assms
proof (induction L arbitrary: K rule: induct_list012)
  case (2 p)
  then have r: "fst r = fst p" "snd (snd r) = snd p" by (cases p; simp)+
  have "val (fst k) \<le> val x" if "k \<in> set (K @ [p])" for k
    using that "2.prems"(1,4) r(1) by (fastforce simp: ordered_append)
  then show ?case using access_split [of "K @ [p]" "[]" x] "2.prems"(1,3) r(2) by simp
next
  case (3 p q L)
  show ?case
  proof (cases "r \<in> set (export_ranges A (q # L))")
    case True
    then show ?thesis using "3.IH"(2) [of "K @ [p]"] "3.prems" by simp
  next
    case False
    then have r: "r = (fst p, minus_one A (fst q), snd p)" using "3.prems"(2) by (cases p; cases q) auto
    have v: "valid (fst q)" "val (fst p) < val (fst q)" using "3.prems"(1) by (simp_all add: ordered_append ordered_Cons)
    then have xq: "val x < val (fst q)" using minus [OF v(1)] "3.prems"(5) r by auto
    have "filter_access A x ((K @ [p]) @ q # L) = snd (last (K @ [p]))"
      by (rule access_split) (use "3.prems" r xq in \<open>auto simp: ordered_append ordered_Cons intro: order.trans less_imp_le\<close>)
    then show ?thesis using r by simp
  qed
qed simp

lemma new_filter_well_formed: "well_formed (new_filter A)"
  using zero by (simp add: well_formed_def new_filter_def ordered_Cons)

lemma new_filter_access: "valid x \<Longrightarrow> filter_access A x (new_filter A) = 0"
  using access_split [of "new_filter A" "[]" x] zero by (simp add: new_filter_def ordered_Cons)

end

section \<open>Byte arrays and ports are address types\<close>

fun low_val :: "bytes \<Rightarrow> nat" where
  "low_val [] = 0"
| "low_val (t # ts) = unat t + 256 * low_val ts"

definition bytes_val :: "bytes \<Rightarrow> nat" where
  "bytes_val a = low_val (rev a)"

lemma low_val_append: "low_val (xs @ ys) = low_val xs + 256 ^ length xs * low_val ys"
  by (induction xs) (simp_all add: algebra_simps)

lemma unat_u8: "unat (x :: u8) < 256"
  using unsigned_less [of x, where ?'a = nat] by simp

lemma low_val_less: "low_val xs < 256 ^ length xs"
proof (induction xs)
  case (Cons t ts)
  then show ?case using unat_u8 [of t] by simp
qed simp

lemma bytes_val_Cons: "bytes_val (x # xs) = bytes_val xs + 256 ^ length xs * unat x"
  by (simp add: bytes_val_def low_val_append)

lemma bytes_val_less: "bytes_val xs < 256 ^ length xs"
  using low_val_less [of "rev xs"] by (simp add: bytes_val_def)

lemma digit_order:
  fixes a b B :: nat
  assumes "a < B" "b < B"
  shows "a + B * x < b + B * y \<longleftrightarrow> x < y \<or> x = y \<and> a < b" "a + B * x = b + B * y \<longleftrightarrow> x = y \<and> a = b"
proof -
  have "x < y \<Longrightarrow> a + B * x < b + B * y"
  proof -
    assume "x < y"
    then have "B * x + B \<le> B * y" using mult_le_mono2 [of "Suc x" y B] by simp
    then show ?thesis using assms by linarith
  qed
  moreover have "y < x \<Longrightarrow> b + B * y < a + B * x"
  proof -
    assume "y < x"
    then have "B * y + B \<le> B * x" using mult_le_mono2 [of "Suc y" x B] by simp
    then show ?thesis using assms by linarith
  qed
  ultimately show "a + B * x < b + B * y \<longleftrightarrow> x < y \<or> x = y \<and> a < b" "a + B * x = b + B * y \<longleftrightarrow> x = y \<and> a = b"
    by (cases x y rule: linorder_cases; auto)+
qed

lemma bytes_less_val: "length a = length b \<Longrightarrow> bytes_less a b \<longleftrightarrow> bytes_val a < bytes_val b"
proof (induction a b rule: bytes_less.induct)
  case (1 x xs y ys)
  then show ?case using digit_order(1) [OF bytes_val_less, of "bytes_val ys" xs "unat x" "unat y"] bytes_val_less [of ys]
    by (auto simp: bytes_val_Cons word_less_nat_alt word_unat_eq_iff)
qed (auto simp: bytes_val_def)

lemma bytes_val_inj: "length a = length b \<Longrightarrow> bytes_val a = bytes_val b \<Longrightarrow> a = b"
proof (induction a b rule: list_induct2)
  case (Cons x xs y ys)
  then show ?case using digit_order(2) [OF bytes_val_less, of "bytes_val ys" xs "unat x" "unat y"] bytes_val_less [of ys]
    by (auto simp: bytes_val_Cons word_unat_eq_iff)
qed simp

lemma carry_length [simp]: "length (carry_up xs) = length xs" "length (carry_down xs) = length xs"
  by (induction xs) auto

lemma u8_step:
  "(t :: u8) < 255 \<Longrightarrow> unat (t + 1) = unat t + 1" "\<not> (t :: u8) < 255 \<Longrightarrow> t = 255"
  "0 < (t :: u8) \<Longrightarrow> unat (t - 1) = unat t - 1" "\<not> 0 < (t :: u8) \<Longrightarrow> t = 0"
  using unat_u8 [of t] by (auto simp: word_less_nat_alt unat_word_ariths word_unat_eq_iff unat_minus_one)

lemma carry_up_val: "low_val xs < 256 ^ length xs - 1 \<Longrightarrow> low_val (carry_up xs) = low_val xs + 1"
proof (induction xs)
  case (Cons t ts)
  show ?case
  proof (cases "t < 255")
    case False
    then have "t = 255" by (rule u8_step(2))
    then show ?thesis using Cons by simp
  qed (simp add: u8_step(1))
qed simp

lemma carry_down_val: "0 < low_val xs \<Longrightarrow> low_val (carry_down xs) = low_val xs - 1"
proof (induction xs)
  case (Cons t ts)
  show ?case
  proof (cases "0 < t")
    case True
    then have "0 < unat t" by (simp add: word_less_nat_alt)
    then show ?thesis using True by (simp add: u8_step(3))
  next
    case False
    then have "t = 0" by (rule u8_step(4))
    then show ?thesis using Cons by simp
  qed
qed simp

lemma low_val_replicate: "low_val (replicate n 0) = 0" "low_val (replicate n 255) = 256 ^ n - 1"
proof -
  have "low_val (replicate n 255) + 1 = 256 ^ n" by (induction n) simp_all
  then show "low_val (replicate n 255) = 256 ^ n - 1" by simp
qed (induction n, simp_all)

lemma bytes_addresses: "addresses (bytes_ops n) (\<lambda>a. length a = n) bytes_val (256 ^ n - 1)"
proof
  fix a b :: bytes assume "length a = n" "length b = n"
  then show "bytes_val a = bytes_val b \<Longrightarrow> a = b" "addr_less (bytes_ops n) a b \<longleftrightarrow> bytes_val a < bytes_val b"
    using bytes_val_inj bytes_less_val by (simp_all add: bytes_ops_def)
next
  fix a :: bytes assume a: "length a = n"
  show "bytes_val a \<le> 256 ^ n - 1" using bytes_val_less [of a] a by simp
  show "bytes_val a < 256 ^ n - 1 \<Longrightarrow> length (plus_one (bytes_ops n) a) = n \<and> bytes_val (plus_one (bytes_ops n) a) = bytes_val a + 1"
    using carry_up_val [of "rev a"] a by (simp add: bytes_ops_def plus_one_bytes_def bytes_val_def)
  show "0 < bytes_val a \<Longrightarrow> length (minus_one (bytes_ops n) a) = n \<and> bytes_val (minus_one (bytes_ops n) a) = bytes_val a - 1"
    using carry_down_val [of "rev a"] a by (simp add: bytes_ops_def minus_one_bytes_def bytes_val_def)
qed (simp_all add: bytes_ops_def bytes_val_def low_val_replicate)

interpretation v4: addresses "bytes_ops 4" "\<lambda>a. length a = 4" bytes_val "256 ^ 4 - 1"
  by (rule bytes_addresses)

interpretation v6: addresses "bytes_ops 16" "\<lambda>a. length a = 16" bytes_val "256 ^ 16 - 1"
  by (rule bytes_addresses)

interpretation port: addresses port_ops "\<lambda>a. True" unat 65535
proof
  fix a b :: u16
  have l: "unat a < 65536" using unsigned_less [of a, where ?'a = nat] by simp
  then show "unat a \<le> 65535" by simp
  show "unat a < 65535 \<Longrightarrow> True \<and> unat (plus_one port_ops a) = unat a + 1" by (simp add: port_ops_def unat_word_ariths)
  show "0 < unat a \<Longrightarrow> True \<and> unat (minus_one port_ops a) = unat a - 1"
    by (simp add: port_ops_def unat_minus_one word_unat_eq_iff)
qed (simp_all add: port_ops_def word_less_nat_alt word_unat_eq_iff)

section \<open>Properties of the filters\<close>

fun addr_ok :: "address \<Rightarrow> bool" where
  "addr_ok (V4 a) \<longleftrightarrow> length a = 4"
| "addr_ok (V6 a) \<longleftrightarrow> length a = 16"

fun in_rule :: "address \<Rightarrow> address \<Rightarrow> address \<Rightarrow> bool" where
  "in_rule (V4 x) (V4 a) (V4 b) \<longleftrightarrow> \<not> bytes_less x a \<and> \<not> bytes_less b x"
| "in_rule (V6 x) (V6 a) (V6 b) \<longleftrightarrow> \<not> bytes_less x a \<and> \<not> bytes_less b x"
| "in_rule _ _ _ \<longleftrightarrow> False"

text \<open>A rule with addresses of one version, in order.\<close>

fun rule_ok :: "address \<times> address \<times> u32 \<Rightarrow> bool" where
  "rule_ok (a, b, fl) \<longleftrightarrow> addr_ok a \<and> addr_ok b \<and> in_rule a a b"

fun ip_add_rules :: "(address \<times> address \<times> u32) list \<Rightarrow> ip_filter \<Rightarrow> ip_filter option" where
  "ip_add_rules [] F = Some F"
| "ip_add_rules ((a, b, fl) # rs) F = Option.bind (ip_add_rule a b fl F) (ip_add_rules rs)"

definition last_rule :: "address \<Rightarrow> (address \<times> address \<times> u32) list \<Rightarrow> u32 \<Rightarrow> u32" where
  "last_rule x = fold (\<lambda>(a, b, fl) acc. if in_rule x a b then fl else acc)"

definition ip_inv :: "ip_filter \<Rightarrow> bool" where
  "ip_inv F \<longleftrightarrow> v4.well_formed (m_filter4 F) \<and> v6.well_formed (m_filter6 F)"

lemma ip_add_rule_spec:
  assumes "ip_inv F" "rule_ok (a, b, fl)"
  shows "\<exists>F'. ip_add_rule a b fl F = Some F' \<and> ip_inv F' \<and>
    (\<forall>x. addr_ok x \<longrightarrow> ip_access x F' = (if in_rule x a b then fl else ip_access x F))"
proof -
  have i: "v4.well_formed (m_filter4 F)" "v6.well_formed (m_filter6 F)" using assms(1) by (simp_all add: ip_inv_def)
  consider u w where "a = V4 u" "b = V4 w" | u w where "a = V6 u" "b = V6 w" using assms(2) by (cases a; cases b) auto
  then show ?thesis
  proof cases
    case 1
    then have v: "length u = 4" "length w = 4" "bytes_val u \<le> bytes_val w" using assms(2) by (auto simp: bytes_less_val linorder_not_less)
    have "ip_access x (F\<lparr>m_filter4 := add_range (bytes_ops 4) u w fl (m_filter4 F)\<rparr>) = (if in_rule x a b then fl else ip_access x F)"
      if "addr_ok x" for x
      using that v v4.add_range_access [OF i(1) v(1,2,3)] 1 by (cases x) (auto simp: bytes_less_val linorder_not_less)
    then show ?thesis using 1 v4.add_range_well_formed [OF i(1) v] i(2) by (simp add: ip_inv_def)
  next
    case 2
    then have v: "length u = 16" "length w = 16" "bytes_val u \<le> bytes_val w" using assms(2) by (auto simp: bytes_less_val linorder_not_less)
    have "ip_access x (F\<lparr>m_filter6 := add_range (bytes_ops 16) u w fl (m_filter6 F)\<rparr>) = (if in_rule x a b then fl else ip_access x F)"
      if "addr_ok x" for x
      using that v v6.add_range_access [OF i(2) v(1,2,3)] 2 by (cases x) (auto simp: bytes_less_val linorder_not_less)
    then show ?thesis using 2 v6.add_range_well_formed [OF i(2) v] i(1) by (simp add: ip_inv_def)
  qed
qed

lemma ip_add_rules_spec:
  assumes "ip_inv F" "list_all rule_ok rs"
  shows "\<exists>F'. ip_add_rules rs F = Some F' \<and> ip_inv F' \<and> (\<forall>x. addr_ok x \<longrightarrow> ip_access x F' = last_rule x rs (ip_access x F))"
  using assms
proof (induction rs arbitrary: F)
  case (Cons r rs)
  obtain a b fl where r: "r = (a, b, fl)" by (cases r)
  obtain G where G: "ip_add_rule a b fl F = Some G" "ip_inv G"
      "\<forall>x. addr_ok x \<longrightarrow> ip_access x G = (if in_rule x a b then fl else ip_access x F)"
    using ip_add_rule_spec [OF Cons.prems(1), of a b fl] Cons.prems(2) r by auto
  obtain H where "ip_add_rules rs G = Some H" "ip_inv H" "\<forall>x. addr_ok x \<longrightarrow> ip_access x H = last_rule x rs (ip_access x G)"
    using Cons.IH [OF G(2)] Cons.prems(2) by auto
  then show ?case using G r by (simp add: last_rule_def)
qed (simp add: last_rule_def)

lemma new_ip_filter_inv: "ip_inv new_ip_filter" "addr_ok x \<Longrightarrow> ip_access x new_ip_filter = 0"
  by (cases x; simp add: ip_inv_def new_ip_filter_def v4.new_filter_well_formed v6.new_filter_well_formed
      v4.new_filter_access v6.new_filter_access)+

definition example_rules :: "(address \<times> address \<times> u32) list" where
  "example_rules = [(V4 [10, 0, 0, 0], V4 [10, 255, 255, 255], 1), (V4 [10, 1, 0, 0], V4 [10, 1, 0, 255], 0),
     (V4 [11, 0, 0, 0], V4 [255, 255, 255, 255], 1), (V6 (replicate 16 0), V6 (replicate 15 0 @ [7]), 1),
     (V4 [9, 255, 255, 255], V4 [10, 0, 0, 3], 1)]"

text \<open>
  C17: The last rule wins. After any list of rules, each with two addresses of the same version
  in order, the flags of every IPv4 and IPv6 address are those of the last rule whose range
  holds it, and zero when there is none.
\<close>

theorem ip_filter_last_rule_wins:
  assumes "list_all rule_ok rs" "addr_ok x"
  shows "\<exists>F. ip_add_rules rs new_ip_filter = Some F \<and> ip_access x F = last_rule x rs 0"
  using ip_add_rules_spec [OF new_ip_filter_inv(1) assms(1)] new_ip_filter_inv(2) [OF assms(2)] assms(2) by auto

theorem ip_filter_last_rule_wins_witness:
  "\<exists>F. ip_add_rules example_rules new_ip_filter = Some F \<and> ip_access (V4 [10, 1, 0, 9]) F = 0"
proof -
  have r: "list_all rule_ok example_rules" "addr_ok (V4 [10, 1, 0, 9])" by code_simp+
  have "last_rule (V4 [10, 1, 0, 9]) example_rules 0 = 0" by code_simp
  then show ?thesis using ip_filter_last_rule_wins [OF r] by simp
qed



text \<open>
  Ports: a rule sets the flags of exactly the ports of its range and keeps the filter
  well formed, from the new filter on, whose flags are all zero.
\<close>

theorem port_filter_exact:
  assumes "a \<le> b" "port.well_formed L"
  shows "port.well_formed (port_add_rule a b fl L) \<and>
    port_access x (port_add_rule a b fl L) = (if a \<le> x \<and> x \<le> b then fl else port_access x L) \<and>
    port.well_formed (new_filter port_ops) \<and> port_access x (new_filter port_ops) = 0"
  using port.add_range_access [OF assms(2), of a b x fl] port.add_range_well_formed [OF assms(2), of a b fl] assms(1)
    port.new_filter_well_formed port.new_filter_access [of x]
  by (simp add: port_add_rule_def port_access_def word_le_nat_alt)

theorem port_filter_exact_witness:
  "port_access 80 (port_add_rule 1 1023 1 (new_filter port_ops)) = 1"
proof -
  have "(1 :: u16) \<le> 1023" "(1 :: u16) \<le> 80 \<and> (80 :: u16) \<le> 1023" by code_simp+
  then show ?thesis using port_filter_exact [OF _ port.new_filter_well_formed, of 1 1023 1 80] by simp
qed

end
