(* ===== verification/File_Storage.thy ===== *)
theory File_Storage
  imports Prelude "HOL-Library.Monad_Syntax"  "HOL-Library.Multiset"
begin

text \<open>
  \<^verbatim>\<open>file_storage.cpp\<close>: the files of a torrent as one range of bytes cut into pieces. Modelled are
  the sizes, offsets and flags of the files with the arrays kept beside them, the maps between
  pieces and files, and the reordering and padding of \<open>optimize\<close>; names are kept as opaque
  values and their interning in \<^verbatim>\<open>m_paths\<close> is not modelled. Sizes are integers; the 48-bit
  fields of a file entry are cut with \<open>take_bit 48\<close>. Reading past the end of an array, dividing
  by zero and a failing \<^verbatim>\<open>numeric_cast\<close> are \<open>None\<close>.
\<close>

section \<open>The files of a torrent\<close>

datatype file_name = Named string | Pad_name int

record file_entry =
  fe_name :: file_name
  fe_size :: int
  fe_offset :: int
  fe_pad_file :: bool
  fe_hidden :: bool
  fe_executable :: bool
  fe_symlink :: bool

record file_storage =
  fs_files :: "file_entry list"
  fs_mtime :: "int list"
  fs_file_hashes :: "nat list"
  fs_piece_length :: int
  fs_num_pieces :: int
  fs_total_size :: int

definition new_storage :: "int \<Rightarrow> file_storage" where
  "new_storage pl = \<lparr>fs_files = [], fs_mtime = [], fs_file_hashes = [], fs_piece_length = pl, fs_num_pieces = 0, fs_total_size = 0\<rparr>"

text \<open>The pointer to a file hash is an address, zero the null pointer.\<close>

definition resize_to :: "nat \<Rightarrow> 'a \<Rightarrow> 'a list \<Rightarrow> 'a list" where
  "resize_to n x xs = take n xs @ replicate (n - length xs) x"

definition add_file :: "string \<Rightarrow> int \<Rightarrow> bool \<Rightarrow> bool \<Rightarrow> bool \<Rightarrow> nat \<Rightarrow> int \<Rightarrow> file_storage \<Rightarrow> file_storage option" where
  "add_file name file_size pad hid exe filehash mtime fs =
     (if file_size < 0 then None
      else let e = \<lparr>fe_name = Named name, fe_size = take_bit 48 file_size, fe_offset = take_bit 48 (fs_total_size fs),
             fe_pad_file = pad, fe_hidden = hid, fe_executable = exe, fe_symlink = False\<rparr>;
           fs = fs\<lparr>fs_files := fs_files fs @ [e]\<rparr>;
           n = length (fs_files fs);
           fs = (if filehash \<noteq> 0 then
                   let hs = (if length (fs_file_hashes fs) < n then resize_to n 0 (fs_file_hashes fs) else fs_file_hashes fs)
                   in fs\<lparr>fs_file_hashes := hs[n - 1 := filehash]\<rparr>
                 else fs);
           fs = (if mtime \<noteq> 0 then
                   let ms = (if length (fs_mtime fs) < n then resize_to n 0 (fs_mtime fs) else fs_mtime fs)
                   in fs\<lparr>fs_mtime := ms[n - 1 := mtime]\<rparr>
                 else fs)
       in Some (fs\<lparr>fs_total_size := fs_total_size fs + fe_size e\<rparr>))"

definition piece_size :: "int \<Rightarrow> file_storage \<Rightarrow> int" where
  "piece_size index fs =
     (if index = fs_num_pieces fs - 1 then
        let size_except_last = (fs_num_pieces fs - 1) * fs_piece_length fs in fs_total_size fs - size_except_last
      else fs_piece_length fs)"

definition fs_blocks_per_piece :: "file_storage \<Rightarrow> int" where
  "fs_blocks_per_piece fs = (fs_piece_length fs + 0x4000 - 1) div 0x4000"

text \<open>\<^verbatim>\<open>std::upper_bound\<close> on the offsets, stepped back by one; stepping back from the first file is \<open>None\<close>.\<close>

definition file_before :: "int \<Rightarrow> file_entry list \<Rightarrow> nat option" where
  "file_before target files =
     (let k = length (takeWhile (\<lambda>e. \<not> target < fe_offset e) files) in if k = 0 then None else Some (k - 1))"

definition file_index_at_offset :: "int \<Rightarrow> file_storage \<Rightarrow> nat option" where
  "file_index_at_offset off fs = (if off < 0 then None else file_before off (fs_files fs))"

type_synonym file_slice = "nat \<times> int \<times> int"

fun map_block_loop :: "nat \<Rightarrow> file_entry list \<Rightarrow> int \<Rightarrow> int \<Rightarrow> file_slice list option" where
  "map_block_loop i [] file_offset sz = (if sz > 0 then None else Some [])"
| "map_block_loop i (e # es) file_offset sz =
     (if sz > 0 then
        if file_offset < fe_size e then do {
          let f_size = min (fe_size e - file_offset) sz;
          ret \<leftarrow> map_block_loop (i + 1) es (file_offset + f_size - fe_size e) (sz - f_size);
          Some ((i, file_offset, f_size) # ret)
        }
        else map_block_loop (i + 1) es (file_offset - fe_size e) sz
      else Some [])"

definition map_block :: "int \<Rightarrow> int \<Rightarrow> int \<Rightarrow> file_storage \<Rightarrow> file_slice list option" where
  "map_block piece off sz fs =
     (if fs_files fs = [] then Some []
      else do {
        let target = piece * fs_piece_length fs + off;
        if target < 0 then None else do {
          let sz = (if target + sz > fs_total_size fs then fs_total_size fs - target else sz);
          k \<leftarrow> file_before target (fs_files fs);
          map_block_loop k (drop k (fs_files fs)) (target - fe_offset (fs_files fs ! k)) sz
        }
      })"

record peer_request =
  pr_piece :: int
  pr_start :: int
  pr_length :: int

definition map_file :: "int \<Rightarrow> int \<Rightarrow> int \<Rightarrow> file_storage \<Rightarrow> peer_request" where
  "map_file file_index file_offset sz fs =
     (if file_index \<ge> int (length (fs_files fs)) then \<lparr>pr_piece = fs_num_pieces fs, pr_start = 0, pr_length = 0\<rparr>
      else let off = file_offset + fe_offset (fs_files fs ! nat file_index) in
        if off \<ge> fs_total_size fs then \<lparr>pr_piece = fs_num_pieces fs, pr_start = 0, pr_length = 0\<rparr>
        else \<lparr>pr_piece = off div fs_piece_length fs, pr_start = off mod fs_piece_length fs,
               pr_length = (if off + sz > fs_total_size fs then fs_total_size fs - off else sz)\<rparr>)"

definition file_piece_range_exclusive :: "file_storage \<Rightarrow> int \<Rightarrow> int \<times> int" where
  "file_piece_range_exclusive fs file =
     (let range = map_file file 0 1 fs;
          file_size = fe_size (fs_files fs ! nat file);
          pl = fs_piece_length fs;
          begin_piece = (if pr_start range = 0 then pr_piece range else pr_piece range + 1);
          end_piece = (if file = int (length (fs_files fs)) - 1 then fs_num_pieces fs
                       else (pr_piece range * pl + pr_start range + file_size + 1) div pl)
      in (begin_piece, end_piece))"

definition file_piece_range_inclusive :: "file_storage \<Rightarrow> int \<Rightarrow> int \<times> int" where
  "file_piece_range_inclusive fs file =
     (let range = map_file file 0 1 fs;
          file_size = fe_size (fs_files fs ! nat file);
          pl = fs_piece_length fs;
          end_piece = (pr_piece range * pl + pr_start range + file_size - 1) div pl + 1
      in (pr_piece range, end_piece))"

section \<open>Reordering and padding\<close>

text \<open>\<^verbatim>\<open>std::iter_swap\<close>; a position at the end or past it is no element.\<close>

definition iter_swap :: "nat \<Rightarrow> nat \<Rightarrow> 'a list \<Rightarrow> 'a list option" where
  "iter_swap i j xs = (if i < length xs \<and> j < length xs then Some (xs[i := xs ! j, j := xs ! i]) else None)"

definition reorder_file :: "nat \<Rightarrow> nat \<Rightarrow> file_storage \<Rightarrow> file_storage option" where
  "reorder_file index dst fs = do {
     files \<leftarrow> iter_swap index dst (fs_files fs);
     mtime \<leftarrow> (if fs_mtime fs \<noteq> [] then
                 let ms = (if length (fs_mtime fs) < index then resize_to (index + 1) 0 (fs_mtime fs) else fs_mtime fs)
                 in iter_swap dst index ms
               else Some (fs_mtime fs));
     hashes \<leftarrow> (if fs_file_hashes fs \<noteq> [] then
                 let hs = (if length (fs_file_hashes fs) < index then resize_to (index + 1) 0 (fs_file_hashes fs) else fs_file_hashes fs)
                 in iter_swap dst index hs
               else Some (fs_file_hashes fs));
     Some (fs\<lparr>fs_files := files, fs_mtime := mtime, fs_file_hashes := hashes\<rparr>)
   }"

definition pad_entry :: "int \<Rightarrow> int \<Rightarrow> int \<Rightarrow> file_entry" where
  "pad_entry sz off counter = \<lparr>fe_name = Pad_name counter, fe_size = take_bit 48 sz, fe_offset = take_bit 48 off,
     fe_pad_file = True, fe_hidden = False, fe_executable = False, fe_symlink = False\<rparr>"

definition add_pad_file :: "int \<Rightarrow> nat \<Rightarrow> int \<Rightarrow> int \<Rightarrow> file_storage \<Rightarrow> file_storage option" where
  "add_pad_file sz cur_index off counter fs =
     (let index = length (fs_files fs);
          fs = fs\<lparr>fs_files := fs_files fs @ [pad_entry sz off counter]\<rparr>;
          fs = (if fs_mtime fs \<noteq> [] then fs\<lparr>fs_mtime := resize_to (index + 1) 0 (fs_mtime fs)\<rparr> else fs);
          fs = (if fs_file_hashes fs \<noteq> [] then fs\<lparr>fs_file_hashes := resize_to (index + 1) 0 (fs_file_hashes fs)\<rparr> else fs)
      in if index \<noteq> cur_index then reorder_file index cur_index fs else Some fs)"

text \<open>
  The two searches of \<open>optimize\<close>: the file to place at an aligned offset, from the file at \<open>i\<close> on,
  and the largest file behind \<open>i\<close> that fits before the next aligned offset.
\<close>

fun largest_from :: "int \<Rightarrow> file_entry list \<Rightarrow> nat \<Rightarrow> nat \<Rightarrow> int \<Rightarrow> nat" where
  "largest_from alignment [] k best best_size = best"
| "largest_from alignment (e # es) k best best_size =
     (if fe_size e mod alignment = 0 then k
      else if best_size < fe_size e then largest_from alignment es (k + 1) k (fe_size e)
      else largest_from alignment es (k + 1) best best_size)"

fun largest_fitting :: "int \<Rightarrow> file_entry list \<Rightarrow> nat \<Rightarrow> (nat \<times> int) option \<Rightarrow> nat option" where
  "largest_fitting pad_size [] j best = map_option fst best"
| "largest_fitting pad_size (e # es) j best =
     (if fe_size e > pad_size then largest_fitting pad_size es (j + 1) best
      else if (case best of None \<Rightarrow> True | Some (b, s) \<Rightarrow> fe_size e > s) then largest_fitting pad_size es (j + 1) (Some (j, fe_size e))
      else largest_fitting pad_size es (j + 1) best)"

text \<open>Placing the file at \<open>i\<close>: its offset is set and the running offset moves past it.\<close>

definition place :: "nat \<Rightarrow> int \<Rightarrow> file_storage \<Rightarrow> int \<times> file_storage" where
  "place i off fs =
     (let files = (fs_files fs)[i := (fs_files fs ! i)\<lparr>fe_offset := take_bit 48 off\<rparr>]
      in (off + fe_size (files ! i), fs\<lparr>fs_files := files\<rparr>))"

definition move_to :: "nat \<Rightarrow> nat \<Rightarrow> file_storage \<Rightarrow> file_storage option" where
  "move_to best i fs = (if best \<noteq> i then reorder_file best i fs else Some fs)"

text \<open>
  One round of the loop of \<open>optimize\<close> at the file \<open>i\<close>: the next position, offset, pad file counter
  and storage. \<open>tail_step\<close> is the end of the round, after the file has been placed.
\<close>

definition tail_step ::
    "int \<Rightarrow> int \<Rightarrow> bool \<Rightarrow> nat \<Rightarrow> int \<Rightarrow> int \<Rightarrow> file_storage \<Rightarrow> (nat \<times> int \<times> int \<times> file_storage) option" where
  "tail_step lim alignment tail_padding i off padding_file fs =
     (if tail_padding \<and> fe_size (fs_files fs ! i) > take_bit 32 lim \<and> off mod alignment \<noteq> 0 then do {
        let i = i + 1;
        let pad = alignment - (off mod alignment);
        fs \<leftarrow> add_pad_file pad i off padding_file fs;
        Some (i + 1, off + pad, padding_file + 1, fs)
      }
      else Some (i + 1, off, padding_file, fs))"

definition optimize_step ::
    "int \<Rightarrow> int \<Rightarrow> bool \<Rightarrow> nat \<Rightarrow> int \<Rightarrow> int \<Rightarrow> file_storage \<Rightarrow> (nat \<times> int \<times> int \<times> file_storage) option" where
  "optimize_step lim alignment tail_padding i off padding_file fs =
     (let e = fs_files fs ! i in
      if off mod alignment = 0 then do {
        fs \<leftarrow> move_to (largest_from alignment (drop i (fs_files fs)) i i (fe_size e)) i fs;
        let (off, fs) = place i off fs;
        tail_step lim alignment tail_padding i off padding_file fs
      }
      else if lim \<ge> 0 \<and> fe_size e > take_bit 32 lim \<and> \<not> fe_pad_file e then
        let pad_size = alignment - (off mod alignment) in
        case (if lim > 0 then largest_fitting pad_size (drop (i + 1) (fs_files fs)) (i + 1) None else None) of
          Some best \<Rightarrow> do {
            fs \<leftarrow> reorder_file best i fs;
            let (off, fs) = place i off fs;
            Some (i + 1, off, padding_file, fs)
          }
        | None \<Rightarrow> do {
            fs \<leftarrow> add_pad_file pad_size i off padding_file fs;
            Some (i + 1, off + pad_size, padding_file + 1, fs)
          }
      else
        let (off, fs) = place i off fs in tail_step lim alignment tail_padding i off padding_file fs)"

partial_function (option) optimize_loop ::
    "int \<Rightarrow> int \<Rightarrow> bool \<Rightarrow> nat \<Rightarrow> int \<Rightarrow> int \<Rightarrow> file_storage \<Rightarrow> (int \<times> file_storage) option" where
  "optimize_loop lim alignment tail_padding i off padding_file fs =
     (if i < length (fs_files fs) then
        Option.bind (optimize_step lim alignment tail_padding i off padding_file fs)
          (\<lambda>(i, off, padding_file, fs). optimize_loop lim alignment tail_padding i off padding_file fs)
      else Some (off, fs))"

declare optimize_loop.simps [code]

definition optimize :: "int \<Rightarrow> int \<Rightarrow> bool \<Rightarrow> file_storage \<Rightarrow> file_storage option" where
  "optimize pad_file_limit alignment tail_padding fs =
     (let alignment = (if alignment = -1 then fs_piece_length fs else alignment) in
      if alignment \<le> 0 \<and> fs_files fs \<noteq> [] then None
      else do {
        (off, fs) \<leftarrow> optimize_loop pad_file_limit alignment tail_padding 0 0 0 fs;
        Some (fs\<lparr>fs_total_size := off\<rparr>)
      })"

section \<open>Contiguous files\<close>

fun contiguous :: "int \<Rightarrow> file_entry list \<Rightarrow> bool" where
  "contiguous a [] \<longleftrightarrow> True"
| "contiguous a (e # es) \<longleftrightarrow> fe_offset e = a \<and> 0 \<le> fe_size e \<and> contiguous (a + fe_size e) es"

definition bytes_of :: "file_entry list \<Rightarrow> int" where
  "bytes_of es = sum_list (map fe_size es)"

lemma bytes_of_simps [simp]:
  "bytes_of [] = 0" "bytes_of (e # es) = fe_size e + bytes_of es" "bytes_of (es @ ds) = bytes_of es + bytes_of ds"
  by (simp_all add: bytes_of_def)

definition fs_ok :: "file_storage \<Rightarrow> bool" where
  "fs_ok fs \<longleftrightarrow> contiguous 0 (fs_files fs) \<and> fs_total_size fs = bytes_of (fs_files fs) \<and> fs_total_size fs < 2 ^ 48 \<and>
     0 < fs_piece_length fs \<and> fs_num_pieces fs = (fs_total_size fs + fs_piece_length fs - 1) div fs_piece_length fs"

lemma contiguous_append: "contiguous a (es @ ds) \<longleftrightarrow> contiguous a es \<and> contiguous (a + bytes_of es) ds"
  by (induction es arbitrary: a) (auto simp: add.assoc)

lemma contiguous_nonneg: "contiguous a es \<Longrightarrow> 0 \<le> bytes_of es"
  by (induction es arbitrary: a) force+

lemma contiguous_offsets: "contiguous a es \<Longrightarrow> e \<in> set es \<Longrightarrow> a \<le> fe_offset e \<and> fe_offset e + fe_size e \<le> a + bytes_of es"
proof (induction es arbitrary: a)
  case (Cons d es)
  then show ?case using contiguous_nonneg [of "a + fe_size d" es] by fastforce
qed simp

lemma contiguous_sizes: "contiguous a es \<Longrightarrow> e \<in> set es \<Longrightarrow> 0 \<le> fe_size e"
  by (induction es arbitrary: a) auto

lemma add_file_contiguous:
  assumes "contiguous 0 (fs_files fs)" "fs_total_size fs = bytes_of (fs_files fs)" "0 \<le> n" "bytes_of (fs_files fs) + n < 2 ^ 48"
  shows "\<exists>fs'. add_file nm n pad hid exe h mt fs = Some fs' \<and> contiguous 0 (fs_files fs') \<and> fs_total_size fs' = bytes_of (fs_files fs') \<and>
     bytes_of (fs_files fs') = bytes_of (fs_files fs) + n"
proof -
  have b: "0 \<le> bytes_of (fs_files fs)" using contiguous_nonneg assms(1) by blast
  have t: "take_bit 48 n = n" "take_bit 48 (fs_total_size fs) = fs_total_size fs"
    using assms b by (auto simp: take_bit_eq_mod)
  show ?thesis using assms t by (auto simp: add_file_def Let_def contiguous_append)
qed

text \<open>The file that holds a byte, between the files before it and those after it.\<close>

lemma file_at:
  assumes "contiguous a es" "a \<le> t" "t < a + bytes_of es"
  obtains A e B where "es = A @ e # B" "fe_offset e \<le> t" "t < fe_offset e + fe_size e" "fe_offset e = a + bytes_of A"
proof -
  have "\<exists>A e B. es = A @ e # B \<and> fe_offset e \<le> t \<and> t < fe_offset e + fe_size e \<and> fe_offset e = a + bytes_of A"
    using assms
  proof (induction es arbitrary: a)
    case (Cons d es)
    show ?case
    proof (cases "t < a + fe_size d")
      case True
      then show ?thesis using Cons.prems by (intro exI [of _ "[]"]) auto
    next
      case False
      then obtain A e B where "es = A @ e # B" "fe_offset e \<le> t" "t < fe_offset e + fe_size e" "fe_offset e = a + fe_size d + bytes_of A"
        using Cons.IH [of "a + fe_size d"] Cons.prems by auto
      then show ?thesis by (intro exI [of _ "d # A"]) auto
    qed
  qed simp
  then show thesis using that by blast
qed

lemma file_before_eq:
  assumes "contiguous a (A @ e # B)" "fe_offset e \<le> t" "t < fe_offset e + fe_size e"
  shows "file_before t (A @ e # B) = Some (length A)"
proof -
  have e: "fe_offset e = a + bytes_of A" using assms(1) by (simp add: contiguous_append)
  have A: "\<not> t < fe_offset d" if "d \<in> set A" for d
  proof -
    have "contiguous a A" using assms(1) by (simp add: contiguous_append)
    with contiguous_offsets [OF this that] contiguous_sizes [OF this that] show ?thesis using assms(2) e by linarith
  qed
  have B: "t < fe_offset d" if "d \<in> set B" for d
    using contiguous_offsets [of "a + bytes_of A + fe_size e" B d] assms(1,3) e that by (simp add: contiguous_append)
  have "takeWhile (\<lambda>e. \<not> t < fe_offset e) (A @ e # B) = A @ e # takeWhile (\<lambda>e. \<not> t < fe_offset e) B"
    using A assms(2) by (simp add: takeWhile_append)
  moreover have "takeWhile (\<lambda>e. \<not> t < fe_offset e) B = []" using B by (cases B) auto
  ultimately show ?thesis by (simp add: file_before_def)
qed

text \<open>The bytes of the torrent that a slice covers, in order.\<close>

definition slice_bytes :: "file_entry list \<Rightarrow> file_slice \<Rightarrow> int list" where
  "slice_bytes files = (\<lambda>(i, o', n). [fe_offset (files ! i) + o' .. fe_offset (files ! i) + o' + n - 1])"

definition slice_ok :: "file_entry list \<Rightarrow> file_slice \<Rightarrow> bool" where
  "slice_ok files = (\<lambda>(i, o', n). i < length files \<and> 0 \<le> o' \<and> 0 < n \<and> o' + n \<le> fe_size (files ! i))"

lemma upto_join: "a \<le> b + 1 \<Longrightarrow> b \<le> c \<Longrightarrow> [a..b] @ [b + 1..c] = [a..c]"
proof (cases "b = c")
  case False
  assume "a \<le> b + 1" "b \<le> c"
  with False show ?thesis using upto_split1 [of a "b + 1" c] by simp
qed simp

lemma map_block_loop_spec:
  assumes "contiguous a es" "files = A @ es" "0 \<le> fo" "0 \<le> sz" "fo + sz \<le> bytes_of es"
  shows "\<exists>sl. map_block_loop (length A) es fo sz = Some sl \<and> concat (map (slice_bytes files) sl) = [a + fo .. a + fo + sz - 1] \<and>
    list_all (slice_ok files) sl"
  using assms
proof (induction es arbitrary: a A fo sz)
  case (Cons e es)
  have c: "contiguous (a + fe_size e) es" "fe_offset e = a" "0 \<le> fe_size e" "files = (A @ [e]) @ es" "files ! length A = e"
    using Cons.prems(1,2) by auto
  consider "sz = 0" | "0 < sz" "fo < fe_size e" | "0 < sz" "fe_size e \<le> fo" using Cons.prems(4) by linarith
  then show ?case
  proof cases
    case 2
    let ?n = "min (fe_size e - fo) sz"
    have fo0: "fo + ?n - fe_size e = 0 \<or> sz - ?n = 0" by auto
    show ?thesis
    proof (cases "sz \<le> fe_size e - fo")
      case True
      then have "map_block_loop (length A + 1) es (fo + ?n - fe_size e) (sz - ?n) = Some []" by (cases es) auto
      then show ?thesis using 2 c True Cons.prems(3) by (simp add: slice_bytes_def slice_ok_def nth_append)
    next
      case False
      then have n: "?n = fe_size e - fo" by simp
      obtain sl where sl: "map_block_loop (length (A @ [e])) es 0 (sz - ?n) = Some sl"
          "concat (map (slice_bytes files) sl) = [a + fe_size e + 0 .. a + fe_size e + 0 + (sz - ?n) - 1]" "list_all (slice_ok files) sl"
        using Cons.IH [OF c(1,4), of 0 "sz - ?n"] Cons.prems(5) n False by auto
      have "[a + fo .. a + fe_size e - 1] @ [a + fe_size e .. a + fo + sz - 1] = [a + fo .. a + fo + sz - 1]"
        using upto_join [of "a + fo" "a + fe_size e - 1" "a + fo + sz - 1"] 2 False by simp
      then show ?thesis using 2 c n sl Cons.prems(2,3) by (simp add: slice_bytes_def slice_ok_def algebra_simps)
    qed
  next
    case 3
    then show ?thesis using Cons.IH [OF c(1,4), of "fo - fe_size e" sz] Cons.prems by (simp add: algebra_simps)
  qed (simp)
qed simp

lemma map_block_spec:
  assumes "fs_ok fs" "fs_files fs \<noteq> []" "t = piece * fs_piece_length fs + off" "0 \<le> t" "0 \<le> sz" "t < fs_total_size fs"
  shows "\<exists>sl. map_block piece off sz fs = Some sl \<and>
    concat (map (slice_bytes (fs_files fs)) sl) = [t .. t + min sz (fs_total_size fs - t) - 1] \<and> list_all (slice_ok (fs_files fs)) sl"
proof -
  have c: "contiguous 0 (fs_files fs)" "fs_total_size fs = bytes_of (fs_files fs)" using assms(1) by (auto simp: fs_ok_def)
  obtain A e B where f: "fs_files fs = A @ e # B" "fe_offset e \<le> t" "t < fe_offset e + fe_size e" "fe_offset e = 0 + bytes_of A"
    using file_at [OF c(1) assms(4)] assms(6) c(2) by auto
  have k: "file_before t (fs_files fs) = Some (length A)" using file_before_eq [of 0 A e B t] c(1) f by simp
  let ?sz = "min sz (fs_total_size fs - t)"
  have ce: "contiguous (bytes_of A) (e # B)" using c(1) f(1) by (simp add: contiguous_append)
  have p: "0 \<le> t - fe_offset e" "0 \<le> ?sz" "t - fe_offset e + ?sz \<le> bytes_of (e # B)" using f c(2) assms(5,6) by auto
  obtain sl where sl: "map_block_loop (length A) (e # B) (t - fe_offset e) ?sz = Some sl"
      "concat (map (slice_bytes (fs_files fs)) sl) = [bytes_of A + (t - fe_offset e) .. bytes_of A + (t - fe_offset e) + ?sz - 1]"
      "list_all (slice_ok (fs_files fs)) sl"
    using map_block_loop_spec [OF ce f(1) p] by blast
  have "(if t + sz > fs_total_size fs then fs_total_size fs - t else sz) = ?sz" by auto
  then have "map_block piece off sz fs = Some sl"
    using assms(2,4) k sl(1) f(1) unfolding map_block_def Let_def assms(3) [symmetric] by (simp del: map_block_loop.simps)
  then show ?thesis using sl f(4) by simp
qed

lemma map_file_block:
  assumes "fs_ok fs" "i < length (fs_files fs)" "0 \<le> o'" "0 < n" "o' + n \<le> fe_size (fs_files fs ! i)"
    "r = map_file (int i) o' n fs"
  shows "map_block (pr_piece r) (pr_start r) (pr_length r) fs = Some [(i, o', n)]"
proof -
  have c: "contiguous 0 (fs_files fs)" "fs_total_size fs = bytes_of (fs_files fs)" "0 < fs_piece_length fs"
    using assms(1) by (auto simp: fs_ok_def)
  let ?e = "fs_files fs ! i" and ?A = "take i (fs_files fs)" and ?B = "drop (Suc i) (fs_files fs)"
  have f: "fs_files fs = ?A @ ?e # ?B" using assms(2) by (simp add: id_take_nth_drop)
  let ?t = "o' + fe_offset ?e"
  have e: "?e \<in> set (fs_files fs)" using assms(2) by simp
  have o0: "0 \<le> fe_offset ?e" "fe_offset ?e + fe_size ?e \<le> fs_total_size fs" using contiguous_offsets [OF c(1) e] c(2) by auto
  have t: "?t + n \<le> fs_total_size fs" "?t < fs_total_size fs" using o0 assms(4,5) by linarith+
  have r: "pr_piece r = ?t div fs_piece_length fs" "pr_start r = ?t mod fs_piece_length fs" "pr_length r = n"
    using assms(2,6) t by (simp_all add: map_file_def Let_def)
  have eq: "pr_piece r * fs_piece_length fs + pr_start r = ?t" by (simp add: r)
  have "file_before ?t (?A @ ?e # ?B) = Some (length ?A)"
    using file_before_eq [of 0 ?A ?e ?B ?t] c(1) f assms(3-5) by simp
  then have k: "file_before ?t (fs_files fs) = Some i" using f assms(2) by simp
  have d: "drop i (fs_files fs) = ?e # ?B" using assms(2) by (simp add: Cons_nth_drop_Suc)
  have l: "map_block_loop i (?e # ?B) o' n = Some [(i, o', n)]"
    using assms(3-5) by (cases ?B) auto
  have "map_block (pr_piece r) (pr_start r) n fs = Some [(i, o', n)]"
    unfolding map_block_def Let_def eq using assms(2,3) o0 t k d l by (auto simp del: map_block_loop.simps)
  then show ?thesis by (simp add: r)
qed

section \<open>Rounds of \<open>optimize\<close>\<close>

definition arrays_ok :: "file_storage \<Rightarrow> bool" where
  "arrays_ok fs \<longleftrightarrow> (fs_mtime fs = [] \<or> length (fs_mtime fs) = length (fs_files fs)) \<and>
     (fs_file_hashes fs = [] \<or> length (fs_file_hashes fs) = length (fs_files fs))"

definition strip :: "file_entry \<Rightarrow> file_entry" where
  "strip e = e\<lparr>fe_offset := 0\<rparr>"

lemma strip_fields [simp]:
  "fe_size (strip e) = fe_size e" "fe_pad_file (strip e) = fe_pad_file e" "strip (e\<lparr>fe_offset := x\<rparr>) = strip e"
  by (simp_all add: strip_def)

lemma reorder_ok:
  assumes "arrays_ok fs" "i < length (fs_files fs)" "j < length (fs_files fs)"
  shows "\<exists>ms hs. reorder_file i j fs = Some (fs\<lparr>fs_files := (fs_files fs)[i := fs_files fs ! j, j := fs_files fs ! i], fs_mtime := ms, fs_file_hashes := hs\<rparr>) \<and>
     arrays_ok (fs\<lparr>fs_files := (fs_files fs)[i := fs_files fs ! j, j := fs_files fs ! i], fs_mtime := ms, fs_file_hashes := hs\<rparr>)"
proof -
  have swap: "\<exists>ys. (if xs \<noteq> [] then iter_swap j i (if length xs < i then resize_to (i + 1) 0 xs else xs) else Some xs) = Some ys \<and>
      (ys = [] \<or> length ys = length (fs_files fs))"
    if "xs = [] \<or> length xs = length (fs_files fs)" for xs :: "'b::zero list"
    using that assms(2,3) by (auto simp: iter_swap_def)
  obtain ms where ms: "(if fs_mtime fs \<noteq> [] then iter_swap j i (if length (fs_mtime fs) < i then resize_to (i + 1) 0 (fs_mtime fs) else fs_mtime fs)
      else Some (fs_mtime fs)) = Some ms" "ms = [] \<or> length ms = length (fs_files fs)"
    using swap [of "fs_mtime fs"] assms(1) by (auto simp: arrays_ok_def simp del: not_None_eq)
  obtain hs where hs: "(if fs_file_hashes fs \<noteq> [] then
        iter_swap j i (if length (fs_file_hashes fs) < i then resize_to (i + 1) 0 (fs_file_hashes fs) else fs_file_hashes fs)
      else Some (fs_file_hashes fs)) = Some hs" "hs = [] \<or> length hs = length (fs_files fs)"
    using swap [of "fs_file_hashes fs"] assms(1) by (auto simp: arrays_ok_def)
  have "iter_swap i j (fs_files fs) = Some ((fs_files fs)[i := fs_files fs ! j, j := fs_files fs ! i])"
    using assms(2,3) by (simp add: iter_swap_def)
  with ms hs show ?thesis unfolding reorder_file_def Let_def
    by (intro exI [of _ ms] exI [of _ hs]) (simp add: arrays_ok_def)
qed

lemma swap_head:
  assumes "k < length R"
  shows "\<exists>S. (D @ R)[length D + k := (D @ R) ! length D, length D := (D @ R) ! (length D + k)] = D @ R ! k # S \<and> mset (R ! k # S) = mset R"
proof -
  let ?S = "List.tl (R[k := R ! 0, 0 := R ! k])"
  have ne: "R \<noteq> []" using assms by auto
  then have h: "R[k := R ! 0, 0 := R ! k] = R ! k # ?S" by (cases R; cases k) auto
  have "mset (R[k := R ! 0, 0 := R ! k]) = mset R" using assms ne by (intro mset_swap) auto
  moreover have "(D @ R)[length D + k := (D @ R) ! length D, length D := (D @ R) ! (length D + k)] = D @ R[k := R ! 0, 0 := R ! k]"
    using ne by (simp add: nth_append list_update_append)
  moreover from h have "mset (R ! k # ?S) = mset (R[k := R ! 0, 0 := R ! k])" by metis
  ultimately show ?thesis using h by (intro exI [of _ ?S]) simp
qed

lemma reorder_head:
  assumes "arrays_ok fs" "fs_files fs = D @ R" "k < length R"
  shows "\<exists>S ms hs. reorder_file (length D + k) (length D) fs = Some (fs\<lparr>fs_files := D @ R ! k # S, fs_mtime := ms, fs_file_hashes := hs\<rparr>) \<and>
     arrays_ok (fs\<lparr>fs_files := D @ R ! k # S, fs_mtime := ms, fs_file_hashes := hs\<rparr>) \<and> mset (R ! k # S) = mset R"
proof -
  obtain S where S: "(D @ R)[length D + k := (D @ R) ! length D, length D := (D @ R) ! (length D + k)] = D @ R ! k # S"
      "mset (R ! k # S) = mset R" using swap_head [OF assms(3)] by blast
  have "length D + k < length (fs_files fs)" "length D < length (fs_files fs)" using assms(2,3) by auto
  from reorder_ok [OF assms(1) this] show ?thesis unfolding assms(2) S(1) using S(2) by blast
qed

lemma largest_from_range:
  "best < i + length D' \<Longrightarrow> i \<le> best \<Longrightarrow> k + length es = i + length D' \<Longrightarrow> i \<le> k \<Longrightarrow>
   i \<le> largest_from al es k best bs \<and> largest_from al es k best bs < i + length D'"
  by (induction es arbitrary: k best bs) auto

lemma largest_fitting_range:
  assumes "largest_fitting ps es j best = Some r" "\<And>b s. best = Some (b, s) \<Longrightarrow> b < j \<and> j0 \<le> b \<and> b - j0 < length W \<and> fe_size (W ! (b - j0)) \<le> ps"
    "W = V @ es" "j = j0 + length V"
  shows "j0 \<le> r \<and> r - j0 < length W \<and> fe_size (W ! (r - j0)) \<le> ps"
  using assms
proof (induction es arbitrary: j best V)
  case (Cons e es)
  let ?take = "case best of None \<Rightarrow> True | Some (b, s) \<Rightarrow> fe_size e > s"
  have W: "W = (V @ [e]) @ es" "j + 1 = j0 + length (V @ [e])" using Cons.prems(3,4) by auto
  have we: "W ! (j - j0) = e" "j - j0 < length W" using Cons.prems(3,4) by (auto simp: nth_append)
  show ?case
  proof (cases "fe_size e > ps \<or> \<not> ?take")
    case True
    then have "largest_fitting ps es (j + 1) best = Some r" using Cons.prems(1) by (auto split: if_splits)
    then show ?thesis using Cons.IH [OF _ _ W] Cons.prems(2) by fastforce
  next
    case False
    then have "largest_fitting ps es (j + 1) (Some (j, fe_size e)) = Some r" using Cons.prems(1) by auto
    then show ?thesis using Cons.IH [OF _ _ W, of "Some (j, fe_size e)"] False we Cons.prems(4) by auto
  qed
qed auto

lemma add_pad_ok:
  assumes "arrays_ok fs" "fs_files fs = D @ R"
  shows "\<exists>S ms hs. add_pad_file sz (length D) off c fs = Some (fs\<lparr>fs_files := D @ pad_entry sz off c # S, fs_mtime := ms, fs_file_hashes := hs\<rparr>) \<and>
     arrays_ok (fs\<lparr>fs_files := D @ pad_entry sz off c # S, fs_mtime := ms, fs_file_hashes := hs\<rparr>) \<and> mset S = mset R"
proof -
  let ?p = "pad_entry sz off c" and ?n = "Suc (length (fs_files fs))"
  let ?ms = "if fs_mtime fs \<noteq> [] then resize_to ?n 0 (fs_mtime fs) else fs_mtime fs"
  let ?hs = "if fs_file_hashes fs \<noteq> [] then resize_to ?n 0 (fs_file_hashes fs) else fs_file_hashes fs"
  let ?fs = "fs\<lparr>fs_files := D @ (R @ [?p]), fs_mtime := ?ms, fs_file_hashes := ?hs\<rparr>"
  have ok: "arrays_ok ?fs" using assms by (auto simp: arrays_ok_def resize_to_def)
  have e: "add_pad_file sz (length D) off c fs = (if R \<noteq> [] then reorder_file (length D + length R) (length D) ?fs else Some ?fs)"
    using assms(2) by (cases fs) (simp add: add_pad_file_def Let_def)
  show ?thesis
  proof (cases "R = []")
    case True
    then show ?thesis using e ok by (intro exI [of _ "[]"] exI [of _ ?ms] exI [of _ ?hs]) simp
  next
    case False
    obtain S ms hs where S: "reorder_file (length D + length R) (length D) ?fs =
        Some (?fs\<lparr>fs_files := D @ ?p # S, fs_mtime := ms, fs_file_hashes := hs\<rparr>)"
        "arrays_ok (?fs\<lparr>fs_files := D @ ?p # S, fs_mtime := ms, fs_file_hashes := hs\<rparr>)" "mset (?p # S) = mset (R @ [?p])"
      using reorder_head [OF ok, of D "R @ [?p]" "length R"] by (auto simp: nth_append)
    have "mset S = mset R" using S(3) by simp
    then show ?thesis using e S(1,2) False by (intro exI [of _ S] exI [of _ ms] exI [of _ hs]) simp
  qed
qed

definition aligned_file :: "int \<Rightarrow> int \<Rightarrow> file_entry \<Rightarrow> bool" where
  "aligned_file lim al e \<longleftrightarrow> fe_pad_file e \<or> lim < 0 \<or> fe_size e \<le> lim \<or> fe_offset e mod al = 0"

definition round_inv :: "int \<Rightarrow> int \<Rightarrow> file_entry list \<Rightarrow> file_entry list \<Rightarrow> int \<Rightarrow> file_storage \<Rightarrow> bool" where
  "round_inv lim al D R off fs \<longleftrightarrow> fs_files fs = D @ R \<and> contiguous 0 D \<and> off = bytes_of D \<and> arrays_ok fs \<and>
     list_all (aligned_file lim al) D \<and> (\<forall>e\<in>set R. 0 \<le> fe_size e)"

definition work :: "int \<Rightarrow> file_entry list \<Rightarrow> file_entry list \<Rightarrow> nat" where
  "work al D R = 2 * length R + (if bytes_of D mod al \<noteq> 0 then 1 else 0)"

definition budget :: "int \<Rightarrow> file_entry list \<Rightarrow> file_entry list \<Rightarrow> int" where
  "budget al D R = bytes_of (D @ R) + al * int (work al D R)"

text \<open>What a round does: progress, the byte budget, and the files up to their offsets and new pad files.\<close>

definition round_rel ::
    "int \<Rightarrow> int \<Rightarrow> file_entry list \<Rightarrow> file_entry list \<Rightarrow> file_entry list \<Rightarrow> file_entry list \<Rightarrow> bool" where
  "round_rel lim al D R D' R' \<longleftrightarrow> budget al D' R' \<le> budget al D R \<and>
     (\<exists>pads. mset (map strip (D' @ R')) = mset (map strip (D @ R)) + mset (map strip pads) \<and> list_all fe_pad_file pads)"

lemma round_rel_trans: "round_rel lim al D R D' R' \<Longrightarrow> round_rel lim al D' R' D'' R'' \<Longrightarrow> round_rel lim al D R D'' R''"
  unfolding round_rel_def by (elim conjE exE, intro conjI, linarith) (rule exI [of _ "_ @ _"], auto)

lemma pad_gap:
  fixes off al :: int
  assumes "0 < al" "off mod al \<noteq> 0"
  shows "0 < al - off mod al" "al - off mod al < al" "(off + (al - off mod al)) mod al = 0"
proof -
  have "0 \<le> off mod al" "off mod al < al" using assms(1) by simp_all
  then show "0 < al - off mod al" "al - off mod al < al" using assms(2) by linarith+
  have "off + (al - off mod al) = al * (off div al + 1)" by (simp add: algebra_simps minus_mod_eq_mult_div [symmetric])
  then show "(off + (al - off mod al)) mod al = 0" by simp
qed

lemma pad_round:
  assumes "round_inv lim al D R off fs" "0 < al" "off mod al \<noteq> 0" "budget al D R < 2 ^ 48"
  shows "\<exists>S ms hs. add_pad_file (al - off mod al) (length D) off c fs =
      Some (fs\<lparr>fs_files := (D @ [pad_entry (al - off mod al) off c]) @ S, fs_mtime := ms, fs_file_hashes := hs\<rparr>) \<and>
    round_inv lim al (D @ [pad_entry (al - off mod al) off c]) S (off + (al - off mod al))
      (fs\<lparr>fs_files := (D @ [pad_entry (al - off mod al) off c]) @ S, fs_mtime := ms, fs_file_hashes := hs\<rparr>) \<and>
    work al (D @ [pad_entry (al - off mod al) off c]) S < work al D R \<and>
    round_rel lim al D R (D @ [pad_entry (al - off mod al) off c]) S"
proof -
  let ?n = "al - off mod al" let ?p = "pad_entry ?n off c"
  have inv: "fs_files fs = D @ R" "contiguous 0 D" "off = bytes_of D" "arrays_ok fs" "list_all (aligned_file lim al) D"
      "\<forall>e\<in>set R. 0 \<le> fe_size e" using assms(1) by (auto simp: round_inv_def)
  note g = pad_gap [OF assms(2,3)]
  have bR: "0 \<le> bytes_of R" using inv(6) by (induction R) (auto simp: bytes_of_def)
  have bD: "0 \<le> bytes_of D" by (rule contiguous_nonneg [OF inv(2)])
  have w: "work al D R = 2 * length R + 1" using assms(3) inv(3) by (simp add: work_def)
  have "al * 1 \<le> al * int (work al D R)" using w assms(2) by (intro mult_left_mono) auto
  then have lt: "bytes_of D + al < 2 ^ 48" using assms(4) bR by (simp add: budget_def)
  then have p: "fe_size ?p = ?n" "fe_offset ?p = off" "fe_pad_file ?p"
    using g bD inv(3) by (auto simp: pad_entry_def take_bit_eq_mod)
  obtain S ms hs where S: "add_pad_file ?n (length D) off c fs = Some (fs\<lparr>fs_files := D @ ?p # S, fs_mtime := ms, fs_file_hashes := hs\<rparr>)"
      "arrays_ok (fs\<lparr>fs_files := D @ ?p # S, fs_mtime := ms, fs_file_hashes := hs\<rparr>)" "mset S = mset R"
    using add_pad_ok [OF inv(4,1)] by blast
  have SR: "set S = set R" "length S = length R" "bytes_of S = bytes_of R" using S(3) 
    by (metis set_mset_mset, metis size_mset, metis bytes_of_def mset_map sum_mset_sum_list)
  have w': "work al (D @ [?p]) S = 2 * length R" using g(3) inv(3) p SR(2) by (simp add: work_def)
  have "budget al (D @ [?p]) S \<le> budget al D R" using w w' p g SR(3) by (simp add: budget_def algebra_simps)
  moreover have "mset (map strip ((D @ [?p]) @ S)) = mset (map strip (D @ R)) + mset (map strip [?p])" using S(3) by simp
  ultimately have "round_rel lim al D R (D @ [?p]) S" unfolding round_rel_def using p(3) by (intro conjI exI [of _ "[?p]"]) auto
  moreover have "round_inv lim al (D @ [?p]) S (off + ?n) (fs\<lparr>fs_files := (D @ [?p]) @ S, fs_mtime := ms, fs_file_hashes := hs\<rparr>)"
    using inv S(2) p g SR(1) by (auto simp: round_inv_def contiguous_append aligned_file_def)
  ultimately show ?thesis using S(1) w w' by (intro exI [of _ S] exI [of _ ms] exI [of _ hs]) simp
qed

lemma place_round:
  assumes "fs_files fs = D @ x # S" "contiguous 0 D" "off = bytes_of D" "arrays_ok fs" "list_all (aligned_file lim al) D"
    "\<forall>e\<in>set (x # S). 0 \<le> fe_size e" "aligned_file lim al (x\<lparr>fe_offset := off\<rparr>)" "mset (x # S) = mset R" "0 < al" "budget al D R < 2 ^ 48"
  shows "place (length D) off fs = (off + fe_size x, fs\<lparr>fs_files := (D @ [x\<lparr>fe_offset := off\<rparr>]) @ S\<rparr>)"
    "round_inv lim al (D @ [x\<lparr>fe_offset := off\<rparr>]) S (off + fe_size x) (fs\<lparr>fs_files := (D @ [x\<lparr>fe_offset := off\<rparr>]) @ S\<rparr>)"
    "work al (D @ [x\<lparr>fe_offset := off\<rparr>]) S < work al D R" "round_rel lim al D R (D @ [x\<lparr>fe_offset := off\<rparr>]) S"
proof -
  let ?x = "x\<lparr>fe_offset := off\<rparr>"
  have bD: "0 \<le> bytes_of D" by (rule contiguous_nonneg [OF assms(2)])
  have "mset (map fe_size (x # S)) = mset (map fe_size R)" using assms(8) by (metis mset_map)
  then have bR: "fe_size x + bytes_of S = bytes_of R" by (metis bytes_of_def list.simps(9) sum_list.Cons sum_mset_sum_list)
  have bS: "0 \<le> bytes_of S" using assms(6) by (induction S) (auto simp: bytes_of_def)
  have lR: "length R = Suc (length S)" using assms(8) by (metis length_Cons size_mset)
  have w: "work al (D @ [?x]) S < work al D R" using lR by (simp add: work_def)
  have "al * int (work al (D @ [?x]) S) \<le> al * int (work al D R)" using w assms(9) by (intro mult_left_mono) auto
  then have bud: "budget al (D @ [?x]) S \<le> budget al D R" using bR by (simp add: budget_def)
  have "0 \<le> al * int (work al D R)" using assms(9) by simp
  then have "bytes_of D < 2 ^ 48" using assms(10) bR bS assms(6) by (simp add: budget_def)
  then have t: "take_bit 48 off = off" using bD assms(3) by (simp add: take_bit_eq_mod)
  show "place (length D) off fs = (off + fe_size x, fs\<lparr>fs_files := (D @ [?x]) @ S\<rparr>)"
    using assms(1) t by (simp add: place_def nth_append list_update_append)
  show "round_inv lim al (D @ [?x]) S (off + fe_size x) (fs\<lparr>fs_files := (D @ [?x]) @ S\<rparr>)"
    using assms by (auto simp: round_inv_def contiguous_append arrays_ok_def)
  show "work al (D @ [?x]) S < work al D R" by (rule w)
  have "mset (map strip ((D @ [?x]) @ S)) = mset (map strip D) + mset (map strip (x # S))" by simp
  also have "\<dots> = mset (map strip (D @ R))" using assms(8) by (metis map_append mset_append mset_map)
  finally show "round_rel lim al D R (D @ [?x]) S" unfolding round_rel_def using bud by (intro conjI exI [of _ "[]"]) auto
qed

lemma round_rel_refl: "round_rel lim al D R D R"
  unfolding round_rel_def by (intro conjI exI [of _ "[]"]) auto

lemma tail_round:
  assumes "round_inv lim al D R off fs" "0 < al" "length D = Suc i" "budget al D R < 2 ^ 48"
  shows "\<exists>D' R' off' pf' fs'. tail_step lim al tp i off pf fs = Some (length D', off', pf', fs') \<and> round_inv lim al D' R' off' fs' \<and>
    work al D' R' \<le> work al D R \<and> round_rel lim al D R D' R'"
proof (cases "tp \<and> fe_size (fs_files fs ! i) > take_bit 32 lim \<and> off mod al \<noteq> 0")
  case True
  let ?p = "pad_entry (al - off mod al) off pf"
  obtain S ms hs where S: "add_pad_file (al - off mod al) (length D) off pf fs =
        Some (fs\<lparr>fs_files := (D @ [?p]) @ S, fs_mtime := ms, fs_file_hashes := hs\<rparr>)"
      "round_inv lim al (D @ [?p]) S (off + (al - off mod al)) (fs\<lparr>fs_files := (D @ [?p]) @ S, fs_mtime := ms, fs_file_hashes := hs\<rparr>)"
      "work al (D @ [?p]) S < work al D R" "round_rel lim al D R (D @ [?p]) S"
    using pad_round [OF assms(1,2) _ assms(4)] True by blast
  have "tail_step lim al tp i off pf fs =
      Some (length (D @ [?p]), off + (al - off mod al), pf + 1, fs\<lparr>fs_files := (D @ [?p]) @ S, fs_mtime := ms, fs_file_hashes := hs\<rparr>)"
    using True S(1) assms(3) by (simp add: tail_step_def Let_def)
  then show ?thesis using S(2-4) less_imp_le by blast
next
  case False
  then have "tail_step lim al tp i off pf fs = Some (length D, off, pf, fs)" using assms(3) by (auto simp: tail_step_def)
  then show ?thesis using assms(1) round_rel_refl by blast
qed

text \<open>A round that places the file at position \<open>k\<close> of the rest and, if it does not skip it, ends with the tail.\<close>

lemma placed_round:
  assumes "round_inv lim al D R off fs" "0 < al" "budget al D R < 2 ^ 48" "k < length R" "aligned_file lim al ((R ! k)\<lparr>fe_offset := off\<rparr>)"
    "fs' = (if k = 0 then fs else the (reorder_file (length D + k) (length D) fs))" "place (length D) off fs' = (off', fs'')"
  shows "k \<noteq> 0 \<longrightarrow> reorder_file (length D + k) (length D) fs = Some fs'"
    "\<exists>S. round_inv lim al (D @ [(R ! k)\<lparr>fe_offset := off\<rparr>]) S off' fs'' \<and> work al (D @ [(R ! k)\<lparr>fe_offset := off\<rparr>]) S < work al D R \<and>
      round_rel lim al D R (D @ [(R ! k)\<lparr>fe_offset := off\<rparr>]) S"
proof -
  have inv: "fs_files fs = D @ R" "contiguous 0 D" "off = bytes_of D" "arrays_ok fs" "list_all (aligned_file lim al) D"
      "\<forall>e\<in>set R. 0 \<le> fe_size e" using assms(1) by (auto simp: round_inv_def)
  have "\<exists>S. fs_files fs' = D @ R ! k # S \<and> arrays_ok fs' \<and> mset (R ! k # S) = mset R \<and>
      (k \<noteq> 0 \<longrightarrow> reorder_file (length D + k) (length D) fs = Some fs')"
  proof (cases "k = 0")
    case True
    then show ?thesis using inv assms(4,6) by (cases R) auto
  next
    case False
    then show ?thesis using reorder_head [OF inv(4,1) assms(4)] assms(6) by fastforce
  qed
  then obtain S where S: "fs_files fs' = D @ R ! k # S" "arrays_ok fs'" "mset (R ! k # S) = mset R"
      "k \<noteq> 0 \<longrightarrow> reorder_file (length D + k) (length D) fs = Some fs'" by blast
  have sz: "\<forall>e\<in>set (R ! k # S). 0 \<le> fe_size e" using inv(6) S(3) by (metis set_mset_mset)
  note P = place_round [OF S(1) inv(2,3) S(2) inv(5) sz assms(5) S(3) assms(2,3)]
  show "k \<noteq> 0 \<longrightarrow> reorder_file (length D + k) (length D) fs = Some fs'" by (rule S(4))
  show "\<exists>S. round_inv lim al (D @ [(R ! k)\<lparr>fe_offset := off\<rparr>]) S off' fs'' \<and> work al (D @ [(R ! k)\<lparr>fe_offset := off\<rparr>]) S < work al D R \<and>
      round_rel lim al D R (D @ [(R ! k)\<lparr>fe_offset := off\<rparr>]) S"
    using P assms(7) by (intro exI [of _ S]) auto
qed

lemma optimize_round:
  assumes "round_inv lim al D R off fs" "R \<noteq> []" "0 < al" "budget al D R < 2 ^ 48" "lim \<le> 0 \<or> al \<le> lim" "lim < 2 ^ 31"
  shows "\<exists>D' R' off' pf' fs'. optimize_step lim al tp (length D) off pf fs = Some (length D', off', pf', fs') \<and>
    round_inv lim al D' R' off' fs' \<and> work al D' R' < work al D R \<and> round_rel lim al D R D' R'"
proof -
  have files: "fs_files fs = D @ R" using assms(1) by (simp add: round_inv_def)
  let ?e = "R ! 0"
  have e: "fs_files fs ! length D = ?e" using files assms(2) by (simp add: nth_append)
  have tail: ?thesis
    if h: "k < length R" "aligned_file lim al ((R ! k)\<lparr>fe_offset := off\<rparr>)" "fs' = (if k = 0 then fs else the (reorder_file (length D + k) (length D) fs))"
      "place (length D) off fs' = (off', fs'')"
      "optimize_step lim al tp (length D) off pf fs = tail_step lim al tp (length D) off' pf fs''" for k fs' off' fs''
  proof -
    let ?D = "D @ [(R ! k)\<lparr>fe_offset := off\<rparr>]"
    obtain S where S: "round_inv lim al ?D S off' fs''" "work al ?D S < work al D R" "round_rel lim al D R ?D S"
      using placed_round(2) [OF assms(1,3,4) h(1-4)] by blast
    have b: "budget al ?D S < 2 ^ 48" using S(3) assms(4) by (auto simp: round_rel_def)
    obtain D' R' o2 pf' fs2 where T: "tail_step lim al tp (length D) off' pf fs'' = Some (length D', o2, pf', fs2)"
        "round_inv lim al D' R' o2 fs2" "work al D' R' \<le> work al ?D S" "round_rel lim al ?D S D' R'"
      using tail_round [OF S(1) assms(3) _ b, of "length D" tp pf] by auto
    then show ?thesis using h(5) S(2) round_rel_trans [OF S(3) T(4)] by (intro exI [of _ D'] exI [of _ R']) auto
  qed
  consider "off mod al = 0" | "off mod al \<noteq> 0" "lim \<ge> 0 \<and> fe_size ?e > take_bit 32 lim \<and> \<not> fe_pad_file ?e"
    | "off mod al \<noteq> 0" "\<not> (lim \<ge> 0 \<and> fe_size ?e > take_bit 32 lim \<and> \<not> fe_pad_file ?e)" by blast
  then show ?thesis
  proof cases
    case 1
    let ?b = "largest_from al R (length D) (length D) (fe_size ?e)" let ?k = "?b - length D"
    have b: "length D \<le> ?b" "?b < length D + length R"
      using largest_from_range [of "length D" "length D" R "length D" R al "fe_size ?e"] assms(2) by auto
    then have k: "?k < length R" "?b = length D + ?k" by auto
    let ?fs' = "if ?k = 0 then fs else the (reorder_file (length D + ?k) (length D) fs)"
    obtain off' fs'' where pl: "place (length D) off ?fs' = (off', fs'')" by fastforce
    have al: "aligned_file lim al ((R ! ?k)\<lparr>fe_offset := off\<rparr>)" using 1 by (simp add: aligned_file_def)
    have mv: "move_to ?b (length D) fs = Some ?fs'"
      using placed_round(1) [OF assms(1,3,4) k(1) al refl pl] k(2) unfolding move_to_def by (cases "?k = 0") auto
    have "optimize_step lim al tp (length D) off pf fs = tail_step lim al tp (length D) off' pf fs''"
      using 1 mv pl e files by (simp add: optimize_step_def Let_def)
    then show ?thesis by (rule tail [OF k(1) al refl pl])
  next
    case 2
    let ?ps = "al - off mod al"
    let ?best = "if lim > 0 then largest_fitting ?ps (drop (Suc 0) R) (Suc (length D)) None else None"
    show ?thesis
    proof (cases ?best)
      case None
      let ?p = "pad_entry ?ps off pf"
      obtain S ms hs where S: "add_pad_file ?ps (length D) off pf fs =
            Some (fs\<lparr>fs_files := (D @ [?p]) @ S, fs_mtime := ms, fs_file_hashes := hs\<rparr>)"
          "round_inv lim al (D @ [?p]) S (off + ?ps) (fs\<lparr>fs_files := (D @ [?p]) @ S, fs_mtime := ms, fs_file_hashes := hs\<rparr>)"
          "work al (D @ [?p]) S < work al D R" "round_rel lim al D R (D @ [?p]) S"
        using pad_round [OF assms(1,3) 2(1) assms(4)] by blast
      have "optimize_step lim al tp (length D) off pf fs =
          Some (length (D @ [?p]), off + ?ps, pf + 1, fs\<lparr>fs_files := (D @ [?p]) @ S, fs_mtime := ms, fs_file_hashes := hs\<rparr>)"
        using 2 None S(1) e files by (auto simp: optimize_step_def Let_def split: if_splits)
      then show ?thesis using S(2-4) by blast
    next
      case (Some r)
      then have lim: "0 < lim" and fit: "largest_fitting ?ps (drop (Suc 0) R) (Suc (length D)) None = Some r" by (auto split: if_splits)
      have "R = [?e] @ drop (Suc 0) R" using assms(2) by (cases R) auto
      then have "length D \<le> r \<and> r - length D < length R \<and> fe_size (R ! (r - length D)) \<le> ?ps"
        by (intro largest_fitting_range [OF fit, of "length D" R "[?e]"]) simp_all
      then have r: "length D \<le> r" "r - length D < length R" "fe_size (R ! (r - length D)) \<le> ?ps" by blast+
      let ?k = "r - length D"
      have al: "aligned_file lim al ((R ! ?k)\<lparr>fe_offset := off\<rparr>)"
        using r(3) pad_gap(2) [OF assms(3) 2(1)] assms(5) lim by (simp add: aligned_file_def)
      have k0: "?k \<noteq> 0"
      proof
        assume "?k = 0"
        then have "fe_size ?e \<le> ?ps" using r(3) by simp
        moreover have "take_bit 32 lim = lim" using lim assms(6) by (simp add: take_bit_eq_mod)
        ultimately show False using 2(2) pad_gap(2) [OF assms(3) 2(1)] assms(5) lim by linarith
      qed
      let ?fs' = "if ?k = 0 then fs else the (reorder_file (length D + ?k) (length D) fs)"
      obtain off' fs'' where pl: "place (length D) off ?fs' = (off', fs'')" by fastforce
      have ro: "reorder_file r (length D) fs = Some ?fs'"
        using placed_round(1) [OF assms(1,3,4) r(2) al refl pl] k0 r(1) by simp
      have "optimize_step lim al tp (length D) off pf fs = Some (Suc (length D), off', pf, fs'')"
        using 2 Some ro pl e files by (auto simp: optimize_step_def Let_def split: if_splits)
      then have "optimize_step lim al tp (length D) off pf fs = Some (length (D @ [(R ! ?k)\<lparr>fe_offset := off\<rparr>]), off', pf, fs'')" by simp
      then show ?thesis using placed_round(2) [OF assms(1,3,4) r(2) al refl pl] by blast
    qed
  next
    case 3
    obtain off' fs'' where pl: "place (length D) off fs = (off', fs'')" by fastforce
    have "lim < 0 \<or> take_bit 32 lim = lim" using assms(6) by (cases "lim < 0") (simp_all add: take_bit_eq_mod)
    then have al: "aligned_file lim al ((R ! 0)\<lparr>fe_offset := off\<rparr>)" using 3(2) by (auto simp: aligned_file_def)
    have "optimize_step lim al tp (length D) off pf fs = tail_step lim al tp (length D) off' pf fs''"
      using 3 pl e by (auto simp: optimize_step_def Let_def)
    then show ?thesis using assms(2) pl by (intro tail [of 0 fs off' fs'']) (use al in auto)
  qed
qed

lemma optimize_loop_spec:
  assumes "round_inv lim al D R off fs" "0 < al" "budget al D R < 2 ^ 48" "lim \<le> 0 \<or> al \<le> lim" "lim < 2 ^ 31"
  shows "\<exists>F off' fs'. optimize_loop lim al tp (length D) off pf fs = Some (off', fs') \<and> round_inv lim al F [] off' fs' \<and> round_rel lim al D R F []"
  using assms
proof (induction "work al D R" arbitrary: D R off pf fs rule: less_induct)
  case less
  have files: "fs_files fs = D @ R" using less.prems(1) by (simp add: round_inv_def)
  show ?case
  proof (cases "R = []")
    case True
    then have "optimize_loop lim al tp (length D) off pf fs = Some (off, fs)" using files by (subst optimize_loop.simps) simp
    then show ?thesis using True less.prems(1) round_rel_refl by blast
  next
    case False
    obtain D' R' off' pf' fs' where S: "optimize_step lim al tp (length D) off pf fs = Some (length D', off', pf', fs')"
        "round_inv lim al D' R' off' fs'" "work al D' R' < work al D R" "round_rel lim al D R D' R'"
      using optimize_round [OF less.prems(1) False less.prems(2-5)] by blast
    have "budget al D' R' < 2 ^ 48" using S(4) less.prems(3) by (auto simp: round_rel_def)
    from less.hyps [OF S(3,2) less.prems(2) this less.prems(4,5), of pf'] obtain F o2 fs2 where F:
      "optimize_loop lim al tp (length D') off' pf' fs' = Some (o2, fs2)" "round_inv lim al F [] o2 fs2" "round_rel lim al D' R' F []" by blast
    have "optimize_loop lim al tp (length D) off pf fs = optimize_loop lim al tp (length D') off' pf' fs'"
      using S(1) files False by (subst optimize_loop.simps) simp
    with F round_rel_trans [OF S(4) F(3)] show ?thesis by (intro exI [of _ F] exI [of _ o2] exI [of _ fs2]) simp
  qed
qed

section \<open>Properties of the file map\<close>

definition example_file :: "int \<Rightarrow> int \<Rightarrow> file_entry" where
  "example_file n off = \<lparr>fe_name = Named ''f'', fe_size = n, fe_offset = off, fe_pad_file = False, fe_hidden = False,
     fe_executable = False, fe_symlink = False\<rparr>"

definition example_fs :: file_storage where
  "example_fs = \<lparr>fs_files = [example_file 10 0, example_file 0 10, example_file 23 10, example_file 7 33], fs_mtime = [1, 0, 2, 3],
     fs_file_hashes = [], fs_piece_length = 16, fs_num_pieces = 3, fs_total_size = 40\<rparr>"

lemma example_fs_ok: "fs_ok example_fs" "fs_files example_fs \<noteq> []"
  by (simp_all add: fs_ok_def example_fs_def example_file_def bytes_of_def)

text \<open>
  C18: \<open>map_block\<close> covers exactly the block. For a storage of contiguous files and a block that
  starts inside the torrent, the slices are non-empty, each lies within its file, and the bytes
  they cover, in order, are the bytes of the block, cut at the end of the torrent; no file is
  read past the last one.
\<close>

theorem map_block_exact:
  assumes "fs_ok fs" "fs_files fs \<noteq> []" "t = piece * fs_piece_length fs + off" "0 \<le> t" "0 \<le> sz" "t < fs_total_size fs"
  shows "\<exists>sl. map_block piece off sz fs = Some sl \<and> list_all (slice_ok (fs_files fs)) sl \<and>
    concat (map (slice_bytes (fs_files fs)) sl) = [t .. t + min sz (fs_total_size fs - t) - 1]"
  using map_block_spec [OF assms] by blast

theorem map_block_exact_witness:
  "\<exists>sl. map_block 0 8 16 example_fs = Some sl \<and> list_all (slice_ok (fs_files example_fs)) sl \<and>
    concat (map (slice_bytes (fs_files example_fs)) sl) = [8..23]"
  using map_block_exact [OF example_fs_ok, of 8 0 8 16] by (simp add: example_fs_def)



text \<open>
  C19: \<open>optimize\<close> returns, and only reorders and pads. When the arrays beside the files are empty
  or complete and the padded size stays below 48 bits, the loop ends; the files are contiguous and
  the total is their size; apart from offsets they are the old files with pad files added; and
  unless the limit lies strictly between zero and the alignment, every file above the limit
  starts at an aligned offset.
\<close>

theorem optimize_exact:
  assumes "arrays_ok fs" "list_all (\<lambda>e. 0 \<le> fe_size e) (fs_files fs)" "0 < alignment" "lim \<le> 0 \<or> alignment \<le> lim" "lim < 2 ^ 31"
    "bytes_of (fs_files fs) + alignment * (2 * int (length (fs_files fs))) < 2 ^ 48"
  shows "\<exists>fs' pads. optimize lim alignment tail_padding fs = Some fs' \<and> contiguous 0 (fs_files fs') \<and>
    fs_total_size fs' = bytes_of (fs_files fs') \<and> list_all fe_pad_file pads \<and>
    mset (map strip (fs_files fs')) = mset (map strip (fs_files fs)) + mset (map strip pads) \<and>
    list_all (aligned_file lim alignment) (fs_files fs')"
proof -
  have i: "round_inv lim alignment [] (fs_files fs) 0 fs" using assms(1,2) by (simp add: round_inv_def list_all_iff)
  have "budget alignment [] (fs_files fs) < 2 ^ 48" using assms(6) by (simp add: budget_def work_def)
  from optimize_loop_spec [OF i assms(3) this assms(4,5), of tail_padding 0] obtain F off' fs' where
    L: "optimize_loop lim alignment tail_padding 0 0 0 fs = Some (off', fs')" "round_inv lim alignment F [] off' fs'"
      "round_rel lim alignment [] (fs_files fs) F []" by auto
  obtain pads where "mset (map strip F) = mset (map strip (fs_files fs)) + mset (map strip pads)" "list_all fe_pad_file pads"
    using L(3) by (auto simp: round_rel_def)
  moreover have "optimize lim alignment tail_padding fs = Some (fs'\<lparr>fs_total_size := off'\<rparr>)"
    using L(1) assms(3) by (simp add: optimize_def)
  ultimately show ?thesis using L(2) by (intro exI [of _ "fs'\<lparr>fs_total_size := off'\<rparr>"] exI [of _ pads]) (simp add: round_inv_def)
qed

theorem optimize_exact_witness:
  "\<exists>fs' pads. optimize 0 16 True example_fs = Some fs' \<and> contiguous 0 (fs_files fs') \<and> list_all fe_pad_file pads \<and>
    mset (map strip (fs_files fs')) = mset (map strip (fs_files example_fs)) + mset (map strip pads) \<and>
    list_all (aligned_file 0 16) (fs_files fs')"
proof -
  have "arrays_ok example_fs" "list_all (\<lambda>e. 0 \<le> fe_size e) (fs_files example_fs)"
    "bytes_of (fs_files example_fs) + 16 * (2 * int (length (fs_files example_fs))) < 2 ^ 48"
    by (simp_all add: arrays_ok_def example_fs_def example_file_def bytes_of_def)
  from optimize_exact [OF this(1,2) _ _ _ this(3), of 0 True] show ?thesis by auto
qed



end
