(* ===== verification/Spec2Isabelle.thy ===== *)
theory Spec2Isabelle
  imports Bitfield Bdecode_Correct Bdecode_Safety Picker_Properties Job_Fence Packet_Buffer Ip_Filter File_Storage
begin

text \<open>
  A verification library for the BitTorrent engine of PopcornTimeTV
  (\<^verbatim>\<open>src/Packages/PopcornTorrent\<close>).
\<close>

end
